(* ===== verification/Prelude.thy ===== *)
theory Prelude
  imports Main "HOL-Library.Monad_Syntax" "HOL-Library.Multiset"
begin

text \<open>
  Shared vocabulary of the development.

  Memory faults are values: an operation that may read or write outside an allocated block
  has an \<^typ>\<open>'a option\<close> result, and \<^term>\<open>None\<close> is the fault. A block of bytes is a
  \<^typ>\<open>char list\<close>; a C string is a block that ends with the byte \<open>NUL\<close>. A \<open>const gchar *\<close>
  that walks over a block is an index into it. The lemmas about reading a block are stated on
  the unread rest \<open>drop i s\<close>, so that proofs about parsers work on lists rather than on
  index arithmetic.
\<close>

named_theorems blk "reading a block through its unread rest"

abbreviation NUL :: char where "NUL \<equiv> CHR 0x00"
abbreviation TAB :: char where "TAB \<equiv> CHR 0x09"
abbreviation LF :: char where "LF \<equiv> CHR 0x0A"
abbreviation CR :: char where "CR \<equiv> CHR 0x0D"
abbreviation DQ :: char where "DQ \<equiv> CHR 0x22"
abbreviation SQ :: char where "SQ \<equiv> CHR 0x27"
abbreviation BSL :: char where "BSL \<equiv> CHR 0x5C"

type_synonym block = "char list"

text \<open>A C string constant or a \<open>gchar *\<close> with the given content.\<close>

definition cstr :: "string \<Rightarrow> block" where
  "cstr cs = cs @ [NUL]"

text \<open>A C string ends with the first \<open>NUL\<close>.\<close>

definition c_content :: "string \<Rightarrow> string" where
  "c_content = takeWhile (\<lambda>c. c \<noteq> NUL)"

text \<open>Reading one byte: \<open>s[i]\<close>, a fault outside the block.\<close>

definition rd :: "block \<Rightarrow> nat \<Rightarrow> char option" where
  "rd s i = (if i < length s then Some (s ! i) else None)"

lemma rd_Some_less: "rd s i = Some c \<Longrightarrow> i < length s"
  by (simp add: rd_def split: if_splits)

lemma rd_drop [blk]: "drop i s = c # r \<Longrightarrow> rd s i = Some c"
  by (metis drop_eq_Nil hd_drop_conv_nth leI list.distinct(1) list.sel(1) rd_def)

lemma rd_drop_None [blk]: "drop i s = [] \<Longrightarrow> rd s i = None"
  by (simp add: rd_def)

lemma drop_Suc_rest [blk]: "drop i s = c # r \<Longrightarrow> drop (Suc i) s = r"
  by (metis drop_Suc list.sel(3) tl_drop)

lemma drop_rest: "drop i s = xs @ r \<Longrightarrow> n = length xs \<Longrightarrow> drop (i + n) s = r"
  by (metis add.commute append_eq_conv_conj drop_drop)

lemma drop_rest_Suc:
  "drop i s = x # xs @ r \<Longrightarrow> n = length xs \<Longrightarrow> drop (Suc (i + n)) s = r"
  by (metis add_Suc drop_Suc_rest drop_rest)

lemma drop_not_Nil_less: "drop i s = c # r \<Longrightarrow> i < length s"
  by (metis drop_eq_Nil leI list.distinct(1))

text \<open>The bytes \<open>[i, j)\<close> of a block, as \<open>g_string_append_len (str, base, p - base)\<close> copies them.\<close>

definition slice :: "block \<Rightarrow> nat \<Rightarrow> nat \<Rightarrow> string" where
  "slice s i j = take (j - i) (drop i s)"

lemma slice_drop [blk]: "drop i s = xs @ r \<Longrightarrow> slice s i (i + length xs) = xs"
  by (simp add: slice_def)

lemma slice_same [simp]: "slice s i i = []"
  by (simp add: slice_def)

lemma slice_snoc: "i \<le> j \<Longrightarrow> drop j s = c # r \<Longrightarrow> slice s i (Suc j) = slice s i j @ [c]"
proof -
  assume "i \<le> j" and d: "drop j s = c # r"
  then have len: "j < length s" and c: "s ! j = c"
    using drop_not_Nil_less[OF d] rd_drop[OF d] by (auto simp: rd_def)
  have "take (Suc (j - i)) (drop i s) = take (j - i) (drop i s) @ [drop i s ! (j - i)]"
    using len \<open>i \<le> j\<close> by (intro take_Suc_conv_app_nth) simp
  then show ?thesis
    using len \<open>i \<le> j\<close> c by (simp add: slice_def Suc_diff_le)
qed

text \<open>\<open>g_strndup (s + i, n)\<close>: at most \<open>n\<close> bytes, and the copy ends at the first \<open>NUL\<close>.\<close>

definition strndup :: "block \<Rightarrow> nat \<Rightarrow> nat \<Rightarrow> string" where
  "strndup s i n = takeWhile (\<lambda>c. c \<noteq> NUL) (take n (drop i s))"

lemma strndup_drop [blk]:
  "drop i s = xs @ r \<Longrightarrow> NUL \<notin> set xs \<Longrightarrow> strndup s i (length xs) = xs"
  by (auto simp: strndup_def takeWhile_eq_all_conv)

text \<open>
  \<open>while (P (s[i])) i++\<close>: the index of the first byte that fails \<open>P\<close>; a fault when the block ends
  first.
\<close>

function skip_while :: "(char \<Rightarrow> bool) \<Rightarrow> block \<Rightarrow> nat \<Rightarrow> nat option" where
  "skip_while P s i = do { c \<leftarrow> rd s i; if P c then skip_while P s (Suc i) else Some i }"
  by pat_completeness auto
termination
  by (relation "measure (\<lambda>(P, s, i). length s - i)") (auto dest: rd_Some_less)

declare skip_while.simps [simp del]

lemma skip_while_rest [blk]:
  "drop i s = xs @ c # r \<Longrightarrow> \<forall>x\<in>set xs. P x \<Longrightarrow> \<not> P c \<Longrightarrow>
   skip_while P s i = Some (i + length xs)"
proof (induction xs arbitrary: i)
  case Nil
  then show ?case by (simp add: skip_while.simps[of P s i] rd_drop)
next
  case (Cons x xs)
  then have "drop i s = x # (xs @ c # r)" by simp
  with Cons.IH[OF drop_Suc_rest[OF this]] Cons.prems show ?case
    by (simp add: skip_while.simps[of P s i] rd_drop)
qed

lemma skip_while_stop: "drop i s = c # r \<Longrightarrow> \<not> P c \<Longrightarrow> skip_while P s i = Some i"
  by (simp add: skip_while.simps rd_drop)

lemma skip_while_ge: "skip_while P s i = Some j \<Longrightarrow> i \<le> j \<and> j < length s"
proof (induction P s i rule: skip_while.induct)
  case (1 P s i)
  then obtain c where c: "rd s i = Some c"
    by (auto simp: skip_while.simps[of P s i] split: Option.bind_splits)
  with 1 show ?case
    by (cases "P c") (force simp: skip_while.simps[of P s i] dest: rd_Some_less)+
qed

lemma skip_while_fault:
  "\<forall>x\<in>set (drop i s). P x \<Longrightarrow> skip_while P s i = None"
proof (induction P s i rule: skip_while.induct)
  case (1 P s i)
  show ?case
  proof (cases "drop i s")
    case Nil
    then show ?thesis by (simp add: skip_while.simps[of P s i] rd_drop_None)
  next
    case (Cons c r)
    with 1 show ?thesis
      by (simp add: skip_while.simps[of P s i] rd_drop[OF Cons] drop_Suc_rest[OF Cons])
  qed
qed

subsection \<open>Character classes\<close>

text \<open>The ASCII classes of GLib and of \<open>ctype.h\<close> in the C locale.\<close>

definition cc :: "char \<Rightarrow> nat" where "cc c = of_char c"

definition is_digit :: "char \<Rightarrow> bool" where
  "is_digit c \<longleftrightarrow> 48 \<le> cc c \<and> cc c \<le> 57"

definition is_odigit :: "char \<Rightarrow> bool" where
  "is_odigit c \<longleftrightarrow> 48 \<le> cc c \<and> cc c \<le> 55"

definition is_lower :: "char \<Rightarrow> bool" where
  "is_lower c \<longleftrightarrow> 97 \<le> cc c \<and> cc c \<le> 122"

definition is_upper :: "char \<Rightarrow> bool" where
  "is_upper c \<longleftrightarrow> 65 \<le> cc c \<and> cc c \<le> 90"

definition is_alpha :: "char \<Rightarrow> bool" where
  "is_alpha c \<longleftrightarrow> is_lower c \<or> is_upper c"

definition is_alnum :: "char \<Rightarrow> bool" where
  "is_alnum c \<longleftrightarrow> is_alpha c \<or> is_digit c"

definition is_xdigit :: "char \<Rightarrow> bool" where
  "is_xdigit c \<longleftrightarrow> is_digit c \<or> 65 \<le> cc c \<and> cc c \<le> 70 \<or> 97 \<le> cc c \<and> cc c \<le> 102"

definition xdigit_value :: "char \<Rightarrow> nat" where
  "xdigit_value c = (if is_digit c then cc c - 48
     else if 65 \<le> cc c \<and> cc c \<le> 70 then cc c - 55 else cc c - 87)"

text \<open>\<open>g_ascii_isspace\<close>: space, tab, line feed, form feed, carriage return (no vertical tab).\<close>

definition is_gspace :: "char \<Rightarrow> bool" where
  "is_gspace c \<longleftrightarrow> c \<in> {CHR 0x20, TAB, LF, CHR 0x0C, CR}"

text \<open>\<open>isspace\<close> of the C locale.\<close>

definition is_cspace :: "char \<Rightarrow> bool" where
  "is_cspace c \<longleftrightarrow> c \<in> {CHR 0x20, TAB, LF, CHR 0x0B, CHR 0x0C, CR}"

definition to_lower :: "char \<Rightarrow> char" where
  "to_lower c = (if is_upper c then char_of (cc c + 32) else c)"

text \<open>
  \<open>strchr (set, c) != NULL\<close>: the terminating \<open>NUL\<close> belongs to the string that is searched, so
  \<open>strchr (set, '\<zero>')\<close> finds it.
\<close>

definition strchr :: "string \<Rightarrow> char \<Rightarrow> bool" where
  "strchr cs c \<longleftrightarrow> c \<in> set (cstr cs)"

lemma strchr_NUL [simp]: "strchr cs NUL"
  by (simp add: strchr_def cstr_def)

lemmas char_class_defs =
  cc_def is_digit_def is_odigit_def is_lower_def is_upper_def is_alpha_def is_alnum_def
  is_xdigit_def is_gspace_def is_cspace_def strchr_def cstr_def

subsection \<open>Loops and arrays\<close>

text \<open>A loop over a list whose body changes a state and may fault.\<close>

primrec foldM :: "('a \<Rightarrow> 's \<Rightarrow> 's option) \<Rightarrow> 'a list \<Rightarrow> 's \<Rightarrow> 's option" where
  "foldM f [] s = Some s"
| "foldM f (x # xs) s = do { s \<leftarrow> f x s; foldM f xs s }"

lemma foldM_append: "foldM f (xs @ ys) s = do { s \<leftarrow> foldM f xs s; foldM f ys s }"
  by (induction xs arbitrary: s) simp_all

lemma foldM_inv:
  assumes "foldM f xs s = Some t" and "P s"
    and "\<And>x s t. x \<in> set xs \<Longrightarrow> P s \<Longrightarrow> f x s = Some t \<Longrightarrow> P t"
  shows "P t"
  using assms
proof (induction xs arbitrary: s)
  case (Cons x xs)
  then obtain u where "f x s = Some u" "foldM f xs u = Some t"
    by (auto simp: bind_eq_Some_conv)
  with Cons show ?case by (metis list.set_intros)
qed simp

text \<open>\<open>memmove (xs + dst, xs + src, n * size)\<close> inside one array.\<close>

definition memmove :: "'a list \<Rightarrow> nat \<Rightarrow> nat \<Rightarrow> nat \<Rightarrow> 'a list" where
  "memmove xs dst src n = take dst xs @ take n (drop src xs) @ drop (dst + n) xs"

text \<open>An element of an array at a C index; a fault outside.\<close>

definition nth_int :: "'a list \<Rightarrow> int \<Rightarrow> 'a option" where
  "nth_int xs i = (if 0 \<le> i \<and> i < int (length xs) then Some (xs ! nat i) else None)"

lemma nth_int_nat [simp]: "nth_int xs (int i) = (if i < length xs then Some (xs ! i) else None)"
  by (simp add: nth_int_def)

lemma nth_int_Some:
  "nth_int xs i = Some x \<longleftrightarrow> 0 \<le> i \<and> i < int (length xs) \<and> xs ! nat i = x"
  by (auto simp: nth_int_def)

subsection \<open>Comparison functions\<close>

text \<open>
  \<open>strcmp\<close>: the difference of the first bytes that differ, as unsigned characters; the end of a
  string counts as its \<open>NUL\<close>.
\<close>

fun strcmp :: "string \<Rightarrow> string \<Rightarrow> int" where
  "strcmp [] [] = 0"
| "strcmp [] (y # ys) = - int (cc y)"
| "strcmp (x # xs) [] = int (cc x)"
| "strcmp (x # xs) (y # ys) =
     (if x \<noteq> y then int (cc x) - int (cc y) else if x = NUL then 0 else strcmp xs ys)"

lemma cc_inject [simp]: "cc x = cc y \<longleftrightarrow> x = y"
  by (simp add: cc_def)

lemma strcmp_refl [simp]: "strcmp xs xs = 0"
  by (induction xs) auto

lemma strcmp_flip: "strcmp ys xs = - strcmp xs ys"
  by (induction xs ys rule: strcmp.induct) auto

lemma cc_NUL [simp]: "cc x = 0 \<longleftrightarrow> x = NUL"
  using cc_inject[of x NUL] by (simp add: cc_def del: cc_inject)

lemma cc_zero [simp]: "cc NUL = 0"
  by (simp add: cc_def)

lemma strcmp_trans:
  "strcmp xs ys \<le> 0 \<Longrightarrow> strcmp ys zs \<le> 0 \<Longrightarrow> strcmp xs zs \<le> 0"
proof (induction xs ys arbitrary: zs rule: strcmp.induct)
  case (2 y ys)
  then show ?case by (cases zs) auto
next
  case (3 x xs)
  then have "x = NUL" by simp
  then show ?case by (cases zs) auto
next
  case (4 x xs y ys)
  show ?case
  proof (cases zs)
    case Nil
    with 4 show ?thesis by (auto split: if_splits)
  next
    case (Cons z zs')
    have "cc x \<le> cc y" "cc y \<le> cc z" using 4(2,3) Cons by (auto split: if_splits)
    moreover have "strcmp xs zs' \<le> 0" if "x = z" "x \<noteq> NUL" "x = y"
      using 4 Cons that by simp
    ultimately show ?thesis
      using Cons cc_inject[of x z] by (cases "x = z") (simp_all del: cc_inject, metis antisym cc_inject)
  qed
qed simp_all

text \<open>
  The contract of a C comparison function on the values of a set: the sign of the result is a
  total preorder. Sorting and searching rely on it.
\<close>

locale comparator =
  fixes cmp :: "'a \<Rightarrow> 'a \<Rightarrow> int" and D :: "'a set"
  assumes flip: "x \<in> D \<Longrightarrow> y \<in> D \<Longrightarrow> sgn (cmp y x) = - sgn (cmp x y)"
    and trans: "x \<in> D \<Longrightarrow> y \<in> D \<Longrightarrow> z \<in> D \<Longrightarrow> cmp x y \<le> 0 \<Longrightarrow> cmp y z \<le> 0 \<Longrightarrow> cmp x z \<le> 0"
begin

lemma refl: "x \<in> D \<Longrightarrow> cmp x x = 0"
  using flip[of x x] by (simp add: sgn_if split: if_splits)

lemma le_flip: "x \<in> D \<Longrightarrow> y \<in> D \<Longrightarrow> cmp x y \<le> 0 \<longleftrightarrow> 0 \<le> cmp y x"
  using flip[of x y] by (auto simp: sgn_if split: if_splits)

lemma less_flip: "x \<in> D \<Longrightarrow> y \<in> D \<Longrightarrow> cmp x y < 0 \<longleftrightarrow> 0 < cmp y x"
  using flip[of x y] by (auto simp: sgn_if split: if_splits)

lemma total: "x \<in> D \<Longrightarrow> y \<in> D \<Longrightarrow> cmp x y \<le> 0 \<or> cmp y x \<le> 0"
  using le_flip[of x y] by linarith

lemma less_le_trans:
  "x \<in> D \<Longrightarrow> y \<in> D \<Longrightarrow> z \<in> D \<Longrightarrow> cmp x y < 0 \<Longrightarrow> cmp y z \<le> 0 \<Longrightarrow> cmp x z < 0"
  using trans[of y z x] le_flip[of z x] less_flip[of x y] by (auto simp: not_le not_less intro: ccontr)

lemma le_less_trans:
  "x \<in> D \<Longrightarrow> y \<in> D \<Longrightarrow> z \<in> D \<Longrightarrow> cmp x y \<le> 0 \<Longrightarrow> cmp y z < 0 \<Longrightarrow> cmp x z < 0"
  using trans[of z x y] le_flip[of z x] less_flip[of y z] by (auto simp: not_le not_less intro: ccontr)

text \<open>Swapping the arguments, as a descending order does.\<close>

lemma converse: "comparator (\<lambda>x y. cmp y x) D"
proof
  show "sgn (cmp x y) = - sgn (cmp y x)" if "x \<in> D" "y \<in> D" for x y
    using flip[of y x] that by simp
  show "cmp z x \<le> 0" if "x \<in> D" "y \<in> D" "z \<in> D" "cmp y x \<le> 0" "cmp z y \<le> 0" for x y z
    using trans[of z y x] that by simp
qed

end

end
