(* ===== verification/GdbMi.thy ===== *)
theory GdbMi
  imports Prelude
begin

text \<open>
  The GDB/MI record parser of the debugger plugin (\<open>debugger/src/gdb_mi.c\<close>): C-string
  constants with their escapes, names, results, values, records, and the lookups on a parsed
  record. The parser walks a pointer over a \<open>NUL\<close>-terminated line; here the line is a block and
  the pointer an index into it, and a read outside the block is the result \<^term>\<open>None\<close>.
\<close>

subsection \<open>Data\<close>

text \<open>
  \<open>struct gdb_mi_value\<close> and \<open>struct gdb_mi_result\<close>. The \<open>next\<close> links of results are the list;
  \<open>var\<close> is \<open>NULL\<close> (\<^term>\<open>None\<close>) for the items of a GDB/MI list that have no name.
\<close>

datatype mi_value = MiString string | MiList "mi_result list"
  and mi_result = MiResult (mi_var: "string option") (mi_val: mi_value)

text \<open>\<open>struct gdb_mi_record\<close>: \<open>type\<close> is the prefix character, \<open>NUL\<close> for a prompt.\<close>

record mi_record =
  rec_type :: char
  rec_token :: "string option"
  rec_klass :: "string option"
  rec_first :: "mi_result list"

abbreviation MI_PROMPT :: char where "MI_PROMPT \<equiv> NUL"

subsection \<open>C strings\<close>

text \<open>
  The body of the \<open>switch\<close> of \<open>parse_cstring\<close>, entered with \<open>p\<close> behind the backslash: the byte
  the escape stands for and the index of the last byte it uses. An unknown escape and an octal
  escape above \<open>0xff\<close> are put back, and stand for the backslash itself.
\<close>

function octal_loop :: "block \<Rightarrow> nat \<Rightarrow> nat \<Rightarrow> nat \<Rightarrow> (nat \<times> nat) option" where
  "octal_loop s i v p = do {
     d \<leftarrow> rd s (Suc p);
     if is_odigit d \<and> i < 2 then octal_loop s (Suc i) (v * 8 + (cc d - 48)) (Suc p)
     else Some (v, p) }"
  by pat_completeness auto
termination
  by (relation "measure (\<lambda>(s, i, v, p). 2 - i)") auto

declare octal_loop.simps [simp del]

definition simple_escapes :: "(char \<times> char) list" where
  "simple_escapes = [(CHR ''a'', CHR 0x07), (CHR ''b'', CHR 0x08), (CHR ''f'', CHR 0x0C),
     (CHR ''n'', LF), (CHR ''r'', CR), (CHR ''t'', TAB), (CHR ''v'', CHR 0x0B)]"

definition unescape :: "block \<Rightarrow> nat \<Rightarrow> (char \<times> nat) option" where
  "unescape s p = do {
     c \<leftarrow> rd s p;
     let l = to_lower c;
     if l = BSL \<or> l = DQ then Some (c, p)
     else case map_of simple_escapes l of
       Some e \<Rightarrow> Some (e, p)
     | None \<Rightarrow> do {
       hex \<leftarrow> (if l = CHR ''x'' then do { d \<leftarrow> rd s (Suc p); Some (is_xdigit d) } else Some False);
       if hex then do {
         d \<leftarrow> rd s (Suc p);
         e \<leftarrow> rd s (Suc (Suc p));
         if is_xdigit e
         then Some (char_of ((xdigit_value d * 16 + xdigit_value e) mod 256), Suc (Suc p))
         else Some (char_of (xdigit_value d), Suc p) }
       else if is_odigit c then do {
         (v, q) \<leftarrow> octal_loop s 0 (cc c - 48) p;
         if v \<le> 0xff then Some (char_of v, q)
         else do { b \<leftarrow> rd s (q - 3); Some (b, q - 3) } }
       else do { b \<leftarrow> rd s (p - 1); Some (b, p - 1) } } }"

lemma octal_loop_bounds:
  "octal_loop s i v p = Some (w, q) \<Longrightarrow> p \<le> q \<and> q \<le> p + (2 - i) \<and> w < (v + 1) * 8 ^ (q - p)"
proof (induction s i v p rule: octal_loop.induct)
  case (1 s i v p)
  from 1(2) obtain d where d: "rd s (Suc p) = Some d"
    by (auto simp: octal_loop.simps[of s i v p] split: Option.bind_splits)
  show ?case
  proof (cases "is_odigit d \<and> i < 2")
    case True
    with 1(2) d have step: "octal_loop s (Suc i) (v * 8 + (cc d - 48)) (Suc p) = Some (w, q)"
      by (simp add: octal_loop.simps[of s i v p])
    from 1(1)[OF d True step]
    have b: "Suc p \<le> q" "q \<le> Suc p + (2 - Suc i)"
      "w < (v * 8 + (cc d - 48) + 1) * 8 ^ (q - Suc p)"
      by auto
    have "cc d - 48 \<le> 7" using True by (auto simp: is_odigit_def)
    then have "v * 8 + (cc d - 48) + 1 \<le> (v + 1) * 8" by simp
    then have "(v * 8 + (cc d - 48) + 1) * 8 ^ (q - Suc p) \<le> (v + 1) * 8 * 8 ^ (q - Suc p)"
      by (rule mult_le_mono1)
    also have "\<dots> = (v + 1) * 8 ^ (q - p)"
      using b(1) by (simp add: algebra_simps flip: Suc_diff_Suc [of p q])
    finally have "w < (v + 1) * 8 ^ (q - p)" using b(3) by (rule less_le_trans[rotated])
    moreover have "q \<le> p + (2 - i)" using b(2) True by linarith
    ultimately show ?thesis using b(1) by simp
  next
    case False
    with 1(2) d show ?thesis
      by (auto simp: octal_loop.simps[of s i v p])
  qed
qed

text \<open>Only an escape of three digits can be out of range, so putting it back ends at the backslash.\<close>

lemma octal_out_of_range:
  assumes "octal_loop s 0 (cc c - 48) p = Some (v, q)" and "is_odigit c" and "\<not> v \<le> 255"
  shows "q = p + 2"
proof -
  have b: "p \<le> q" "q \<le> p + 2" "v < (cc c - 48 + 1) * 8 ^ (q - p)"
    using octal_loop_bounds[OF assms(1)] by auto
  have "cc c - 48 + 1 \<le> 8" using assms(2) by (auto simp: is_odigit_def)
  then have "(cc c - 48 + 1) * 8 ^ (q - p) \<le> 8 * 8 ^ (q - p)" by (rule mult_le_mono1)
  with b(3) assms(3) have big: "255 < (8::nat) * 8 ^ (q - p)" by linarith
  show ?thesis
  proof (rule ccontr)
    assume "q \<noteq> p + 2"
    with b(1,2) have "q - p \<le> 1" by linarith
    then have "(8::nat) ^ (q - p) \<le> 8 ^ 1" by (rule power_increasing) simp
    with big show False by simp
  qed
qed

lemma unescape_bounds: "unescape s p = Some (c, q) \<Longrightarrow> p \<le> Suc q"
  unfolding unescape_def Let_def
  by (auto simp: bind_eq_Some_conv split: if_splits option.splits prod.splits
      dest: octal_out_of_range octal_loop_bounds)

text \<open>
  The loop of \<open>parse_cstring\<close>: \<open>str\<close> is the \<open>GString\<close> built so far, \<open>base\<close> the start of the run of
  plain bytes not yet copied. The last branch of the source (a \<open>NUL\<close> in the constant) ends the
  loop without consuming it; the code behind the loop copies the run and skips the closing quote.
\<close>

function cstring_loop :: "block \<Rightarrow> string \<Rightarrow> nat \<Rightarrow> nat \<Rightarrow> (string \<times> nat) option" where
  "cstring_loop s str base p = do {
     c \<leftarrow> rd s p;
     if c = DQ then Some (str @ slice s base p, Suc p)
     else if c = BSL then do {
       (e, q) \<leftarrow> unescape s (Suc p);
       cstring_loop s (str @ slice s base p @ [e]) (Suc q) (Suc q) }
     else if c = NUL then Some (str @ slice s base p, p)
     else cstring_loop s str base (Suc p) }"
  by pat_completeness auto
termination
  by (relation "measure (\<lambda>(s, str, base, p). length s - p)")
    (auto dest!: rd_Some_less unescape_bounds)

declare cstring_loop.simps [simp del]

definition parse_cstring :: "block \<Rightarrow> nat \<Rightarrow> (string \<times> nat) option" where
  "parse_cstring s p = do {
     c \<leftarrow> rd s p;
     if c = DQ then cstring_loop s [] (Suc p) (Suc p) else Some ([], p) }"

subsection \<open>Names, results, values\<close>

definition name_start :: "char \<Rightarrow> bool" where
  "name_start c \<longleftrightarrow> is_alpha c \<or> strchr ''-_.'' c"

definition name_char :: "char \<Rightarrow> bool" where
  "name_char c \<longleftrightarrow> is_alnum c \<or> strchr ''-_.'' c"

definition parse_string :: "block \<Rightarrow> nat \<Rightarrow> (string \<times> nat) option" where
  "parse_string s p = do {
     c \<leftarrow> rd s p;
     q \<leftarrow> (if name_start c then skip_while name_char s (Suc p) else Some p);
     Some (strndup s p (q - p), q) }"

text \<open>
  \<open>parse_result\<close> fills \<open>var\<close> always and \<open>val\<close> when it finds \<open>=\<close> and a value; its truth value is
  whether both are set. \<open>parse_value\<close> returns \<open>NULL\<close> on any other first character. The three
  functions recurse on each other behind pointers they have moved, so they carry fuel;
  \<open>parse_fuel\<close> below is enough for any line.
\<close>

fun parse_result :: "nat \<Rightarrow> block \<Rightarrow> nat \<Rightarrow> (string \<times> mi_value option \<times> nat) option"
and parse_value :: "nat \<Rightarrow> block \<Rightarrow> nat \<Rightarrow> (mi_value option \<times> nat) option"
and parse_items :: "nat \<Rightarrow> block \<Rightarrow> char \<Rightarrow> mi_result list \<Rightarrow> nat \<Rightarrow> (mi_result list \<times> nat) option"
where
  "parse_result 0 s p = None"
| "parse_result (Suc f) s p = do {
     (var, p) \<leftarrow> parse_string s p;
     p \<leftarrow> skip_while is_gspace s p;
     c \<leftarrow> rd s p;
     if c = CHR ''='' then do {
       p \<leftarrow> skip_while is_gspace s (Suc p);
       (v, p) \<leftarrow> parse_value f s p;
       Some (var, v, p) }
     else Some (var, None, p) }"
| "parse_value 0 s p = None"
| "parse_value (Suc f) s p = do {
     c \<leftarrow> rd s p;
     if c = DQ then do {
       (str, p) \<leftarrow> parse_cstring s p;
       Some (Some (MiString str), p) }
     else if c = CHR ''{'' \<or> c = CHR ''['' then do {
       let close = (if c = CHR ''{'' then CHR ''}'' else CHR '']'');
       (items, p) \<leftarrow> parse_items f s close [] (Suc p);
       d \<leftarrow> rd s p;
       Some (Some (MiList items), if d = close then Suc p else p) }
     else Some (None, p) }"
| "parse_items 0 s close acc p = None"
| "parse_items (Suc f) s close acc p = do {
     c \<leftarrow> rd s p;
     if c \<noteq> NUL \<and> c \<noteq> close then do {
       p \<leftarrow> skip_while is_gspace s p;
       (v, p) \<leftarrow> parse_value f s p;
       (item, p) \<leftarrow> (case v of
           Some v \<Rightarrow> Some (Some (MiResult None v), p)
         | None \<Rightarrow> do {
             (var, v, p) \<leftarrow> parse_result f s p;
             Some (map_option (MiResult (Some var)) v, p) });
       (case item of
          None \<Rightarrow> Some (acc, p)
        | Some item \<Rightarrow> do {
            p \<leftarrow> skip_while is_gspace s p;
            c \<leftarrow> rd s p;
            if c \<noteq> CHR '','' then Some (acc @ [item], p)
            else parse_items f s close (acc @ [item]) (Suc p) }) }
     else Some (acc, p) }"

subsection \<open>Records\<close>

definition is_prompt :: "block \<Rightarrow> nat \<Rightarrow> bool option" where
  "is_prompt s p =
     (if take 5 (drop p s) = ''(gdb)''
      then do { p \<leftarrow> skip_while is_gspace s (p + 5); c \<leftarrow> rd s p; Some (c = NUL) }
      else do { c \<leftarrow> rd s p; Some (c = NUL) })"

fun record_results :: "nat \<Rightarrow> block \<Rightarrow> mi_result list \<Rightarrow> nat \<Rightarrow> mi_result list option" where
  "record_results 0 s acc p = None"
| "record_results (Suc f) s acc p = do {
     c \<leftarrow> rd s p;
     if c = NUL then Some acc
     else do {
       p \<leftarrow> skip_while is_gspace s p;
       c \<leftarrow> rd s p;
       if c \<noteq> CHR '','' then Some acc
       else do {
         p \<leftarrow> skip_while is_gspace s (Suc p);
         (var, v, p) \<leftarrow> parse_result f s p;
         (case v of
            None \<Rightarrow> Some acc
          | Some v \<Rightarrow> record_results f s (acc @ [MiResult (Some var) v]) p) } } }"

definition parse_fuel :: "block \<Rightarrow> nat" where
  "parse_fuel s = 2 * length s + 2"

text \<open>
  The first half of \<open>gdb_mi_record_parse\<close>: the digits of the token, if any, and the spaces behind
  them.
\<close>

definition record_token :: "block \<Rightarrow> nat \<Rightarrow> (string option \<times> nat) option" where
  "record_token s p = do {
     token_end \<leftarrow> skip_while is_digit s p;
     if token_end > p then do {
       q \<leftarrow> skip_while is_gspace s token_end;
       Some (Some (strndup s p (token_end - p)), q) }
     else Some (None, p) }"

text \<open>
  \<open>gdb_mi_record_parse\<close>, with the line as a pointer \<open>p\<close> into its block. \<open>g_malloc0\<close> leaves
  \<open>token\<close>, \<open>klass\<close> and \<open>first\<close> \<open>NULL\<close>.
\<close>

definition gdb_mi_record_parse :: "block \<Rightarrow> nat \<Rightarrow> mi_record option" where
  "gdb_mi_record_parse s p = do {
     let blank = \<lparr>rec_type = MI_PROMPT, rec_token = None, rec_klass = None, rec_first = []\<rparr>;
     prompt \<leftarrow> is_prompt s p;
     if prompt then Some blank
     else do {
       (token, p) \<leftarrow> record_token s p;
       t \<leftarrow> rd s p;
       let p = (if t \<noteq> NUL then Suc p else p);
       p \<leftarrow> skip_while is_gspace s p;
       if t \<in> {CHR ''~'', CHR ''@'', CHR ''&''} then do {
         (str, p) \<leftarrow> parse_cstring s p;
         Some (blank\<lparr>rec_type := t, rec_token := token, rec_klass := Some str\<rparr>) }
       else if t \<in> {CHR ''^'', CHR ''*'', CHR ''+'', CHR ''=''} then do {
         (klass, p) \<leftarrow> parse_string s p;
         rs \<leftarrow> record_results (parse_fuel s) s [] p;
         Some (blank\<lparr>rec_type := t, rec_token := token, rec_klass := Some klass, rec_first := rs\<rparr>) }
       else Some (blank\<lparr>rec_token := token\<rparr>) } }"

subsection \<open>Lookups\<close>

fun gdb_mi_result_var_value :: "mi_result list \<Rightarrow> string \<Rightarrow> mi_value option" where
  "gdb_mi_result_var_value [] name = None"
| "gdb_mi_result_var_value (r # rs) name =
     (if mi_var r = Some name then Some (mi_val r) else gdb_mi_result_var_value rs name)"

datatype mi_value_type = GDB_MI_VAL_STRING | GDB_MI_VAL_LIST

fun mi_type :: "mi_value \<Rightarrow> mi_value_type" where
  "mi_type (MiString _) = GDB_MI_VAL_STRING"
| "mi_type (MiList _) = GDB_MI_VAL_LIST"

text \<open>An empty list is the \<open>NULL\<close> pointer, which the caller cannot tell from a missing variable.\<close>

definition gdb_mi_result_var :: "mi_result list \<Rightarrow> string \<Rightarrow> mi_value_type \<Rightarrow> mi_value option" where
  "gdb_mi_result_var rs name ty =
     (case gdb_mi_result_var_value rs name of
        None \<Rightarrow> None
      | Some v \<Rightarrow> if mi_type v \<noteq> ty \<or> v = MiList [] then None else Some v)"

text \<open>
  The varargs of \<open>gdb_mi_record_matches\<close> are the list of names; the values written through the
  \<open>out\<close> pointers are the list returned, which stops behind the first name that is missing. The
  fault is \<open>strcmp\<close> on a record without a class.
\<close>

fun match_names :: "mi_result list \<Rightarrow> string list \<Rightarrow> bool \<times> string option list" where
  "match_names rs [] = (True, [])"
| "match_names rs (n # ns) =
     (case gdb_mi_result_var rs n GDB_MI_VAL_STRING of
        Some (MiString v) \<Rightarrow> (case match_names rs ns of (ok, outs) \<Rightarrow> (ok, Some v # outs))
      | _ \<Rightarrow> (False, [None]))"

definition gdb_mi_record_matches ::
  "mi_record \<Rightarrow> char \<Rightarrow> string \<Rightarrow> string list \<Rightarrow> (bool \<times> string option list) option" where
  "gdb_mi_record_matches r ty klass names =
     (if rec_type r \<noteq> ty then Some (False, [])
      else case rec_klass r of
        None \<Rightarrow> None
      | Some k \<Rightarrow> if k \<noteq> klass then Some (False, []) else Some (match_names (rec_first r) names))"

subsection \<open>Progress, and fuel is never what stops the parser\<close>

lemma parse_string_ge: "parse_string s p = Some (n, q) \<Longrightarrow> p \<le> q"
  by (auto simp: parse_string_def bind_eq_Some_conv split: if_splits dest: skip_while_ge)

lemma cstring_loop_ge: "cstring_loop s str base p = Some (r, q) \<Longrightarrow> p \<le> q"
proof (induction s str base p rule: cstring_loop.induct)
  case (1 s str base p)
  from "1.prems" obtain c where c: "rd s p = Some c"
    by (auto simp: cstring_loop.simps[of s str base p] bind_eq_Some_conv)
  show ?case
  proof (cases "c = BSL")
    case True
    with c "1.prems" obtain e k where e: "unescape s (Suc p) = Some (e, k)"
      and l: "cstring_loop s (str @ slice s base p @ [e]) (Suc k) (Suc k) = Some (r, q)"
      by (auto simp: cstring_loop.simps[of s str base p] bind_eq_Some_conv)
    have "Suc k \<le> q" by (rule "1.IH"(1)[OF c _ True e refl l]) (simp add: True)
    with unescape_bounds[OF e] show ?thesis by simp
  next
    case False
    with c 1 show ?thesis
      by (auto simp: cstring_loop.simps[of s str base p] split: if_splits)
  qed
qed

lemma parse_cstring_ge: "parse_cstring s p = Some (r, q) \<Longrightarrow> p \<le> q"
  by (auto simp: parse_cstring_def bind_eq_Some_conv split: if_splits dest: cstring_loop_ge)

lemma parse_ge_all:
  "(\<forall>p var v q. parse_result f s p = Some (var, v, q) \<longrightarrow> p \<le> q) \<and>
   (\<forall>p v q. parse_value f s p = Some (v, q) \<longrightarrow> p \<le> q) \<and>
   (\<forall>close acc p rs q. parse_items f s close acc p = Some (rs, q) \<longrightarrow> p \<le> q)"
proof (induction f)
  case 0
  show ?case by simp
next
  case (Suc f)
  then have R: "\<And>p var v q. parse_result f s p = Some (var, v, q) \<Longrightarrow> p \<le> q"
    and V: "\<And>p v q. parse_value f s p = Some (v, q) \<Longrightarrow> p \<le> q"
    and I: "\<And>close acc p rs q. parse_items f s close acc p = Some (rs, q) \<Longrightarrow> p \<le> q"
    by blast+
  have "p \<le> q" if "parse_result (Suc f) s p = Some (var, v, q)" for p var v q
    using that
    by (fastforce simp: bind_eq_Some_conv split: if_splits
        dest!: parse_string_ge skip_while_ge V)
  moreover have "p \<le> q" if "parse_value (Suc f) s p = Some (v, q)" for p v q
    using that
    by (fastforce simp: bind_eq_Some_conv Let_def split: if_splits dest: parse_cstring_ge dest!: I)
  moreover have "p \<le> q" if "parse_items (Suc f) s close acc p = Some (rs, q)" for close acc p rs q
    using that
    by (fastforce simp: bind_eq_Some_conv split: if_splits option.splits
        dest!: skip_while_ge V R I)
  ultimately show ?case by blast
qed
lemmas parse_result_ge = parse_ge_all [THEN conjunct1, rule_format]
lemmas parse_value_ge = parse_ge_all [THEN conjunct2, THEN conjunct1, rule_format]
lemmas parse_items_ge = parse_ge_all [THEN conjunct2, THEN conjunct2, rule_format]

lemma parse_fuel_all:
  "(\<forall>g p. f \<le> g \<longrightarrow> 2 * (length s - p) + 1 \<le> f \<longrightarrow> parse_result g s p = parse_result f s p) \<and>
   (\<forall>g p. f \<le> g \<longrightarrow> 2 * (length s - p) + 1 \<le> f \<longrightarrow> parse_value g s p = parse_value f s p) \<and>
   (\<forall>g close acc p. f \<le> g \<longrightarrow> 2 * (length s - p) + 2 \<le> f \<longrightarrow>
      parse_items g s close acc p = parse_items f s close acc p)"
proof (induction f)
  case 0
  show ?case by simp
next
  case (Suc f)
  then have R: "\<And>g p. f \<le> g \<Longrightarrow> 2 * (length s - p) + 1 \<le> f \<Longrightarrow> parse_result g s p = parse_result f s p"
    and V: "\<And>g p. f \<le> g \<Longrightarrow> 2 * (length s - p) + 1 \<le> f \<Longrightarrow> parse_value g s p = parse_value f s p"
    and I: "\<And>g close acc p. f \<le> g \<Longrightarrow> 2 * (length s - p) + 2 \<le> f \<Longrightarrow>
      parse_items g s close acc p = parse_items f s close acc p"
    by blast+
  have "parse_result g s p = parse_result (Suc f) s p"
    if "Suc f \<le> g" and len: "2 * (length s - p) + 1 \<le> Suc f" for g p
  proof -
    obtain g' where g: "g = Suc g'" "f \<le> g'" using \<open>Suc f \<le> g\<close> by (cases g) auto
    show ?thesis
      unfolding g parse_result.simps
    proof (intro Option.bind_cong refl, clarify, intro Option.bind_cong refl if_cong)
      fix n p1 p2 c p3
      assume "parse_string s p = Some (n, p1)" "skip_while is_gspace s p1 = Some p2"
        "rd s p2 = Some c" "skip_while is_gspace s (Suc p2) = Some p3"
      then have "p < p3" "p3 < length s"
        by (auto dest!: parse_string_ge skip_while_ge)
      with len have "2 * (length s - p3) + 1 \<le> f" by linarith
      with g show "parse_value g' s p3 = parse_value f s p3" by (intro V)
    qed
  qed
  moreover have "parse_value g s p = parse_value (Suc f) s p"
    if "Suc f \<le> g" and len: "2 * (length s - p) + 1 \<le> Suc f" for g p
  proof -
    obtain g' where g: "g = Suc g'" "f \<le> g'" using \<open>Suc f \<le> g\<close> by (cases g) auto
    have "parse_items g' s close [] (Suc p) = parse_items f s close [] (Suc p)"
      if "rd s p = Some c" for c close
    proof -
      have "2 * (length s - Suc p) + 2 \<le> f" using len rd_Some_less[OF that] by linarith
      with g show ?thesis by (intro I)
    qed
    then show ?thesis
      unfolding g parse_value.simps Let_def
      by (intro Option.bind_cong refl if_cong) auto
  qed
  moreover have "parse_items g s close acc p = parse_items (Suc f) s close acc p"
    if "Suc f \<le> g" and len: "2 * (length s - p) + 2 \<le> Suc f" for g close acc p
  proof -
    obtain g' where g: "g = Suc g'" "f \<le> g'" using \<open>Suc f \<le> g\<close> by (cases g) auto
    have V': "parse_value g' s q = parse_value f s q" if "p \<le> q" for q
      using g len that by (intro V) auto
    have R': "parse_result g' s q = parse_result f s q" if "p \<le> q" for q
      using g len that by (intro R) auto
    have I': "parse_items g' s close acc' q = parse_items f s close acc' q"
      if "p < q" "p < length s" for acc' q
      using g len that by (intro I) auto
    show ?thesis
      unfolding g parse_items.simps
    proof (intro Option.bind_cong refl if_cong, goal_cases)
      case (1 c p1)
      then show ?case by (auto dest!: skip_while_ge intro: V')
    next
      case (2 c p1 x)
      then obtain v p2 where x: "x = (v, p2)" and "p \<le> p1" "p1 \<le> p2" "p < length s"
        by (cases x) (auto dest!: skip_while_ge parse_value_ge rd_Some_less)
      then have R2: "parse_result g' s p2 = parse_result f s p2" by (intro R') simp
      have I2: "parse_items g' s close acc' (Suc q) = parse_items f s close acc' (Suc q)"
        if "p2 \<le> q" for acc' q
        using that \<open>p \<le> p1\<close> \<open>p1 \<le> p2\<close> \<open>p < length s\<close> by (intro I') auto
      show ?case
        unfolding x prod.case R2
        by (intro Option.bind_cong refl)
          (auto simp: bind_eq_Some_conv intro!: Option.bind_cong I2 split: option.splits
            dest!: skip_while_ge parse_result_ge)
    qed
  qed
  ultimately show ?case by blast
qed

subsection \<open>What GDB prints\<close>

text \<open>
  The encoding of a C-string constant as GDB prints it: quotes and backslashes escaped, the
  usual letters for tab and line feed, printable ASCII as it is and every other byte as three
  octal digits.
\<close>

definition octal3 :: "nat \<Rightarrow> string" where
  "octal3 n = [BSL, char_of (48 + n div 64), char_of (48 + n div 8 mod 8), char_of (48 + n mod 8)]"

definition mi_escape_char :: "char \<Rightarrow> string" where
  "mi_escape_char c =
     (if c = DQ \<or> c = BSL then [BSL, c]
      else if c = LF then [BSL, CHR ''n'']
      else if c = TAB then [BSL, CHR ''t'']
      else if 32 \<le> cc c \<and> cc c \<le> 126 then [c]
      else octal3 (cc c))"

definition mi_escape :: "string \<Rightarrow> string" where
  "mi_escape x = concat (map mi_escape_char x)"

definition mi_quote :: "string \<Rightarrow> string" where
  "mi_quote x = DQ # mi_escape x @ [DQ]"

lemma cc_less: "cc c < 256"
  by (simp add: cc_def)

lemma cc_char_of [simp]: "n < 256 \<Longrightarrow> cc (char_of n) = n"
  by (simp add: cc_def)

lemma char_of_cc [simp]: "char_of (cc c) = c"
  by (simp add: cc_def)

lemma to_lower_non_upper: "\<not> is_upper c \<Longrightarrow> to_lower c = c"
  by (simp add: to_lower_def)

lemma odigit_neq: "is_odigit c \<Longrightarrow> \<not> (48 \<le> cc x \<and> cc x \<le> 55) \<Longrightarrow> c \<noteq> x"
  by (auto simp: is_odigit_def)

lemma odigit_plain:
  assumes "is_odigit c"
  shows "c \<noteq> BSL" and "c \<noteq> DQ" and "c \<noteq> CHR ''x''" and "map_of simple_escapes c = None"
    and "to_lower c = c"
  using assms
  by (simp_all add: odigit_neq simple_escapes_def cc_def)
    (auto simp: to_lower_def is_upper_def is_odigit_def)

lemma octal_loop_digit:
  "rd s (Suc p) = Some d \<Longrightarrow> is_odigit d \<Longrightarrow> i < 2 \<Longrightarrow>
   octal_loop s i v p = octal_loop s (Suc i) (v * 8 + (cc d - 48)) (Suc p)"
  by (simp add: octal_loop.simps[of s i])

lemma octal_loop_stop: "rd s (Suc p) = Some d \<Longrightarrow> \<not> i < 2 \<Longrightarrow> octal_loop s i v p = Some (v, p)"
  by (simp add: octal_loop.simps[of s i])

lemma octal_digits: "(n div 64 * 8 + n div 8 mod 8) * 8 + n mod 8 = (n::nat)"
proof -
  have "n div 64 = n div 8 div 8" by (simp flip: div_mult2_eq)
  then show ?thesis by (simp only: div_mult_mod_eq)
qed

lemma octal_escape:
  assumes d0: "drop p s = a # b # c # e # r" and "n < 256"
    and digits: "cc a = 48 + n div 64" "cc b = 48 + n div 8 mod 8" "cc c = 48 + n mod 8"
  shows "unescape s p = Some (char_of n, p + 2)"
proof -
  have small: "n div 64 < 4" "n div 8 mod 8 < 8" "n mod 8 < 8" using assms(2) by auto
  have od: "is_odigit a" "is_odigit b" "is_odigit c"
    using small digits by (auto simp: is_odigit_def)
  note d1 = drop_Suc_rest[OF d0] note d2 = drop_Suc_rest[OF d1] note d3 = drop_Suc_rest[OF d2]
  have "octal_loop s 0 (n div 64) p
      = octal_loop s 2 ((n div 64 * 8 + n div 8 mod 8) * 8 + n mod 8) (Suc (Suc p))"
    using od digits
    by (simp add: octal_loop_digit[OF rd_drop[OF d1]] octal_loop_digit[OF rd_drop[OF d2]]
        numeral_2_eq_2)
  then have loop: "octal_loop s 0 (n div 64) p = Some (n, p + 2)"
    by (simp only: octal_digits) (simp add: octal_loop_stop[OF rd_drop[OF d3]])
  show ?thesis
    using odigit_plain[OF od(1)] od(1) digits(1) loop assms(2)
    by (simp add: unescape_def rd_drop[OF d0])
qed

lemma letter_escapes:
  "rd s p = Some BSL \<Longrightarrow> unescape s p = Some (BSL, p)"
  "rd s p = Some DQ \<Longrightarrow> unescape s p = Some (DQ, p)"
  "rd s p = Some CHR ''n'' \<Longrightarrow> unescape s p = Some (LF, p)"
  "rd s p = Some CHR ''t'' \<Longrightarrow> unescape s p = Some (TAB, p)"
  by (simp_all add: unescape_def to_lower_def is_upper_def cc_def simple_escapes_def)

lemma plain_not_NUL: "32 \<le> cc c \<Longrightarrow> c \<noteq> NUL"
  by (auto simp: cc_def)

lemma mi_escape_char_cases:
  obtains (simple) e where "mi_escape_char c = [BSL, e]"
      "\<And>s p. rd s p = Some e \<Longrightarrow> unescape s p = Some (c, p)"
    | (plain) "mi_escape_char c = [c]" "c \<noteq> DQ" "c \<noteq> BSL" "c \<noteq> NUL"
    | (octal) "mi_escape_char c = octal3 (cc c)"
proof -
  consider "c = DQ \<or> c = BSL" | "c = LF" | "c = TAB"
    | "c \<noteq> DQ" "c \<noteq> BSL" "c \<noteq> LF" "c \<noteq> TAB" "32 \<le> cc c \<and> cc c \<le> 126"
    | "c \<noteq> DQ" "c \<noteq> BSL" "c \<noteq> LF" "c \<noteq> TAB" "\<not> (32 \<le> cc c \<and> cc c \<le> 126)"
    by argo
  then show ?thesis
  proof cases
    case 1
    then show ?thesis using letter_escapes(1,2) by (intro simple[of c]) (auto simp: mi_escape_char_def)
  next
    case 2
    then show ?thesis using letter_escapes(3) by (intro simple[of "CHR ''n''"]) (auto simp: mi_escape_char_def)
  next
    case 3
    then show ?thesis using letter_escapes(4) by (intro simple[of "CHR ''t''"]) (auto simp: mi_escape_char_def)
  next
    case 4
    then show ?thesis using plain_not_NUL by (intro plain) (auto simp: mi_escape_char_def)
  next
    case 5
    then show ?thesis by (intro octal) (auto simp: mi_escape_char_def)
  qed
qed

lemma cstring_loop_step:
  "drop p s = c # r \<Longrightarrow> base \<le> p \<Longrightarrow> c \<noteq> DQ \<Longrightarrow> c \<noteq> BSL \<Longrightarrow> c \<noteq> NUL \<Longrightarrow>
   cstring_loop s str base p = cstring_loop s str base (Suc p)"
  by (simp add: cstring_loop.simps[of s str base p] rd_drop)

lemma cstring_loop_escape:
  "drop p s = BSL # r \<Longrightarrow> unescape s (Suc p) = Some (e, q) \<Longrightarrow>
   cstring_loop s str base p = cstring_loop s (str @ slice s base p @ [e]) (Suc q) (Suc q)"
  by (simp add: cstring_loop.simps[of s str base p] rd_drop)

lemma cstring_loop_quote:
  "drop p s = mi_escape x @ DQ # r \<Longrightarrow> base \<le> p \<Longrightarrow>
   cstring_loop s str base p = Some (str @ slice s base p @ x, Suc (p + length (mi_escape x)))"
proof (induction x arbitrary: str base p)
  case Nil
  then show ?case
    by (simp add: cstring_loop.simps[of s str base p] rd_drop mi_escape_def)
next
  case (Cons c x)
  have esc: "mi_escape (c # x) = mi_escape_char c @ mi_escape x" by (simp add: mi_escape_def)
  let ?rest = "mi_escape x @ DQ # r"
  have d: "drop p s = mi_escape_char c @ ?rest" using Cons.prems(1) by (simp add: esc)
  have IH: "cstring_loop s str' q q = Some (str' @ x, Suc (q + length (mi_escape x)))"
    if "drop q s = ?rest" for str' q
    using Cons.IH[OF that, of q str'] by simp
  show ?case
  proof (cases rule: mi_escape_char_cases[of c])
    case (simple e)
    with d have d': "drop p s = BSL # e # ?rest" by simp
    note d1 = drop_Suc_rest[OF d'] note d2 = drop_Suc_rest[OF d1]
    have u: "unescape s (Suc p) = Some (c, Suc p)"
      by (rule simple(2)) (rule rd_drop[OF d1])
    show ?thesis
      using IH[OF d2] simple(1) by (simp add: cstring_loop_escape[OF d' u] esc)
  next
    case plain
    with d have d': "drop p s = c # ?rest" by simp
    have "cstring_loop s str base (Suc p)
      = Some (str @ slice s base (Suc p) @ x, Suc (Suc p + length (mi_escape x)))"
      using Cons.prems(2) by (intro Cons.IH drop_Suc_rest[OF d']) simp
    then show ?thesis
      using plain Cons.prems(2)
      by (simp add: cstring_loop_step[OF d'] esc slice_snoc[OF _ d'])
  next
    case octal
    then obtain o1 o2 o3 where o: "mi_escape_char c = [BSL, o1, o2, o3]"
      and digits: "cc o1 = 48 + cc c div 64" "cc o2 = 48 + cc c div 8 mod 8" "cc o3 = 48 + cc c mod 8"
      using cc_less[of c] by (simp add: octal3_def)
    obtain e k where k: "?rest = e # k" by (cases ?rest) auto
    from d o k have d': "drop p s = BSL # o1 # o2 # o3 # e # k" by simp
    note d1 = drop_Suc_rest[OF d']
    have u: "unescape s (Suc p) = Some (c, Suc p + 2)"
      using octal_escape[OF d1 cc_less digits] by simp
    have d4: "drop (Suc (Suc p + 2)) s = ?rest"
      using drop_Suc_rest[OF drop_Suc_rest[OF drop_Suc_rest[OF d1]]] k by simp
    show ?thesis
      using IH[OF d4] o by (simp add: cstring_loop_escape[OF d' u] esc)
  qed
qed

lemma parse_cstring_quote:
  "drop p s = mi_quote x @ r \<Longrightarrow> parse_cstring s p = Some (x, p + length (mi_quote x))"
proof -
  assume "drop p s = mi_quote x @ r"
  then have d: "drop p s = DQ # mi_escape x @ DQ # r" by (simp add: mi_quote_def)
  show ?thesis
    using cstring_loop_quote[OF drop_Suc_rest[OF d], of "Suc p" "[]"]
    by (simp add: parse_cstring_def rd_drop[OF d] mi_quote_def)
qed

text \<open>
  Names as the parser reads them, and the printed form of values, results and records: a list
  whose items all have names is a tuple in braces, every other list stands in brackets.
\<close>

definition wf_name :: "string \<Rightarrow> bool" where
  "wf_name n \<longleftrightarrow> n \<noteq> [] \<and> NUL \<notin> set n \<and> name_start (hd n) \<and> list_all name_char n"

fun join_comma :: "string list \<Rightarrow> string" where
  "join_comma [] = []"
| "join_comma [x] = x"
| "join_comma (x # y # zs) = x @ CHR '','' # join_comma (y # zs)"

definition tuple :: "mi_result list \<Rightarrow> bool" where
  "tuple rs \<longleftrightarrow> rs \<noteq> [] \<and> (\<forall>r\<in>set rs. mi_var r \<noteq> None)"

fun print_value :: "mi_value \<Rightarrow> string" and print_item :: "mi_result \<Rightarrow> string" where
  "print_value (MiString x) = mi_quote x"
| "print_value (MiList rs) =
     (if tuple rs then CHR ''{'' # join_comma (map print_item rs) @ [CHR ''}'']
      else CHR ''['' # join_comma (map print_item rs) @ [CHR '']''])"
| "print_item (MiResult var v) =
     (case var of None \<Rightarrow> print_value v | Some n \<Rightarrow> n @ CHR ''='' # print_value v)"

fun wf_value :: "mi_value \<Rightarrow> bool" and wf_item :: "mi_result \<Rightarrow> bool" where
  "wf_value (MiString x) = True"
| "wf_value (MiList rs) = list_all wf_item rs"
| "wf_item (MiResult var v) = ((case var of None \<Rightarrow> True | Some n \<Rightarrow> wf_name n) \<and> wf_value v)"

lemma name_char_plain:
  assumes "name_char c" and "c \<noteq> NUL"
  shows "\<not> is_gspace c" and "c \<noteq> DQ" and "c \<noteq> CHR ''{''" and "c \<noteq> CHR ''[''"
    and "c \<noteq> CHR ''}''" and "c \<noteq> CHR '']''" and "c \<noteq> CHR '',''" and "c \<noteq> CHR ''=''"
proof -
  have *: "c \<noteq> x" if "\<not> name_char x" for x using assms(1) that by auto
  show "\<not> is_gspace c"
    using * by (auto simp: is_gspace_def name_char_def char_class_defs)
  show "c \<noteq> DQ" "c \<noteq> CHR ''{''" "c \<noteq> CHR ''[''" "c \<noteq> CHR ''}''" "c \<noteq> CHR '']''"
    "c \<noteq> CHR '',''" "c \<noteq> CHR ''=''"
    by (auto intro!: * simp: name_char_def char_class_defs)
qed

lemma name_delims [simp]:
  "\<not> name_char (CHR ''='')" "\<not> name_char (CHR '','')" "\<not> name_char LF"
  by (simp_all add: name_char_def char_class_defs)

lemma gspace_delims [simp]:
  "\<not> is_gspace DQ" "\<not> is_gspace (CHR ''{'')" "\<not> is_gspace (CHR ''['')" "\<not> is_gspace (CHR ''='')"
  "\<not> is_gspace (CHR '','')" "\<not> is_gspace (CHR ''}'')" "\<not> is_gspace (CHR '']'')" "is_gspace LF"
  "\<not> is_gspace NUL"
  by (simp_all add: is_gspace_def)

lemma parse_string_name:
  assumes d: "drop p s = n @ c # r" and n: "wf_name n" and c: "\<not> name_char c"
  shows "parse_string s p = Some (n, p + length n)"
proof -
  obtain x xs where x: "n = x # xs" using n by (cases n) (auto simp: wf_name_def)
  with d have d': "drop p s = x # xs @ c # r" by simp
  have "skip_while name_char s (Suc p) = Some (Suc p + length xs)"
    using n c x by (intro skip_while_rest[OF drop_Suc_rest[OF d']]) (auto simp: wf_name_def list_all_iff)
  then show ?thesis
    using n x strndup_drop[OF d]
    by (simp add: parse_string_def rd_drop[OF d'] wf_name_def)
qed

lemma print_value_start:
  obtains c r where "print_value v = c # r" "c = DQ \<or> c = CHR ''{'' \<or> c = CHR ''[''"
proof (cases v)
  case (MiString x)
  then show ?thesis using that by (simp add: mi_quote_def)
next
  case (MiList rs)
  then show ?thesis using that by (cases "tuple rs") auto
qed

lemma print_item_Cons:
  assumes "wf_item x"
  obtains c r where "print_item x = c # r" "\<not> is_gspace c" "c \<noteq> NUL" "c \<noteq> CHR ''}''" "c \<noteq> CHR '']''"
proof (cases x)
  case (MiResult var v)
  show ?thesis
  proof (cases var)
    case None
    then show ?thesis
      using print_value_start[of v] MiResult that by fastforce
  next
    case (Some n)
    with assms MiResult have n: "wf_name n" by simp
    then obtain c r where c: "n = c # r" by (cases n) (auto simp: wf_name_def)
    with n have "name_char c" "c \<noteq> NUL" by (auto simp: wf_name_def)
    with c Some MiResult that[of c] name_char_plain[of c] show ?thesis by simp
  qed
qed

lemma parse_value_none:
  "drop p s = c # r \<Longrightarrow> c \<noteq> DQ \<Longrightarrow> c \<noteq> CHR ''{'' \<Longrightarrow> c \<noteq> CHR ''['' \<Longrightarrow>
   parse_value (Suc f) s p = Some (None, p)"
  by (simp add: rd_drop)

lemma parse_result_name:
  assumes d: "drop p s = n @ CHR ''='' # x" and n: "wf_name n"
    and x: "x = c # r" "\<not> is_gspace c"
  shows "parse_result (Suc f) s p =
    do { (v, q) \<leftarrow> parse_value f s (Suc (p + length n)); Some (n, v, q) }"
proof -
  have d1: "drop (p + length n) s = CHR ''='' # x" by (rule drop_rest[OF d refl])
  have d2: "drop (Suc (p + length n)) s = c # r" using drop_Suc_rest[OF d1] x by simp
  show ?thesis
    using parse_string_name[OF d n] skip_while_stop[OF d1, of is_gspace]
      skip_while_stop[OF d2, of is_gspace] x(2) rd_drop[OF d1]
    by simp
qed

text \<open>The item of a list or tuple, as the loop of \<open>parse_value\<close> reads it.\<close>

definition parse_item :: "nat \<Rightarrow> block \<Rightarrow> nat \<Rightarrow> (mi_result option \<times> nat) option" where
  "parse_item f s p = do {
     (v, p) \<leftarrow> parse_value f s p;
     case v of
       Some v \<Rightarrow> Some (Some (MiResult None v), p)
     | None \<Rightarrow> do {
         (var, v, p) \<leftarrow> parse_result f s p;
         Some (map_option (MiResult (Some var)) v, p) } }"

lemma parse_items_item:
  assumes "parse_item f s p = Some (Some x, q)"
    and d: "drop p s = c # r" and c: "c \<noteq> NUL" "c \<noteq> close" "\<not> is_gspace c"
    and e: "drop q s = e # k" and "\<not> is_gspace e"
  shows "parse_items (Suc f) s close acc p =
    (if e \<noteq> CHR '','' then Some (acc @ [x], q) else parse_items f s close (acc @ [x]) (Suc q))"
proof -
  obtain v q' where v: "parse_value f s p = Some (v, q')"
    and x: "(case v of Some v \<Rightarrow> Some (Some (MiResult None v), q')
         | None \<Rightarrow> do { (var, v, p) \<leftarrow> parse_result f s q';
             Some (map_option (MiResult (Some var)) v, p) }) = Some (Some x, q)"
    using assms(1) by (auto simp: parse_item_def bind_eq_Some_conv)
  show ?thesis
    using x skip_while_stop[OF d, of is_gspace] skip_while_stop[OF e, of is_gspace] assms(7)
      rd_drop[OF d] rd_drop[OF e] c v
    by (simp split: option.splits) 
qed

lemma parse_items_print:
  assumes "\<forall>x\<in>set rs. \<forall>f p r. 2 * length (print_item x) \<le> f \<longrightarrow> drop p s = print_item x @ r \<longrightarrow>
      parse_item f s p = Some (Some x, p + length (print_item x))"
    and "\<forall>x\<in>set rs. wf_item x" and close: "close = CHR ''}'' \<or> close = CHR '']''"
    and "2 * length (join_comma (map print_item rs)) + 1 \<le> f"
    and "drop p s = join_comma (map print_item rs) @ close # r"
  shows "parse_items f s close acc p = Some (acc @ rs, p + length (join_comma (map print_item rs)))"
  using assms
proof (induction rs arbitrary: f p acc)
  case Nil
  then show ?case by (cases f) (auto simp: rd_drop)
next
  case (Cons x xs)
  obtain f' where f: "f = Suc f'" using Cons.prems by (cases f) auto
  obtain c k where c: "print_item x = c # k" "\<not> is_gspace c" "c \<noteq> NUL" "c \<noteq> CHR ''}''" "c \<noteq> CHR '']''"
    using print_item_Cons[of x] Cons.prems(2) by auto
  then have c': "c \<noteq> close" using close by auto
  let ?q = "p + length (print_item x)"
  show ?case
  proof (cases xs)
    case Nil
    with Cons.prems have d: "drop p s = print_item x @ close # r" by simp
    then have dc: "drop p s = c # k @ close # r" using c by simp
    have item: "parse_item f' s p = Some (Some x, ?q)"
      using Cons.prems(1,4) d f Nil by auto
    have dq: "drop ?q s = close # r" by (rule drop_rest[OF d refl])
    have "\<not> is_gspace close" "close \<noteq> CHR '',''" using close by auto
    with Nil show ?thesis
      using parse_items_item[OF item dc c(3) c' c(2) dq] f by simp
  next
    case C: (Cons y ys)
    let ?rest = "join_comma (map print_item xs)"
    from C Cons.prems have d: "drop p s = print_item x @ CHR '','' # ?rest @ close # r" by simp
    then have dc: "drop p s = c # k @ CHR '','' # ?rest @ close # r" using c by simp
    have item: "parse_item f' s p = Some (Some x, ?q)"
      using Cons.prems(1,4) d f C by auto
    have dq: "drop ?q s = CHR '','' # ?rest @ close # r" by (rule drop_rest[OF d refl])
    have "parse_items f' s close (acc @ [x]) (Suc ?q) = Some ((acc @ [x]) @ xs, Suc ?q + length ?rest)"
      using Cons.prems(1,2,4) close f C drop_Suc_rest[OF dq] by (intro Cons.IH) auto
    with C show ?thesis
      using parse_items_item[OF item dc c(3) c' c(2) dq] f by simp
  qed
qed

lemma join_comma_length:
  "x \<in> set xs \<Longrightarrow> length x \<le> length (join_comma xs)"
  by (induction xs rule: join_comma.induct) auto

lemma parse_print:
  "wf_value v \<Longrightarrow> 2 * length (print_value v) \<le> f \<Longrightarrow> drop p s = print_value v @ r \<Longrightarrow>
     parse_value f s p = Some (Some v, p + length (print_value v))"
  "wf_item i \<Longrightarrow> 2 * length (print_item i) \<le> f \<Longrightarrow> drop p s = print_item i @ r \<Longrightarrow>
     parse_item f s p = Some (Some i, p + length (print_item i))"
proof (induction v and i arbitrary: f p r and f p r)
  case (MiString x)
  then obtain f' where "f = Suc f'" by (cases f) (auto simp: mi_quote_def)
  moreover have d: "drop p s = mi_quote x @ r" using MiString by simp
  moreover have "rd s p = Some DQ" using d by (intro rd_drop) (simp add: mi_quote_def)
  ultimately show ?case using parse_cstring_quote[OF d] by simp
next
  case (MiList rs)
  let ?items = "join_comma (map print_item rs)"
  let ?close = "if tuple rs then CHR ''}'' else CHR '']''"
  let ?open = "if tuple rs then CHR ''{'' else CHR ''[''"
  have v: "print_value (MiList rs) = ?open # ?items @ [?close]" by simp
  obtain f' where f: "f = Suc f'"
    using MiList.prems(2) by (cases f) (auto simp: v simp del: print_value.simps)
  have d: "drop p s = ?open # ?items @ ?close # r" using MiList.prems(3) by (simp add: v)
  note d1 = drop_Suc_rest[OF d]
  have f'': "2 * length ?items + 1 \<le> f'" using MiList.prems(2) by (simp add: f v del: print_value.simps)
  have items: "parse_items f' s ?close [] (Suc p) = Some ([] @ rs, Suc p + length ?items)"
  proof (rule parse_items_print[OF _ _ _ f'' d1])
    show "\<forall>x\<in>set rs. \<forall>f p r. 2 * length (print_item x) \<le> f \<longrightarrow> drop p s = print_item x @ r \<longrightarrow>
      parse_item f s p = Some (Some x, p + length (print_item x))"
      using MiList by (auto simp: list_all_iff)
    show "\<forall>x\<in>set rs. wf_item x" using MiList.prems(1) by (auto simp: list_all_iff)
  qed auto
  have dc: "drop (Suc p + length ?items) s = ?close # r" by (rule drop_rest[OF d1 refl])
  show ?case
    using items rd_drop[OF d] rd_drop[OF dc]
    by (simp add: f v split: if_splits)
next
  case (MiResult var v)
  show ?case
  proof (cases var)
    case None
    with MiResult show ?thesis by (simp add: parse_item_def)
  next
    case (Some n)
    with MiResult.prems have n: "wf_name n" and v: "wf_value v"
      and len: "2 * (length n + 1 + length (print_value v)) \<le> f"
      and d: "drop p s = n @ CHR ''='' # print_value v @ r"
      by auto
    obtain f' where f: "f = Suc f'" using len by (cases f) auto
    obtain f2 where f2: "f' = Suc f2" using len f by (cases f') auto
    obtain c k where c: "n = c # k" using n by (cases n) (auto simp: wf_name_def)
    then have "name_char c" "c \<noteq> NUL" using n by (auto simp: wf_name_def)
    note plain = name_char_plain[OF this]
    have dn: "drop p s = c # k @ CHR ''='' # print_value v @ r" using d c by simp
    obtain e l where e: "print_value v = e # l" "e = DQ \<or> e = CHR ''{'' \<or> e = CHR ''[''"
      by (rule print_value_start)
    have e': "print_value v @ r = e # l @ r" "\<not> is_gspace e" using e by auto
    have dv: "drop (Suc (p + length n)) s = print_value v @ r"
      by (rule drop_Suc_rest[OF drop_rest[OF d refl]])
    have "parse_value f' s (Suc (p + length n))
        = Some (Some v, Suc (p + length n) + length (print_value v))"
      using v len f by (intro MiResult.IH[OF _ _ dv]) auto
    then show ?thesis
      using parse_result_name[OF d n e', of f'] parse_value_none[OF dn plain(2-4), of f'] Some
      by (simp add: parse_item_def f del: parse_value.simps parse_result.simps)
  qed
qed

lemma parse_result_print:
  assumes "wf_name n" "wf_value v" and len: "2 * length (print_item (MiResult (Some n) v)) \<le> f"
    and d: "drop p s = print_item (MiResult (Some n) v) @ r"
  shows "parse_result f s p = Some (n, Some v, p + length (print_item (MiResult (Some n) v)))"
proof -
  obtain f' where f: "f = Suc f'" using len by (cases f) auto
  have d: "drop p s = n @ CHR ''='' # print_value v @ r" using d by simp
  obtain e l where e: "print_value v = e # l" "e = DQ \<or> e = CHR ''{'' \<or> e = CHR ''[''"
    by (rule print_value_start)
  then have e': "print_value v @ r = e # l @ r" "\<not> is_gspace e" by auto
  have "parse_value f' s (Suc (p + length n)) = Some (Some v, Suc (p + length n) + length (print_value v))"
    using assms(2) len f by (intro parse_print(1)[OF _ _ drop_Suc_rest[OF drop_rest[OF d refl]]]) auto
  then show ?thesis
    using parse_result_name[OF d assms(1) e', of f'] by (simp add: f del: parse_result.simps)
qed

subsection \<open>Records as GDB prints them\<close>

definition print_results :: "mi_result list \<Rightarrow> string" where
  "print_results rs = concat (map (\<lambda>r. CHR '','' # print_item r) rs)"

definition stream_type :: "char \<Rightarrow> bool" where
  "stream_type t \<longleftrightarrow> t \<in> {CHR ''~'', CHR ''@'', CHR ''&''}"

definition result_type :: "char \<Rightarrow> bool" where
  "result_type t \<longleftrightarrow> t \<in> {CHR ''^'', CHR ''*'', CHR ''+'', CHR ''=''}"

definition print_mi_record :: "mi_record \<Rightarrow> string" where
  "print_mi_record r = (case rec_token r of None \<Rightarrow> [] | Some t \<Rightarrow> t) @ rec_type r #
     (case rec_klass r of None \<Rightarrow> []
      | Some k \<Rightarrow> if stream_type (rec_type r) then mi_quote k else k) @ print_results (rec_first r)"

definition wf_record :: "mi_record \<Rightarrow> bool" where
  "wf_record r \<longleftrightarrow>
     (case rec_token r of None \<Rightarrow> True | Some t \<Rightarrow> t \<noteq> [] \<and> list_all is_digit t) \<and>
     (case rec_klass r of None \<Rightarrow> False
      | Some k \<Rightarrow> if stream_type (rec_type r) then rec_first r = []
                  else result_type (rec_type r) \<and> wf_name k \<and>
                    list_all (\<lambda>i. wf_item i \<and> mi_var i \<noteq> None) (rec_first r))"

lemma record_results_print:
  assumes "list_all (\<lambda>i. wf_item i \<and> mi_var i \<noteq> None) rs"
    and "2 * length (print_results rs) + 1 \<le> f"
    and "drop p s = print_results rs @ e"
    and e: "e = NUL # r \<or> e = LF # NUL # r"
  shows "record_results f s acc p = Some (acc @ rs)"
  using assms(1-3)
proof (induction rs arbitrary: f p acc)
  case Nil
  obtain f' where f: "f = Suc f'" using Nil.prems(2) by (cases f) auto
  have d: "drop p s = e" using Nil.prems by (simp add: print_results_def)
  from e show ?case
  proof
    assume e: "e = NUL # r"
    show ?thesis using d by (simp add: f e rd_drop)
  next
    assume e: "e = LF # NUL # r"
    have d: "drop p s = [LF] @ NUL # r" using d e by simp
    have "skip_while is_gspace s p = Some (Suc p)"
      using skip_while_rest[OF d, of is_gspace] by simp
    moreover have "rd s (Suc p) = Some NUL" "rd s p = Some LF"
      using d drop_Suc_rest[of p s LF "NUL # r"] by (auto simp: rd_drop)
    ultimately show ?thesis by (simp add: f)
  qed
next
  case (Cons x xs)
  obtain f' where f: "f = Suc f'" using Cons.prems(2) by (cases f) auto
  obtain n v where x: "x = MiResult (Some n) v" "wf_name n" "wf_value v"
    using Cons.prems(1) by (cases x) auto
  have split: "print_results (x # xs) = CHR '','' # print_item x @ print_results xs"
    by (simp add: print_results_def)
  then have d: "drop p s = CHR '','' # print_item x @ print_results xs @ e"
    using Cons.prems(3) by simp
  note d1 = drop_Suc_rest[OF d]
  have "wf_item x" using Cons.prems(1) by simp
  then obtain c k where c: "print_item x = c # k" "\<not> is_gspace c"
    by (rule print_item_Cons)
  have d1': "drop (Suc p) s = c # k @ print_results xs @ e" using d1 c by simp
  let ?q = "Suc p + length (print_item x)"
  have r: "parse_result f' s (Suc p) = Some (n, Some v, ?q)"
    using parse_result_print[OF x(2,3) _ d1[unfolded x(1)], of f'] Cons.prems(2)
    by (simp add: f x(1) print_results_def)
  have "record_results f' s (acc @ [x]) ?q = Some ((acc @ [x]) @ xs)"
    using Cons.prems f by (intro Cons.IH drop_rest[OF d1 refl]) (auto simp: split)
  then show ?case
    using r rd_drop[OF d] skip_while_stop[OF d, of is_gspace] skip_while_stop[OF d1', of is_gspace] c x(1)
    by (simp add: f)
qed

lemma type_chars:
  assumes "stream_type t \<or> result_type t"
  shows "t \<noteq> NUL" "t \<noteq> CHR ''(''" "\<not> is_digit t" "\<not> is_gspace t"
  using assms by (auto simp: stream_type_def result_type_def char_class_defs)

lemma not_prompt:
  assumes "drop p s = c # r" "c \<noteq> NUL" "c \<noteq> CHR ''(''"
  shows "is_prompt s p = Some False"
  using assms by (simp add: is_prompt_def rd_drop)

lemma digit_chars: "is_digit c \<Longrightarrow> c \<noteq> NUL \<and> c \<noteq> CHR ''(''"
  by (auto simp: char_class_defs)

lemma record_roundtrip:
  assumes wf: "wf_record r" and d: "drop p s = print_mi_record r @ e"
    and e: "e = NUL # z \<and> (stream_type (rec_type r) \<or> rec_first r \<noteq> []) \<or> e = LF # NUL # z"
  shows "gdb_mi_record_parse s p = Some r"
proof -
  let ?t = "rec_type r"
  obtain k where k: "rec_klass r = Some k" using wf by (auto simp: wf_record_def split: option.splits)
  define body where "body = (if stream_type ?t then mi_quote k else k) @ print_results (rec_first r)"
  have t: "stream_type ?t \<or> result_type ?t"
    using wf k by (auto simp: wf_record_def split: if_splits)
  note tc = type_chars[OF t]
  define tok where "tok = (case rec_token r of None \<Rightarrow> [] | Some t \<Rightarrow> t)"
  have digits: "\<forall>x\<in>set tok. is_digit x"
    using wf by (auto simp: wf_record_def tok_def list_all_iff split: option.splits)
  have some: "rec_token r = (if tok = [] then None else Some tok)"
    using wf by (auto simp: wf_record_def tok_def split: option.splits)
  have d': "drop p s = tok @ ?t # body @ e"
    using d k by (simp add: print_mi_record_def body_def tok_def)
  let ?q = "p + length tok"
  note dt = drop_rest[OF d' refl]
  have prompt: "is_prompt s p = Some False"
  proof (cases tok)
    case Nil
    then show ?thesis using d' tc by (intro not_prompt) auto
  next
    case (Cons c cs)
    then have "is_digit c" using digits by simp
    with Cons show ?thesis using d' digit_chars[of c] by (intro not_prompt) auto
  qed
  have skip: "skip_while is_digit s p = Some ?q"
    using skip_while_rest[OF d' digits] tc by simp
  have NULtok: "NUL \<notin> set tok" using digits digit_chars by blast
  have token: "record_token s p = Some (rec_token r, ?q)"
    using strndup_drop[OF d' NULtok] skip_while_stop[OF dt, of is_gspace] tc some
    by (simp add: record_token_def skip)
  note db = drop_Suc_rest[OF dt]
  show ?thesis
  proof (cases "stream_type ?t")
    case True
    with wf k have first: "rec_first r = []" by (simp add: wf_record_def)
    with True have dq: "drop (Suc ?q) s = mi_quote k @ e" using db by (simp add: body_def print_results_def)
    then have "drop (Suc ?q) s = DQ # mi_escape k @ DQ # e" by (simp add: mi_quote_def)
    from skip_while_stop[OF this, of is_gspace]
    have "skip_while is_gspace s (Suc ?q) = Some (Suc ?q)" by simp
    moreover have "r = \<lparr>rec_type = ?t, rec_token = rec_token r, rec_klass = Some k, rec_first = []\<rparr>"
      using k first by simp
    ultimately show ?thesis
      using True tc parse_cstring_quote[OF dq]
      by (simp add: gdb_mi_record_parse_def prompt token rd_drop[OF dt] stream_type_def)
  next
    case False
    with wf k t have n: "wf_name k" "result_type ?t"
      and rs: "list_all (\<lambda>i. wf_item i \<and> mi_var i \<noteq> None) (rec_first r)"
      by (auto simp: wf_record_def)
    from False have dk: "drop (Suc ?q) s = k @ print_results (rec_first r) @ e" using db by (simp add: body_def)
    obtain c l where c: "k = c # l" using n by (cases k) (auto simp: wf_name_def)
    with n have "name_char c" "c \<noteq> NUL" by (auto simp: wf_name_def)
    note cp = name_char_plain[OF this]
    from dk c have "drop (Suc ?q) s = c # l @ print_results (rec_first r) @ e" by simp
    from skip_while_stop[OF this, of is_gspace] cp
    have skip2: "skip_while is_gspace s (Suc ?q) = Some (Suc ?q)" by simp
    obtain x w where x: "print_results (rec_first r) @ e = x # w" "\<not> name_char x"
    proof (cases "rec_first r")
      case Nil
      with e False that show ?thesis by (auto simp: print_results_def)
    next
      case (Cons a as)
      with that show ?thesis by (auto simp: print_results_def)
    qed
    have ps: "parse_string s (Suc ?q) = Some (k, Suc ?q + length k)"
      using parse_string_name[OF _ n(1) x(2)] dk x(1) by simp
    have "length (drop (Suc ?q) s) \<le> length s" by simp
    then have "2 * length (print_results (rec_first r)) + 1 \<le> parse_fuel s"
      unfolding dk parse_fuel_def by simp
    then have "record_results (parse_fuel s) s [] (Suc ?q + length k) = Some ([] @ rec_first r)"
      using e by (intro record_results_print[OF rs _ drop_rest[OF dk refl]]) auto
    moreover have "r = \<lparr>rec_type = ?t, rec_token = rec_token r, rec_klass = Some k, rec_first = rec_first r\<rparr>"
      using k by simp
    ultimately show ?thesis
      using False n tc ps
      by (simp add: gdb_mi_record_parse_def prompt token rd_drop[OF dt] stream_type_def
          result_type_def skip2)
  qed
qed

lemma class_end_fault:
  assumes t: "result_type t" and n: "wf_name k"
  shows "gdb_mi_record_parse (cstr (t # k)) 0 = None"
proof -
  let ?s = "cstr (t # k)"
  have d: "drop 0 ?s = t # k @ [NUL]" by (simp add: cstr_def)
  note d1 = drop_Suc_rest[OF d]
  note tc = type_chars[OF disjI2[OF t]]
  obtain c l where c: "k = c # l" using n by (cases k) (auto simp: wf_name_def)
  with n have c': "name_char c" "c \<noteq> NUL" "name_start c" by (auto simp: wf_name_def)
  note cp = name_char_plain[OF c'(1,2)]
  have d1': "drop (Suc 0) ?s = c # l @ [NUL]" using d1 c by simp
  have skip: "skip_while is_gspace ?s (Suc 0) = Some (Suc 0)"
    using skip_while_stop[OF d1', of is_gspace] cp by simp
  have "\<forall>x\<in>set (drop (Suc (Suc 0)) ?s). name_char x"
    unfolding drop_Suc_rest[OF d1'] using n c by (auto simp: wf_name_def list_all_iff name_char_def)
  from skip_while_fault[OF this] have "parse_string ?s (Suc 0) = None"
    using c' by (simp add: parse_string_def rd_drop[OF d1'])
  moreover have "record_token ?s 0 = Some (None, 0)"
    using skip_while_stop[OF d, of is_digit] tc by (simp add: record_token_def)
  ultimately show ?thesis
    using t tc skip by (simp add: gdb_mi_record_parse_def not_prompt[OF d] rd_drop[OF d] result_type_def Let_def)
      auto
qed

lemma gdb_mi_result_var_string:
  "gdb_mi_result_var rs n GDB_MI_VAL_STRING = Some x \<longleftrightarrow>
   gdb_mi_result_var_value rs n = Some x \<and> (\<exists>v. x = MiString v)"
  by (cases x) (auto simp: gdb_mi_result_var_def split: option.splits if_splits dest: mi_type.elims)

lemma match_names_True:
  "match_names rs ns = (True, outs) \<longleftrightarrow>
   (\<exists>vs. outs = map Some vs \<and>
     list_all2 (\<lambda>n v. gdb_mi_result_var_value rs n = Some (MiString v)) ns vs)"
proof (induction ns arbitrary: outs)
  case Nil
  show ?case by auto
next
  case (Cons n ns)
  show ?case
  proof (cases "gdb_mi_result_var rs n GDB_MI_VAL_STRING")
    case None
    then have "\<nexists>v. gdb_mi_result_var_value rs n = Some (MiString v)"
      using gdb_mi_result_var_string[of rs n] by auto
    with None show ?thesis by (auto simp: list_all2_Cons1)
  next
    case (Some x)
    then obtain v where x: "x = MiString v" "gdb_mi_result_var_value rs n = Some (MiString v)"
      using gdb_mi_result_var_string by auto
    have "match_names rs (n # ns) = (True, outs) \<longleftrightarrow>
        (\<exists>os. outs = Some v # os \<and> match_names rs ns = (True, os))"
      using Some x by (auto split: prod.splits)
    also have "\<dots> \<longleftrightarrow> (\<exists>vs. outs = Some v # map Some vs \<and>
        list_all2 (\<lambda>n v. gdb_mi_result_var_value rs n = Some (MiString v)) ns vs)"
      unfolding Cons.IH by blast
    also have "\<dots> \<longleftrightarrow> (\<exists>vs. outs = map Some vs \<and>
        list_all2 (\<lambda>n v. gdb_mi_result_var_value rs n = Some (MiString v)) (n # ns) vs)"
      using x by (auto simp: list_all2_Cons1 Cons_eq_map_conv)
    finally show ?thesis .
  qed
qed

subsection \<open>Properties\<close>


definition demo_record :: mi_record where
  "demo_record = \<lparr>rec_type = CHR ''*'', rec_token = Some ''12'', rec_klass = Some ''stopped'',
     rec_first = [MiResult (Some ''reason'') (MiString ''hit''),
       MiResult (Some ''frame'') (MiList [MiResult (Some ''args'') (MiList []),
          MiResult (Some ''file'') (MiString [DQ, CHR 0x80])])]\<rparr>"

lemma demo_record_text:
  "print_mi_record demo_record = ''12*stopped,reason='' @ DQ # ''hit'' @ DQ # '',frame={args=[],file='' @
     [DQ, BSL, DQ, BSL] @ ''200'' @ [DQ] @ ''}''"
  by code_simp

lemma demo_record_wf: "wf_record demo_record"
  by (simp add: demo_record_def wf_record_def stream_type_def result_type_def wf_name_def
      name_start_def name_char_def char_class_defs)


text \<open>Memory safety fails on a record that ends behind its class: \<open>strchr ("-_.", c)\<close> is true for
  the terminating \<open>NUL\<close>, so \<open>parse_string\<close> steps over it. For every class name the parser reads
  outside the line.
\<close>

theorem class_at_end_overreads:
  assumes "result_type t" and "wf_name k"
  shows "gdb_mi_record_parse (cstr (t # k)) 0 = None"
  using assms by (rule class_end_fault)

theorem class_at_end_overreads_witness: "gdb_mi_record_parse (cstr ''^done'') 0 = None"
  by (rule class_at_end_overreads)
    (simp_all add: result_type_def wf_name_def name_start_def name_char_def char_class_defs)

text \<open>A C-string constant in GDB's encoding (escaped quotes and backslashes, \<open>\n\<close>, \<open>\t\<close>, octal
  escapes for the other bytes) parses to the bytes it stands for, for every byte string, and the
  pointer ends behind the closing quote.
\<close>

theorem parse_cstring_mi_quote:
  assumes "drop p s = mi_quote x @ r"
  shows "parse_cstring s p = Some (x, p + length (mi_quote x))"
  using assms by (rule parse_cstring_quote)

theorem parse_cstring_mi_quote_witness:
  "parse_cstring ([DQ, CHR ''a'', BSL, CHR ''n'', BSL] @ ''303'' @ [DQ, CHR ''z'']) 0
     = Some ([CHR ''a'', LF, CHR 0xC3], 9)"
  by (subst parse_cstring_mi_quote[of 0 _ "[CHR ''a'', LF, CHR 0xC3]" "''z''"]) code_simp+



text \<open>
  \<open>gdb_mi_record_matches\<close> succeeds exactly when type and class are the expected ones and the
  first result of each requested name is a string, and then the locations receive those strings.
\<close>

theorem gdb_mi_record_matches_iff:
  assumes "rec_klass r = Some k"
  shows "gdb_mi_record_matches r ty klass names = Some (True, outs) \<longleftrightarrow>
     rec_type r = ty \<and> k = klass \<and>
     (\<exists>vs. outs = map Some vs \<and>
       list_all2 (\<lambda>n v. gdb_mi_result_var_value (rec_first r) n = Some (MiString v)) names vs)"
  using assms by (simp add: gdb_mi_record_matches_def match_names_True)

theorem gdb_mi_record_matches_iff_witness:
  "gdb_mi_record_matches demo_record (CHR ''*'') ''stopped'' [''reason''] = Some (True, [Some ''hit''])"
  by (subst gdb_mi_record_matches_iff[of demo_record "''stopped''"])
    (auto simp: demo_record_def intro!: exI[of _ "[''hit'']"])

end
