(* ===== verification/ScpData.thy ===== *)
theory ScpData
  imports Prelude Complex_Main "HOL-Library.Word"
begin

text \<open>
  The cells of the scope plugin's tree store (\<open>scope/src/store/scptreedata.c\<close> and \<open>.h\<close>): the types
  a column can have, the union \<open>ScpTreeData\<close> with one member per representation, the conversions
  from and to arguments and \<open>GValue\<close>s, copying, and the comparison function. Integers keep their
  width. A pointer is modelled by what it points to, so that taking a copy or a reference of it is
  the identity; the functions of GLib that the code asks are fields of the record \<open>glib\<close>.
\<close>

subsection \<open>Types\<close>

datatype fundamental = G_TYPE_INT | G_TYPE_UINT | G_TYPE_STRING | G_TYPE_BOOLEAN | G_TYPE_LONG
  | G_TYPE_ULONG | G_TYPE_FLOAT | G_TYPE_DOUBLE | G_TYPE_CHAR | G_TYPE_UCHAR | G_TYPE_INT64
  | G_TYPE_UINT64 | G_TYPE_ENUM | G_TYPE_FLAGS | G_TYPE_POINTER | G_TYPE_OBJECT | G_TYPE_BOXED
  | G_TYPE_VARIANT | G_TYPE_INTERFACE | G_TYPE_NONE | G_TYPE_INVALID

text \<open>
  A \<open>GType\<close> with what \<open>G_TYPE_FUNDAMENTAL\<close> says of it. A fundamental type is derived from no
  other, so between two of them \<open>g_type_is_a\<close> is equality.
\<close>

record gtype =
  gt_id :: nat
  gt_fundamental :: fundamental

definition fundamental_is_a :: "fundamental \<Rightarrow> fundamental \<Rightarrow> bool" where
  "fundamental_is_a f g \<longleftrightarrow> f = g"

text \<open>
  The code stores the fundamental type in \<open>type\<close> before it asks \<open>g_type_is_a (type, G_TYPE_OBJECT)\<close>.
\<close>

definition scp_tree_data_get_fundamental_type :: "gtype \<Rightarrow> fundamental" where
  "scp_tree_data_get_fundamental_type ty =
     (let ty = gt_fundamental ty in
      if ty = G_TYPE_INTERFACE \<and> fundamental_is_a ty G_TYPE_OBJECT then G_TYPE_OBJECT else ty)"

lemma scp_tree_data_get_fundamental_type_simp:
  "scp_tree_data_get_fundamental_type ty = gt_fundamental ty"
  by (simp add: scp_tree_data_get_fundamental_type_def fundamental_is_a_def Let_def)

definition scp_tree_data_types :: "fundamental list" where
  "scp_tree_data_types = [G_TYPE_INT, G_TYPE_UINT, G_TYPE_STRING, G_TYPE_BOOLEAN, G_TYPE_LONG,
     G_TYPE_ULONG, G_TYPE_FLOAT, G_TYPE_DOUBLE, G_TYPE_CHAR, G_TYPE_UCHAR, G_TYPE_INT64,
     G_TYPE_UINT64, G_TYPE_ENUM, G_TYPE_FLAGS, G_TYPE_POINTER, G_TYPE_OBJECT, G_TYPE_BOXED,
     G_TYPE_VARIANT]"

definition scp_tree_data_check_type :: "gtype \<Rightarrow> bool" where
  "scp_tree_data_check_type ty = (scp_tree_data_get_fundamental_type ty \<in> set scp_tree_data_types)"

text \<open>
  No interface type can be a column, not even one whose prerequisite is \<open>GObject\<close>: the test that
  should map it to \<open>G_TYPE_OBJECT\<close> is asked of the fundamental type and never holds.
\<close>

theorem scp_interface_columns_unsupported:
  "gt_fundamental ty = G_TYPE_INTERFACE \<Longrightarrow> \<not> scp_tree_data_check_type ty"
  by (simp add: scp_tree_data_check_type_def scp_tree_data_get_fundamental_type_simp scp_tree_data_types_def)

theorem scp_interface_columns_unsupported_witness:
  "\<not> scp_tree_data_check_type \<lparr>gt_id = 2, gt_fundamental = G_TYPE_INTERFACE\<rparr>"
  by (rule scp_interface_columns_unsupported) simp

subsection \<open>The union\<close>

text \<open>Floating-point values up to the order the code sees: not a number, infinities, reals.\<close>

datatype flt = Nan | Neg_Inf | Fin rat | Pos_Inf

fun flt_less :: "flt \<Rightarrow> flt \<Rightarrow> bool" where
  "flt_less Nan y = False"
| "flt_less x Nan = False"
| "flt_less Neg_Inf y = (y \<noteq> Neg_Inf)"
| "flt_less (Fin a) (Fin b) = (a < b)"
| "flt_less (Fin a) Neg_Inf = False"
| "flt_less (Fin a) Pos_Inf = True"
| "flt_less Pos_Inf y = False"

datatype ptr = NULL | To_String string | To_Object nat

text \<open>
  \<open>union _ScpTreeData\<close>. \<open>g_slice_alloc0\<close> gives a cell of zero bytes. A cell is only ever read
  through the member that its column type wrote (\<open>data_ok\<close> below, kept by every operation), so
  the readers need no meaning for another member: they give zero there.
\<close>

datatype scp_data = V_zero | V_char "8 word" | V_uchar "8 word" | V_int "32 word" | V_uint "32 word"
  | V_long "64 word" | V_ulong "64 word" | V_int64 "64 word" | V_uint64 "64 word"
  | V_float flt | V_double flt | V_pointer ptr

fun v_char :: "scp_data \<Rightarrow> 8 word" where "v_char (V_char w) = w" | "v_char _ = 0"
fun v_uchar :: "scp_data \<Rightarrow> 8 word" where "v_uchar (V_uchar w) = w" | "v_uchar _ = 0"
fun v_int :: "scp_data \<Rightarrow> 32 word" where "v_int (V_int w) = w" | "v_int _ = 0"
fun v_uint :: "scp_data \<Rightarrow> 32 word" where "v_uint (V_uint w) = w" | "v_uint _ = 0"
fun v_long :: "scp_data \<Rightarrow> 64 word" where "v_long (V_long w) = w" | "v_long _ = 0"
fun v_ulong :: "scp_data \<Rightarrow> 64 word" where "v_ulong (V_ulong w) = w" | "v_ulong _ = 0"
fun v_int64 :: "scp_data \<Rightarrow> 64 word" where "v_int64 (V_int64 w) = w" | "v_int64 _ = 0"
fun v_uint64 :: "scp_data \<Rightarrow> 64 word" where "v_uint64 (V_uint64 w) = w" | "v_uint64 _ = 0"
fun v_float :: "scp_data \<Rightarrow> flt" where "v_float (V_float x) = x" | "v_float _ = Fin 0"
fun v_double :: "scp_data \<Rightarrow> flt" where "v_double (V_double x) = x" | "v_double _ = Fin 0"
fun v_pointer :: "scp_data \<Rightarrow> ptr" where "v_pointer (V_pointer p) = p" | "v_pointer _ = NULL"

fun v_string :: "scp_data \<Rightarrow> string option" where
  "v_string (V_pointer (To_String s)) = Some s"
| "v_string _ = None"

text \<open>The member a column type uses.\<close>

fun data_ok :: "fundamental \<Rightarrow> scp_data \<Rightarrow> bool" where
  "data_ok f V_zero = True"
| "data_ok f (V_char _) = (f = G_TYPE_CHAR)"
| "data_ok f (V_uchar _) = (f = G_TYPE_UCHAR)"
| "data_ok f (V_int _) = (f \<in> {G_TYPE_INT, G_TYPE_ENUM, G_TYPE_BOOLEAN})"
| "data_ok f (V_uint _) = (f \<in> {G_TYPE_UINT, G_TYPE_FLAGS})"
| "data_ok f (V_long _) = (f = G_TYPE_LONG)"
| "data_ok f (V_ulong _) = (f = G_TYPE_ULONG)"
| "data_ok f (V_int64 _) = (f = G_TYPE_INT64)"
| "data_ok f (V_uint64 _) = (f = G_TYPE_UINT64)"
| "data_ok f (V_float _) = (f = G_TYPE_FLOAT)"
| "data_ok f (V_double _) = (f = G_TYPE_DOUBLE)"
| "data_ok f (V_pointer _) =
     (f \<in> {G_TYPE_STRING, G_TYPE_POINTER, G_TYPE_OBJECT, G_TYPE_BOXED, G_TYPE_VARIANT})"

subsection \<open>Conversions\<close>

text \<open>
  A \<open>GValue\<close>: its type and its content, in the member that \<open>g_value_init\<close> of that type uses.
\<close>

record gvalue =
  gv_type :: gtype
  gv_data :: scp_data

text \<open>The member that the reading function of a fundamental type copies out of a cell.\<close>

definition read_as :: "fundamental \<Rightarrow> scp_data \<Rightarrow> scp_data option" where
  "read_as f d = (case f of
     G_TYPE_INT \<Rightarrow> Some (V_int (v_int d)) | G_TYPE_UINT \<Rightarrow> Some (V_uint (v_uint d))
   | G_TYPE_STRING \<Rightarrow> Some (V_pointer (v_pointer d)) | G_TYPE_BOOLEAN \<Rightarrow> Some (V_int (v_int d))
   | G_TYPE_LONG \<Rightarrow> Some (V_long (v_long d)) | G_TYPE_ULONG \<Rightarrow> Some (V_ulong (v_ulong d))
   | G_TYPE_FLOAT \<Rightarrow> Some (V_float (v_float d)) | G_TYPE_DOUBLE \<Rightarrow> Some (V_double (v_double d))
   | G_TYPE_CHAR \<Rightarrow> Some (V_char (v_char d)) | G_TYPE_UCHAR \<Rightarrow> Some (V_uchar (v_uchar d))
   | G_TYPE_INT64 \<Rightarrow> Some (V_int64 (v_int64 d)) | G_TYPE_UINT64 \<Rightarrow> Some (V_uint64 (v_uint64 d))
   | G_TYPE_ENUM \<Rightarrow> Some (V_int (v_int d)) | G_TYPE_FLAGS \<Rightarrow> Some (V_uint (v_uint d))
   | G_TYPE_POINTER \<Rightarrow> Some (V_pointer (v_pointer d)) | G_TYPE_OBJECT \<Rightarrow> Some (V_pointer (v_pointer d))
   | G_TYPE_BOXED \<Rightarrow> Some (V_pointer (v_pointer d)) | G_TYPE_VARIANT \<Rightarrow> Some (V_pointer (v_pointer d))
   | _ \<Rightarrow> None)"

text \<open>
  \<open>scp_tree_data_to_value\<close>: for a type that is not supported the value keeps the zero that
  \<open>g_value_init\<close> gave it.
\<close>

definition normal_bool :: "scp_data \<Rightarrow> scp_data" where
  "normal_bool d = V_int (if v_int d \<noteq> 0 then 1 else 0)"

definition scp_tree_data_to_value :: "scp_data \<Rightarrow> gtype \<Rightarrow> gvalue" where
  "scp_tree_data_to_value d ty =
     (let f = scp_tree_data_get_fundamental_type ty in
      \<lparr>gv_type = ty, gv_data =
         (if f = G_TYPE_BOOLEAN then normal_bool d
          else case read_as f d of Some v \<Rightarrow> v | None \<Rightarrow> V_zero)\<rparr>)"

text \<open>
  \<open>scp_tree_data_to_pointer\<close>: what is stored at \<open>dest\<close>; \<^term>\<open>None\<close> when nothing is.
\<close>

definition scp_tree_data_to_pointer :: "scp_data \<Rightarrow> gtype \<Rightarrow> scp_data option" where
  "scp_tree_data_to_pointer d ty =
     (let f = scp_tree_data_get_fundamental_type ty in
      if f = G_TYPE_BOOLEAN then Some (normal_bool d) else read_as f d)"

text \<open>
  \<open>scp_tree_data_from_value\<close>. Copying duplicates what a pointer refers to, which is the identity
  on the model's pointers; \<open>old\<close> is the cell before, which stays for an unsupported type.
\<close>

definition scp_tree_data_from_value :: "scp_data \<Rightarrow> gvalue \<Rightarrow> bool \<Rightarrow> scp_data" where
  "scp_tree_data_from_value old v copy =
     (case read_as (scp_tree_data_get_fundamental_type (gv_type v)) (gv_data v) of
        Some d \<Rightarrow> d
      | None \<Rightarrow> old)"

text \<open>
  \<open>scp_tree_data_assign_pointer\<close>. The branch of \<open>G_TYPE_BOXED\<close> copies the pointer that the cell
  held before, not \<open>ptr\<close>; \<open>g_boxed_copy\<close> of \<open>NULL\<close> is \<open>NULL\<close>.
\<close>

definition scp_tree_data_assign_pointer :: "scp_data \<Rightarrow> gtype \<Rightarrow> ptr \<Rightarrow> bool \<Rightarrow> scp_data" where
  "scp_tree_data_assign_pointer d ty p copy =
     (case scp_tree_data_get_fundamental_type ty of
        G_TYPE_STRING \<Rightarrow> V_pointer p
      | G_TYPE_POINTER \<Rightarrow> V_pointer p
      | G_TYPE_OBJECT \<Rightarrow> V_pointer p
      | G_TYPE_BOXED \<Rightarrow> V_pointer (if copy \<and> p \<noteq> NULL then v_pointer d else p)
      | G_TYPE_VARIANT \<Rightarrow> V_pointer p
      | _ \<Rightarrow> d)"

definition plain_types :: "fundamental list" where
  "plain_types = [G_TYPE_INT, G_TYPE_UINT, G_TYPE_BOOLEAN, G_TYPE_LONG, G_TYPE_ULONG, G_TYPE_FLOAT,
     G_TYPE_DOUBLE, G_TYPE_CHAR, G_TYPE_UCHAR, G_TYPE_INT64, G_TYPE_UINT64, G_TYPE_ENUM, G_TYPE_FLAGS]"

definition scp_tree_data_copy :: "scp_data \<Rightarrow> scp_data \<Rightarrow> gtype \<Rightarrow> scp_data" where
  "scp_tree_data_copy d new ty =
     (if scp_tree_data_get_fundamental_type ty \<in> set plain_types then d
      else scp_tree_data_assign_pointer new ty (v_pointer d) True)"

text \<open>
  Variadic arguments: a value of the type that the default promotions give it. A \<open>double\<close> carries
  its conversion to \<open>float\<close>. Reading an argument of another type is undefined behaviour, a fault.
\<close>

datatype arg = A_int "32 word" | A_unsigned "32 word" | A_long "64 word" | A_ulong "64 word"
  | A_int64 "64 word" | A_uint64 "64 word" | A_double flt flt | A_pointer ptr

text \<open>\<open>scp_tree_data_from_stack\<close>: the cell and the arguments that are left.\<close>

definition scp_tree_data_from_stack ::
  "scp_data \<Rightarrow> gtype \<Rightarrow> arg list \<Rightarrow> bool \<Rightarrow> (scp_data \<times> arg list) option" where
  "scp_tree_data_from_stack d ty ap copy =
     (let f = scp_tree_data_get_fundamental_type ty in
      if f \<notin> set scp_tree_data_types then Some (d, ap)
      else case ap of
        [] \<Rightarrow> None
      | a # ap \<Rightarrow> (case a of
          A_int w \<Rightarrow>
            if f = G_TYPE_INT \<or> f = G_TYPE_ENUM then Some (V_int w, ap)
            else if f = G_TYPE_BOOLEAN then Some (V_int (if w \<noteq> 0 then 1 else 0), ap)
            else if f = G_TYPE_CHAR then Some (V_char (ucast w), ap)
            else None
        | A_unsigned w \<Rightarrow>
            if f = G_TYPE_UINT \<or> f = G_TYPE_FLAGS then Some (V_uint w, ap)
            else if f = G_TYPE_UCHAR then Some (V_uchar (ucast w), ap)
            else None
        | A_long w \<Rightarrow> if f = G_TYPE_LONG then Some (V_long w, ap) else None
        | A_ulong w \<Rightarrow> if f = G_TYPE_ULONG then Some (V_ulong w, ap) else None
        | A_int64 w \<Rightarrow> if f = G_TYPE_INT64 then Some (V_int64 w, ap) else None
        | A_uint64 w \<Rightarrow> if f = G_TYPE_UINT64 then Some (V_uint64 w, ap) else None
        | A_double x y \<Rightarrow>
            if f = G_TYPE_FLOAT then Some (V_float y, ap)
            else if f = G_TYPE_DOUBLE then Some (V_double x, ap)
            else None
        | A_pointer p \<Rightarrow>
            if f \<in> {G_TYPE_POINTER, G_TYPE_STRING, G_TYPE_OBJECT, G_TYPE_BOXED, G_TYPE_VARIANT}
            then Some (scp_tree_data_assign_pointer d ty p copy, ap)
            else None))"

subsection \<open>Comparison\<close>

definition scp_compare :: "('a \<Rightarrow> 'a \<Rightarrow> bool) \<Rightarrow> 'a \<Rightarrow> 'a \<Rightarrow> int" where
  "scp_compare lt a b = (if lt a b then -1 else if lt b a then 1 else 0)"

text \<open>\<open>g_strcmp0\<close>: \<open>NULL\<close> sorts before every string.\<close>

fun g_strcmp0 :: "string option \<Rightarrow> string option \<Rightarrow> int" where
  "g_strcmp0 None None = 0"
| "g_strcmp0 None (Some _) = -1"
| "g_strcmp0 (Some _) None = 1"
| "g_strcmp0 (Some a) (Some b) = strcmp a b"

definition scp_tree_data_compare_func :: "scp_data \<Rightarrow> scp_data \<Rightarrow> gtype \<Rightarrow> int" where
  "scp_tree_data_compare_func a b ty =
     (case scp_tree_data_get_fundamental_type ty of
        G_TYPE_ENUM \<Rightarrow> scp_compare (<) (sint (v_int a)) (sint (v_int b))
      | G_TYPE_INT \<Rightarrow> scp_compare (<) (sint (v_int a)) (sint (v_int b))
      | G_TYPE_FLAGS \<Rightarrow> scp_compare (<) (uint (v_uint a)) (uint (v_uint b))
      | G_TYPE_UINT \<Rightarrow> scp_compare (<) (uint (v_uint a)) (uint (v_uint b))
      | G_TYPE_STRING \<Rightarrow> g_strcmp0 (v_string a) (v_string b)
      | G_TYPE_BOOLEAN \<Rightarrow> of_bool (v_int a \<noteq> 0) - of_bool (v_int b \<noteq> 0)
      | G_TYPE_LONG \<Rightarrow> scp_compare (<) (sint (v_long a)) (sint (v_long b))
      | G_TYPE_ULONG \<Rightarrow> scp_compare (<) (uint (v_ulong a)) (uint (v_ulong b))
      | G_TYPE_FLOAT \<Rightarrow> scp_compare flt_less (v_float a) (v_float b)
      | G_TYPE_DOUBLE \<Rightarrow> scp_compare flt_less (v_double a) (v_double b)
      | G_TYPE_CHAR \<Rightarrow> sint (v_char a) - sint (v_char b)
      | G_TYPE_UCHAR \<Rightarrow> uint (v_uchar a) - uint (v_uchar b)
      | G_TYPE_INT64 \<Rightarrow> scp_compare (<) (sint (v_int64 a)) (sint (v_int64 b))
      | G_TYPE_UINT64 \<Rightarrow> scp_compare (<) (uint (v_uint64 a)) (uint (v_uint64 b))
      | _ \<Rightarrow> 0)"

definition scp_tree_data_value_compare_func :: "gvalue \<Rightarrow> gvalue \<Rightarrow> int" where
  "scp_tree_data_value_compare_func a b =
     scp_tree_data_compare_func (scp_tree_data_from_value V_zero a False)
       (scp_tree_data_from_value V_zero b False) (gv_type a)"

subsection \<open>Typed cells\<close>

lemma read_as_ok: "read_as f d = Some v \<Longrightarrow> data_ok f v"
  by (cases f) (auto simp: read_as_def)

lemma normal_bool_ok: "data_ok G_TYPE_BOOLEAN (normal_bool d)"
  by (simp add: normal_bool_def)

lemma assign_pointer_ok:
  "scp_tree_data_get_fundamental_type ty = f \<Longrightarrow> data_ok f d \<Longrightarrow>
   data_ok f (scp_tree_data_assign_pointer d ty p copy)"
  by (cases f) (auto simp: scp_tree_data_assign_pointer_def)

lemma from_value_ok:
  "scp_tree_data_get_fundamental_type (gv_type v) = f \<Longrightarrow> data_ok f d \<Longrightarrow>
   data_ok f (scp_tree_data_from_value d v copy)"
  by (auto simp: scp_tree_data_from_value_def read_as_ok split: option.splits)

lemma from_stack_ok:
  "scp_tree_data_from_stack d ty ap copy = Some (v, rest) \<Longrightarrow>
   data_ok (scp_tree_data_get_fundamental_type ty) d \<Longrightarrow>
   data_ok (scp_tree_data_get_fundamental_type ty) v"
  by (auto simp: scp_tree_data_from_stack_def Let_def assign_pointer_ok
      split: if_splits list.splits arg.splits)

lemma copy_ok:
  "data_ok (scp_tree_data_get_fundamental_type ty) d \<Longrightarrow>
   data_ok (scp_tree_data_get_fundamental_type ty) new \<Longrightarrow>
   data_ok (scp_tree_data_get_fundamental_type ty) (scp_tree_data_copy d new ty)"
  by (simp add: scp_tree_data_copy_def assign_pointer_ok)

subsection \<open>The comparison is a total preorder\<close>

lemma scp_compare_linear:
  "comparator (scp_compare ((<) :: 'a::linorder \<Rightarrow> _)) UNIV"
  by unfold_locales (auto simp: scp_compare_def split: if_splits)

lemma comparator_on:
  "comparator c UNIV \<Longrightarrow> comparator (\<lambda>a b. c (f a) (f b)) D"
  unfolding comparator_def by (metis UNIV_I)

lemma strcmp_comparator: "comparator strcmp UNIV"
proof
  show "sgn (strcmp y x) = - sgn (strcmp x y)" for x y
    by (simp add: strcmp_flip[of y x])
qed (rule strcmp_trans)

lemma g_strcmp0_flip: "g_strcmp0 y x = - g_strcmp0 x y"
  by (cases x; cases y) (simp_all flip: strcmp_flip)

lemma g_strcmp0_comparator: "comparator g_strcmp0 UNIV"
proof
  show "sgn (g_strcmp0 y x) = - sgn (g_strcmp0 x y)" for x y
    by (simp add: g_strcmp0_flip[of y x])
  show "g_strcmp0 x z \<le> 0" if "g_strcmp0 x y \<le> 0" "g_strcmp0 y z \<le> 0" for x y z
    using that by (cases x; cases y; cases z) (simp_all add: strcmp_trans)
qed

lemma difference_comparator: "comparator (\<lambda>a b :: int. a - b) UNIV"
  by unfold_locales (auto simp: sgn_if)

definition number :: "flt \<Rightarrow> bool" where
  "number x \<longleftrightarrow> x \<noteq> Nan"

lemma flt_comparator: "comparator (scp_compare flt_less) {x. number x}"
proof
  show "sgn (scp_compare flt_less y x) = - sgn (scp_compare flt_less x y)"
    if "x \<in> {x. number x}" "y \<in> {x. number x}" for x y
    using that by (cases x; cases y) (auto simp: scp_compare_def number_def)
  show "scp_compare flt_less x z \<le> 0"
    if "x \<in> {x. number x}" "y \<in> {x. number x}" "z \<in> {x. number x}"
      "scp_compare flt_less x y \<le> 0" "scp_compare flt_less y z \<le> 0" for x y z
    using that by (cases x; cases y; cases z) (auto simp: scp_compare_def number_def split: if_splits)
qed

text \<open>The cells on which the comparison of a type is an order: no cell of a float type is a NaN.\<close>

definition ordered :: "gtype \<Rightarrow> scp_data \<Rightarrow> bool" where
  "ordered ty d \<longleftrightarrow>
     (case scp_tree_data_get_fundamental_type ty of
        G_TYPE_FLOAT \<Rightarrow> number (v_float d)
      | G_TYPE_DOUBLE \<Rightarrow> number (v_double d)
      | _ \<Rightarrow> True)"


lemmas linear_cells = comparator_on[OF scp_compare_linear]
lemmas string_cells = comparator_on[OF g_strcmp0_comparator]
lemmas bool_cells = comparator_on[OF difference_comparator, of "\<lambda>d. of_bool (v_int d \<noteq> 0)"]
lemmas difference_cells = comparator_on[OF difference_comparator]

lemma float_cells:
  "comparator (\<lambda>a b. scp_compare flt_less (g a) (g b)) {d. number (g d)}"
proof
  show "sgn (scp_compare flt_less (g y) (g x)) = - sgn (scp_compare flt_less (g x) (g y))"
    if "x \<in> {d. number (g d)}" "y \<in> {d. number (g d)}" for x y
    using comparator.flip[OF flt_comparator, of "g x" "g y"] that by simp
  show "scp_compare flt_less (g x) (g z) \<le> 0"
    if "x \<in> {d. number (g d)}" "y \<in> {d. number (g d)}" "z \<in> {d. number (g d)}"
      "scp_compare flt_less (g x) (g y) \<le> 0" "scp_compare flt_less (g y) (g z) \<le> 0" for x y z
    using comparator.trans[OF flt_comparator, of "g x" "g y" "g z"] that by simp
qed

lemma constant_cells: "comparator (\<lambda>a b. 0) D"
  by unfold_locales simp_all

lemma cell_comparator: "comparator (\<lambda>a b. scp_tree_data_compare_func a b ty) {d. ordered ty d}"
  by (cases "scp_tree_data_get_fundamental_type ty")
    (simp_all only: scp_tree_data_compare_func_def ordered_def fundamental.case,
      (rule linear_cells string_cells bool_cells difference_cells float_cells constant_cells)+)

interpretation cell: comparator "\<lambda>a b. scp_tree_data_compare_func a b ty" "{d. ordered ty d}" for ty
  by (rule cell_comparator)

text \<open>
  C33: For every column type, \<open>scp_tree_data_compare_func\<close> is a total preorder on the cells of that
  type that are no NaN: swapping the arguments flips the sign, and it is transitive. Sorting and
  binary search of the store rest on it.
\<close>

theorem scp_tree_data_compare_comparator:
  "comparator (\<lambda>a b. scp_tree_data_compare_func a b ty) {d. ordered ty d}"
  by (rule cell_comparator)

text \<open>\<open>scp_tree_data_copy\<close> makes the new cell equal to the source for every supported type except
  a non-\<open>NULL\<close> boxed one, where the new cell receives a copy of its own old pointer: a freshly
  allocated cell stays \<open>NULL\<close>.
\<close>

theorem scp_tree_data_copy_result:
  assumes "data_ok (scp_tree_data_get_fundamental_type ty) d" and "scp_tree_data_check_type ty"
    and "d \<noteq> V_zero"
  shows "scp_tree_data_copy d V_zero ty =
    (if scp_tree_data_get_fundamental_type ty = G_TYPE_BOXED then V_pointer NULL else d)"
  using assms
  by (cases d; cases "scp_tree_data_get_fundamental_type ty")
    (auto simp: scp_tree_data_copy_def scp_tree_data_assign_pointer_def plain_types_def
      scp_tree_data_check_type_def scp_tree_data_types_def)

theorem scp_tree_data_copy_result_witness:
  "scp_tree_data_copy (V_pointer (To_Object 7)) V_zero
     \<lparr>gt_id = 1, gt_fundamental = G_TYPE_BOXED\<rparr> = V_pointer NULL"
  by (subst scp_tree_data_copy_result)
    (simp_all add: scp_tree_data_get_fundamental_type_simp scp_tree_data_check_type_def
      scp_tree_data_types_def)

end
