(* ===== verification/ScpStore.thy ===== *)
theory ScpStore
  imports ScpData
begin

text \<open>
  The state of the scope plugin's tree store (\<open>scope/src/store/scptreestore.c\<close>) and the functions
  that only read it. Elements and pointer arrays live in a heap: two partial maps from addresses,
  whose domains are what is allocated, and the next fresh address. Reading through an address that
  is not allocated, or outside an array, is the fault \<^term>\<open>None\<close>. An iterator is a stamp, the
  address of an array and an index. Loops up the parents and recursion down the children carry
  fuel; \<^term>\<open>next_addr\<close> is always enough, because a parent is older than its children.
\<close>

subsection \<open>State\<close>

type_synonym addr = nat
type_synonym row = "scp_data list"
type_synonym path = "int list"

text \<open>
  \<open>struct _AElem\<close>: parent, children (\<open>NULL\<close> is \<^term>\<open>None\<close>) and one cell per column.
\<close>

record aelem =
  ae_parent :: "addr option"
  ae_children :: "addr option"
  ae_data :: row

text \<open>\<open>GtkTreeIter\<close>: \<open>user_data\<close> is the array, \<open>user_data2\<close> the index.\<close>

record iter =
  it_stamp :: "32 word"
  it_array :: "addr option"
  it_index :: int

text \<open>
  A \<open>GtkTreeIterCompareFunc\<close>: the store's own function, or one of the application, which GTK
  requires to depend on the two rows (and its user data) only.
\<close>

datatype compare_func = Model_Compare | User_Compare "int \<Rightarrow> row \<Rightarrow> row \<Rightarrow> int"

fun is_model_compare :: "compare_func option \<Rightarrow> bool" where
  "is_model_compare (Some Model_Compare) = True"
| "is_model_compare _ = False"

record header =
  hdr_type :: gtype
  hdr_utf8_collate :: bool
  hdr_func :: "compare_func option"
  hdr_data :: int
  hdr_destroy :: bool

datatype sort_order = GTK_SORT_ASCENDING | GTK_SORT_DESCENDING

text \<open>
  The signals the store emits, in order. A path is \<^term>\<open>None\<close> where the code passes \<open>NULL\<close>. The
  handlers of the application run outside the model and do not call back into the store.
\<close>

datatype signal = Row_Inserted "path option" iter | Row_Deleted "path option"
  | Row_Changed "path option" iter | Row_Has_Child_Toggled "path option" iter
  | Rows_Reordered "path option" "iter option" "int list" | Sort_Column_Changed
  | Destroy_Notify int

text \<open>\<open>struct _ScpTreeStorePrivate\<close>, with the heap. \<open>default_header\<close> is \<open>headers[-1]\<close>.\<close>

record store =
  stamp :: "32 word"
  root :: addr
  roar :: addr
  n_columns :: nat
  headers :: "header list"
  default_header :: header
  sort_column_id :: int
  sort_order :: sort_order
  sort_func :: "compare_func option"
  sublevels :: bool
  toplevel_reserved :: nat
  sublevel_reserved :: nat
  sublevel_discard :: bool
  columns_dirty :: bool
  elems :: "addr \<Rightarrow> aelem option"
  arrays :: "addr \<Rightarrow> addr list option"
  next_addr :: addr
  signals :: "signal list"

text \<open>The functions of GLib the code calls on data it does not interpret itself.\<close>

record glib =
  g_utf8_collate :: "string \<Rightarrow> string \<Rightarrow> int"
  g_utf8_collate_key :: "string \<Rightarrow> string"
  g_type_is_a :: "gtype \<Rightarrow> gtype \<Rightarrow> bool"
  g_value_transform :: "gvalue \<Rightarrow> gtype \<Rightarrow> gvalue option"
  g_qsort_with_data :: "(int \<Rightarrow> int \<Rightarrow> int) \<Rightarrow> int list \<Rightarrow> int list"

definition emit :: "signal \<Rightarrow> store \<Rightarrow> store" where
  "emit sig s = s\<lparr>signals := signals s @ [sig]\<rparr>"

definition set_array :: "addr \<Rightarrow> addr list \<Rightarrow> store \<Rightarrow> store" where
  "set_array a xs s = s\<lparr>arrays := (arrays s)(a \<mapsto> xs)\<rparr>"

definition set_elem :: "addr \<Rightarrow> aelem \<Rightarrow> store \<Rightarrow> store" where
  "set_elem e x s = s\<lparr>elems := (elems s)(e \<mapsto> x)\<rparr>"

definition UNSORTED :: int where "UNSORTED = -2"
definition DEFAULT_SORT :: int where "DEFAULT_SORT = -1"

subsection \<open>Iterators\<close>

definition mk_iter :: "store \<Rightarrow> addr \<Rightarrow> int \<Rightarrow> iter" where
  "mk_iter s a i = \<lparr>it_stamp = stamp s, it_array = Some a, it_index = i\<rparr>"

definition VALID_ITER :: "iter \<Rightarrow> store \<Rightarrow> bool" where
  "VALID_ITER it s \<longleftrightarrow> it_array it \<noteq> None \<and> stamp s = it_stamp it"

definition VALID_ITER_OR_NULL :: "iter option \<Rightarrow> store \<Rightarrow> bool" where
  "VALID_ITER_OR_NULL it s \<longleftrightarrow> (case it of None \<Rightarrow> True | Some it \<Rightarrow> VALID_ITER it s)"

text \<open>\<open>ITER_ARRAY (iter)->pdata[i]\<close>\<close>

definition elem_at :: "store \<Rightarrow> addr \<Rightarrow> int \<Rightarrow> addr option" where
  "elem_at s a i = do { xs \<leftarrow> arrays s a; nth_int xs i }"

definition ITER_ELEM :: "iter \<Rightarrow> store \<Rightarrow> addr option" where
  "ITER_ELEM it s = do { a \<leftarrow> it_array it; elem_at s a (it_index it) }"

definition parent_elem :: "iter option \<Rightarrow> store \<Rightarrow> addr option" where
  "parent_elem parent s = (case parent of None \<Rightarrow> Some (root s) | Some it \<Rightarrow> ITER_ELEM it s)"

text \<open>The array of children of an element: \<^term>\<open>Some None\<close> when there is none.\<close>

definition children_of :: "addr \<Rightarrow> store \<Rightarrow> addr option option" where
  "children_of e s = map_option ae_children (elems s e)"

definition children_len :: "addr option \<Rightarrow> store \<Rightarrow> nat option" where
  "children_len c s = (case c of None \<Rightarrow> Some 0 | Some a \<Rightarrow> map_option length (arrays s a))"

fun scp_ptr_array_find :: "addr list \<Rightarrow> addr \<Rightarrow> int" where
  "scp_ptr_array_find [] e = -1"
| "scp_ptr_array_find (x # xs) e =
     (if x = e then 0 else let i = scp_ptr_array_find xs e in if i = -1 then -1 else i + 1)"

text \<open>
  The loop of \<open>scp_tree_store_get_path\<close> from an element up to the root. \<^term>\<open>Some None\<close> is the
  \<open>NULL\<close> it returns when an element is not among its parent's children.
\<close>

fun path_above :: "nat \<Rightarrow> store \<Rightarrow> addr \<Rightarrow> path \<Rightarrow> path option option" where
  "path_above 0 s e p = None"
| "path_above (Suc f) s e p = do {
     x \<leftarrow> elems s e;
     (case ae_parent x of
        None \<Rightarrow> Some (Some p)
      | Some q \<Rightarrow> do {
          y \<leftarrow> elems s q;
          a \<leftarrow> ae_children y;
          xs \<leftarrow> arrays s a;
          let i = scp_ptr_array_find xs e;
          if i = -1 then Some None else path_above f s q (i # p) }) }"

definition scp_tree_store_get_path :: "store \<Rightarrow> iter \<Rightarrow> path option option" where
  "scp_tree_store_get_path s it =
     (if \<not> VALID_ITER it s then Some None
      else do {
        e \<leftarrow> ITER_ELEM it s;
        x \<leftarrow> elems s e;
        (case ae_parent x of
           None \<Rightarrow> Some (Some [])
         | Some q \<Rightarrow> path_above (next_addr s) s q [it_index it]) })"

definition scp_tree_store_get_flags :: "store \<Rightarrow> bool" where
  "scp_tree_store_get_flags s = (\<not> sublevels s)"

definition scp_tree_store_get_n_columns :: "store \<Rightarrow> store \<times> nat" where
  "scp_tree_store_get_n_columns s = (s\<lparr>columns_dirty := True\<rparr>, n_columns s)"

text \<open>\<open>priv->headers[i]\<close>, where \<open>-1\<close> is the default header.\<close>

definition header_at :: "store \<Rightarrow> int \<Rightarrow> header option" where
  "header_at s i = (if i = -1 then Some (default_header s) else nth_int (headers s) i)"

definition scp_tree_store_get_column_type :: "store \<Rightarrow> int \<Rightarrow> (store \<times> gtype option) option" where
  "scp_tree_store_get_column_type s i =
     (if 0 \<le> i \<and> i < int (n_columns s)
      then do { h \<leftarrow> header_at s i; Some (s\<lparr>columns_dirty := True\<rparr>, Some (hdr_type h)) }
      else Some (s, None))"

text \<open>
  The loop of \<open>scp_tree_store_get_iter\<close> down the indices: the array that holds the last one.
\<close>

fun get_iter_loop :: "store \<Rightarrow> addr option \<Rightarrow> path \<Rightarrow> addr option option" where
  "get_iter_loop s c [] = Some None"
| "get_iter_loop s c (i # is) =
     (case c of
        None \<Rightarrow> Some None
      | Some a \<Rightarrow> do {
          xs \<leftarrow> arrays s a;
          if \<not> (0 \<le> i \<and> i < int (length xs)) then Some None
          else if is = [] then Some (Some a)
          else do { e \<leftarrow> nth_int xs i; c \<leftarrow> children_of e s; get_iter_loop s c is } })"

definition scp_tree_store_get_iter ::
  "store \<Rightarrow> iter \<Rightarrow> path \<Rightarrow> (store \<times> iter \<times> bool) option" where
  "scp_tree_store_get_iter s it p = do {
     c \<leftarrow> children_of (root s) s;
     let s = s\<lparr>columns_dirty := True\<rparr>;
     if p = [] then Some (s, it, False)
     else do {
       r \<leftarrow> get_iter_loop s c p;
       (case r of
          None \<Rightarrow> Some (s, it\<lparr>it_stamp := 0\<rparr>, False)
        | Some a \<Rightarrow> Some (s, mk_iter s a (last p), True)) } }"

definition scp_tree_store_get_value :: "store \<Rightarrow> iter \<Rightarrow> int \<Rightarrow> gvalue option option" where
  "scp_tree_store_get_value s it column =
     (if \<not> (0 \<le> column \<and> column < int (n_columns s)) \<or> \<not> VALID_ITER it s then Some None
      else do {
        e \<leftarrow> ITER_ELEM it s;
        x \<leftarrow> elems s e;
        d \<leftarrow> nth_int (ae_data x) column;
        h \<leftarrow> header_at s column;
        Some (Some (scp_tree_data_to_value d (hdr_type h))) })"

definition scp_tree_store_iter_next :: "store \<Rightarrow> iter \<Rightarrow> (iter \<times> bool) option" where
  "scp_tree_store_iter_next s it =
     (if \<not> VALID_ITER it s then Some (it, False)
      else do {
        a \<leftarrow> it_array it;
        xs \<leftarrow> arrays s a;
        if it_index it < int (length xs) - 1
        then Some (it\<lparr>it_index := it_index it + 1\<rparr>, True)
        else Some (it\<lparr>it_stamp := 0\<rparr>, False) })"

definition scp_tree_store_iter_previous :: "store \<Rightarrow> iter \<Rightarrow> iter \<times> bool" where
  "scp_tree_store_iter_previous s it =
     (if \<not> VALID_ITER it s then (it, False)
      else if it_index it > 0 then (it\<lparr>it_index := it_index it - 1\<rparr>, True)
      else (it\<lparr>it_stamp := 0\<rparr>, False))"

definition scp_tree_store_iter_nth_child ::
  "store \<Rightarrow> iter \<Rightarrow> iter option \<Rightarrow> int \<Rightarrow> (iter \<times> bool) option" where
  "scp_tree_store_iter_nth_child s it parent n =
     (if \<not> VALID_ITER_OR_NULL parent s then Some (it, False)
      else do {
        e \<leftarrow> parent_elem parent s;
        c \<leftarrow> children_of e s;
        len \<leftarrow> children_len c s;
        (case c of
           Some a \<Rightarrow> if 0 \<le> n \<and> n < int len then Some (mk_iter s a n, True)
             else Some (it\<lparr>it_stamp := 0\<rparr>, False)
         | None \<Rightarrow> Some (it\<lparr>it_stamp := 0\<rparr>, False)) })"

definition scp_tree_store_iter_children ::
  "store \<Rightarrow> iter \<Rightarrow> iter option \<Rightarrow> (iter \<times> bool) option" where
  "scp_tree_store_iter_children s it parent =
     (if \<not> VALID_ITER_OR_NULL parent s then Some (it, False)
      else do {
        e \<leftarrow> parent_elem parent s;
        c \<leftarrow> children_of e s;
        len \<leftarrow> children_len c s;
        (case c of
           Some a \<Rightarrow> if len \<noteq> 0 then Some (mk_iter s a 0, True)
             else Some (it\<lparr>it_stamp := 0\<rparr>, False)
         | None \<Rightarrow> Some (it\<lparr>it_stamp := 0\<rparr>, False)) })"

definition scp_tree_store_iter_has_child :: "store \<Rightarrow> iter \<Rightarrow> bool option" where
  "scp_tree_store_iter_has_child s it =
     (if \<not> VALID_ITER it s then Some False
      else do {
        e \<leftarrow> ITER_ELEM it s;
        c \<leftarrow> children_of e s;
        len \<leftarrow> children_len c s;
        Some (len \<noteq> 0) })"

definition scp_tree_store_iter_n_children :: "store \<Rightarrow> iter option \<Rightarrow> nat option" where
  "scp_tree_store_iter_n_children s it =
     (if \<not> VALID_ITER_OR_NULL it s then Some 0
      else do { e \<leftarrow> parent_elem it s; c \<leftarrow> children_of e s; children_len c s })"

definition scp_tree_store_iter_parent ::
  "store \<Rightarrow> iter \<Rightarrow> iter \<Rightarrow> (iter \<times> bool) option" where
  "scp_tree_store_iter_parent s it child =
     (if \<not> VALID_ITER child s then Some (it, False)
      else do {
        e \<leftarrow> ITER_ELEM child s;
        x \<leftarrow> elems s e;
        q \<leftarrow> ae_parent x;
        y \<leftarrow> elems s q;
        (case ae_parent y of
           None \<Rightarrow> Some (it\<lparr>it_stamp := 0\<rparr>, False)
         | Some g \<Rightarrow> do {
             z \<leftarrow> elems s g;
             a \<leftarrow> ae_children z;
             xs \<leftarrow> arrays s a;
             let i = scp_ptr_array_find xs q;
             if i \<noteq> -1 then Some (mk_iter s a i, True)
             else Some (it\<lparr>it_stamp := 0\<rparr>, False) }) })"

definition scp_tree_store_iter_tell :: "store \<Rightarrow> iter \<Rightarrow> int option" where
  "scp_tree_store_iter_tell s it =
     (if \<not> VALID_ITER it s then Some (-1)
      else do {
        a \<leftarrow> it_array it;
        xs \<leftarrow> arrays s a;
        Some (if 0 \<le> it_index it \<and> it_index it < int (length xs) then it_index it else -1) })"

definition scp_tree_store_iter_seek :: "store \<Rightarrow> iter \<Rightarrow> int \<Rightarrow> (iter \<times> bool) option" where
  "scp_tree_store_iter_seek s it position =
     (if \<not> VALID_ITER it s then Some (it, False)
      else do {
        a \<leftarrow> it_array it;
        xs \<leftarrow> arrays s a;
        if position = -1 then Some (it\<lparr>it_index := int (length xs) - 1\<rparr>, True)
        else if 0 \<le> position \<and> position < int (length xs)
        then Some (it\<lparr>it_index := position\<rparr>, True)
        else Some (it\<lparr>it_stamp := 0\<rparr>, False) })"

subsection \<open>Ancestors, depth, traversal\<close>

text \<open>
  \<open>scp_tree_contains\<close>: the recursion into the children has the fuel, the loop is over the array.
\<close>

fun contains_any :: "(addr \<Rightarrow> bool option) \<Rightarrow> addr list \<Rightarrow> addr \<Rightarrow> bool option" where
  "contains_any rec [] e = Some False"
| "contains_any rec (x # xs) e =
     (if x = e then Some True
      else do { b \<leftarrow> rec x; if b then Some True else contains_any rec xs e })"

fun scp_tree_contains :: "nat \<Rightarrow> store \<Rightarrow> addr option \<Rightarrow> addr \<Rightarrow> bool option" where
  "scp_tree_contains f s None e = Some False"
| "scp_tree_contains 0 s (Some a) e = None"
| "scp_tree_contains (Suc f) s (Some a) e = do {
     xs \<leftarrow> arrays s a;
     contains_any (\<lambda>x. do { c \<leftarrow> children_of x s; scp_tree_contains f s c e }) xs e }"

definition scp_tree_store_is_ancestor :: "store \<Rightarrow> iter \<Rightarrow> iter \<Rightarrow> bool option" where
  "scp_tree_store_is_ancestor s it descendant =
     (if \<not> VALID_ITER it s \<or> \<not> VALID_ITER descendant s then Some False
      else do {
        e \<leftarrow> ITER_ELEM it s;
        c \<leftarrow> children_of e s;
        d \<leftarrow> ITER_ELEM descendant s;
        scp_tree_contains (next_addr s) s c d })"

definition scp_tree_store_iter_is_valid :: "store \<Rightarrow> iter \<Rightarrow> bool option" where
  "scp_tree_store_iter_is_valid s it =
     (if \<not> VALID_ITER it s then Some False
      else do {
        c \<leftarrow> children_of (root s) s;
        e \<leftarrow> ITER_ELEM it s;
        scp_tree_contains (next_addr s) s c e })"

fun depth_above :: "nat \<Rightarrow> store \<Rightarrow> addr \<Rightarrow> nat \<Rightarrow> nat option" where
  "depth_above 0 s e d = None"
| "depth_above (Suc f) s e d = do {
     x \<leftarrow> elems s e;
     (case ae_parent x of None \<Rightarrow> Some d | Some q \<Rightarrow> depth_above f s q (d + 1)) }"

definition scp_tree_store_iter_depth :: "store \<Rightarrow> iter \<Rightarrow> nat option" where
  "scp_tree_store_iter_depth s it =
     (if \<not> VALID_ITER it s then Some 0
      else do { e \<leftarrow> ITER_ELEM it s; depth_above (next_addr s) s e 0 })"

text \<open>
  \<open>scp_foreach\<close> with a callback that reads the path and the iterator, threads its own state and
  says whether to stop.
\<close>

fun foreach_loop ::
  "(int \<Rightarrow> addr \<Rightarrow> 'g \<Rightarrow> ('g \<times> bool) option) \<Rightarrow> int \<Rightarrow> addr list \<Rightarrow> 'g \<Rightarrow> ('g \<times> bool) option" where
  "foreach_loop body i [] g = Some (g, False)"
| "foreach_loop body i (x # xs) g = do {
     (g, stop) \<leftarrow> body i x g;
     if stop then Some (g, True) else foreach_loop body (i + 1) xs g }"

fun scp_foreach ::
  "nat \<Rightarrow> store \<Rightarrow> (path \<Rightarrow> iter \<Rightarrow> 'g \<Rightarrow> 'g \<times> bool) \<Rightarrow> addr option \<Rightarrow> path \<Rightarrow> 'g \<Rightarrow> ('g \<times> bool) option"
where
  "scp_foreach f s func None p g = Some (g, False)"
| "scp_foreach 0 s func (Some a) p g = None"
| "scp_foreach (Suc f) s func (Some a) p g = do {
     xs \<leftarrow> arrays s a;
     foreach_loop (\<lambda>i x g.
       let (g, stop) = func (p @ [i]) (mk_iter s a i) g in
       if stop then Some (g, True)
       else do { c \<leftarrow> children_of x s; scp_foreach f s func c (p @ [i]) g }) 0 xs g }"

definition scp_tree_store_foreach ::
  "store \<Rightarrow> (path \<Rightarrow> iter \<Rightarrow> 'g \<Rightarrow> 'g \<times> bool) \<Rightarrow> 'g \<Rightarrow> 'g option" where
  "scp_tree_store_foreach s func g = do {
     c \<leftarrow> children_of (root s) s;
     (g, _) \<leftarrow> scp_foreach (next_addr s) s func c [] g;
     Some g }"

subsection \<open>Comparing rows\<close>

text \<open>\<open>scp_tree_store_get\<close> of one column, and of several: the list is the values stored.\<close>

definition row_get :: "store \<Rightarrow> row \<Rightarrow> int \<Rightarrow> scp_data option" where
  "row_get s r column = do {
     d \<leftarrow> nth_int r column;
     h \<leftarrow> header_at s column;
     scp_tree_data_to_pointer d (hdr_type h) }"

fun get_valist :: "store \<Rightarrow> row \<Rightarrow> int list \<Rightarrow> scp_data option list option" where
  "get_valist s r [] = Some []"
| "get_valist s r (column # cs) =
     (if column = -1 then Some []
      else if \<not> (0 \<le> column \<and> column < int (n_columns s)) then Some []
      else do {
        d \<leftarrow> nth_int r column;
        h \<leftarrow> header_at s column;
        ds \<leftarrow> get_valist s r cs;
        Some (scp_tree_data_to_pointer d (hdr_type h) # ds) })"

definition scp_tree_store_get_valist ::
  "store \<Rightarrow> iter \<Rightarrow> int list \<Rightarrow> scp_data option list option" where
  "scp_tree_store_get_valist s it columns =
     (if \<not> VALID_ITER it s then Some []
      else do { e \<leftarrow> ITER_ELEM it s; x \<leftarrow> elems s e; get_valist s (ae_data x) columns })"

definition scp_data_string :: "scp_data \<Rightarrow> string" where
  "scp_data_string d = (case v_string d of Some x \<Rightarrow> x | None \<Rightarrow> [])"

text \<open>
  \<open>scp_tree_store_compare_func\<close> on two rows. A cell of an unsupported type is not fetched; the
  comparison of such a type does not look at it.
\<close>

definition scp_tree_store_compare_func :: "glib \<Rightarrow> header \<Rightarrow> int \<Rightarrow> row \<Rightarrow> row \<Rightarrow> int" where
  "scp_tree_store_compare_func G h column a b =
     (let get = (\<lambda>r. case scp_tree_data_to_pointer (r ! nat column) (hdr_type h) of
            Some d \<Rightarrow> d | None \<Rightarrow> V_zero)
      in if hdr_utf8_collate h then g_utf8_collate G (scp_data_string (get a)) (scp_data_string (get b))
         else scp_tree_data_compare_func (get a) (get b) (hdr_type h))"

text \<open>
  \<open>(*func) (model, a, b, data)\<close> as a function of the two rows: a fault when the function is \<open>NULL\<close>
  or the store's own function is called with a column that does not exist.
\<close>

fun comparison :: "glib \<Rightarrow> store \<Rightarrow> compare_func option \<Rightarrow> int \<Rightarrow> (row \<Rightarrow> row \<Rightarrow> int) option" where
  "comparison G s None data = None"
| "comparison G s (Some (User_Compare f)) data = Some (f data)"
| "comparison G s (Some Model_Compare) data =
     do { h \<leftarrow> nth_int (headers s) data; Some (scp_tree_store_compare_func G h data) }"

definition scp_fixup_compare_result :: "store \<Rightarrow> int \<Rightarrow> int" where
  "scp_fixup_compare_result s result =
     (if sort_order s = GTK_SORT_ASCENDING then result
      else if result > 0 then -1 else if result < 0 then 1 else 0)"

text \<open>\<open>scp_store_compare\<close> with the current sort function and its data, as a function of two rows.\<close>

definition store_compare :: "glib \<Rightarrow> store \<Rightarrow> (row \<Rightarrow> row \<Rightarrow> int) option" where
  "store_compare G s = do {
     h \<leftarrow> header_at s (sort_column_id s);
     cmp \<leftarrow> comparison G s (sort_func s) (hdr_data h);
     Some (\<lambda>a b. scp_fixup_compare_result s (cmp a b)) }"

definition row_at :: "store \<Rightarrow> addr \<Rightarrow> int \<Rightarrow> row option" where
  "row_at s a i = do { e \<leftarrow> elem_at s a i; x \<leftarrow> elems s e; Some (ae_data x) }"

subsection \<open>Searching\<close>

definition scp_collate_data :: "glib \<Rightarrow> string \<Rightarrow> string \<Rightarrow> int" where
  "scp_collate_data G key data = strcmp key (g_utf8_collate_key G data)"

text \<open>
  \<open>scp_compare_data\<close>: the key is compared with a cell. \<open>collate\<close> is \<open>type == G_TYPE_NONE\<close>, which
  \<open>scp_tree_store_search\<close> sets for a collated column.
\<close>

definition scp_compare_data :: "glib \<Rightarrow> scp_data \<Rightarrow> scp_data \<Rightarrow> gtype \<Rightarrow> bool \<Rightarrow> int" where
  "scp_compare_data G a b ty collate =
     (if collate then scp_collate_data G (scp_data_string a) (scp_data_string b)
      else scp_tree_data_compare_func a b ty)"

text \<open>
  \<open>probe\<close> stands for \<open>scp_compare_data (data, elem->data + column, type)\<close> on the element at an
  index of the array, \<open>down\<close> for the recursive search of its children.
\<close>

fun linear_loop ::
  "(addr \<Rightarrow> int option) \<Rightarrow> (addr \<Rightarrow> iter \<Rightarrow> (iter \<times> bool) option) \<Rightarrow> addr \<Rightarrow> int \<Rightarrow> addr list \<Rightarrow> iter \<Rightarrow>
   (iter \<times> bool) option" where
  "linear_loop probe down a i [] it = Some (it, False)"
| "linear_loop probe down a i (x # xs) it = do {
     r \<leftarrow> probe x;
     if r = 0 then Some (it\<lparr>it_array := Some a, it_index := i\<rparr>, True)
     else do {
       (it, found) \<leftarrow> down x it;
       if found then Some (it, True) else linear_loop probe down a (i + 1) xs it } }"

fun scp_linear_search ::
  "nat \<Rightarrow> store \<Rightarrow> (addr \<Rightarrow> int option) \<Rightarrow> bool \<Rightarrow> addr option \<Rightarrow> iter \<Rightarrow> (iter \<times> bool) option" where
  "scp_linear_search f s probe sub None it = Some (it, False)"
| "scp_linear_search 0 s probe sub (Some a) it = None"
| "scp_linear_search (Suc f) s probe sub (Some a) it = do {
     xs \<leftarrow> arrays s a;
     linear_loop probe (\<lambda>x it.
       if sub then do { c \<leftarrow> children_of x s; scp_linear_search f s probe True c it }
       else Some (it, False)) a 0 xs it }"

function binary_loop :: "(addr \<Rightarrow> int option) \<Rightarrow> addr list \<Rightarrow> int \<Rightarrow> int \<Rightarrow> int option option" where
  "binary_loop probe xs low high =
     (if low \<le> high then do {
        let mid = (low + high) div 2;
        e \<leftarrow> nth_int xs mid;
        r \<leftarrow> probe e;
        if r = 0 then Some (Some mid)
        else if r > 0 then binary_loop probe xs (mid + 1) high
        else binary_loop probe xs low (mid - 1) }
      else Some None)"
  by pat_completeness auto
termination
  by (relation "measure (\<lambda>(probe, xs, low, high). nat (high + 1 - low))") auto

declare binary_loop.simps [simp del]

fun first_found :: "(addr \<Rightarrow> iter \<Rightarrow> (iter \<times> bool) option) \<Rightarrow> addr list \<Rightarrow> iter \<Rightarrow> (iter \<times> bool) option" where
  "first_found down [] it = Some (it, False)"
| "first_found down (x # xs) it = do {
     (it, found) \<leftarrow> down x it;
     if found then Some (it, True) else first_found down xs it }"

fun scp_binary_search ::
  "nat \<Rightarrow> store \<Rightarrow> (addr \<Rightarrow> int option) \<Rightarrow> bool \<Rightarrow> addr option \<Rightarrow> iter \<Rightarrow> (iter \<times> bool) option" where
  "scp_binary_search f s probe sub None it = Some (it, False)"
| "scp_binary_search 0 s probe sub (Some a) it = None"
| "scp_binary_search (Suc f) s probe sub (Some a) it = do {
     xs \<leftarrow> arrays s a;
     m \<leftarrow> binary_loop probe xs 0 (int (length xs) - 1);
     (case m of
        Some mid \<Rightarrow> Some (it\<lparr>it_array := Some a, it_index := mid\<rparr>, True)
      | None \<Rightarrow>
          if sub then first_found (\<lambda>x it. do {
            c \<leftarrow> children_of x s; scp_binary_search f s probe True c it }) xs it
          else Some (it, False)) }"

definition scp_tree_store_search ::
  "glib \<Rightarrow> store \<Rightarrow> bool \<Rightarrow> bool \<Rightarrow> iter \<Rightarrow> iter option \<Rightarrow> int \<Rightarrow> arg list \<Rightarrow> (iter \<times> bool) option" where
  "scp_tree_store_search G s sub by_scan it parent column ap =
     (if \<not> VALID_ITER_OR_NULL parent s \<or> \<not> (0 \<le> column \<and> column < int (n_columns s)) \<or>
        (sub \<and> \<not> sublevels s)
      then Some (it, False)
      else do {
        e \<leftarrow> parent_elem parent s;
        c \<leftarrow> children_of e s;
        h \<leftarrow> header_at s column;
        let it = it\<lparr>it_stamp := stamp s, it_array := None\<rparr>;
        (d, _) \<leftarrow> scp_tree_data_from_stack V_zero (hdr_type h) ap False;
        let collate = hdr_utf8_collate h;
        let d = (if collate
          then V_pointer (To_String (g_utf8_collate_key G (scp_data_string d))) else d);
        let probe = (\<lambda>e. do {
          x \<leftarrow> elems s e;
          cell \<leftarrow> nth_int (ae_data x) column;
          Some (scp_compare_data G d cell (hdr_type h) collate) });
        if \<not> by_scan \<and> column = sort_column_id s \<and> is_model_compare (sort_func s)
        then scp_binary_search (next_addr s) s probe sub c it
        else scp_linear_search (next_addr s) s probe sub c it })"

end
