(* ===== verification/ScpOps.thy ===== *)
theory ScpOps
  imports ScpStore
begin

text \<open>
  The operations of the tree store that change it: setting cells, inserting, removing, clearing,
  moving and reordering rows, sorting, the sort settings, properties, traversal with removal and
  drag and drop. Each is the whole function of \<open>scptreestore.c\<close>, guards and emitted signals
  included. A critical warning of \<open>g_return_if_fail\<close> is an early return.
\<close>

subsection \<open>Freeing\<close>

text \<open>\<open>scp_free_element\<close> and \<open>scp_free_array\<close>: the recursion is the fuel, the loop over the array a fold.\<close>

fun scp_free_element :: "nat \<Rightarrow> addr \<Rightarrow> store \<Rightarrow> store option" where
  "scp_free_element 0 e s = None"
| "scp_free_element (Suc f) e s = do {
     x \<leftarrow> elems s e;
     s \<leftarrow> (case ae_children x of
         None \<Rightarrow> Some s
       | Some a \<Rightarrow> do {
           xs \<leftarrow> arrays s a;
           s \<leftarrow> foldM (scp_free_element f) xs s;
           Some (s\<lparr>arrays := (arrays s)(a := None)\<rparr>) });
     Some (s\<lparr>elems := (elems s)(e := None)\<rparr>) }"

definition scp_free_array :: "nat \<Rightarrow> addr option \<Rightarrow> store \<Rightarrow> store option" where
  "scp_free_array f c s = (case c of
     None \<Rightarrow> Some s
   | Some a \<Rightarrow> do {
       xs \<leftarrow> arrays s a;
       s \<leftarrow> foldM (scp_free_element f) xs s;
       Some (s\<lparr>arrays := (arrays s)(a := None)\<rparr>) })"

subsection \<open>Moving an element within its array\<close>

definition scp_ptr_array_insert_val :: "addr \<Rightarrow> nat \<Rightarrow> addr \<Rightarrow> store \<Rightarrow> store option" where
  "scp_ptr_array_insert_val a index e s = do {
     xs \<leftarrow> arrays s a;
     if index > length xs then None
     else do {
       let grown = xs @ [0];
       let xs = memmove grown (index + 1) index (length grown - index - 1);
       Some (set_array a (xs[index := e]) s) } }"

definition scp_emit_reordered :: "store \<Rightarrow> iter \<Rightarrow> int list \<Rightarrow> store option" where
  "scp_emit_reordered s it new_order = do {
     c \<leftarrow> children_of (root s) s;
     (if it_array it = c
      then Some (emit (Rows_Reordered (Some []) (Some (mk_iter s (roar s) 0)) new_order) s)
      else do {
        (parent, _) \<leftarrow> scp_tree_store_iter_parent s \<lparr>it_stamp = 0, it_array = None, it_index = 0\<rparr> it;
        p \<leftarrow> scp_tree_store_get_path s parent;
        Some (emit (Rows_Reordered p (Some parent) new_order) s) }) }"

definition moved :: "'a list \<Rightarrow> nat \<Rightarrow> nat \<Rightarrow> 'a list" where
  "moved xs old_pos new_pos =
     (if new_pos < old_pos then memmove xs (new_pos + 1) new_pos (old_pos - new_pos)
      else memmove xs old_pos (old_pos + 1) (new_pos - old_pos))[new_pos := xs ! old_pos]"

definition move_order :: "nat \<Rightarrow> nat \<Rightarrow> nat \<Rightarrow> int list" where
  "move_order len old_pos new_pos = map (\<lambda>i.
     if i = new_pos then int old_pos
     else if new_pos < old_pos then int i - of_bool (i > new_pos \<and> i \<le> old_pos)
     else int i + of_bool (i \<ge> old_pos \<and> i < new_pos)) [0..<len]"

definition scp_move_element ::
  "store \<Rightarrow> addr \<Rightarrow> iter \<Rightarrow> int \<Rightarrow> bool \<Rightarrow> (store \<times> iter) option" where
  "scp_move_element s a it new_pos emit_reordered =
     (if it_index it = new_pos then Some (s, it)
      else do {
        xs \<leftarrow> arrays s a;
        _ \<leftarrow> nth_int xs (it_index it);
        _ \<leftarrow> nth_int xs new_pos;
        let s = set_array a (moved xs (nat (it_index it)) (nat new_pos)) s;
        let order = move_order (length xs) (nat (it_index it)) (nat new_pos);
        let it = it\<lparr>it_index := new_pos\<rparr>;
        s \<leftarrow> (if emit_reordered then scp_emit_reordered s it order else Some s);
        Some (s, it) })"

subsection \<open>Keeping an element sorted\<close>

text \<open>
  \<open>scp_search_pos\<close>: \<open>probe i\<close> is the comparison of the element that moves with the one at index \<open>i\<close>.
\<close>

function search_pos_loop :: "(int \<Rightarrow> int option) \<Rightarrow> int \<Rightarrow> int \<Rightarrow> int option" where
  "search_pos_loop probe low high =
     (if low < high then do {
        let mid = (low + high) div 2;
        r \<leftarrow> probe mid;
        if r > 0 then search_pos_loop probe (mid + 1) high
        else if r < 0 then search_pos_loop probe low (mid - 1)
        else Some mid }
      else do { r \<leftarrow> probe low; Some (if r > 0 then low + 1 else low) })"
  by pat_completeness auto
termination
  by (relation "measure (\<lambda>(probe, low, high). nat (high - low))") auto

declare search_pos_loop.simps [simp del]

definition scp_search_pos :: "(int \<Rightarrow> int option) \<Rightarrow> int \<Rightarrow> int \<Rightarrow> int option" where
  "scp_search_pos probe low high = (if low \<le> high then search_pos_loop probe low high else Some low)"

definition scp_sort_element :: "glib \<Rightarrow> store \<Rightarrow> iter \<Rightarrow> bool \<Rightarrow> (store \<times> iter) option" where
  "scp_sort_element G s it emit_reordered = do {
     a \<leftarrow> it_array it;
     xs \<leftarrow> arrays s a;
     _ \<leftarrow> header_at s (sort_column_id s);
     let index = it_index it;
     let probe = (\<lambda>i. do {
       r \<leftarrow> row_at s a index;
       q \<leftarrow> row_at s a i;
       cmp \<leftarrow> store_compare G s;
       Some (cmp r q) });
     before \<leftarrow> (if index > 0 then do { r \<leftarrow> probe (index - 1); Some (r < 0) } else Some False);
     if before then do {
       pos \<leftarrow> scp_search_pos probe 0 (index - 2);
       scp_move_element s a it pos emit_reordered }
     else do {
       after \<leftarrow> (if index < int (length xs) - 1 then do { r \<leftarrow> probe (index + 1); Some (r > 0) }
                else Some False);
       if after then do {
         pos \<leftarrow> scp_search_pos probe (index + 2) (int (length xs) - 1);
         scp_move_element s a it (pos - 1) emit_reordered }
       else Some (s, it) } }"

subsection \<open>Setting cells\<close>

definition update_cell :: "store \<Rightarrow> addr \<Rightarrow> int \<Rightarrow> (scp_data \<Rightarrow> scp_data) \<Rightarrow> store option" where
  "update_cell s e column upd = do {
     x \<leftarrow> elems s e;
     d \<leftarrow> nth_int (ae_data x) column;
     Some (set_elem e (x\<lparr>ae_data := (ae_data x)[nat column := upd d]\<rparr>) s) }"

definition scp_set_value :: "glib \<Rightarrow> store \<Rightarrow> addr \<Rightarrow> int \<Rightarrow> gvalue \<Rightarrow> (store \<times> bool) option" where
  "scp_set_value G s e column v = do {
     h \<leftarrow> header_at s column;
     if \<not> (0 \<le> column \<and> column < int (n_columns s)) then Some (s, False)
     else if g_type_is_a G (gv_type v) (hdr_type h) then do {
       s \<leftarrow> update_cell s e column (\<lambda>d. scp_tree_data_from_value d v True);
       Some (s, True) }
     else (case g_value_transform G v (hdr_type h) of
         None \<Rightarrow> Some (s, False)
       | Some real_value \<Rightarrow> do {
           s \<leftarrow> update_cell s e column (\<lambda>d. scp_tree_data_from_value d real_value True);
           Some (s, True) }) }"

text \<open>The flags \<open>changed\<close> and \<open>sort_changed\<close> are threaded through; the pairs are \<open>columns[i], values[i]\<close>.\<close>

definition custom_sort :: "store \<Rightarrow> bool" where
  "custom_sort s \<longleftrightarrow> sort_func s \<noteq> None \<and> \<not> is_model_compare (sort_func s)"

fun set_vector_loop ::
  "glib \<Rightarrow> addr \<Rightarrow> (int \<times> gvalue) list \<Rightarrow> store \<times> bool \<times> bool \<Rightarrow> (store \<times> bool \<times> bool) option" where
  "set_vector_loop G e [] (s, changed, sort_changed) = Some (s, changed, sort_changed)"
| "set_vector_loop G e ((column, v) # cvs) (s, changed, sort_changed) =
     (if \<not> (0 \<le> column \<and> column < int (n_columns s)) then Some (s, changed, sort_changed)
      else do {
        (s, done) \<leftarrow> scp_set_value G s e column v;
        set_vector_loop G e cvs
          (s, changed \<or> done, sort_changed \<or> column = sort_column_id s) })"

definition scp_set_vector ::
  "glib \<Rightarrow> store \<Rightarrow> addr \<Rightarrow> bool \<Rightarrow> bool \<Rightarrow> (int \<times> gvalue) list \<Rightarrow> (store \<times> bool \<times> bool) option" where
  "scp_set_vector G s e changed sort_changed cvs =
     set_vector_loop G e cvs (s, changed, sort_changed \<or> custom_sort s)"

text \<open>
  The variadic form: \<open>va_arg\<close> gives a column number, then the value of its type, until \<open>-1\<close>. An
  unsupported type leaves its value to be read as the next column number, a fault.
\<close>

fun set_valist_loop ::
  "addr \<Rightarrow> (int \<times> arg) list \<Rightarrow> store \<times> bool \<times> bool \<Rightarrow> (store \<times> bool \<times> bool) option" where
  "set_valist_loop e [] (s, changed, sort_changed) = Some (s, changed, sort_changed)"
| "set_valist_loop e ((column, arg) # rest) (s, changed, sort_changed) =
     (if column = -1 \<or> \<not> (0 \<le> column \<and> column < int (n_columns s))
      then Some (s, changed, sort_changed)
      else do {
        h \<leftarrow> header_at s column;
        x \<leftarrow> elems s e;
        d \<leftarrow> nth_int (ae_data x) column;
        (d, left) \<leftarrow> scp_tree_data_from_stack d (hdr_type h) [arg] True;
        if left \<noteq> [] then None
        else do {
          s \<leftarrow> update_cell s e column (\<lambda>_. d);
          set_valist_loop e rest (s, True, sort_changed \<or> column = sort_column_id s) } })"

definition scp_set_valist ::
  "store \<Rightarrow> addr \<Rightarrow> bool \<Rightarrow> bool \<Rightarrow> (int \<times> arg) list \<Rightarrow> (store \<times> bool \<times> bool) option" where
  "scp_set_valist s e changed sort_changed ap =
     set_valist_loop e ap (s, changed, sort_changed \<or> custom_sort s)"

definition scp_set_values_signals ::
  "glib \<Rightarrow> store \<Rightarrow> iter \<Rightarrow> bool \<Rightarrow> bool \<Rightarrow> (store \<times> iter) option" where
  "scp_set_values_signals G s it changed sort_changed = do {
     (s, it) \<leftarrow> (if sort_changed then scp_sort_element G s it True else Some (s, it));
     if changed then do {
       p \<leftarrow> scp_tree_store_get_path s it;
       Some (emit (Row_Changed p it) s, it) }
     else Some (s, it) }"

definition scp_tree_store_set_valuesv ::
  "glib \<Rightarrow> store \<Rightarrow> iter \<Rightarrow> (int \<times> gvalue) list \<Rightarrow> (store \<times> iter) option" where
  "scp_tree_store_set_valuesv G s it cvs =
     (if \<not> VALID_ITER it s then Some (s, it)
      else do {
        e \<leftarrow> ITER_ELEM it s;
        (s, changed, sort_changed) \<leftarrow> scp_set_vector G s e False False cvs;
        scp_set_values_signals G s it changed sort_changed })"

definition scp_tree_store_set_value ::
  "glib \<Rightarrow> store \<Rightarrow> iter \<Rightarrow> int \<Rightarrow> gvalue \<Rightarrow> (store \<times> iter) option" where
  "scp_tree_store_set_value G s it column v = scp_tree_store_set_valuesv G s it [(column, v)]"

definition scp_tree_store_set_valist ::
  "glib \<Rightarrow> store \<Rightarrow> iter \<Rightarrow> (int \<times> arg) list \<Rightarrow> (store \<times> iter) option" where
  "scp_tree_store_set_valist G s it ap =
     (if \<not> VALID_ITER it s then Some (s, it)
      else do {
        e \<leftarrow> ITER_ELEM it s;
        (s, changed, sort_changed) \<leftarrow> scp_set_valist s e False False ap;
        scp_set_values_signals G s it changed sort_changed })"

subsection \<open>Removing\<close>

definition remove_index :: "'a list \<Rightarrow> nat \<Rightarrow> 'a list" where
  "remove_index xs i = take i xs @ drop (i + 1) xs"

definition scp_tree_store_remove :: "store \<Rightarrow> iter \<Rightarrow> (store \<times> iter \<times> bool) option" where
  "scp_tree_store_remove s it =
     (if \<not> VALID_ITER it s then Some (s, it, False)
      else do {
        a \<leftarrow> it_array it;
        xs \<leftarrow> arrays s a;
        e \<leftarrow> nth_int xs (it_index it);
        x \<leftarrow> elems s e;
        p \<leftarrow> scp_tree_store_get_path s it;
        s \<leftarrow> scp_free_element (next_addr s) e s;
        xs \<leftarrow> arrays s a;
        let xs = remove_index xs (nat (it_index it));
        let s = emit (Row_Deleted p) (set_array a xs s);
        if it_index it \<noteq> int (length xs) then Some (s, it, True)
        else do {
          (s, it) \<leftarrow> (if xs = [] \<and> ae_parent x \<noteq> Some (root s)
             then do {
               q \<leftarrow> ae_parent x;
               y \<leftarrow> elems s q;
               let s = (if sublevel_discard s
                 then set_elem q (y\<lparr>ae_children := None\<rparr>) (s\<lparr>arrays := (arrays s)(a := None)\<rparr>)
                 else s);
               g \<leftarrow> ae_parent y;
               c \<leftarrow> children_of g s;
               p \<leftarrow> p;
               let p = butlast p;
               if p = [] then None
               else do {
                 let it = it\<lparr>it_array := c, it_index := last p\<rparr>;
                 Some (emit (Row_Has_Child_Toggled (Some p) it) s, it) } }
             else Some (s, it));
          Some (s, it\<lparr>it_stamp := 0\<rparr>, False) } })"

text \<open>
  \<open>scp_clear_array\<close>: the elements from the last to the first, each with its children first when
  \<open>emit_subsignals\<close> is set.
\<close>

fun scp_clear_array :: "nat \<Rightarrow> addr option \<Rightarrow> bool \<Rightarrow> store \<Rightarrow> store option" where
  "scp_clear_array f None emit_subsignals s = Some s"
| "scp_clear_array 0 (Some a) emit_subsignals s = None"
| "scp_clear_array (Suc f) (Some a) emit_subsignals s = do {
     xs \<leftarrow> arrays s a;
     foldM (\<lambda>i s. do {
       s \<leftarrow> (if emit_subsignals then do {
           e \<leftarrow> elem_at s a (int i);
           c \<leftarrow> children_of e s;
           scp_clear_array f c True s }
         else Some s);
       (s, _, _) \<leftarrow> scp_tree_store_remove s (mk_iter s a (int i));
       Some s }) (rev [0..<length xs]) s }"

text \<open>\<open>while (++stamp == 0)\<close>\<close>

definition next_stamp :: "32 word \<Rightarrow> 32 word" where
  "next_stamp w = (if w + 1 = 0 then w + 2 else w + 1)"

definition scp_tree_store_clear_children :: "store \<Rightarrow> iter option \<Rightarrow> bool \<Rightarrow> store option" where
  "scp_tree_store_clear_children s parent emit_subsignals =
     (if \<not> VALID_ITER_OR_NULL parent s then Some s
      else do {
        e \<leftarrow> parent_elem parent s;
        c \<leftarrow> children_of e s;
        s \<leftarrow> scp_clear_array (next_addr s) c emit_subsignals s;
        Some (if parent = None then s\<lparr>stamp := next_stamp (stamp s)\<rparr> else s) })"

subsection \<open>Inserting\<close>

definition blank_elem :: "store \<Rightarrow> aelem" where
  "blank_elem s = \<lparr>ae_parent = None, ae_children = None, ae_data = replicate (n_columns s) V_zero\<rparr>"

text \<open>\<open>g_slice_alloc0\<close> of an element, and \<open>g_ptr_array_sized_new\<close>.\<close>

definition alloc_elem :: "store \<Rightarrow> store \<times> addr" where
  "alloc_elem s = (let e = next_addr s in
     (set_elem e (blank_elem s) s\<lparr>next_addr := Suc e\<rparr>, e))"

definition alloc_array :: "store \<Rightarrow> store \<times> addr" where
  "alloc_array s = (let a = next_addr s in (set_array a [] s\<lparr>next_addr := Suc a\<rparr>, a))"

text \<open>
  The first half of \<open>scp_insert_element\<close>: the array the element goes to, allocated on demand, and
  the position; \<^term>\<open>None\<close> inside is the early return.
\<close>

definition insert_place :: "store \<Rightarrow> addr \<Rightarrow> int \<Rightarrow> (store \<times> addr \<times> int) option option" where
  "insert_place s q position = do {
     y \<leftarrow> elems s q;
     (case ae_children y of
        Some a \<Rightarrow> do {
          xs \<leftarrow> arrays s a;
          Some (if position = -1 then Some (s, a, int (length xs))
                else if 0 \<le> position \<and> position \<le> int (length xs) then Some (s, a, position)
                else None) }
      | None \<Rightarrow>
          Some (if position = 0 \<or> position = -1
                then (let (s, a) = alloc_array s in
                  Some (set_elem q (y\<lparr>ae_children := Some a\<rparr>) s, a, 0))
                else None)) }"

definition scp_insert_element ::
  "glib \<Rightarrow> store \<Rightarrow> iter \<Rightarrow> addr \<Rightarrow> int \<Rightarrow> iter option \<Rightarrow> (store \<times> iter \<times> bool) option" where
  "scp_insert_element G s it e position parent_iter =
     (if \<not> sublevels s \<and> parent_iter \<noteq> None \<or> \<not> VALID_ITER_OR_NULL parent_iter s
      then Some (s, it, False)
      else do {
        q \<leftarrow> parent_elem parent_iter s;
        place \<leftarrow> insert_place s q position;
        (case place of
           None \<Rightarrow> Some (s, it, False)
         | Some (s, a, position) \<Rightarrow> do {
             x \<leftarrow> elems s e;
             let s = set_elem e (x\<lparr>ae_parent := Some q\<rparr>) s;
             s \<leftarrow> scp_ptr_array_insert_val a (nat position) e s;
             let it = mk_iter s a position;
             (s, it) \<leftarrow> (if sort_func s \<noteq> None then scp_sort_element G s it False
                        else Some (s, it));
             let s = s\<lparr>columns_dirty := True\<rparr>;
             p \<leftarrow> scp_tree_store_get_path s it;
             let s = emit (Row_Inserted p it) s;
             xs \<leftarrow> arrays s a;
             let s = (if parent_iter \<noteq> None \<and> length xs = 1
               then emit (Row_Has_Child_Toggled (map_option butlast p) (the parent_iter)) s
               else s);
             Some (s, it, True) }) })"

definition scp_tree_store_insert ::
  "glib \<Rightarrow> store \<Rightarrow> iter \<Rightarrow> iter option \<Rightarrow> int \<Rightarrow> (store \<times> iter) option" where
  "scp_tree_store_insert G s it parent position = do {
     let (s, e) = alloc_elem s;
     (s, it, done) \<leftarrow> scp_insert_element G s it e position parent;
     Some (if done then s else s\<lparr>elems := (elems s)(e := None)\<rparr>, it) }"

definition scp_tree_store_insert_with_valuesv ::
  "glib \<Rightarrow> store \<Rightarrow> iter \<Rightarrow> iter option \<Rightarrow> int \<Rightarrow> (int \<times> gvalue) list \<Rightarrow> (store \<times> iter) option" where
  "scp_tree_store_insert_with_valuesv G s it parent position cvs = do {
     let (s, e) = alloc_elem s;
     (s, _, _) \<leftarrow> scp_set_vector G s e False False cvs;
     (s, it, done) \<leftarrow> scp_insert_element G s it e position parent;
     s \<leftarrow> (if done then Some s else scp_free_element (next_addr s) e s);
     Some (s, it) }"

definition scp_tree_store_insert_with_valist ::
  "glib \<Rightarrow> store \<Rightarrow> iter \<Rightarrow> iter option \<Rightarrow> int \<Rightarrow> (int \<times> arg) list \<Rightarrow> (store \<times> iter) option" where
  "scp_tree_store_insert_with_valist G s it parent position ap = do {
     let (s, e) = alloc_elem s;
     (s, _, _) \<leftarrow> scp_set_valist s e False False ap;
     (s, it, done) \<leftarrow> scp_insert_element G s it e position parent;
     s \<leftarrow> (if done then Some s else scp_free_element (next_addr s) e s);
     Some (s, it) }"

subsection \<open>Reordering\<close>

text \<open>\<open>pdata[i] = array->pdata[new_order[i]]\<close> for every index of the array\<close>

fun permute :: "'a list \<Rightarrow> int list \<Rightarrow> nat \<Rightarrow> 'a list option" where
  "permute xs order 0 = Some []"
| "permute xs [] (Suc n) = None"
| "permute xs (i # order) (Suc n) = do { x \<leftarrow> nth_int xs i; ys \<leftarrow> permute xs order n; Some (x # ys) }"

definition scp_reorder_array :: "store \<Rightarrow> iter option \<Rightarrow> addr \<Rightarrow> int list \<Rightarrow> store option" where
  "scp_reorder_array s parent a new_order = do {
     xs \<leftarrow> arrays s a;
     ys \<leftarrow> permute xs new_order (length xs);
     let s = set_array a ys s;
     p \<leftarrow> (case parent of None \<Rightarrow> Some (Some []) | Some it \<Rightarrow> scp_tree_store_get_path s it);
     Some (emit (Rows_Reordered p parent new_order) s) }"

definition scp_tree_store_reorder :: "store \<Rightarrow> iter option \<Rightarrow> int list \<Rightarrow> store option" where
  "scp_tree_store_reorder s parent new_order =
     (if sort_func s \<noteq> None \<or> \<not> VALID_ITER_OR_NULL parent s then Some s
      else do {
        e \<leftarrow> parent_elem parent s;
        c \<leftarrow> children_of e s;
        (case c of None \<Rightarrow> Some s | Some a \<Rightarrow> scp_reorder_array s parent a new_order) })"

definition swapped :: "'a list \<Rightarrow> nat \<Rightarrow> nat \<Rightarrow> 'a list" where
  "swapped xs i j = (xs[i := xs ! j])[j := xs ! i]"

definition swap_order :: "nat \<Rightarrow> nat \<Rightarrow> nat \<Rightarrow> int list" where
  "swap_order len i j =
     map (\<lambda>k. if k = i then int j else if k = j then int i else int k) [0..<len]"

definition scp_tree_store_swap :: "store \<Rightarrow> iter \<Rightarrow> iter \<Rightarrow> store option" where
  "scp_tree_store_swap s a b =
     (if \<not> VALID_ITER a s \<or> \<not> VALID_ITER b s then Some s
      else if it_array b \<noteq> it_array a then Some s
      else if it_index a = it_index b then Some s
      else do {
        array \<leftarrow> it_array a;
        xs \<leftarrow> arrays s array;
        _ \<leftarrow> nth_int xs (it_index a);
        _ \<leftarrow> nth_int xs (it_index b);
        let i = nat (it_index a);
        let j = nat (it_index b);
        scp_emit_reordered (set_array array (swapped xs i j) s) a (swap_order (length xs) i j) })"

definition scp_tree_store_move :: "store \<Rightarrow> iter \<Rightarrow> int \<Rightarrow> (store \<times> iter) option" where
  "scp_tree_store_move s it position =
     (if sort_func s \<noteq> None \<or> \<not> VALID_ITER it s then Some (s, it)
      else do {
        a \<leftarrow> it_array it;
        xs \<leftarrow> arrays s a;
        if position = -1 then
          (if length xs > 0 then scp_move_element s a it (int (length xs) - 1) True
           else Some (s, it))
        else if 0 \<le> position \<and> position < int (length xs)
        then scp_move_element s a it position True
        else Some (s, it) })"

subsection \<open>Sorting\<close>

definition rows_of :: "store \<Rightarrow> addr list \<Rightarrow> row list option" where
  "rows_of s es = those (map (\<lambda>e. map_option ae_data (elems s e)) es)"

text \<open>
  \<open>scp_sort_children\<close>. The comparison of \<open>g_qsort_with_data\<close> (\<open>scp_index_compare\<close>) reads the rows at
  two indices of the array, which does not change while it sorts.
\<close>

definition scp_index_compare :: "(row \<Rightarrow> row \<Rightarrow> int) \<Rightarrow> row list \<Rightarrow> int \<Rightarrow> int \<Rightarrow> int" where
  "scp_index_compare cmp rows i j = cmp (rows ! nat i) (rows ! nat j)"

fun scp_sort_children :: "nat \<Rightarrow> glib \<Rightarrow> iter option \<Rightarrow> store \<Rightarrow> store option" where
  "scp_sort_children 0 G parent s = None"
| "scp_sort_children (Suc f) G parent s = do {
     e \<leftarrow> parent_elem parent s;
     c \<leftarrow> children_of e s;
     (case c of
        None \<Rightarrow> Some s
      | Some a \<Rightarrow> do {
          xs \<leftarrow> arrays s a;
          if xs = [] then Some s
          else do {
            rows \<leftarrow> rows_of s xs;
            cmp \<leftarrow> store_compare G s;
            let new_order = g_qsort_with_data G (scp_index_compare cmp rows) [0..int (length xs) - 1];
            s \<leftarrow> scp_reorder_array s parent a new_order;
            foldM (\<lambda>i s. scp_sort_children f G (Some (mk_iter s a (int i))) s) [0..<length xs] s } }) }"

definition scp_store_sort :: "glib \<Rightarrow> store \<Rightarrow> store option" where
  "scp_store_sort G s =
     (if sort_func s \<noteq> None then scp_sort_children (next_addr s) G None s else Some s)"

definition scp_tree_store_get_sort_column_id :: "store \<Rightarrow> int \<times> sort_order \<times> bool" where
  "scp_tree_store_get_sort_column_id s =
     (sort_column_id s, sort_order s,
      sort_column_id s \<noteq> DEFAULT_SORT \<and> sort_column_id s \<noteq> UNSORTED)"

definition scp_tree_store_set_sort_column_id ::
  "glib \<Rightarrow> store \<Rightarrow> int \<Rightarrow> sort_order \<Rightarrow> store option" where
  "scp_tree_store_set_sort_column_id G s column order =
     (if sort_column_id s = column \<and> sort_order s = order then Some s
      else do {
        func \<leftarrow> (if column = UNSORTED then Some (Some None)
          else if \<not> (0 \<le> column + 1 \<and> column + 1 < int (n_columns s) + 1) then Some None
          else do { h \<leftarrow> header_at s column;
            Some (if hdr_func h = None then None else Some (hdr_func h)) });
        (case func of
           None \<Rightarrow> Some s
         | Some func \<Rightarrow>
             scp_store_sort G (emit Sort_Column_Changed
               (s\<lparr>sort_func := func, sort_column_id := column, sort_order := order\<rparr>))) })"

definition scp_tree_data_set_header ::
  "store \<Rightarrow> int \<Rightarrow> compare_func option \<Rightarrow> int \<Rightarrow> bool \<Rightarrow> store option" where
  "scp_tree_data_set_header s i func data destroy = do {
     h \<leftarrow> header_at s i;
     let s = (if hdr_destroy h then emit (Destroy_Notify (hdr_data h)) s else s);
     let h = h\<lparr>hdr_func := func, hdr_data := data, hdr_destroy := destroy\<rparr>;
     Some (if i = -1 then s\<lparr>default_header := h\<rparr> else s\<lparr>headers := (headers s)[nat i := h]\<rparr>) }"

definition scp_tree_store_set_sort_func ::
  "glib \<Rightarrow> store \<Rightarrow> int \<Rightarrow> compare_func option \<Rightarrow> int \<Rightarrow> bool \<Rightarrow> store option" where
  "scp_tree_store_set_sort_func G s column func data destroy = do {
     s \<leftarrow> scp_tree_data_set_header s column func data destroy;
     if sort_column_id s = column then scp_store_sort G (s\<lparr>sort_func := func\<rparr>) else Some s }"

definition scp_tree_store_set_default_sort_func ::
  "glib \<Rightarrow> store \<Rightarrow> compare_func option \<Rightarrow> int \<Rightarrow> bool \<Rightarrow> store option" where
  "scp_tree_store_set_default_sort_func G s func data destroy = do {
     s \<leftarrow> scp_tree_data_set_header s DEFAULT_SORT func data destroy;
     if sort_column_id s = DEFAULT_SORT then scp_store_sort G (s\<lparr>sort_func := func\<rparr>) else Some s }"

definition scp_tree_store_has_default_sort_func :: "store \<Rightarrow> bool" where
  "scp_tree_store_has_default_sort_func s = (hdr_func (default_header s) \<noteq> None)"

definition is_string_type :: "gtype \<Rightarrow> bool" where
  "is_string_type ty = (gt_fundamental ty = G_TYPE_STRING)"

definition scp_tree_store_set_utf8_collate :: "glib \<Rightarrow> store \<Rightarrow> int \<Rightarrow> bool \<Rightarrow> store option" where
  "scp_tree_store_set_utf8_collate G s column collate =
     (if \<not> (0 \<le> column \<and> column < int (n_columns s)) then Some s
      else do {
        h \<leftarrow> header_at s column;
        if is_string_type (hdr_type h) \<and> hdr_utf8_collate h \<noteq> collate then do {
          let s = s\<lparr>headers := (headers s)[nat column := h\<lparr>hdr_utf8_collate := collate\<rparr>]\<rparr>;
          if sort_func s \<noteq> None \<and> (sort_column_id s = column \<or> \<not> is_model_compare (sort_func s))
          then scp_store_sort G s
          else Some s }
        else Some s })"

definition scp_tree_store_get_utf8_collate :: "store \<Rightarrow> int \<Rightarrow> bool option" where
  "scp_tree_store_get_utf8_collate s column =
     (if \<not> (0 \<le> column \<and> column < int (n_columns s)) then Some False
      else map_option hdr_utf8_collate (header_at s column))"

subsection \<open>Traversal with removal\<close>

text \<open>
  \<open>scp_traverse\<close>. The callback reads the store and the iterator and threads its own state; its
  result is positive to stop, negative to remove the row. The array is read again at every turn of
  the loop, also after the row has been removed. There is no bound on the number of turns, so the
  fuel counts turns and levels; running out of it is \<^term>\<open>None\<close>.
\<close>

function scp_traverse ::
  "nat \<Rightarrow> (store \<Rightarrow> iter \<Rightarrow> 'g \<Rightarrow> int \<times> 'g) \<Rightarrow> bool \<Rightarrow> addr option \<Rightarrow> store \<Rightarrow> iter \<Rightarrow> 'g \<Rightarrow>
   (store \<times> iter \<times> 'g \<times> bool) option"
and traverse_loop ::
  "nat \<Rightarrow> (store \<Rightarrow> iter \<Rightarrow> 'g \<Rightarrow> int \<times> 'g) \<Rightarrow> bool \<Rightarrow> addr \<Rightarrow> nat \<Rightarrow> store \<Rightarrow> iter \<Rightarrow> 'g \<Rightarrow>
   (store \<times> iter \<times> 'g \<times> bool) option" where
  "scp_traverse f func sub None s it g = Some (s, it, g, False)"
| "scp_traverse 0 func sub (Some a) s it g = None"
| "scp_traverse (Suc f) func sub (Some a) s it g =
     traverse_loop f func sub a 0 s (it\<lparr>it_array := Some a, it_index := 0\<rparr>) g"
| "traverse_loop 0 func sub a i s it g = None"
| "traverse_loop (Suc f) func sub a i s it g = do {
     xs \<leftarrow> arrays s a;
     if i < length xs then do {
       let (result, g) = func s it g;
       if result > 0 then Some (s, it, g, True)
       else if result = 0 then
         (if sub then do {
            c \<leftarrow> children_of (xs ! i) s;
            (s, it, g, stop) \<leftarrow> scp_traverse f func True c s it g;
            if stop then Some (s, it, g, True)
            else traverse_loop f func sub a (i + 1) s
              (it\<lparr>it_array := Some a, it_index := int (i + 1)\<rparr>) g }
          else traverse_loop f func sub a (i + 1) s (it\<lparr>it_index := int (i + 1)\<rparr>) g)
       else do {
         (s, it, _) \<leftarrow> scp_tree_store_remove s it;
         traverse_loop f func sub a i s it g } }
     else Some (s, it, g, False) }"
  by pat_completeness auto
termination
  by (relation "measure (\<lambda>x. case x of Inl (f, _) \<Rightarrow> f | Inr (f, _) \<Rightarrow> f)") auto

definition scp_tree_store_traverse ::
  "nat \<Rightarrow> store \<Rightarrow> bool \<Rightarrow> iter \<Rightarrow> iter option \<Rightarrow> (store \<Rightarrow> iter \<Rightarrow> 'g \<Rightarrow> int \<times> 'g) \<Rightarrow> 'g \<Rightarrow>
   (store \<times> iter \<times> 'g \<times> bool) option" where
  "scp_tree_store_traverse f s sub it parent func g =
     (if \<not> VALID_ITER_OR_NULL parent s \<or> (sub \<and> \<not> sublevels s) then Some (s, it, g, False)
      else do {
        e \<leftarrow> parent_elem parent s;
        c \<leftarrow> children_of e s;
        (s, it, g, stop) \<leftarrow> scp_traverse f func sub c s (it\<lparr>it_stamp := stamp s\<rparr>) g;
        if stop then Some (s, it, g, True) else Some (s, it\<lparr>it_stamp := 0\<rparr>, g, False) })"

subsection \<open>Drag and drop\<close>

definition scp_tree_store_row_draggable :: "store \<Rightarrow> path \<Rightarrow> bool" where
  "scp_tree_store_row_draggable s p = True"

definition blank_iter :: iter where
  "blank_iter = \<lparr>it_stamp = 0, it_array = None, it_index = 0\<rparr>"

definition scp_tree_store_drag_data_delete :: "store \<Rightarrow> path \<Rightarrow> (store \<times> bool) option" where
  "scp_tree_store_drag_data_delete s p = do {
     (s, it, found) \<leftarrow> scp_tree_store_get_iter s blank_iter p;
     if found then do { (s, _, _) \<leftarrow> scp_tree_store_remove s it; Some (s, True) }
     else Some (s, False) }"

definition copy_cells :: "store \<Rightarrow> row \<Rightarrow> row \<Rightarrow> row" where
  "copy_cells s src dest =
     map (\<lambda>i. scp_tree_data_copy (src ! i) (dest ! i) (hdr_type (headers s ! i))) [0..<n_columns s]"

fun scp_copy_element :: "nat \<Rightarrow> glib \<Rightarrow> iter \<Rightarrow> iter \<Rightarrow> store \<Rightarrow> store option" where
  "scp_copy_element 0 G src_iter dest_iter s = None"
| "scp_copy_element (Suc f) G src_iter dest_iter s = do {
     e \<leftarrow> ITER_ELEM src_iter s;
     d \<leftarrow> ITER_ELEM dest_iter s;
     p \<leftarrow> scp_tree_store_get_path s dest_iter;
     x \<leftarrow> elems s e;
     y \<leftarrow> elems s d;
     let s = set_elem d (y\<lparr>ae_data := copy_cells s (ae_data x) (ae_data y)\<rparr>) s;
     let s = emit (Row_Changed p dest_iter) s;
     (case ae_children x of
        None \<Rightarrow> Some s
      | Some a \<Rightarrow> do {
          xs \<leftarrow> arrays s a;
          foldM (\<lambda>i s. do {
            (s, copy) \<leftarrow> scp_tree_store_insert G s blank_iter (Some dest_iter) (-1);
            scp_copy_element f G (mk_iter s a (int i)) copy s }) [0..<length xs] s }) }"

text \<open>
  \<open>drag\<close> is what \<open>gtk_tree_get_row_drag_data\<close> returns: whether the row comes from this store, and
  its path.
\<close>

definition scp_tree_store_drag_data_received ::
  "glib \<Rightarrow> store \<Rightarrow> path \<Rightarrow> (bool \<times> path) option \<Rightarrow> (store \<times> bool) option" where
  "scp_tree_store_drag_data_received G s dest_path drag =
     (case drag of
        Some (True, src_path) \<Rightarrow> do {
          (s, src_iter, found) \<leftarrow> scp_tree_store_get_iter s blank_iter src_path;
          if \<not> found then Some (s, False)
          else do {
            (s, parent) \<leftarrow> (if length dest_path = 1 then Some (s, None)
              else do {
                (s, it, _) \<leftarrow> scp_tree_store_get_iter s blank_iter (butlast dest_path);
                Some (s, Some it) });
            (if dest_path = [] then None else Some ());
            (s, dest_iter) \<leftarrow> scp_tree_store_insert G s blank_iter parent (last dest_path);
            let src_iter = (if it_array src_iter = it_array dest_iter \<and>
                it_index dest_iter \<le> it_index src_iter
              then src_iter\<lparr>it_index := it_index src_iter + 1\<rparr> else src_iter);
            s \<leftarrow> scp_copy_element (next_addr s) G src_iter dest_iter s;
            Some (s, True) } }
      | _ \<Rightarrow> Some (s, False))"

text \<open>\<open>gtk_tree_path_is_ancestor\<close>\<close>

definition path_is_ancestor :: "path \<Rightarrow> path \<Rightarrow> bool" where
  "path_is_ancestor p q \<longleftrightarrow> length p < length q \<and> take (length p) q = p"

definition scp_tree_store_row_drop_possible ::
  "store \<Rightarrow> path \<Rightarrow> (bool \<times> path) option \<Rightarrow> (store \<times> bool) option" where
  "scp_tree_store_row_drop_possible s dest_path drag =
     (if sort_func s \<noteq> None then Some (s, False)
      else case drag of
        Some (True, src_path) \<Rightarrow>
          if path_is_ancestor src_path dest_path then Some (s, False)
          else if butlast dest_path = [] then Some (s, True)
          else do {
            (s, _, found) \<leftarrow> scp_tree_store_get_iter s blank_iter (butlast dest_path);
            Some (s, found) }
      | _ \<Rightarrow> Some (s, False))"

subsection \<open>Construction and properties\<close>

definition scp_tree_data_headers_new :: "gtype list \<Rightarrow> header list" where
  "scp_tree_data_headers_new types = map (\<lambda>(i, ty).
     \<lparr>hdr_type = ty, hdr_utf8_collate = is_string_type ty, hdr_func = Some Model_Compare,
      hdr_data = int i, hdr_destroy = False\<rparr>) (enumerate 0 types)"

definition zero_header :: header where
  "zero_header = \<lparr>hdr_type = \<lparr>gt_id = 0, gt_fundamental = G_TYPE_INVALID\<rparr>,
     hdr_utf8_collate = False, hdr_func = None, hdr_data = 0, hdr_destroy = False\<rparr>"

text \<open>
  \<open>scp_tree_store_constructor\<close>: \<open>randoms\<close> are the results of the calls of \<open>g_random_int\<close>, drawn
  until one is not zero.
\<close>

definition scp_tree_store_constructor :: "32 word list \<Rightarrow> bool \<Rightarrow> store option" where
  "scp_tree_store_constructor randoms sub = do {
     w \<leftarrow> List.find (\<lambda>w. w \<noteq> 0) randoms;
     Some \<lparr>stamp = w, root = 0, roar = 1, n_columns = 0, headers = [], default_header = zero_header,
       sort_column_id = UNSORTED, sort_order = GTK_SORT_ASCENDING, sort_func = None,
       sublevels = sub, toplevel_reserved = 0, sublevel_reserved = 0, sublevel_discard = False,
       columns_dirty = False,
       elems = [0 \<mapsto> \<lparr>ae_parent = None, ae_children = None, ae_data = [V_zero]\<rparr>],
       arrays = [1 \<mapsto> [0]], next_addr = 2, signals = []\<rparr> }"

definition scp_tree_data_headers_free :: "store \<Rightarrow> store" where
  "scp_tree_data_headers_free s =
     fold (\<lambda>h s. if hdr_destroy h then emit (Destroy_Notify (hdr_data h)) s else s) (headers s) s"

definition scp_tree_store_set_column_types :: "store \<Rightarrow> gtype list \<Rightarrow> store \<times> bool" where
  "scp_tree_store_set_column_types s types =
     (if columns_dirty s then (s, False)
      else ((scp_tree_data_headers_free s)\<lparr>headers := scp_tree_data_headers_new types,
        default_header := zero_header, n_columns := length types\<rparr>, True))"

definition scp_tree_store_newv :: "32 word list \<Rightarrow> bool \<Rightarrow> gtype list \<Rightarrow> store option option" where
  "scp_tree_store_newv randoms sub types =
     (if types = [] then Some None
      else do {
        s \<leftarrow> scp_tree_store_constructor randoms sub;
        let (s, ok) = scp_tree_store_set_column_types s types;
        Some (if ok then Some s else None) })"

definition scp_tree_store_finalize :: "store \<Rightarrow> store option" where
  "scp_tree_store_finalize s = do {
     c \<leftarrow> children_of (root s) s;
     s \<leftarrow> scp_free_array (next_addr s) c s;
     Some (scp_tree_data_headers_free
       (s\<lparr>elems := (elems s)(root s := None), arrays := (arrays s)(roar s := None)\<rparr>)) }"

datatype prop_id = PROP_SUBLEVELS | PROP_TOPLEVEL_RESERVED | PROP_SUBLEVEL_RESERVED
  | PROP_SUBLEVEL_DISCARD | PROP_UTF8_COLLATE

datatype prop_value = Prop_Bool bool | Prop_Uint nat

text \<open>\<open>g_value_set_boolean\<close> of a number that is not zero is \<open>TRUE\<close>.\<close>

fun scp_tree_store_get_property :: "store \<Rightarrow> prop_id \<Rightarrow> prop_value option" where
  "scp_tree_store_get_property s PROP_SUBLEVELS = Some (Prop_Bool (sublevels s))"
| "scp_tree_store_get_property s PROP_TOPLEVEL_RESERVED = Some (Prop_Uint (toplevel_reserved s))"
| "scp_tree_store_get_property s PROP_SUBLEVEL_RESERVED = Some (Prop_Uint (sublevel_reserved s))"
| "scp_tree_store_get_property s PROP_SUBLEVEL_DISCARD = Some (Prop_Bool (sublevel_reserved s \<noteq> 0))"
| "scp_tree_store_get_property s PROP_UTF8_COLLATE = None"

fun scp_tree_store_set_property :: "store \<Rightarrow> prop_id \<Rightarrow> prop_value \<Rightarrow> store option" where
  "scp_tree_store_set_property s PROP_SUBLEVELS (Prop_Bool b) = Some (s\<lparr>sublevels := b\<rparr>)"
| "scp_tree_store_set_property s PROP_TOPLEVEL_RESERVED (Prop_Uint n) = do {
     c \<leftarrow> children_of (root s) s;
     Some (if c \<noteq> None then s else s\<lparr>toplevel_reserved := n\<rparr>) }"
| "scp_tree_store_set_property s PROP_SUBLEVEL_RESERVED (Prop_Uint n) =
     Some (if sublevels s then s\<lparr>sublevel_reserved := n\<rparr> else s)"
| "scp_tree_store_set_property s PROP_SUBLEVEL_DISCARD (Prop_Bool b) =
     Some (if sublevels s then s\<lparr>sublevel_discard := b\<rparr> else s)"
| "scp_tree_store_set_property s p v = Some s"

end
