(* ===== verification/ScpTree.thy ===== *)
theory ScpTree
  imports ScpOps
begin

text \<open>
  The heap of a tree store holds one tree: the invariant \<open>wf\<close>, the elements as nodes at paths, and
  what the reading functions of \<open>scptreestore.c\<close> return on it: paths, navigation, ancestors, depth.
\<close>

subsection \<open>The tree in the heap\<close>

text \<open>The children of an element, wherever their array is.\<close>

definition kids :: "store \<Rightarrow> addr \<Rightarrow> addr list" where
  "kids s e = (case elems s e of
     None \<Rightarrow> []
   | Some x \<Rightarrow> (case ae_children x of
       None \<Rightarrow> []
     | Some a \<Rightarrow> (case arrays s a of None \<Rightarrow> [] | Some xs \<Rightarrow> xs)))"

text \<open>The element a path leads to.\<close>

fun node_at :: "store \<Rightarrow> addr \<Rightarrow> path \<Rightarrow> addr option" where
  "node_at s e [] = Some e"
| "node_at s e (i # p) = do { c \<leftarrow> nth_int (kids s e) i; node_at s c p }"

text \<open>
  The heap holds one tree: every element but the root hangs below an older parent that lists it,
  every array of children belongs to one element and lists each child once, and the children name
  that element as their parent.
\<close>

definition owns :: "store \<Rightarrow> addr \<Rightarrow> addr \<Rightarrow> bool" where
  "owns s e a \<longleftrightarrow> (\<exists>x. elems s e = Some x \<and> ae_children x = Some a)"

definition child_of :: "store \<Rightarrow> addr \<Rightarrow> addr \<Rightarrow> bool" where
  "child_of s c p \<longleftrightarrow> (\<exists>y. elems s c = Some y \<and> ae_parent y = Some p)"

definition wf :: "store \<Rightarrow> bool" where
  "wf s \<longleftrightarrow>
     stamp s \<noteq> 0 \<and> length (headers s) = n_columns s \<and>
     (\<exists>r. elems s (root s) = Some r \<and> ae_parent r = None) \<and> arrays s (roar s) = Some [root s] \<and>
     (\<forall>e x. elems s e = Some x \<longrightarrow> e < next_addr s) \<and>
     (\<forall>a xs. arrays s a = Some xs \<longrightarrow> a < next_addr s) \<and>
     (\<forall>e x. elems s e = Some x \<longrightarrow> e \<noteq> root s \<longrightarrow>
        length (ae_data x) = n_columns s \<and>
        (\<exists>p. ae_parent x = Some p \<and> p < e \<and> e \<in> set (kids s p))) \<and>
     (\<forall>e a. owns s e a \<longrightarrow> a \<noteq> roar s \<and>
        (\<exists>xs. arrays s a = Some xs \<and> distinct xs \<and> (\<forall>c\<in>set xs. child_of s c e))) \<and>
     (\<forall>e e' a. owns s e a \<longrightarrow> owns s e' a \<longrightarrow> e = e')"

lemma wfD:
  assumes "wf s"
  shows wf_stamp: "stamp s \<noteq> 0" and wf_headers: "length (headers s) = n_columns s"
    and wf_root: "\<exists>r. elems s (root s) = Some r \<and> ae_parent r = None"
    and wf_roar: "arrays s (roar s) = Some [root s]"
    and wf_elem_bound: "elems s e = Some x \<Longrightarrow> e < next_addr s"
    and wf_array_bound: "arrays s a = Some xs \<Longrightarrow> a < next_addr s"
    and wf_data: "elems s e = Some x \<Longrightarrow> e \<noteq> root s \<Longrightarrow> length (ae_data x) = n_columns s"
    and wf_parent: "elems s e = Some x \<Longrightarrow> e \<noteq> root s \<Longrightarrow>
      \<exists>p. ae_parent x = Some p \<and> p < e \<and> e \<in> set (kids s p)"
    and wf_owns: "owns s e a \<Longrightarrow> a \<noteq> roar s \<and>
      (\<exists>xs. arrays s a = Some xs \<and> distinct xs \<and> (\<forall>c\<in>set xs. child_of s c e))"
    and wf_owner: "owns s e a \<Longrightarrow> owns s e' a \<Longrightarrow> e = e'"
  using assms unfolding wf_def by blast+

lemma wf_children:
  assumes "wf s" "elems s e = Some x" "ae_children x = Some a"
  shows "arrays s a = Some (kids s e)" "distinct (kids s e)" "a \<noteq> roar s"
    "c \<in> set (kids s e) \<Longrightarrow> \<exists>y. elems s c = Some y \<and> ae_parent y = Some e"
  using wf_owns[OF assms(1), of e a] assms(2,3) by (auto simp: owns_def kids_def child_of_def)

lemma kids_distinct: "wf s \<Longrightarrow> distinct (kids s e)"
  using wf_children(2)[of s e]
  by (cases "elems s e") (auto simp: kids_def split: option.splits)

lemma kidsE:
  assumes "c \<in> set (kids s e)"
  obtains x a where "elems s e = Some x" "ae_children x = Some a" "arrays s a = Some (kids s e)"
proof (cases "elems s e")
  case None
  then show ?thesis using assms by (simp add: kids_def)
next
  case x: (Some x)
  show ?thesis
  proof (cases "ae_children x")
    case None
    then show ?thesis using assms x by (simp add: kids_def)
  next
    case (Some a)
    then show ?thesis using assms x that by (cases "arrays s a") (simp_all add: kids_def)
  qed
qed

lemma kids_parent:
  assumes "wf s" "c \<in> set (kids s e)"
  shows "\<exists>y. elems s c = Some y \<and> ae_parent y = Some e"
  using assms(2) by (rule kidsE) (use wf_children(4)[OF assms(1)] assms(2) in blast)

lemma kids_neq_root: "wf s \<Longrightarrow> c \<in> set (kids s e) \<Longrightarrow> c \<noteq> root s"
  using kids_parent[of s c e] wf_root[of s] by auto

lemma kids_less: "wf s \<Longrightarrow> c \<in> set (kids s e) \<Longrightarrow> e < c"
  using kids_parent[of s c e] wf_parent[of s c] kids_neq_root[of s c e] by fastforce

lemma nth_int_in_set: "nth_int xs i = Some c \<Longrightarrow> c \<in> set xs"
  by (auto simp: nth_int_def split: if_splits)

lemma node_at_append: "node_at s e (p @ q) = do { d \<leftarrow> node_at s e p; node_at s d q }"
  by (induction p arbitrary: e) simp_all

lemma node_at_snoc: "node_at s e (p @ [i]) = do { d \<leftarrow> node_at s e p; nth_int (kids s d) i }"
  by (simp add: node_at_append)

lemma node_at_elem: "wf s \<Longrightarrow> node_at s e p = Some d \<Longrightarrow> p \<noteq> [] \<Longrightarrow> \<exists>x. elems s d = Some x"
proof (cases p rule: rev_cases)
  case (snoc q i)
  assume "wf s" "node_at s e p = Some d"
  with snoc obtain c where "nth_int (kids s c) i = Some d" by (auto simp: node_at_snoc bind_eq_Some_conv)
  then show ?thesis using kids_parent[OF \<open>wf s\<close> nth_int_in_set] by blast
qed simp

lemma find_range: "scp_ptr_array_find xs e \<ge> -1"
  by (induction xs) (auto simp: Let_def)

lemma find_nth: "distinct xs \<Longrightarrow> nth_int xs i = Some e \<Longrightarrow> scp_ptr_array_find xs e = i"
proof (induction xs arbitrary: i)
  case (Cons x xs)
  show ?case
  proof (cases "i = 0")
    case True
    with Cons.prems show ?thesis by (simp add: nth_int_def)
  next
    case False
    with Cons.prems(2) have e: "nth_int xs (i - 1) = Some e"
      by (auto simp: nth_int_def nat_diff_distrib nth_Cons' split: if_splits)
    then have "x \<noteq> e" "i - 1 \<ge> 0" using Cons.prems(1) nth_int_in_set[OF e] by (auto simp: nth_int_Some)
    with Cons.IH[OF _ e] Cons.prems(1) show ?thesis by (simp add: Let_def)
  qed
qed (auto simp: nth_int_def split: if_splits)

lemma find_absent: "scp_ptr_array_find xs e = -1 \<longleftrightarrow> e \<notin> set xs"
proof (induction xs)
  case (Cons x xs)
  then show ?case using find_range[of xs e] by (auto simp: Let_def)
qed simp

text \<open>Every element has a path, and the loop of \<open>scp_tree_store_get_path\<close> computes it.\<close>

lemma node_at_exists:
  assumes "wf s"
  shows "elems s e = Some x \<Longrightarrow> \<exists>p. node_at s (root s) p = Some e"
proof (induction e arbitrary: x rule: less_induct)
  case (less e)
  show ?case
  proof (cases "e = root s")
    case True
    then show ?thesis by (intro exI[of _ "[]"]) simp
  next
    case False
    then obtain p where p: "p < e" "e \<in> set (kids s p)" using wf_parent[OF assms less.prems] by auto
    obtain y where "elems s p = Some y" using p(2) by (rule kidsE)
    with less.IH[OF p(1)] obtain q where q: "node_at s (root s) q = Some p" by blast
    obtain i where i: "i < length (kids s p)" "kids s p ! i = e" using p(2) by (auto simp: in_set_conv_nth)
    have "node_at s (root s) (q @ [int i]) = Some e" using i q by (simp add: node_at_snoc)
    then show ?thesis by blast
  qed
qed

lemma path_above_at:
  assumes "wf s"
  shows "node_at s (root s) q = Some e \<Longrightarrow> e < f \<Longrightarrow> path_above f s e p = Some (Some (q @ p))"
proof (induction q arbitrary: e f p rule: rev_induct)
  case Nil
  obtain r where "elems s (root s) = Some r" "ae_parent r = None" using wf_root[OF assms] by blast
  with Nil show ?case by (cases f) simp_all
next
  case (snoc i q)
  then obtain d where d: "node_at s (root s) q = Some d" "nth_int (kids s d) i = Some e"
    by (auto simp: node_at_snoc bind_eq_Some_conv)
  note k = nth_int_in_set[OF d(2)]
  obtain x where x: "elems s e = Some x" "ae_parent x = Some d" using kids_parent[OF assms k] by blast
  obtain y a where y: "elems s d = Some y" "ae_children y = Some a" "arrays s a = Some (kids s d)"
    using k by (rule kidsE)
  obtain f' where f: "f = Suc f'" using snoc.prems by (cases f) auto
  have "d < e" using kids_less[OF assms k] .
  then have "path_above f' s d (i # p) = Some (Some (q @ i # p))"
    using snoc.prems f by (intro snoc.IH d(1)) simp
  moreover have "scp_ptr_array_find (kids s d) e = i" using find_nth[OF kids_distinct[OF assms] d(2)] .
  moreover have "i \<noteq> -1" using d(2) by (auto simp: nth_int_Some)
  ultimately show ?case using x y by (simp add: f Let_def)
qed

text \<open>An iterator of the current stamp on a row of the tree, and the path of that row.\<close>

definition points_to :: "store \<Rightarrow> iter \<Rightarrow> path \<Rightarrow> bool" where
  "points_to s it p \<longleftrightarrow> it_stamp it = stamp s \<and> p \<noteq> [] \<and> it_index it = last p \<and>
     (\<exists>d a. node_at s (root s) (butlast p) = Some d \<and> owns s d a \<and> it_array it = Some a \<and>
       0 \<le> last p \<and> last p < int (length (kids s d)))"

lemma points_toE:
  assumes "wf s" "points_to s it p"
  obtains q i d a e x y where "p = q @ [i]" "it = mk_iter s a i" "node_at s (root s) q = Some d"
    "elems s d = Some y" "ae_children y = Some a" "arrays s a = Some (kids s d)"
    "nth_int (kids s d) i = Some e" "node_at s (root s) p = Some e" "elems s e = Some x" "ae_parent x = Some d"
proof -
  from assms(2) obtain d a where d: "node_at s (root s) (butlast p) = Some d" "owns s d a"
    "it_array it = Some a" "0 \<le> last p" "last p < int (length (kids s d))" "it_stamp it = stamp s"
    "p \<noteq> []" "it_index it = last p"
    by (auto simp: points_to_def)
  then obtain y where y: "elems s d = Some y" "ae_children y = Some a" by (auto simp: owns_def)
  define e where "e = kids s d ! nat (last p)"
  have e: "nth_int (kids s d) (last p) = Some e" using d by (simp add: nth_int_def e_def)
  obtain x where x: "elems s e = Some x" "ae_parent x = Some d"
    using kids_parent[OF assms(1) nth_int_in_set[OF e]] by blast
  have p: "p = butlast p @ [last p]" using d by simp
  have "node_at s (root s) p = Some e" using node_at_snoc[of s "root s" "butlast p" "last p"] p d e by simp
  moreover have "it = mk_iter s a (last p)" using d by (simp add: mk_iter_def)
  ultimately show ?thesis
    using that[OF p _ d(1) y wf_children(1)[OF assms(1) y] e] x by blast
qed

lemma points_to_intro:
  assumes "wf s" "node_at s (root s) q = Some d" "elems s d = Some y" "ae_children y = Some a"
    "nth_int (kids s d) i = Some e"
  shows "points_to s (mk_iter s a i) (q @ [i])"
  using assms by (auto simp: points_to_def mk_iter_def owns_def nth_int_Some)

lemma mk_iter_sel [simp]:
  "it_stamp (mk_iter s a i) = stamp s" "it_array (mk_iter s a i) = Some a"
  "it_index (mk_iter s a i) = i" "VALID_ITER (mk_iter s a i) t \<longleftrightarrow> stamp t = stamp s"
  by (simp_all add: mk_iter_def VALID_ITER_def)

lemma ITER_ELEM_mk_iter: "ITER_ELEM (mk_iter s a i) t = elem_at t a i"
  by (simp add: ITER_ELEM_def)

lemma get_path_points_to:
  assumes "wf s" "points_to s it p"
  shows "scp_tree_store_get_path s it = Some (Some p)"
proof -
  from assms obtain q i d a e x y where *: "p = q @ [i]" "it = mk_iter s a i" "node_at s (root s) q = Some d"
    "elems s d = Some y" "arrays s a = Some (kids s d)"
    "nth_int (kids s d) i = Some e" "elems s e = Some x" "ae_parent x = Some d"
    by (rule points_toE)
  have "path_above (next_addr s) s d [i] = Some (Some (q @ [i]))"
    using path_above_at[OF assms(1) *(3)] wf_elem_bound[OF assms(1) *(4)] by blast
  with * show ?thesis
    by (simp add: scp_tree_store_get_path_def ITER_ELEM_mk_iter elem_at_def)
qed

lemma get_iter_loop_at:
  assumes "wf s" "elems s e = Some x" "p \<noteq> []"
  shows "get_iter_loop s (ae_children x) p = Some (do {
    d \<leftarrow> node_at s e (butlast p);
    y \<leftarrow> elems s d;
    a \<leftarrow> ae_children y;
    if 0 \<le> last p \<and> last p < int (length (kids s d)) then Some a else None })"
  using assms(2,3)
proof (induction p arbitrary: e x)
  case (Cons i p)
  show ?case
  proof (cases "ae_children x")
    case None
    then have "kids s e = []" using Cons.prems by (simp add: kids_def)
    with None Cons.prems show ?thesis by (cases p) (auto simp: nth_int_def)
  next
    case (Some a)
    note k = wf_children[OF assms(1) Cons.prems(1) Some]
    show ?thesis
    proof (cases "0 \<le> i \<and> i < int (length (kids s e))")
      case False
      with k Some Cons.prems show ?thesis by (cases p) (auto simp: nth_int_def)
    next
      case True
      then have i: "nth_int (kids s e) i = Some (kids s e ! nat i)" by (simp add: nth_int_def)
      then obtain y where y: "elems s (kids s e ! nat i) = Some y"
        using kids_parent[OF assms(1) nth_int_in_set] by blast
      show ?thesis
      proof (cases "p = []")
        case True
        with \<open>0 \<le> i \<and> _\<close> Some k Cons.prems show ?thesis by simp
      next
        case False
        with True Some k i y Cons.IH[OF y False] show ?thesis
          by (simp add: children_of_def)
      qed
    qed
  qed
qed simp

text \<open>The fields that the tree does not depend on.\<close>

lemma kids_same: "elems t = elems s \<Longrightarrow> arrays t = arrays s \<Longrightarrow> kids t = kids s"
  unfolding kids_def by (rule ext) (simp cong: option.case_cong)

lemma node_at_same: "kids t = kids s \<Longrightarrow> node_at t = node_at s"
proof -
  assume k: "kids t = kids s"
  have "node_at t e p = node_at s e p" for e p by (induction p arbitrary: e) (simp_all add: k)
  then show ?thesis by blast
qed

lemma owns_same: "elems t = elems s \<Longrightarrow> owns t = owns s"
  by (intro ext) (simp add: owns_def)

lemma child_of_same: "elems t = elems s \<Longrightarrow> child_of t = child_of s"
  by (intro ext) (simp add: child_of_def)

text \<open>\<open>same_tree\<close>: the heap, the root and the stamp are unchanged.\<close>

definition same_tree :: "store \<Rightarrow> store \<Rightarrow> bool" where
  "same_tree s t \<longleftrightarrow> elems t = elems s \<and> arrays t = arrays s \<and> root t = root s \<and> roar t = roar s \<and>
     stamp t = stamp s \<and> next_addr t = next_addr s \<and> n_columns t = n_columns s \<and>
     length (headers t) = length (headers s)"

lemma same_tree_simps:
  assumes "same_tree s t"
  shows "kids t = kids s" "node_at t = node_at s" "owns t = owns s" "child_of t = child_of s"
    "wf t = wf s" "points_to t = points_to s" "ITER_ELEM it t = ITER_ELEM it s"
    "VALID_ITER it t = VALID_ITER it s" "VALID_ITER_OR_NULL ot t = VALID_ITER_OR_NULL ot s"
    "elem_at t a = elem_at s a" "mk_iter t = mk_iter s"
    "path_above f t = path_above f s" "scp_tree_store_get_path t = scp_tree_store_get_path s"
proof -
  have eq: "elems t = elems s" "arrays t = arrays s" "root t = root s" "roar t = roar s"
    "stamp t = stamp s" "next_addr t = next_addr s" "n_columns t = n_columns s"
    "length (headers t) = length (headers s)"
    using assms by (auto simp: same_tree_def)
  show k: "kids t = kids s" by (rule kids_same[OF eq(1,2)])
  show n: "node_at t = node_at s" by (rule node_at_same[OF k])
  show o: "owns t = owns s" by (rule owns_same[OF eq(1)])
  show c: "child_of t = child_of s" by (rule child_of_same[OF eq(1)])
  show "wf t = wf s" by (simp only: wf_def eq k o c)
  show "points_to t = points_to s" by (intro ext) (simp add: points_to_def eq k n o)
  show e: "elem_at t a = elem_at s a" for a by (intro ext) (simp add: elem_at_def eq)
  show i: "ITER_ELEM it t = ITER_ELEM it s" for it by (simp add: ITER_ELEM_def e)
  show v: "VALID_ITER it t = VALID_ITER it s" for it by (simp add: VALID_ITER_def eq)
  show "VALID_ITER_OR_NULL ot t = VALID_ITER_OR_NULL ot s"
    by (simp add: VALID_ITER_OR_NULL_def v split: option.splits)
  show "mk_iter t = mk_iter s" by (intro ext) (simp add: mk_iter_def eq)
  have p: "path_above f t e p = path_above f s e p" for f e p
    by (induction f arbitrary: e p) (simp_all add: eq Let_def cong: option.case_cong if_cong)
  then show "path_above f t = path_above f s" for f by blast
  show "scp_tree_store_get_path t = scp_tree_store_get_path s"
    by (rule ext) (simp add: scp_tree_store_get_path_def i v p eq cong: option.case_cong if_cong)
qed

lemma same_tree_refl [simp]: "same_tree s s"
  by (simp add: same_tree_def)

lemma same_tree_trans: "same_tree s t \<Longrightarrow> same_tree t u \<Longrightarrow> same_tree s u"
  by (simp add: same_tree_def)

lemma same_tree_dirty [simp]: "same_tree s (s\<lparr>columns_dirty := b\<rparr>)"
  by (simp add: same_tree_def)

lemma same_tree_emit [simp]: "same_tree s (emit sig s)"
  by (simp add: same_tree_def emit_def)

lemma points_to_live: "wf s \<Longrightarrow> points_to s it p \<Longrightarrow> VALID_ITER it s"
  by (auto simp: points_to_def VALID_ITER_def)

lemma children_of_elem: "elems s e = Some x \<Longrightarrow> children_of e s = Some (ae_children x)"
  by (simp add: children_of_def)

lemma get_iter_at:
  assumes "wf s" "p \<noteq> []"
  shows "scp_tree_store_get_iter s it p = Some (s\<lparr>columns_dirty := True\<rparr>,
    case node_at s (root s) p of
      None \<Rightarrow> (it\<lparr>it_stamp := 0\<rparr>, False)
    | Some _ \<Rightarrow> (mk_iter s (the (ae_children (the (elems s (the (node_at s (root s) (butlast p))))))) (last p), True))"
proof -
  obtain r where r: "elems s (root s) = Some r" using wf_root[OF assms(1)] by blast
  let ?s = "s\<lparr>columns_dirty := True\<rparr>"
  have same: "same_tree s ?s" by simp
  have "wf ?s" using assms(1) same_tree_simps(5)[OF same] by simp
  from get_iter_loop_at[OF this _ assms(2), of "root s" r]
  have loop: "get_iter_loop ?s (ae_children r) p = Some (do {
    d \<leftarrow> node_at s (root s) (butlast p);
    y \<leftarrow> elems s d;
    a \<leftarrow> ae_children y;
    if 0 \<le> last p \<and> last p < int (length (kids s d)) then Some a else None })"
    using r by (simp add: same_tree_simps(1,2)[OF same])
  have mk: "mk_iter ?s = mk_iter s" by (rule same_tree_simps(11)[OF same])
  have p: "node_at s (root s) p = do { d \<leftarrow> node_at s (root s) (butlast p); nth_int (kids s d) (last p) }"
    using node_at_snoc[of s "root s" "butlast p" "last p"] assms(2) by simp
  show ?thesis
  proof (cases "node_at s (root s) (butlast p)")
    case None
    with loop r assms(2) p show ?thesis
      by (simp add: scp_tree_store_get_iter_def children_of_elem[OF r] Let_def)
  next
    case d: (Some d)
    show ?thesis
    proof (cases "0 \<le> last p \<and> last p < int (length (kids s d))")
      case True
      then have k: "nth_int (kids s d) (last p) = Some (kids s d ! nat (last p))"
        by (simp add: nth_int_def)
      obtain y a where y: "elems s d = Some y" "ae_children y = Some a"
        using nth_int_in_set[OF k] by (rule kidsE)
      show ?thesis
        using loop d y k True assms(2) p mk
        by (simp add: scp_tree_store_get_iter_def children_of_elem[OF r] Let_def)
    next
      case False
      have "(do { y \<leftarrow> elems s d; a \<leftarrow> ae_children y; None :: addr option }) = None"
        by (cases "elems s d") (auto split: Option.bind_splits)
      with False loop d assms(2) p show ?thesis
        by (auto simp: scp_tree_store_get_iter_def children_of_elem[OF r] Let_def nth_int_def)
    qed
  qed
qed

lemma get_iter_points_to:
  assumes "wf s" "points_to s it p"
  shows "scp_tree_store_get_iter s it0 p = Some (s\<lparr>columns_dirty := True\<rparr>, it, True)"
proof -
  obtain q i d a e x y where *: "p = q @ [i]" "it = mk_iter s a i" "node_at s (root s) q = Some d"
    "elems s d = Some y" "ae_children y = Some a" "node_at s (root s) p = Some e"
    using assms by (rule points_toE)
  then have "p \<noteq> []" by simp
  with get_iter_at[OF assms(1) this, of it0] * show ?thesis by simp
qed

lemma points_to_exists:
  assumes "wf s" "node_at s (root s) p = Some e" "p \<noteq> []"
  shows "points_to s (mk_iter s (the (ae_children (the (elems s (the (node_at s (root s) (butlast p))))))) (last p)) p"
proof -
  have p: "node_at s (root s) (butlast p @ [last p]) = Some e" using assms(2,3) by simp
  then obtain d where d: "node_at s (root s) (butlast p) = Some d" "nth_int (kids s d) (last p) = Some e"
    by (auto simp: node_at_snoc bind_eq_Some_conv)
  obtain y a where y: "elems s d = Some y" "ae_children y = Some a"
    using nth_int_in_set[OF d(2)] by (rule kidsE)
  from points_to_intro[OF assms(1) d(1) y d(2)] d y assms(3) show ?thesis by simp
qed


subsection \<open>A small tree\<close>

text \<open>
  One integer column; the rows [0], [1] and [2] are the elements 3, 4 and 5 with the values 10, 20
  and 30, and [1] has one child [1, 0], the element 7 with the value 15.
\<close>

definition demo_header :: header where
  "demo_header = \<lparr>hdr_type = \<lparr>gt_id = 24, gt_fundamental = G_TYPE_INT\<rparr>,
     hdr_utf8_collate = False, hdr_func = Some Model_Compare, hdr_data = 0, hdr_destroy = False\<rparr>"

definition demo :: store where
  "demo = \<lparr>stamp = 1, root = 0, roar = 1, n_columns = 1, headers = [demo_header],
     default_header = demo_header\<lparr>hdr_func := None\<rparr>,
     sort_column_id = -2, sort_order = GTK_SORT_ASCENDING, sort_func = None, sublevels = True,
     toplevel_reserved = 0, sublevel_reserved = 0, sublevel_discard = False, columns_dirty = False,
     elems = [0 \<mapsto> \<lparr>ae_parent = None, ae_children = Some 2, ae_data = []\<rparr>,
       3 \<mapsto> \<lparr>ae_parent = Some 0, ae_children = None, ae_data = [V_int 10]\<rparr>,
       4 \<mapsto> \<lparr>ae_parent = Some 0, ae_children = Some 6, ae_data = [V_int 20]\<rparr>,
       5 \<mapsto> \<lparr>ae_parent = Some 0, ae_children = None, ae_data = [V_int 30]\<rparr>,
       7 \<mapsto> \<lparr>ae_parent = Some 4, ae_children = None, ae_data = [V_int 15]\<rparr>],
     arrays = [1 \<mapsto> [0], 2 \<mapsto> [3, 4, 5], 6 \<mapsto> [7]], next_addr = 8, signals = []\<rparr>"

definition demo_iter :: "int \<Rightarrow> iter" where
  "demo_iter i = \<lparr>it_stamp = 1, it_array = Some 2, it_index = i\<rparr>"

lemma demo_kids: "kids demo = (\<lambda>e. if e = 0 then [3, 4, 5] else if e = 4 then [7] else [])"
  by (auto simp: kids_def demo_def)

lemma demo_sel [simp]:
  "root demo = 0" "stamp demo = 1" "n_columns demo = 1" "headers demo = [demo_header]"
  "sort_func demo = None" "sublevels demo" "next_addr demo = 8" "signals demo = []"
  by (simp_all add: demo_def)

lemma demo_wf: "wf demo"
  unfolding wf_def demo_kids owns_def child_of_def
  by (auto simp: demo_def split: if_splits)

lemma demo_points_to:
  "i \<in> {0, 1, 2} \<Longrightarrow> points_to demo (demo_iter i) [i]"
  "points_to demo \<lparr>it_stamp = 1, it_array = Some 6, it_index = 0\<rparr> [1, 0]"
  by (auto simp: points_to_def demo_iter_def demo_kids owns_def nth_int_def) (auto simp: demo_def)

subsection \<open>Paths and iterators\<close>

text \<open>
  C23: \<open>scp_tree_store_get_iter\<close> finds an iterator for a path exactly when the tree has a row there,
  and \<open>scp_tree_store_get_path\<close> of that iterator is the path again; otherwise the iterator is
  marked invalid. Neither changes the tree nor faults.
\<close>

theorem scp_get_iter_get_path:
  assumes "wf s" and "p \<noteq> []"
  shows "\<exists>t it' found. scp_tree_store_get_iter s it p = Some (t, it', found) \<and> same_tree s t \<and>
    (found \<longleftrightarrow> node_at s (root s) p \<noteq> None) \<and>
    (if found then scp_tree_store_get_path t it' = Some (Some p) else it_stamp it' = 0)"
proof (cases "node_at s (root s) p")
  case None
  with get_iter_at[OF assms, of it] show ?thesis
    by (intro exI[of _ "s\<lparr>columns_dirty := True\<rparr>"] exI[of _ "it\<lparr>it_stamp := 0\<rparr>"] exI[of _ False]) simp
next
  case (Some e)
  let ?t = "s\<lparr>columns_dirty := True\<rparr>"
  let ?it = "mk_iter s (the (ae_children (the (elems s (the (node_at s (root s) (butlast p))))))) (last p)"
  have "scp_tree_store_get_path ?t ?it = Some (Some p)"
    using get_path_points_to[OF assms(1) points_to_exists[OF assms(1) Some assms(2)]]
    by (simp add: same_tree_simps(13)[OF same_tree_dirty])
  with Some get_iter_at[OF assms, of it] show ?thesis
    by (intro exI[of _ ?t] exI[of _ ?it] exI[of _ True]) simp
qed

theorem scp_get_iter_get_path_witness:
  "\<exists>t it'. scp_tree_store_get_iter demo (demo_iter 0) [1, 0] = Some (t, it', True) \<and>
    scp_tree_store_get_path t it' = Some (Some [1, 0])"
  using scp_get_iter_get_path[OF demo_wf, of "[1, 0]" "demo_iter 0"]
  by (auto simp: demo_kids nth_int_def)

text \<open>Navigation.\<close>

lemma iter_nth_child_path:
  assumes "wf s" "points_to s it p"
  shows "\<exists>it'. scp_tree_store_iter_nth_child s it0 (Some it) n = Some (it', node_at s (root s) (p @ [n]) \<noteq> None) \<and>
    (if node_at s (root s) (p @ [n]) \<noteq> None then points_to s it' (p @ [n]) else it_stamp it' = 0)"
proof -
  obtain q i d a e x y where *: "p = q @ [i]" "it = mk_iter s a i" "arrays s a = Some (kids s d)"
    "nth_int (kids s d) i = Some e" "node_at s (root s) p = Some e" "elems s e = Some x"
    using assms by (rule points_toE)
  have pe: "parent_elem (Some it) s = Some e" using * by (simp add: parent_elem_def ITER_ELEM_mk_iter elem_at_def)
  have v: "VALID_ITER_OR_NULL (Some it) s" using * by (simp add: VALID_ITER_OR_NULL_def)
  have pn: "node_at s (root s) (p @ [n]) = nth_int (kids s e) n" using *(5) by (simp add: node_at_snoc)
  note ch = children_of_elem[OF *(6)]
  show ?thesis
  proof (cases "ae_children x")
    case None
    then have "kids s e = []" using * by (simp add: kids_def)
    then have "nth_int (kids s e) n = None" by (simp add: nth_int_def)
    then show ?thesis
      using None v pe by (simp add: scp_tree_store_iter_nth_child_def ch children_len_def pn)
  next
    case (Some b)
    note k = wf_children(1)[OF assms(1) *(6) Some]
    show ?thesis
    proof (cases "0 \<le> n \<and> n < int (length (kids s e))")
      case True
      then have n: "nth_int (kids s e) n = Some (kids s e ! nat n)" by (simp add: nth_int_def)
      from points_to_intro[OF assms(1) *(5,6) Some n] True n v pe k Some show ?thesis
        by (simp add: scp_tree_store_iter_nth_child_def ch children_len_def pn)
    next
      case False
      then have "nth_int (kids s e) n = None" by (auto simp: nth_int_def)
      with False v pe k Some show ?thesis
        by (auto simp: scp_tree_store_iter_nth_child_def ch children_len_def pn)
    qed
  qed
qed

lemma iter_next_path:
  assumes "wf s" "points_to s it (q @ [i])"
  shows "\<exists>it'. scp_tree_store_iter_next s it = Some (it', node_at s (root s) (q @ [i + 1]) \<noteq> None) \<and>
    (if node_at s (root s) (q @ [i + 1]) \<noteq> None then points_to s it' (q @ [i + 1]) else it_stamp it' = 0)"
proof -
  obtain d a e x y where *: "it = mk_iter s a i" "arrays s a = Some (kids s d)" "node_at s (root s) q = Some d"
    "elems s d = Some y" "ae_children y = Some a" "nth_int (kids s d) i = Some e"
    using assms by (rule points_toE) simp
  then have i: "0 \<le> i" by (simp add: nth_int_Some)
  have it': "(mk_iter s a i)\<lparr>it_index := i + 1\<rparr> = mk_iter s a (i + 1)" by (simp add: mk_iter_def)
  show ?thesis
  proof (cases "i + 1 < int (length (kids s d))")
    case True
    then have n: "nth_int (kids s d) (i + 1) = Some (kids s d ! nat (i + 1))" using i by (simp add: nth_int_def)
    from points_to_intro[OF assms(1) *(3-5) n] n True *(2,3) show ?thesis
      by (simp add: scp_tree_store_iter_next_def node_at_snoc *(1) it')
  next
    case False
    then show ?thesis using * i by (simp add: scp_tree_store_iter_next_def node_at_snoc nth_int_def)
  qed
qed

lemma iter_parent_path:
  assumes "wf s" "points_to s it p"
  shows "\<exists>it'. scp_tree_store_iter_parent s it0 it = Some (it', butlast p \<noteq> []) \<and>
    (if butlast p \<noteq> [] then points_to s it' (butlast p) else it_stamp it' = 0)"
proof -
  obtain q i d a e x y where *: "p = q @ [i]" "it = mk_iter s a i" "arrays s a = Some (kids s d)"
    "node_at s (root s) q = Some d" "elems s d = Some y" "nth_int (kids s d) i = Some e"
    "elems s e = Some x" "ae_parent x = Some d"
    using assms by (rule points_toE)
  have v: "VALID_ITER it s" "ITER_ELEM it s = Some e" using * by (simp_all add: ITER_ELEM_mk_iter elem_at_def)
  show ?thesis
  proof (cases q rule: rev_cases)
    case Nil
    then have "d = root s" using * by simp
    then have "ae_parent y = None" using wf_root[OF assms(1)] * by auto
    then show ?thesis using v * Nil by (simp add: scp_tree_store_iter_parent_def)
  next
    case (snoc q' j)
    then obtain g where g: "node_at s (root s) q' = Some g" "nth_int (kids s g) j = Some d"
      using * by (auto simp: node_at_snoc bind_eq_Some_conv)
    note k = nth_int_in_set[OF g(2)]
    obtain z b where z: "elems s g = Some z" "ae_children z = Some b" "arrays s b = Some (kids s g)"
      using k by (rule kidsE)
    have y: "ae_parent y = Some g" using kids_parent[OF assms(1) k] * by auto
    have f: "scp_ptr_array_find (kids s g) d = j" by (rule find_nth[OF kids_distinct[OF assms(1)] g(2)])
    have j: "j \<noteq> -1" using g(2) by (auto simp: nth_int_Some)
    have bl: "butlast p = q' @ [j]" using snoc by (simp add: *(1) butlast_append)
    from points_to_intro[OF assms(1) g(1) z(1,2) g(2)] v *(5,7,8) y z f j show ?thesis
      by (simp add: scp_tree_store_iter_parent_def Let_def bl)
  qed
qed

text \<open>Depth.\<close>

lemma depth_above_at:
  assumes "wf s"
  shows "node_at s (root s) q = Some e \<Longrightarrow> e < f \<Longrightarrow> depth_above f s e n = Some (n + length q)"
proof (induction q arbitrary: e f n rule: rev_induct)
  case Nil
  obtain r where "elems s (root s) = Some r" "ae_parent r = None" using wf_root[OF assms] by blast
  with Nil show ?case by (cases f) simp_all
next
  case (snoc i q)
  then obtain d where d: "node_at s (root s) q = Some d" "nth_int (kids s d) i = Some e"
    by (auto simp: node_at_snoc bind_eq_Some_conv)
  note k = nth_int_in_set[OF d(2)]
  obtain x where x: "elems s e = Some x" "ae_parent x = Some d" using kids_parent[OF assms k] by blast
  obtain f' where f: "f = Suc f'" using snoc.prems by (cases f) auto
  have "d < e" using kids_less[OF assms k] .
  then have "depth_above f' s d (Suc n) = Some (Suc n + length q)"
    using snoc.prems f by (intro snoc.IH d(1)) simp
  with x show ?case by (simp add: f)
qed

text \<open>Descendants.\<close>

definition below :: "store \<Rightarrow> addr \<Rightarrow> addr \<Rightarrow> bool" where
  "below s d e \<longleftrightarrow> (\<exists>p. p \<noteq> [] \<and> node_at s d p = Some e)"

lemma below_unfold: "below s d e \<longleftrightarrow> (\<exists>c\<in>set (kids s d). c = e \<or> below s c e)"
proof
  assume "below s d e"
  then obtain p where p: "p \<noteq> []" "node_at s d p = Some e" by (auto simp: below_def)
  then obtain i q where "p = i # q" by (cases p) auto
  with p obtain c where c: "nth_int (kids s d) i = Some c" "node_at s c q = Some e"
    by (auto simp: bind_eq_Some_conv)
  then show "\<exists>c\<in>set (kids s d). c = e \<or> below s c e"
    using nth_int_in_set[OF c(1)] unfolding below_def by (cases "q = []") auto
next
  assume "\<exists>c\<in>set (kids s d). c = e \<or> below s c e"
  then obtain i where i: "i < length (kids s d)" "kids s d ! i = e \<or> below s (kids s d ! i) e"
    by (auto simp: in_set_conv_nth)
  from i(2) obtain q where "node_at s (kids s d ! i) q = Some e"
    unfolding below_def by (elim disjE exE conjE) (metis node_at.simps(1), blast)
  then have "node_at s d (int i # q) = Some e" using i(1) by simp
  then show "below s d e" unfolding below_def by blast
qed

lemma contains_any_spec:
  "(\<And>x. x \<in> set xs \<Longrightarrow> rec x = Some (P x)) \<Longrightarrow>
   contains_any rec xs e = Some (\<exists>x\<in>set xs. x = e \<or> P x)"
  by (induction xs) auto

lemma scp_tree_contains_below:
  assumes "wf s"
  shows "elems s d = Some x \<Longrightarrow> next_addr s \<le> f + d \<Longrightarrow>
    scp_tree_contains f s (ae_children x) e = Some (below s d e)"
proof (induction f arbitrary: d x)
  case 0
  then show ?case using wf_elem_bound[OF assms 0(1)] by simp
next
  case (Suc f)
  show ?case
  proof (cases "ae_children x")
    case None
    then have "kids s d = []" using Suc.prems by (simp add: kids_def)
    then show ?thesis using None by (simp add: below_unfold[of s d])
  next
    case (Some a)
    have "(do { c \<leftarrow> children_of y s; scp_tree_contains f s c e }) = Some (below s y e)"
      if y: "y \<in> set (kids s d)" for y
    proof -
      obtain z where "elems s y = Some z" using kids_parent[OF assms y] by blast
      with Suc.IH[OF this] kids_less[OF assms y] Suc.prems show ?thesis by (simp add: children_of_elem)
    qed
    with contains_any_spec[where xs = "kids s d" and P = "\<lambda>y. below s y e" and e = e]
      wf_children(1)[OF assms Suc.prems(1) Some] Some
    show ?thesis by (simp add: below_unfold[of s d])
  qed
qed

lemma node_at_inject:
  assumes "wf s" "node_at s (root s) p = Some e" "node_at s (root s) q = Some e"
  shows "p = q"
  using path_above_at[OF assms(1,2), of "Suc e" "[]"] path_above_at[OF assms(1,3), of "Suc e" "[]"] by simp

lemma path_is_ancestor_iff: "path_is_ancestor p q \<longleftrightarrow> (\<exists>r. r \<noteq> [] \<and> q = p @ r)"
  unfolding path_is_ancestor_def
  by (metis append_eq_conv_conj append_take_drop_id drop_eq_Nil leD length_append length_greater_0_conv
      less_add_same_cancel1 linorder_not_less)

lemma is_ancestor_paths:
  assumes "wf s" "points_to s it p" "points_to s desc q"
  shows "scp_tree_store_is_ancestor s it desc = Some (path_is_ancestor p q)"
proof -
  obtain e x where e: "node_at s (root s) p = Some e" "elems s e = Some x" "ITER_ELEM it s = Some e" "VALID_ITER it s"
    using assms(1,2) by (rule points_toE) (simp add: ITER_ELEM_mk_iter elem_at_def)
  obtain d y where d: "node_at s (root s) q = Some d" "ITER_ELEM desc s = Some d" "VALID_ITER desc s"
    using assms(1,3) by (rule points_toE) (simp add: ITER_ELEM_mk_iter elem_at_def)
  have "below s e d \<longleftrightarrow> path_is_ancestor p q"
  proof
    assume "below s e d"
    then obtain r where r: "r \<noteq> []" "node_at s e r = Some d" by (auto simp: below_def)
    then have "node_at s (root s) (p @ r) = Some d" using e by (simp add: node_at_append)
    from node_at_inject[OF assms(1) d(1) this] r(1) show "path_is_ancestor p q"
      by (auto simp: path_is_ancestor_iff)
  next
    assume "path_is_ancestor p q"
    then show "below s e d" using e d by (auto simp: path_is_ancestor_iff below_def node_at_append)
  qed
  with e d scp_tree_contains_below[OF assms(1) e(2), of "next_addr s" d] show ?thesis
    by (simp add: scp_tree_store_is_ancestor_def children_of_elem)
qed

text \<open>The tree model's navigation agrees with the paths. From a row at \<open>p\<close>, \<open>nth_child\<close> leads to
  \<open>p @ [n]\<close>, \<open>next\<close> to the path with its last index one higher and \<open>parent\<close> to the path without its
  last index; each returns \<open>TRUE\<close> exactly when there is such a row and clears the stamp otherwise.
\<close>

theorem scp_iter_navigation:
  assumes "wf s" and "points_to s it (q @ [i])"
  shows "\<exists>child next parent.
    scp_tree_store_iter_nth_child s it0 (Some it) n = Some (child, node_at s (root s) (q @ [i, n]) \<noteq> None) \<and>
    scp_tree_store_iter_next s it = Some (next, node_at s (root s) (q @ [i + 1]) \<noteq> None) \<and>
    scp_tree_store_iter_parent s it0 it = Some (parent, q \<noteq> []) \<and>
    (if node_at s (root s) (q @ [i, n]) \<noteq> None then points_to s child (q @ [i, n]) else it_stamp child = 0) \<and>
    (if node_at s (root s) (q @ [i + 1]) \<noteq> None then points_to s next (q @ [i + 1]) else it_stamp next = 0) \<and>
    (if q \<noteq> [] then points_to s parent q else it_stamp parent = 0)"
  using iter_nth_child_path[OF assms, of it0 n] iter_next_path[OF assms] iter_parent_path[OF assms, of it0]
  by (simp only: append_assoc append_Cons append_Nil butlast_snoc) blast

theorem scp_iter_navigation_witness:
  "\<exists>child. scp_tree_store_iter_nth_child demo (demo_iter 0) (Some (demo_iter 1)) 0 = Some (child, True) \<and>
    points_to demo child [1, 0]"
  using scp_iter_navigation[OF demo_wf, of "demo_iter 1" "[]" 1 "demo_iter 0" 0] demo_points_to(1)[of 1]
  by (auto simp: demo_kids nth_int_def)

text \<open>
  \<open>scp_tree_store_is_ancestor\<close> decides whether the path of the first row is a proper prefix of the
  path of the second. \<open>scp_tree_store_iter_depth\<close> is the length of the row's path: 1, not 0, for a
  top-level row.
\<close>

theorem scp_is_ancestor_depth:
  assumes "wf s" and "points_to s it p" and "points_to s desc q"
  shows "scp_tree_store_is_ancestor s it desc = Some (\<exists>r. r \<noteq> [] \<and> q = p @ r) \<and>
    scp_tree_store_iter_depth s desc = Some (length q)"
proof -
  obtain e y where d: "node_at s (root s) q = Some e" "ITER_ELEM desc s = Some e" "VALID_ITER desc s"
    "elems s e = Some y"
    using assms(1,3) by (rule points_toE) (simp add: ITER_ELEM_mk_iter elem_at_def)
  then show ?thesis
    using is_ancestor_paths[OF assms] depth_above_at[OF assms(1) d(1) wf_elem_bound[OF assms(1) d(4)], of 0]
    by (simp add: path_is_ancestor_iff scp_tree_store_iter_depth_def)
qed

theorem scp_is_ancestor_depth_witness:
  "scp_tree_store_is_ancestor demo (demo_iter 1) \<lparr>it_stamp = 1, it_array = Some 6, it_index = 0\<rparr> = Some True \<and>
    scp_tree_store_iter_depth demo \<lparr>it_stamp = 1, it_array = Some 6, it_index = 0\<rparr> = Some 2"
  using scp_is_ancestor_depth[OF demo_wf demo_points_to(1)[of 1] demo_points_to(2)] by simp

end
