(* ===== verification/ScpMove.thy ===== *)
theory ScpMove
  imports ScpTree
begin

text \<open>
  Reordering the children of one element: arrays as lists, moving, swapping, and the permutation
  that the \<open>rows-reordered\<close> signal announces.
\<close>

subsection \<open>Arrays as lists\<close>

definition insert_at :: "nat \<Rightarrow> 'a \<Rightarrow> 'a list \<Rightarrow> 'a list" where
  "insert_at i x xs = take i xs @ x # drop i xs"

lemma length_insert_at [simp]: "i \<le> length xs \<Longrightarrow> length (insert_at i x xs) = Suc (length xs)"
  by (simp add: insert_at_def)

lemma length_remove_index [simp]: "i < length xs \<Longrightarrow> length (remove_index xs i) = length xs - 1"
  by (simp add: remove_index_def)

lemma mset_insert_at [simp]: "mset (insert_at i x xs) = add_mset x (mset xs)"
  by (metis append_take_drop_id insert_at_def mset.simps(2) mset_append union_mset_add_mset_right)

lemma set_insert_at [simp]: "set (insert_at i x xs) = insert x (set xs)"
  by (metis mset_insert_at set_mset_add_mset_insert set_mset_mset)

lemma nth_insert_at: "i \<le> length xs \<Longrightarrow>
  insert_at i x xs ! k = (if k < i then xs ! k else if k = i then x else xs ! (k - 1))"
  by (auto simp: insert_at_def nth_append min_def nth_Cons' )

lemma nth_remove_index: "i < length xs \<Longrightarrow> k < length xs - 1 \<Longrightarrow>
  remove_index xs i ! k = (if k < i then xs ! k else xs ! (k + 1))"
  by (auto simp: remove_index_def nth_append min_def)

lemma mset_remove_index: "i < length xs \<Longrightarrow> add_mset (xs ! i) (mset (remove_index xs i)) = mset xs"
  by (metis id_take_nth_drop mset.simps(2) mset_append remove_index_def Suc_eq_plus1 union_mset_add_mset_right)

lemma length_memmove: "dst + n \<le> length xs \<Longrightarrow> src + n \<le> length xs \<Longrightarrow> length (memmove xs dst src n) = length xs"
  by (simp add: memmove_def)

lemma nth_memmove: "dst + n \<le> length xs \<Longrightarrow> src + n \<le> length xs \<Longrightarrow> k < length xs \<Longrightarrow>
  memmove xs dst src n ! k = (if dst \<le> k \<and> k < dst + n then xs ! (src + (k - dst)) else xs ! k)"
  by (auto simp: memmove_def nth_append min_def intro!: arg_cong[where f = "nth xs"])

lemma length_moved [simp]: "i < length xs \<Longrightarrow> j < length xs \<Longrightarrow> length (moved xs i j) = length xs"
  by (simp add: moved_def length_memmove)

lemma nth_moved:
  "i < length xs \<Longrightarrow> j < length xs \<Longrightarrow> k < length xs \<Longrightarrow>
   moved xs i j ! k = (if k = j then xs ! i
     else if j < i then (if j < k \<and> k \<le> i then xs ! (k - 1) else xs ! k)
     else (if i \<le> k \<and> k < j then xs ! (k + 1) else xs ! k))"
  by (auto simp: moved_def nth_memmove length_memmove nth_list_update)

lemma moved_insert_at:
  assumes "i < length xs" "j < length xs"
  shows "moved xs i j = insert_at j (xs ! i) (remove_index xs i)"
  by (rule nth_equalityI)
    (use assms in \<open>auto simp: nth_moved nth_insert_at nth_remove_index\<close>)

lemma mset_moved: "i < length xs \<Longrightarrow> j < length xs \<Longrightarrow> mset (moved xs i j) = mset xs"
  by (simp add: moved_insert_at mset_remove_index)

lemma nth_move_order:
  "i < length xs \<Longrightarrow> j < length xs \<Longrightarrow> k < length xs \<Longrightarrow>
   moved xs i j ! k = xs ! nat (move_order (length xs) i j ! k)"
  by (auto simp: nth_moved move_order_def nat_diff_distrib nat_add_distrib)

lemma length_swapped [simp]: "length (swapped xs i j) = length xs"
  by (simp add: swapped_def)

lemma mset_swapped: "i < length xs \<Longrightarrow> j < length xs \<Longrightarrow> mset (swapped xs i j) = mset xs"
  by (simp add: swapped_def mset_swap)

lemma nth_swap_order:
  "i < length xs \<Longrightarrow> j < length xs \<Longrightarrow> k < length xs \<Longrightarrow>
   swapped xs i j ! k = xs ! nat (swap_order (length xs) i j ! k)"
  by (auto simp: swapped_def swap_order_def nth_list_update)

lemma insert_val_list:
  assumes "i \<le> length xs"
  shows "(memmove (xs @ [z]) (i + 1) i (length (xs @ [z]) - i - 1))[i := x] = insert_at i x xs"
  by (rule nth_equalityI)
    (use assms in \<open>auto simp: length_memmove nth_list_update nth_memmove nth_insert_at nth_append
      not_less_eq_eq less_Suc_eq intro!: arg_cong[where f = "nth xs"]\<close>)

lemma permute_nth:
  "permute ys order n = Some zs \<longleftrightarrow>
   n \<le> length order \<and> length zs = n \<and> (\<forall>k<n. 0 \<le> order ! k \<and> order ! k < int (length ys) \<and>
     zs ! k = ys ! nat (order ! k))"
proof (induction ys order n arbitrary: zs rule: permute.induct)
  case (3 ys i order n)
  show ?case
  proof (cases zs)
    case (Cons z zs')
    then show ?thesis
      using 3[of "ys ! nat i" zs']
      by (cases "0 \<le> i \<and> i < int (length ys)")
        (auto simp: bind_eq_Some_conv nth_int_def All_less_Suc2)
  qed (auto simp: bind_eq_Some_conv)
qed auto

subsection \<open>Changing the order of one array\<close>

lemma set_array_sel [simp]:
  "elems (set_array a xs s) = elems s" "root (set_array a xs s) = root s" "roar (set_array a xs s) = roar s"
  "stamp (set_array a xs s) = stamp s" "next_addr (set_array a xs s) = next_addr s"
  "n_columns (set_array a xs s) = n_columns s" "headers (set_array a xs s) = headers s"
  "arrays (set_array a xs s) = (arrays s)(a \<mapsto> xs)" "signals (set_array a xs s) = signals s"
  "sort_func (set_array a xs s) = sort_func s" "sublevels (set_array a xs s) = sublevels s"
  by (simp_all add: set_array_def)

lemma emit_sel [simp]:
  "elems (emit sig s) = elems s" "root (emit sig s) = root s" "roar (emit sig s) = roar s"
  "stamp (emit sig s) = stamp s" "next_addr (emit sig s) = next_addr s" "arrays (emit sig s) = arrays s"
  "n_columns (emit sig s) = n_columns s" "signals (emit sig s) = signals s @ [sig]"
  "sort_func (emit sig s) = sort_func s" "sublevels (emit sig s) = sublevels s"
  by (simp_all add: emit_def)

lemma kids_set_array:
  assumes "wf s" "owns s e a"
  shows "kids (set_array a xs s) = (kids s)(e := xs)"
proof
  fix d
  show "kids (set_array a xs s) d = ((kids s)(e := xs)) d"
  proof (cases "d = e")
    case True
    with assms show ?thesis by (auto simp: kids_def owns_def)
  next
    case False
    then have "\<not> owns s d a" using wf_owner[OF assms(1)] assms(2) by blast
    with False show ?thesis by (auto simp: kids_def owns_def split: option.splits)
  qed
qed

lemma wf_set_array:
  assumes "wf s" "owns s e a" "set xs = set (kids s e)" "distinct xs"
  shows "wf (set_array a xs s)"
proof -
  let ?t = "set_array a xs s"
  have k: "kids ?t = (kids s)(e := xs)" by (rule kids_set_array[OF assms(1,2)])
  have o: "owns ?t = owns s" and c: "child_of ?t = child_of s"
    by (rule owns_same child_of_same; simp)+
  have a: "a \<noteq> roar s" "arrays s a = Some (kids s e)"
    using wf_owns[OF assms(1,2)] assms(2) by (auto simp: owns_def kids_def)
  show ?thesis
    unfolding wf_def o c k
  proof (intro conjI allI impI)
    show "\<exists>p. ae_parent x = Some p \<and> p < d \<and> d \<in> set (((kids s)(e := xs)) p)"
      if "elems ?t d = Some x" "d \<noteq> root ?t" for d x
      using wf_parent[OF assms(1)] that assms(3) by fastforce
    show "\<exists>ys. arrays ?t b = Some ys \<and> distinct ys \<and> (\<forall>c\<in>set ys. child_of s c d)"
      if "owns s d b" for d b
    proof (cases "b = a")
      case True
      then have "d = e" using wf_owner[OF assms(1)] assms(2) that by blast
      with True assms wf_owns[OF assms(1,2)] a show ?thesis by auto
    next
      case False
      with wf_owns[OF assms(1) that] show ?thesis by simp
    qed
  qed (use wfD[OF assms(1)] a in \<open>auto split: if_splits\<close>)
qed

text \<open>Nothing but the order of the children of \<open>e\<close> differs between two trees.\<close>

definition reordered :: "store \<Rightarrow> addr \<Rightarrow> addr list \<Rightarrow> store \<Rightarrow> bool" where
  "reordered s e xs t \<longleftrightarrow> wf t \<and> stamp t = stamp s \<and> root t = root s \<and> roar t = roar s \<and>
     next_addr t = next_addr s \<and> elems t = elems s \<and> kids t = (kids s)(e := xs)"

lemma reordered_set_array:
  assumes "wf s" "owns s e a" "mset xs = mset (kids s e)"
  shows "reordered s e xs (set_array a xs s)"
proof -
  have "set xs = set (kids s e)" "distinct xs"
    using assms(3) kids_distinct[OF assms(1), of e] by (metis set_mset_mset, metis mset_eq_imp_distinct_iff)
  with assms wf_set_array kids_set_array show ?thesis by (simp add: reordered_def)
qed

lemma reordered_same: "reordered s e xs t \<Longrightarrow> same_tree t u \<Longrightarrow> reordered s e xs u"
  using same_tree_simps(1,5)[of t u] by (auto simp: reordered_def same_tree_def)

text \<open>A path that does not go below \<open>e\<close> still leads to the same element.\<close>

lemma node_at_reordered:
  assumes "wf s" "kids t = (kids s)(e := xs)" "node_at s d p = Some c" "c \<le> e"
  shows "node_at t d p = Some c"
  using assms(3)
proof (induction p arbitrary: d)
  case (Cons i p)
  then obtain b where b: "nth_int (kids s d) i = Some b" "node_at s b p = Some c"
    by (auto simp: bind_eq_Some_conv)
  have "b \<le> c" if "node_at s b p = Some c" for b p
    using that
  proof (induction p arbitrary: b)
    case (Cons i p)
    then obtain b' where "nth_int (kids s b) i = Some b'" "node_at s b' p = Some c"
      by (auto simp: bind_eq_Some_conv)
    with Cons.IH[of b'] kids_less[OF assms(1) nth_int_in_set, of b i b'] show ?case by simp
  qed simp
  from this[OF b(2)] kids_less[OF assms(1) nth_int_in_set[OF b(1)]] assms(4) have "d \<noteq> e" by simp
  with b Cons.IH[OF b(2)] assms(2) show ?case by simp
qed simp

lemma points_to_reordered:
  assumes "wf s" "points_to s it (q @ [i])" "node_at s (root s) q = Some d" "reordered s d xs t"
    "0 \<le> j" "j < int (length xs)"
  shows "points_to t (it\<lparr>it_index := j\<rparr>) (q @ [j])"
proof -
  have "node_at t (root t) q = Some d"
    using assms(3,4) node_at_reordered[OF assms(1) _ assms(3)] by (simp add: reordered_def)
  moreover have "owns t = owns s" by (rule owns_same) (use assms(4) in \<open>simp add: reordered_def\<close>)
  ultimately show ?thesis using assms by (auto simp: points_to_def reordered_def)
qed

lemma emit_reordered_points_to:
  assumes "wf s" "points_to s it (q @ [i])"
  shows "\<exists>parent. scp_emit_reordered s it order = Some (emit (Rows_Reordered (Some q) (Some parent) order) s)"
proof -
  obtain d a e x y where *: "it = mk_iter s a i" "node_at s (root s) q = Some d"
    "elems s d = Some y" "ae_children y = Some a"
    using assms by (rule points_toE) auto
  obtain r where r: "elems s (root s) = Some r" using wf_root[OF assms(1)] by blast
  show ?thesis
  proof (cases "q = []")
    case True
    with * r show ?thesis by (auto simp: scp_emit_reordered_def children_of_elem)
  next
    case False
    have "ae_children r \<noteq> Some a"
    proof
      assume "ae_children r = Some a"
      with r * have "owns s (root s) a" "owns s d a" by (auto simp: owns_def)
      then have "d = root s" using wf_owner[OF assms(1)] by blast
      with node_at_inject[OF assms(1) *(2), of "[]"] False show False by simp
    qed
    moreover obtain it' where it': "scp_tree_store_iter_parent s \<lparr>it_stamp = 0, it_array = None, it_index = 0\<rparr> it
        = Some (it', True)" "points_to s it' q"
      using iter_parent_path[OF assms] False by fastforce
    ultimately show ?thesis
      using r * get_path_points_to[OF assms(1) it'(2)]
      by (auto simp: scp_emit_reordered_def children_of_elem)
  qed
qed

text \<open>Moving a row.\<close>

lemma move_element_spec:
  assumes "wf s" "points_to s it (q @ [i])" "node_at s (root s) q = Some d" "it_array it = Some a"
    and j: "0 \<le> j" "j < int (length (kids s d))"
  shows "\<exists>t. scp_move_element s a it j emit_reordered = Some (t, it\<lparr>it_index := j\<rparr>) \<and>
    reordered s d (moved (kids s d) (nat i) (nat j)) t \<and> points_to t (it\<lparr>it_index := j\<rparr>) (q @ [j]) \<and>
    (\<exists>parent. signals t = signals s @ (if emit_reordered \<and> i \<noteq> j
       then [Rows_Reordered (Some q) parent (move_order (length (kids s d)) (nat i) (nat j))] else []))"
proof -
  obtain e x y where *: "it = mk_iter s a i" "elems s d = Some y" "ae_children y = Some a"
    "arrays s a = Some (kids s d)" "nth_int (kids s d) i = Some e"
    using assms(1,2) by (rule points_toE) (use assms(3,4) in auto)
  have ii: "it_index it = i" using * by simp
  have i: "0 \<le> i" "i < int (length (kids s d))" using *(5) by (auto simp: nth_int_Some)
  then have nn: "nat i < length (kids s d)" "nat j < length (kids s d)" using j by auto
  have o: "owns s d a" using * by (auto simp: owns_def)
  let ?xs = "moved (kids s d) (nat i) (nat j)"
  let ?s = "set_array a ?xs s"
  have r: "reordered s d ?xs ?s" by (rule reordered_set_array[OF assms(1) o mset_moved[OF nn]])
  have "points_to ?s (it\<lparr>it_index := j\<rparr>) (q @ [j])"
    using points_to_reordered[OF assms(1-3) r j(1)] j(2) nn by simp
  note p = this emit_reordered_points_to[OF _ this, of "move_order (length (kids s d)) (nat i) (nat j)"]
  have wf: "wf ?s" using r by (simp add: reordered_def)
  show ?thesis
  proof (cases "i = j")
    case True
    have "?xs = kids s d"
      by (rule nth_equalityI) (use nn True in \<open>auto simp: nth_moved\<close>)
    then have "reordered s d ?xs s" using assms(1) by (simp add: reordered_def)
    moreover have "it\<lparr>it_index := j\<rparr> = it" using * True by (simp add: mk_iter_def)
    ultimately show ?thesis using True ii assms(2) by (auto simp: scp_move_element_def)
  next
    case False
    have m: "scp_move_element s a it j emit_reordered = do {
        t \<leftarrow> (if emit_reordered then scp_emit_reordered ?s (it\<lparr>it_index := j\<rparr>)
            (move_order (length (kids s d)) (nat i) (nat j)) else Some ?s);
        Some (t, it\<lparr>it_index := j\<rparr>) }"
      using False * i j by (simp add: scp_move_element_def nth_int_def Let_def)
    show ?thesis
    proof (cases emit_reordered)
      case True
      obtain parent where e: "scp_emit_reordered ?s (it\<lparr>it_index := j\<rparr>)
          (move_order (length (kids s d)) (nat i) (nat j))
        = Some (emit (Rows_Reordered (Some q) (Some parent) (move_order (length (kids s d)) (nat i) (nat j))) ?s)"
        using p(2) wf by blast
      have same: "same_tree ?s (emit sig ?s)" for sig by simp
      show ?thesis
        using m True False e reordered_same[OF r same] p(1) same_tree_simps(6)[OF same] by auto
    next
      case nf: False
      then show ?thesis using m False r p by auto
    qed
  qed
qed

text \<open>
  C29: \<open>scp_tree_store_move\<close> on an unsorted store takes the row at index \<open>i\<close> out and puts it back at
  index \<open>j\<close>; no cell changes, the iterator follows the row, and unless the row stays where it is
  exactly one \<open>rows-reordered\<close> is emitted whose order maps each new index to the old one.
\<close>

theorem scp_tree_store_move_correct:
  assumes "wf s" and "sort_func s = None" and "points_to s it (q @ [i])" and "node_at s (root s) q = Some d"
    and "0 \<le> j" and "j < int (length (kids s d))"
  shows "\<exists>t parent order. scp_tree_store_move s it j = Some (t, it\<lparr>it_index := j\<rparr>) \<and>
    wf t \<and> elems t = elems s \<and> points_to t (it\<lparr>it_index := j\<rparr>) (q @ [j]) \<and>
    kids t = (kids s)(d := insert_at (nat j) (kids s d ! nat i) (remove_index (kids s d) (nat i))) \<and>
    signals t = signals s @ (if i = j then [] else [Rows_Reordered (Some q) parent order]) \<and>
    (\<forall>k<length (kids s d). kids t d ! k = kids s d ! nat (order ! k))"
proof -
  obtain a e where *: "it = mk_iter s a i" "arrays s a = Some (kids s d)" "nth_int (kids s d) i = Some e"
    using assms(1,3) by (rule points_toE) (use assms(4) in auto)
  then have nn: "nat i < length (kids s d)" "nat j < length (kids s d)" using assms(5,6)
    by (auto simp: nth_int_Some)
  have "scp_tree_store_move s it j = scp_move_element s a it j True"
    using assms * by (simp add: scp_tree_store_move_def)
  with move_element_spec[OF assms(1,3,4) _ assms(5,6), of a True] *
  obtain t parent where t: "scp_tree_store_move s it j = Some (t, it\<lparr>it_index := j\<rparr>)"
    "reordered s d (moved (kids s d) (nat i) (nat j)) t" "points_to t (it\<lparr>it_index := j\<rparr>) (q @ [j])"
    "signals t = signals s @ (if i \<noteq> j
       then [Rows_Reordered (Some q) parent (move_order (length (kids s d)) (nat i) (nat j))] else [])"
    by auto
  show ?thesis
    by (rule exI[of _ t], rule exI[of _ parent], rule exI[of _ "move_order (length (kids s d)) (nat i) (nat j)"])
      (use t nn in \<open>simp add: reordered_def moved_insert_at nth_move_order[OF nn] flip: moved_insert_at\<close>)
qed

theorem scp_tree_store_move_correct_witness:
  "\<exists>t. scp_tree_store_move demo (demo_iter 2) 0 = Some (t, demo_iter 0) \<and> wf t \<and> kids t 0 = [5, 3, 4]"
  using scp_tree_store_move_correct[OF demo_wf demo_sel(5), of "demo_iter 2" "[]" 2 0 0] demo_points_to(1)[of 2]
  by (auto simp: demo_kids insert_at_def remove_index_def demo_iter_def numeral_2_eq_2)

lemma swap_spec:
  assumes "wf s" "points_to s x (q @ [i])" "points_to s y (q @ [j])" "i \<noteq> j"
    "node_at s (root s) q = Some d"
  shows "\<exists>t parent. scp_tree_store_swap s x y = Some t \<and>
    reordered s d (swapped (kids s d) (nat i) (nat j)) t \<and>
    signals t = signals s @ [Rows_Reordered (Some q) parent (swap_order (length (kids s d)) (nat i) (nat j))]"
proof -
  obtain a e z where *: "x = mk_iter s a i" "arrays s a = Some (kids s d)" "nth_int (kids s d) i = Some e"
    "elems s d = Some z" "ae_children z = Some a"
    using assms(1,2) by (rule points_toE) (use assms(5) in auto)
  obtain b e' z' where **: "y = mk_iter s b j" "nth_int (kids s d) j = Some e'"
    "elems s d = Some z'" "ae_children z' = Some b"
    using assms(1,3) by (rule points_toE) (use assms(5) in auto)
  have b: "b = a" using * ** by simp
  have nn: "nat i < length (kids s d)" "nat j < length (kids s d)" "0 \<le> i" "i < int (length (kids s d))"
    using * ** by (auto simp: nth_int_Some)
  let ?xs = "swapped (kids s d) (nat i) (nat j)"
  let ?s = "set_array a ?xs s"
  let ?o = "swap_order (length (kids s d)) (nat i) (nat j)"
  have o: "owns s d a" using * by (auto simp: owns_def)
  have r: "reordered s d ?xs ?s" by (rule reordered_set_array[OF assms(1) o mset_swapped[OF nn(1,2)]])
  have "points_to ?s (x\<lparr>it_index := i\<rparr>) (q @ [i])"
    using nn by (intro points_to_reordered[OF assms(1,2,5) r]) auto
  moreover have "x\<lparr>it_index := i\<rparr> = x" using * by (simp add: mk_iter_def)
  ultimately have "points_to ?s x (q @ [i])" by simp
  then obtain parent where p: "scp_emit_reordered ?s x ?o = Some (emit (Rows_Reordered (Some q) (Some parent) ?o) ?s)"
    using emit_reordered_points_to[of ?s x q i ?o] r by (auto simp: reordered_def)
  have "scp_tree_store_swap s x y = scp_emit_reordered ?s x ?o"
    using * ** b assms(4) by (simp add: scp_tree_store_swap_def Let_def)
  with p reordered_same[OF r same_tree_emit] show ?thesis by auto
qed

text \<open>\<open>scp_tree_store_swap\<close> on two different rows of one level exchanges the two and nothing else, and
  emits one \<open>rows-reordered\<close> whose order maps each new index to the old one.
\<close>

theorem scp_tree_store_swap_correct:
  assumes "wf s" and "points_to s x (q @ [i])" and "points_to s y (q @ [j])" and "i \<noteq> j"
    and "node_at s (root s) q = Some d"
  shows "\<exists>t parent order. scp_tree_store_swap s x y = Some t \<and> wf t \<and> elems t = elems s \<and>
    kids t = (kids s)(d := (kids s d)[nat i := kids s d ! nat j, nat j := kids s d ! nat i]) \<and>
    signals t = signals s @ [Rows_Reordered (Some q) parent order] \<and>
    (\<forall>k<length (kids s d). kids t d ! k = kids s d ! nat (order ! k))"
proof -
  obtain e e' where "nth_int (kids s d) i = Some e" "nth_int (kids s d) j = Some e'"
    using points_toE[OF assms(1,2)] points_toE[OF assms(1,3)] assms(5)
    by (metis append1_eq_conv option.inject)
  then have nn: "nat i < length (kids s d)" "nat j < length (kids s d)" by (auto simp: nth_int_Some)
  obtain t parent where t: "scp_tree_store_swap s x y = Some t"
    "reordered s d (swapped (kids s d) (nat i) (nat j)) t"
    "signals t = signals s @ [Rows_Reordered (Some q) parent (swap_order (length (kids s d)) (nat i) (nat j))]"
    using swap_spec[OF assms] by blast
  show ?thesis
    by (rule exI[of _ t], rule exI[of _ parent], rule exI[of _ "swap_order (length (kids s d)) (nat i) (nat j)"])
      (use t nth_swap_order[OF nn] in \<open>simp add: reordered_def, simp add: swapped_def\<close>)
qed

theorem scp_tree_store_swap_correct_witness:
  "\<exists>t. scp_tree_store_swap demo (demo_iter 0) (demo_iter 2) = Some t \<and> wf t \<and> kids t 0 = [5, 4, 3]"
  using scp_tree_store_swap_correct[OF demo_wf, of "demo_iter 0" "[]" 0 "demo_iter 2" 2 0]
    demo_points_to(1)[of 0] demo_points_to(1)[of 2]
  by (auto simp: demo_kids numeral_2_eq_2)

end
