(* ===== verification/CSort.thy ===== *)
theory CSort
  imports Prelude
begin

text \<open>
  Sorting with a comparison function: ascending lists, the contract of \<open>qsort\<close> and of GLib's variants of it,
  which are not part of the repository, and insertion sort as a function that keeps the contract.
\<close>

fun insert_by :: "('a \<Rightarrow> 'a \<Rightarrow> int) \<Rightarrow> 'a \<Rightarrow> 'a list \<Rightarrow> 'a list" where
  "insert_by cmp x [] = [x]"
| "insert_by cmp x (y # ys) = (if cmp x y \<le> 0 then x # y # ys else y # insert_by cmp x ys)"

context comparator
begin

definition ascending :: "'a list \<Rightarrow> bool" where
  "ascending = sorted_wrt (\<lambda>x y. cmp x y \<le> 0)"

lemma ascending_nth:
  "set xs \<subseteq> D \<Longrightarrow> ascending xs \<Longrightarrow> i \<le> j \<Longrightarrow> j < length xs \<Longrightarrow> cmp (xs ! i) (xs ! j) \<le> 0"
  by (cases "i = j") (auto simp: ascending_def sorted_wrt_iff_nth_less refl subset_iff)

lemma insert_by_sorted:
  assumes "x \<in> D" "set ys \<subseteq> D" "ascending ys"
  shows "ascending (insert_by cmp x ys) \<and> set (insert_by cmp x ys) = insert x (set ys)"
  using assms(2,3)
proof (induction ys)
  case (Cons y ys)
  then have IH: "ascending (insert_by cmp x ys)" "set (insert_by cmp x ys) = insert x (set ys)" "y \<in> D" "set ys \<subseteq> D"
    "\<forall>z\<in>set ys. cmp y z \<le> 0" by (simp_all add: ascending_def)
  show ?case
  proof (cases "cmp x y \<le> 0")
    case True
    then have "\<forall>z\<in>set ys. cmp x z \<le> 0" using trans[OF assms(1) IH(3) _ True] IH(4,5) by blast
    then show ?thesis using True Cons.prems by (simp add: ascending_def)
  next
    case False
    then show ?thesis using IH total[OF assms(1) IH(3)] by (auto simp: ascending_def)
  qed
qed (simp add: ascending_def)

end

text \<open>
  What a sorting function promises: a permutation of the array, ascending when the comparison function
  keeps its own contract on the elements.
\<close>

definition sorts :: "(('a \<Rightarrow> 'a \<Rightarrow> int) \<Rightarrow> 'a list \<Rightarrow> 'a list) \<Rightarrow> bool" where
  "sorts qsort \<longleftrightarrow> (\<forall>cmp D xs. mset (qsort cmp xs) = mset xs \<and>
     (comparator cmp D \<longrightarrow> set xs \<subseteq> D \<longrightarrow> comparator.ascending cmp (qsort cmp xs)))"

definition insertion_sort :: "('a \<Rightarrow> 'a \<Rightarrow> int) \<Rightarrow> 'a list \<Rightarrow> 'a list" where
  "insertion_sort cmp xs = foldr (insert_by cmp) xs []"

lemma mset_insert_by: "mset (insert_by cmp x ys) = add_mset x (mset ys)"
  by (induction ys) auto

lemma insertion_sort_sorts: "sorts insertion_sort"
proof -
  have "mset (insertion_sort cmp xs) = mset xs" for cmp :: "'a \<Rightarrow> 'a \<Rightarrow> int" and xs
    unfolding insertion_sort_def by (induction xs) (auto simp: mset_insert_by)
  moreover have "comparator.ascending cmp (insertion_sort cmp xs)"
    if c: "comparator cmp D" and "set xs \<subseteq> D" for cmp :: "'a \<Rightarrow> 'a \<Rightarrow> int" and D xs
  proof -
    have "set (insertion_sort cmp xs) \<subseteq> D \<and> comparator.ascending cmp (insertion_sort cmp xs)"
      using \<open>set xs \<subseteq> D\<close> unfolding insertion_sort_def
    proof (induction xs)
      case (Cons x xs)
      then show ?case using comparator.insert_by_sorted[OF c, of x "foldr (insert_by cmp) xs []"] by auto
    qed (simp add: comparator.ascending_def[OF c])
    then show ?thesis by blast
  qed
  ultimately show ?thesis by (simp add: sorts_def)
qed

end
