(* ===== verification/ScpSort.thy ===== *)
theory ScpSort
  imports ScpMove CSort
begin

text \<open>
  Searching and sorting: the binary searches on an ascending array, and the element that
  \<open>scp_sort_element\<close> puts back in its place.
\<close>

subsection \<open>Searching a sorted array\<close>

context comparator
begin

lemma ascending_insert_at:
  assumes "ascending xs" "p \<le> length xs"
    "\<And>k. k < p \<Longrightarrow> cmp (xs ! k) x \<le> 0" "\<And>k. p \<le> k \<Longrightarrow> k < length xs \<Longrightarrow> cmp x (xs ! k) \<le> 0"
  shows "ascending (insert_at p x xs)"
proof -
  have a: "ascending (take p xs @ drop p xs)" using assms(1) by simp
  have "\<forall>y\<in>set (take p xs). cmp y x \<le> 0" using assms(2,3) by (auto simp: in_set_conv_nth)
  moreover have "\<forall>y\<in>set (drop p xs). cmp x y \<le> 0" using assms(2,4) by (auto simp: in_set_conv_nth)
  ultimately show ?thesis
    using a unfolding ascending_def insert_at_def sorted_wrt_append by simp
qed

lemma search_pos_loop_spec:
  assumes "x \<in> D" and D: "\<And>k. lo \<le> k \<Longrightarrow> k \<le> hi \<Longrightarrow> f k \<in> D \<and> probe k = Some (cmp x (f k))"
    and sorted: "\<And>i j. lo \<le> i \<Longrightarrow> i \<le> j \<Longrightarrow> j \<le> hi \<Longrightarrow> cmp (f i) (f j) \<le> 0"
  shows "lo \<le> low \<Longrightarrow> low \<le> hi \<Longrightarrow> high \<le> hi \<Longrightarrow> low \<le> high + 1 \<Longrightarrow>
    (\<forall>k. lo \<le> k \<longrightarrow> k < low \<longrightarrow> cmp (f k) x \<le> 0) \<Longrightarrow>
    (\<forall>k. high < k \<longrightarrow> k \<le> hi \<longrightarrow> cmp x (f k) \<le> 0) \<Longrightarrow>
    \<exists>r. search_pos_loop probe low high = Some r \<and> lo \<le> r \<and> r \<le> hi + 1 \<and>
      (\<forall>k. lo \<le> k \<longrightarrow> k < r \<longrightarrow> cmp (f k) x \<le> 0) \<and> (\<forall>k. r \<le> k \<longrightarrow> k \<le> hi \<longrightarrow> cmp x (f k) \<le> 0)"
proof (induction "nat (high - low)" arbitrary: low high rule: less_induct)
  case less
  note s = search_pos_loop.simps[of probe low high]
  show ?case
  proof (cases "low < high")
    case True
    let ?mid = "(low + high) div 2"
    have mid: "low \<le> ?mid" "?mid < high" using True by auto
    then have m: "f ?mid \<in> D" "probe ?mid = Some (cmp x (f ?mid))"
      using D[of ?mid] less.prems by auto
    consider "cmp x (f ?mid) > 0" | "cmp x (f ?mid) < 0" | "cmp x (f ?mid) = 0" by linarith
    then show ?thesis
    proof cases
      case 1
      have "cmp (f k) x \<le> 0" if "lo \<le> k" "k < ?mid + 1" for k
      proof (rule trans[of _ "f ?mid"])
        show "cmp (f k) (f ?mid) \<le> 0" using sorted[of k ?mid] that less.prems mid by simp
        show "cmp (f ?mid) x \<le> 0" using 1 le_flip[of "f ?mid" x] m assms(1) by simp
      qed (use assms(1) D[of k] m that less.prems mid in auto)
      then have "\<exists>r. search_pos_loop probe (?mid + 1) high = Some r \<and> lo \<le> r \<and> r \<le> hi + 1 \<and>
        (\<forall>k. lo \<le> k \<longrightarrow> k < r \<longrightarrow> cmp (f k) x \<le> 0) \<and> (\<forall>k. r \<le> k \<longrightarrow> k \<le> hi \<longrightarrow> cmp x (f k) \<le> 0)"
        using less.prems mid True by (intro less.hyps) auto
      with 1 m True show ?thesis by (simp add: s Let_def)
    next
      case 2
      have "cmp x (f k) \<le> 0" if "?mid - 1 < k" "k \<le> hi" for k
      proof (rule trans[of _ "f ?mid"])
        show "cmp (f ?mid) (f k) \<le> 0" using sorted[of ?mid k] that less.prems mid by simp
        show "cmp x (f ?mid) \<le> 0" using 2 by simp
      qed (use assms(1) D[of k] m that less.prems mid in auto)
      then have "\<exists>r. search_pos_loop probe low (?mid - 1) = Some r \<and> lo \<le> r \<and> r \<le> hi + 1 \<and>
        (\<forall>k. lo \<le> k \<longrightarrow> k < r \<longrightarrow> cmp (f k) x \<le> 0) \<and> (\<forall>k. r \<le> k \<longrightarrow> k \<le> hi \<longrightarrow> cmp x (f k) \<le> 0)"
        using less.prems mid True by (intro less.hyps) auto
      with 2 m True show ?thesis by (simp add: s Let_def)
    next
      case 3
      have "cmp (f k) x \<le> 0" if "lo \<le> k" "k < ?mid" for k
      proof (rule trans[of _ "f ?mid"])
        show "cmp (f k) (f ?mid) \<le> 0" using sorted[of k ?mid] that less.prems mid by simp
        show "cmp (f ?mid) x \<le> 0" using 3 le_flip[of "f ?mid" x] m assms(1) by simp
      qed (use assms(1) D[of k] m that less.prems mid in auto)
      moreover have "cmp x (f k) \<le> 0" if "?mid \<le> k" "k \<le> hi" for k
      proof (rule trans[of _ "f ?mid"])
        show "cmp (f ?mid) (f k) \<le> 0" using sorted[of ?mid k] that less.prems mid by simp
        show "cmp x (f ?mid) \<le> 0" using 3 by simp
      qed (use assms(1) D[of k] m that less.prems mid in auto)
      ultimately show ?thesis using 3 m True less.prems mid by (simp add: s Let_def)
    qed
  next
    case False
    have l: "f low \<in> D" "probe low = Some (cmp x (f low))" using D[of low] less.prems by auto
    show ?thesis
    proof (cases "cmp x (f low) > 0")
      case True
      then have "\<not> high < low" using less.prems by fastforce
      then have "high = low" using False by simp
      moreover have "cmp (f low) x \<le> 0" using True le_flip[of "f low" x] l assms(1) by simp
      moreover have "cmp (f k) x \<le> 0" if "lo \<le> k" "k < low + 1" for k
        using less.prems that calculation(2) by (cases "k = low") auto
      moreover have "search_pos_loop probe low high = Some (low + 1)" using True l False by (simp add: s)
      moreover have "cmp x (f k) \<le> 0" if "low + 1 \<le> k" "k \<le> hi" for k
        using less.prems(6) that \<open>high = low\<close> by simp
      ultimately show ?thesis using less.prems(1,2) by (intro exI[of _ "low + 1"]) simp
    next
      case nt: False
      have "cmp x (f k) \<le> 0" if "low \<le> k" "k \<le> hi" for k
      proof (rule trans[of _ "f low"])
        show "cmp (f low) (f k) \<le> 0" using sorted[of low k] that less.prems by simp
        show "cmp x (f low) \<le> 0" using nt by simp
      qed (use assms(1) D[of k] l that less.prems in auto)
      then show ?thesis using nt l less.prems False by (simp add: s)
    qed
  qed
qed

lemma search_pos_spec:
  assumes "x \<in> D" and "\<And>k. lo \<le> k \<Longrightarrow> k \<le> hi \<Longrightarrow> f k \<in> D \<and> probe k = Some (cmp x (f k))"
    and "\<And>i j. lo \<le> i \<Longrightarrow> i \<le> j \<Longrightarrow> j \<le> hi \<Longrightarrow> cmp (f i) (f j) \<le> 0" and "lo \<le> hi + 1"
  shows "\<exists>r. scp_search_pos probe lo hi = Some r \<and> lo \<le> r \<and> r \<le> hi + 1 \<and>
      (\<forall>k. lo \<le> k \<longrightarrow> k < r \<longrightarrow> cmp (f k) x \<le> 0) \<and> (\<forall>k. r \<le> k \<longrightarrow> k \<le> hi \<longrightarrow> cmp x (f k) \<le> 0)"
proof (cases "lo \<le> hi")
  case True
  have "\<exists>r. search_pos_loop probe lo hi = Some r \<and> lo \<le> r \<and> r \<le> hi + 1 \<and>
      (\<forall>k. lo \<le> k \<longrightarrow> k < r \<longrightarrow> cmp (f k) x \<le> 0) \<and> (\<forall>k. r \<le> k \<longrightarrow> k \<le> hi \<longrightarrow> cmp x (f k) \<le> 0)"
    by (rule search_pos_loop_spec[OF assms(1-3)]) (use True in auto)
  with True show ?thesis by (simp add: scp_search_pos_def)
next
  case False
  with assms(4) show ?thesis by (simp add: scp_search_pos_def)
qed

text \<open>The search for a key in an ascending array finds a match exactly when there is one.\<close>

lemma binary_loop_spec:
  assumes "key \<in> D" and "\<And>e. e \<in> set xs \<Longrightarrow> f e \<in> D \<and> probe e = Some (cmp key (f e))"
    and "ascending (map f xs)"
  shows "0 \<le> low \<Longrightarrow> high < int (length xs) \<Longrightarrow>
    (\<forall>k. 0 \<le> k \<longrightarrow> k < int (length xs) \<longrightarrow> k < low \<or> high < k \<longrightarrow> cmp key (f (xs ! nat k)) \<noteq> 0) \<Longrightarrow>
    (case binary_loop probe xs low high of
       Some (Some m) \<Rightarrow> 0 \<le> m \<and> m < int (length xs) \<and> cmp key (f (xs ! nat m)) = 0
     | Some None \<Rightarrow> \<forall>e\<in>set xs. cmp key (f e) \<noteq> 0
     | None \<Rightarrow> False)"
proof (induction "nat (high + 1 - low)" arbitrary: low high rule: less_induct)
  case less
  note s = binary_loop.simps[of probe xs low high]
  show ?case
  proof (cases "low \<le> high")
    case False
    have "cmp key (f (xs ! k)) \<noteq> 0" if "k < length xs" for k
      using less.prems(3)[rule_format, of "int k"] that False by (cases "int k < low") auto
    then show ?thesis using False by (auto simp: s in_set_conv_nth)
  next
    case True
    let ?mid = "(low + high) div 2"
    have mid: "low \<le> ?mid" "?mid \<le> high" "0 \<le> ?mid" "?mid < int (length xs)"
      using True less.prems by auto
    let ?e = "xs ! nat ?mid"
    have e: "?e \<in> set xs" using mid by (intro nth_mem) linarith
    have le: "cmp (f (xs ! nat i)) (f (xs ! nat j)) \<le> 0" if "0 \<le> i" "i \<le> j" "j < int (length xs)" for i j
    proof -
      have "set (map f xs) \<subseteq> D" using assms(2) by auto
      moreover have "nat i \<le> nat j" "nat j < length xs" using that by auto
      ultimately show ?thesis using ascending_nth[of "map f xs" "nat i" "nat j"] assms(3) by simp
    qed
    have inD: "f (xs ! nat k) \<in> D" if "0 \<le> k" "k < int (length xs)" for k
      using assms(2)[of "xs ! nat k"] that by (auto simp: nat_less_iff)
    have n: "nth_int xs ?mid = Some ?e" "probe ?e = Some (cmp key (f ?e))" "f ?e \<in> D"
      using mid assms(2)[OF e] by (auto simp: nth_int_def)
    consider "cmp key (f ?e) > 0" | "cmp key (f ?e) < 0" | "cmp key (f ?e) = 0" by linarith
    then show ?thesis
    proof cases
      case 1
      have gt: "cmp (f ?e) key < 0" using 1 less_flip[of "f ?e" key] n assms(1) by simp
      have "cmp key (f (xs ! nat k)) \<noteq> 0" if "0 \<le> k" "k < int (length xs)" "k < ?mid + 1" for k
        using le_less_trans[OF inD[OF that(1,2)] n(3) assms(1) _ gt] le[of k ?mid] that mid
          less_flip[of "f (xs ! nat k)" key] inD[OF that(1,2)] assms(1) by fastforce
      then have "case binary_loop probe xs (?mid + 1) high of
         Some (Some m) \<Rightarrow> 0 \<le> m \<and> m < int (length xs) \<and> cmp key (f (xs ! nat m)) = 0
       | Some None \<Rightarrow> \<forall>e\<in>set xs. cmp key (f e) \<noteq> 0
       | None \<Rightarrow> False"
        using less.prems mid True by (intro less.hyps) auto
      with 1 n True show ?thesis by (simp add: s Let_def)
    next
      case 2
      have "cmp key (f (xs ! nat k)) \<noteq> 0" if "0 \<le> k" "k < int (length xs)" "?mid - 1 < k" for k
        using less_le_trans[OF assms(1) n(3) inD[OF that(1,2)] 2] le[of ?mid k] that mid by fastforce
      then have "case binary_loop probe xs low (?mid - 1) of
         Some (Some m) \<Rightarrow> 0 \<le> m \<and> m < int (length xs) \<and> cmp key (f (xs ! nat m)) = 0
       | Some None \<Rightarrow> \<forall>e\<in>set xs. cmp key (f e) \<noteq> 0
       | None \<Rightarrow> False"
        using less.prems mid True by (intro less.hyps) auto
      with 2 n True show ?thesis by (simp add: s Let_def)
    next
      case 3
      with n True mid show ?thesis by (simp add: s Let_def)
    qed
  qed
qed

end

definition row :: "store \<Rightarrow> addr \<Rightarrow> row" where
  "row s e = (case elems s e of Some x \<Rightarrow> ae_data x | None \<Rightarrow> [])"

lemma row_at_kids:
  assumes "wf s" "arrays s a = Some (kids s d)" "0 \<le> k" "k < int (length (kids s d))"
  shows "row_at s a k = Some (row s (kids s d ! nat k))"
proof -
  have k: "nth_int (kids s d) k = Some (kids s d ! nat k)" using assms(3,4) by (simp add: nth_int_def)
  then obtain y where "elems s (kids s d ! nat k) = Some y"
    using kids_parent[OF assms(1) nth_int_in_set] by blast
  with k assms(2) show ?thesis by (simp add: row_at_def elem_at_def row_def)
qed

lemma row_same: "elems t = elems s \<Longrightarrow> row t = row s"
  by (intro ext) (simp add: row_def)

context comparator
begin

text \<open>Where an element belongs among its siblings.\<close>

lemma ascending_move:
  assumes "ascending (map f (remove_index xs i))" "i < length xs" "j < length xs"
    and lo: "\<And>k. k < j \<Longrightarrow> cmp (f (remove_index xs i ! k)) (f (xs ! i)) \<le> 0"
    and hi: "\<And>k. j \<le> k \<Longrightarrow> k < length xs - 1 \<Longrightarrow> cmp (f (xs ! i)) (f (remove_index xs i ! k)) \<le> 0"
  shows "ascending (map f (insert_at j (xs ! i) (remove_index xs i)))"
proof -
  have "map f (insert_at j (xs ! i) (remove_index xs i)) = insert_at j (f (xs ! i)) (map f (remove_index xs i))"
    by (simp add: insert_at_def take_map drop_map)
  moreover have "ascending (insert_at j (f (xs ! i)) (map f (remove_index xs i)))"
    using assms by (intro ascending_insert_at) auto
  ultimately show ?thesis by simp
qed

end

text \<open>The place of row \<open>i\<close> among the rows \<open>f\<close>, the others in order: what it must not be less than, and what must not be less than it.\<close>

definition place_ok :: "(row \<Rightarrow> row \<Rightarrow> int) \<Rightarrow> (int \<Rightarrow> row) \<Rightarrow> int \<Rightarrow> int \<Rightarrow> int \<Rightarrow> bool" where
  "place_ok cmp f n i j \<longleftrightarrow> 0 \<le> j \<and> j < n \<and>
     (\<forall>k. 0 \<le> k \<and> k < n \<and> (k < j \<and> k < i \<or> i < k \<and> k \<le> j) \<longrightarrow> cmp (f k) (f i) \<le> 0) \<and>
     (\<forall>k. 0 \<le> k \<and> k < n \<and> (j \<le> k \<and> k < i \<or> i < k \<and> j < k) \<longrightarrow> cmp (f i) (f k) \<le> 0)"

definition others_sorted :: "(row \<Rightarrow> row \<Rightarrow> int) \<Rightarrow> row set \<Rightarrow> (int \<Rightarrow> row) \<Rightarrow> int \<Rightarrow> int \<Rightarrow> bool" where
  "others_sorted cmp D f n i \<longleftrightarrow> 0 \<le> i \<and> i < n \<and> (\<forall>k. 0 \<le> k \<and> k < n \<longrightarrow> f k \<in> D) \<and>
     (\<forall>k l. 0 \<le> k \<and> k \<le> l \<and> l < n \<and> k \<noteq> i \<and> l \<noteq> i \<longrightarrow> cmp (f k) (f l) \<le> 0)"

lemma place_before:
  assumes cmp: "comparator cmp D" and o: "others_sorted cmp D f n i" and less: "0 < i" "cmp (f i) (f (i - 1)) < 0"
    and r: "0 \<le> r" "r \<le> i - 1" "\<forall>k. 0 \<le> k \<longrightarrow> k < r \<longrightarrow> cmp (f k) (f i) \<le> 0" "\<forall>k. r \<le> k \<longrightarrow> k \<le> i - 2 \<longrightarrow> cmp (f i) (f k) \<le> 0"
  shows "place_ok cmp f n i r"
proof -
  have hi: "cmp (f i) (f k) \<le> 0" if k: "0 \<le> k" "k < n" "r \<le> k \<and> k < i \<or> i < k \<and> r < k" for k
  proof -
    consider "k \<le> i - 2" | "k = i - 1" | "i < k" using k(3) by linarith
    then show ?thesis
    proof cases
      case 3
      have "cmp (f (i - 1)) (f k) \<le> 0" using o 3 k less(1) by (simp add: others_sorted_def)
      then show ?thesis using comparator.trans[OF cmp, of "f i" "f (i - 1)" "f k"] o k less by (simp add: others_sorted_def)
    qed (use k r(4) less in auto)
  qed
  show ?thesis using r o hi by (auto simp: place_ok_def others_sorted_def)
qed

lemma place_behind:
  assumes cmp: "comparator cmp D" and o: "others_sorted cmp D f n i" and le: "0 < i \<Longrightarrow> \<not> cmp (f i) (f (i - 1)) < 0"
    and k: "0 \<le> k" "k < i"
  shows "cmp (f k) (f i) \<le> 0"
proof -
  have D: "f k \<in> D" "f (i - 1) \<in> D" "f i \<in> D" using o k by (auto simp: others_sorted_def)
  have before: "cmp (f (i - 1)) (f i) \<le> 0" using comparator.le_flip[OF cmp D(2,3)] le k by simp
  show ?thesis
  proof (cases "k = i - 1")
    case False
    then have "cmp (f k) (f (i - 1)) \<le> 0" using o k by (simp add: others_sorted_def)
    then show ?thesis using comparator.trans[OF cmp D _ before] by simp
  qed (use before in simp)
qed

lemma place_after:
  assumes cmp: "comparator cmp D" and o: "others_sorted cmp D f n i" and le: "0 < i \<Longrightarrow> \<not> cmp (f i) (f (i - 1)) < 0"
    and greater: "i < n - 1" "cmp (f i) (f (i + 1)) > 0"
    and r: "i + 2 \<le> r" "r \<le> n" "\<forall>k. i + 2 \<le> k \<longrightarrow> k < r \<longrightarrow> cmp (f k) (f i) \<le> 0" "\<forall>k. r \<le> k \<longrightarrow> k \<le> n - 1 \<longrightarrow> cmp (f i) (f k) \<le> 0"
  shows "place_ok cmp f n i (r - 1)"
proof -
  have "f i \<in> D" "f (i + 1) \<in> D" using o greater(1) by (auto simp: others_sorted_def)
  then have gt: "cmp (f (i + 1)) (f i) \<le> 0" using comparator.le_flip[OF cmp, of "f (i + 1)" "f i"] greater(2) by simp
  have "cmp (f k) (f i) \<le> 0" if "0 \<le> k" "k < r - 1 \<and> k < i \<or> i < k \<and> k \<le> r - 1" for k
    using that place_behind[OF cmp o le, of k] gt r(3) by (cases "k = i + 1") auto
  then show ?thesis using r o by (auto simp: place_ok_def others_sorted_def)
qed

lemma place_here:
  assumes cmp: "comparator cmp D" and o: "others_sorted cmp D f n i" and le: "0 < i \<Longrightarrow> \<not> cmp (f i) (f (i - 1)) < 0"
    and ge: "i < n - 1 \<Longrightarrow> \<not> cmp (f i) (f (i + 1)) > 0"
  shows "place_ok cmp f n i i"
proof -
  have hi: "cmp (f i) (f k) \<le> 0" if k: "i < k" "k < n" for k
  proof (cases "k = i + 1")
    case False
    have "cmp (f (i + 1)) (f k) \<le> 0" using o k False by (simp add: others_sorted_def)
    then show ?thesis using comparator.trans[OF cmp, of "f i" "f (i + 1)" "f k"] o k ge by (simp add: others_sorted_def)
  qed (use ge k in auto)
  show ?thesis using place_behind[OF cmp o le] hi o by (auto simp: place_ok_def others_sorted_def)
qed

text \<open>The rows of a level as a function on C indices.\<close>

definition level_row :: "store \<Rightarrow> addr \<Rightarrow> int \<Rightarrow> row" where
  "level_row s d k = row s (kids s d ! nat k)"

lemma level_row_removed:
  assumes "0 \<le> i" "nat i < length (kids s d)" "k < length (kids s d) - 1"
  shows "row s (remove_index (kids s d) (nat i) ! k) = (if int k < i then level_row s d (int k) else level_row s d (int k + 1))"
  using nth_remove_index[OF assms(2,3)] assms by (auto simp: level_row_def nat_add_distrib)

lemma level_sorted:
  assumes "comparator cmp D" "\<forall>c\<in>set (kids s d). row s c \<in> D" "0 \<le> i" "i < int (length (kids s d))"
    and "comparator.ascending cmp (map (row s) (remove_index (kids s d) (nat i)))"
  shows "others_sorted cmp D (level_row s d) (int (length (kids s d))) i"
proof -
  let ?ks = "kids s d" and ?rem = "remove_index (kids s d) (nat i)" and ?p = "\<lambda>k. if k < i then nat k else nat (k - 1)"
  have ni: "nat i < length ?ks" using assms(3,4) by simp
  have sub: "set (map (row s) ?rem) \<subseteq> D"
    using assms(2) by (auto simp: remove_index_def dest: in_set_takeD in_set_dropD)
  have at: "row s (?rem ! ?p k) = level_row s d k" if "0 \<le> k" "k < int (length ?ks)" "k \<noteq> i" for k
    using level_row_removed[OF assms(3) ni, of "?p k"] that assms(3,4) by (auto split: if_splits)
  have "cmp (level_row s d k) (level_row s d l) \<le> 0" if "0 \<le> k" "k \<le> l" "l < int (length ?ks)" "k \<noteq> i" "l \<noteq> i" for k l
  proof -
    have "?p k \<le> ?p l" "?p l < length ?ks - 1" using that assms(3,4) by auto
    from comparator.ascending_nth[OF assms(1) sub assms(5), OF this(1)] this
    have "cmp (row s (?rem ! ?p k)) (row s (?rem ! ?p l)) \<le> 0" using ni by simp
    then show ?thesis using at[of k] at[of l] that by simp
  qed
  moreover have "level_row s d k \<in> D" if "0 \<le> k" "k < int (length ?ks)" for k
    using assms(2) that by (auto simp: level_row_def nat_less_iff)
  ultimately show ?thesis using assms(3,4) by (auto simp: others_sorted_def)
qed

text \<open>The code: a comparison with each neighbour, and a binary search on the side where the row is out of order.\<close>

lemma scp_sort_element_unfold:
  assumes "wf s" "arrays s a = Some (kids s d)" "0 \<le> i" "i < int (length (kids s d))" "store_compare G s = Some cmp"
  defines "f \<equiv> level_row s d" and "n \<equiv> int (length (kids s d))"
  shows "scp_sort_element G s (mk_iter s a i) em = do {
     before \<leftarrow> (if i > 0 then Some (cmp (f i) (f (i - 1)) < 0) else Some False);
     if before then do {
       pos \<leftarrow> scp_search_pos (\<lambda>k. do { r \<leftarrow> row_at s a i; q \<leftarrow> row_at s a k; Some (cmp r q) }) 0 (i - 2);
       scp_move_element s a (mk_iter s a i) pos em }
     else do {
       after \<leftarrow> (if i < n - 1 then Some (cmp (f i) (f (i + 1)) > 0) else Some False);
       if after then do {
         pos \<leftarrow> scp_search_pos (\<lambda>k. do { r \<leftarrow> row_at s a i; q \<leftarrow> row_at s a k; Some (cmp r q) }) (i + 2) (n - 1);
         scp_move_element s a (mk_iter s a i) (pos - 1) em }
       else Some (s, mk_iter s a i) } }"
proof -
  have R: "row_at s a k = Some (f k)" if "0 \<le> k" "k < n" for k
    using row_at_kids[OF assms(1,2)] that by (simp add: f_def n_def level_row_def)
  have R0: "row_at s a i = Some (f i)" using R assms(3,4) by (simp add: n_def)
  have R1: "row_at s a (i - 1) = Some (f (i - 1))" if "i > 0" using R that assms(4) by (simp add: n_def)
  have R2: "row_at s a (i + 1) = Some (f (i + 1))" if "i < n - 1" using R that assms(3) by simp
  obtain h where h: "header_at s (sort_column_id s) = Some h"
    using assms(5) by (auto simp: store_compare_def bind_eq_Some_conv)
  show ?thesis
    using assms(2,5) h n_def by (simp add: scp_sort_element_def Let_def R0 R1 R2 cong: if_cong)
qed

lemma sort_element_place:
  assumes "wf s" "arrays s a = Some (kids s d)" "0 \<le> i" "i < int (length (kids s d))" "store_compare G s = Some cmp"
    and cmp: "comparator cmp D" and o: "others_sorted cmp D (level_row s d) (int (length (kids s d))) i"
  shows "\<exists>j. scp_sort_element G s (mk_iter s a i) em = scp_move_element s a (mk_iter s a i) j em \<and>
    place_ok cmp (level_row s d) (int (length (kids s d))) i j"
proof -
  let ?f = "level_row s d" and ?n = "int (length (kids s d))"
  let ?probe = "\<lambda>k. do { r \<leftarrow> row_at s a i; q \<leftarrow> row_at s a k; Some (cmp r q) }"
  note unfold = scp_sort_element_unfold[OF assms(1-5), of em]
  have probe: "?probe k = Some (cmp (?f i) (?f k))" if "0 \<le> k" "k < ?n" for k
    using row_at_kids[OF assms(1,2) that] row_at_kids[OF assms(1-4)] by (simp add: level_row_def)
  have D: "?f k \<in> D" if "0 \<le> k" "k < ?n" for k using o that by (simp add: others_sorted_def)
  have x: "?f i \<in> D" using D assms(3,4) by simp
  have asc: "cmp (?f k) (?f l) \<le> 0" if "0 \<le> k" "k \<le> l" "l < ?n" "k \<noteq> i" "l \<noteq> i" for k l
    using o that by (simp add: others_sorted_def)
  show ?thesis
  proof (cases "0 < i \<and> cmp (?f i) (?f (i - 1)) < 0")
    case True
    have "\<exists>r. scp_search_pos ?probe 0 (i - 2) = Some r \<and> 0 \<le> r \<and> r \<le> i - 2 + 1 \<and>
      (\<forall>k. 0 \<le> k \<longrightarrow> k < r \<longrightarrow> cmp (?f k) (?f i) \<le> 0) \<and> (\<forall>k. r \<le> k \<longrightarrow> k \<le> i - 2 \<longrightarrow> cmp (?f i) (?f k) \<le> 0)"
      by (rule comparator.search_pos_spec[OF cmp x]) (use probe D asc assms(3,4) True in auto)
    then obtain r where "scp_search_pos ?probe 0 (i - 2) = Some r" "place_ok cmp ?f ?n i r"
      using place_before[OF cmp o] True by auto
    then show ?thesis using True unfold by auto
  next
    case before: False
    show ?thesis
    proof (cases "i < ?n - 1 \<and> cmp (?f i) (?f (i + 1)) > 0")
      case True
      have "\<exists>r. scp_search_pos ?probe (i + 2) (?n - 1) = Some r \<and> i + 2 \<le> r \<and> r \<le> ?n - 1 + 1 \<and>
        (\<forall>k. i + 2 \<le> k \<longrightarrow> k < r \<longrightarrow> cmp (?f k) (?f i) \<le> 0) \<and> (\<forall>k. r \<le> k \<longrightarrow> k \<le> ?n - 1 \<longrightarrow> cmp (?f i) (?f k) \<le> 0)"
        by (rule comparator.search_pos_spec[OF cmp x]) (use probe D asc assms(3,4) True in auto)
      then obtain r where "scp_search_pos ?probe (i + 2) (?n - 1) = Some r" "place_ok cmp ?f ?n i (r - 1)"
        using place_after[OF cmp o] before True by auto
      then show ?thesis using True before unfold by auto
    next
      case False
      have "scp_sort_element G s (mk_iter s a i) em = Some (s, mk_iter s a i)" using False before unfold by auto
      also have "\<dots> = scp_move_element s a (mk_iter s a i) i em" by (simp add: scp_move_element_def)
      finally show ?thesis using place_here[OF cmp o] before False by auto
    qed
  qed
qed

lemma sort_element_spec:
  assumes "wf s" "points_to s it (q @ [i])" "node_at s (root s) q = Some d"
    and cmp: "store_compare G s = Some cmp" "comparator cmp D"
    and rows: "\<forall>c\<in>set (kids s d). row s c \<in> D"
    and sorted: "comparator.ascending cmp (map (row s) (remove_index (kids s d) (nat i)))"
  shows "\<exists>t j. scp_sort_element G s it em = Some (t, it\<lparr>it_index := j\<rparr>) \<and>
    reordered s d (insert_at (nat j) (kids s d ! nat i) (remove_index (kids s d) (nat i))) t \<and>
    0 \<le> j \<and> j < int (length (kids s d)) \<and>
    points_to t (it\<lparr>it_index := j\<rparr>) (q @ [j]) \<and> comparator.ascending cmp (map (row s) (kids t d)) \<and>
    (\<exists>parent. signals t = signals s @ (if em \<and> i \<noteq> j
       then [Rows_Reordered (Some q) parent (move_order (length (kids s d)) (nat i) (nat j))] else []))"
proof -
  let ?ks = "kids s d" and ?rem = "remove_index (kids s d) (nat i)"
  obtain a e where *: "it = mk_iter s a i" "arrays s a = Some ?ks" "nth_int ?ks i = Some e"
    using assms(1,2) by (rule points_toE) (use assms(3) in auto)
  then have i: "0 \<le> i" "i < int (length ?ks)" by (auto simp: nth_int_Some)
  then have ni: "nat i < length ?ks" by simp
  obtain j where j: "scp_sort_element G s it em = scp_move_element s a it j em" "place_ok cmp (level_row s d) (int (length ?ks)) i j"
    using sort_element_place[OF assms(1) *(2) i cmp level_sorted[OF cmp(2) rows i sorted]] *(1) by blast
  then have nj: "0 \<le> j" "j < int (length ?ks)" "nat j < length ?ks"
    and lo: "\<And>k. 0 \<le> k \<Longrightarrow> k < int (length ?ks) \<Longrightarrow> k < j \<and> k < i \<or> i < k \<and> k \<le> j \<Longrightarrow> cmp (level_row s d k) (row s (?ks ! nat i)) \<le> 0"
    and hi: "\<And>k. 0 \<le> k \<Longrightarrow> k < int (length ?ks) \<Longrightarrow> j \<le> k \<and> k < i \<or> i < k \<and> j < k \<Longrightarrow> cmp (row s (?ks ! nat i)) (level_row s d k) \<le> 0"
    by (auto simp: place_ok_def level_row_def[of s d i])
  obtain t where t: "scp_move_element s a it j em = Some (t, it\<lparr>it_index := j\<rparr>)"
    "reordered s d (moved ?ks (nat i) (nat j)) t" "points_to t (it\<lparr>it_index := j\<rparr>) (q @ [j])"
    "\<exists>parent. signals t = signals s @ (if em \<and> i \<noteq> j
     then [Rows_Reordered (Some q) parent (move_order (length ?ks) (nat i) (nat j))] else [])"
    using move_element_spec[OF assms(1-3) _ nj(1,2), of a em] * by auto
  have "comparator.ascending cmp (map (row s) (insert_at (nat j) (?ks ! nat i) ?rem))"
  proof (rule comparator.ascending_move[OF cmp(2) sorted ni nj(3)])
    fix k assume k: "k < nat j"
    then have "k < length ?ks - 1" using nj by simp
    then show "cmp (row s (?rem ! k)) (row s (?ks ! nat i)) \<le> 0"
      using level_row_removed[OF i(1) ni, of k] lo[of "int k"] lo[of "int k + 1"] k nj by auto
  next
    fix k assume k: "nat j \<le> k" "k < length ?ks - 1"
    then show "cmp (row s (?ks ! nat i)) (row s (?rem ! k)) \<le> 0"
      using level_row_removed[OF i(1) ni, of k] hi[of "int k"] hi[of "int k + 1"] nj by auto
  qed
  moreover have "kids t d = insert_at (nat j) (?ks ! nat i) ?rem"
    using t(2) by (simp add: reordered_def moved_insert_at[OF ni nj(3)])
  ultimately show ?thesis using j(1) t nj by (auto simp: moved_insert_at[OF ni nj(3)])
qed

subsection \<open>The order of a sorted store\<close>

text \<open>The cell \<open>scp_tree_store_compare_func\<close> fetches.\<close>

definition sort_cell :: "header \<Rightarrow> int \<Rightarrow> row \<Rightarrow> scp_data" where
  "sort_cell h column r = (case scp_tree_data_to_pointer (r ! nat column) (hdr_type h) of
     Some d \<Rightarrow> d | None \<Rightarrow> V_zero)"

definition sortable :: "header \<Rightarrow> int \<Rightarrow> row set" where
  "sortable h column = {r. ordered (hdr_type h) (sort_cell h column r)}"

lemma scp_tree_store_compare_func_cell:
  "scp_tree_store_compare_func G h column a b =
     (if hdr_utf8_collate h
      then g_utf8_collate G (scp_data_string (sort_cell h column a)) (scp_data_string (sort_cell h column b))
      else scp_tree_data_compare_func (sort_cell h column a) (sort_cell h column b) (hdr_type h))"
  by (simp add: scp_tree_store_compare_func_def sort_cell_def)

lemma comparator_fixup:
  assumes "comparator cmp D"
  shows "comparator (\<lambda>a b. scp_fixup_compare_result s (cmp a b)) D"
proof (cases "sort_order s")
  case GTK_SORT_ASCENDING
  then show ?thesis using assms by (simp add: scp_fixup_compare_result_def)
next
  case GTK_SORT_DESCENDING
  then have f: "sgn (scp_fixup_compare_result s r) = - sgn r" for r
    by (simp add: scp_fixup_compare_result_def)
  have le: "scp_fixup_compare_result s (cmp a b) \<le> 0 \<longleftrightarrow> cmp b a \<le> 0" if "a \<in> D" "b \<in> D" for a b
    using f[of "cmp a b"] comparator.flip[OF assms that] by (auto simp: sgn_if split: if_splits)
  show ?thesis
  proof
    show "sgn (scp_fixup_compare_result s (cmp y x)) = - sgn (scp_fixup_compare_result s (cmp x y))"
      if "x \<in> D" "y \<in> D" for x y
      using comparator.flip[OF assms that] by (simp add: f)
    show "scp_fixup_compare_result s (cmp x z) \<le> 0"
      if "x \<in> D" "y \<in> D" "z \<in> D" "scp_fixup_compare_result s (cmp x y) \<le> 0"
        "scp_fixup_compare_result s (cmp y z) \<le> 0" for x y z
      using that comparator.trans[OF assms, of z y x] by (simp add: le)
  qed
qed

lemma store_compare_model:
  assumes "sort_func s = Some Model_Compare" "header_at s (sort_column_id s) = Some h"
    "nth_int (headers s) (hdr_data h) = Some c" "hdr_utf8_collate c \<Longrightarrow> comparator (g_utf8_collate G) UNIV"
  shows "\<exists>cmp. store_compare G s = Some cmp \<and> comparator cmp (sortable c (hdr_data h))"
proof -
  let ?f = "\<lambda>a b. scp_tree_store_compare_func G c (hdr_data h) a b"
  have "comparator ?f (sortable c (hdr_data h))"
  proof (cases "hdr_utf8_collate c")
    case True
    show ?thesis using comparator_on[OF assms(4)[OF True]]
      unfolding scp_tree_store_compare_func_cell by (simp add: True)
  next
    case False
    show ?thesis
    proof
      show "sgn (?f y x) = - sgn (?f x y)"
        if "x \<in> sortable c (hdr_data h)" "y \<in> sortable c (hdr_data h)" for x y
        using that cell.flip[of "sort_cell c (hdr_data h) x" "hdr_type c" "sort_cell c (hdr_data h) y"] False
        by (simp add: scp_tree_store_compare_func_cell sortable_def)
      show "?f x z \<le> 0"
        if "x \<in> sortable c (hdr_data h)" "y \<in> sortable c (hdr_data h)" "z \<in> sortable c (hdr_data h)"
          "?f x y \<le> 0" "?f y z \<le> 0" for x y z
        using that cell.trans[of "sort_cell c (hdr_data h) x" "hdr_type c" "sort_cell c (hdr_data h) y"
          "sort_cell c (hdr_data h) z"] False
        by (simp add: scp_tree_store_compare_func_cell sortable_def)
    qed
  qed
  from comparator_fixup[OF this, of s] assms(1-3) show ?thesis
    by (simp add: store_compare_def)
qed

text \<open>GLib for the small tree: byte order for strings, no conversions, insertion sort.\<close>

definition demo_glib :: glib where
  "demo_glib = \<lparr>g_utf8_collate = strcmp, g_utf8_collate_key = id, g_type_is_a = (=),
     g_value_transform = (\<lambda>v ty. None), g_qsort_with_data = insertion_sort\<rparr>"

text \<open>The small tree, kept sorted by its column.\<close>

definition sorted_demo :: store where
  "sorted_demo = demo\<lparr>sort_column_id := 0, sort_func := Some Model_Compare\<rparr>"

lemma sorted_demo_same: "same_tree demo sorted_demo"
  by (simp add: sorted_demo_def same_tree_def)

lemma sorted_demo_wf: "wf sorted_demo"
  using same_tree_simps(5)[OF sorted_demo_same] demo_wf by simp

lemma sorted_demo_kids: "kids sorted_demo = kids demo"
  by (rule same_tree_simps(1)[OF sorted_demo_same])

lemma sorted_demo_points_to: "points_to sorted_demo = points_to demo"
  using same_tree_simps(6)[OF sorted_demo_same] by (intro ext) simp

lemma sorted_demo_rows: "row sorted_demo 3 = [V_int 10]" "row sorted_demo 4 = [V_int 20]"
    "row sorted_demo 5 = [V_int 30]" "row sorted_demo 7 = [V_int 15]"
  by (simp_all add: sorted_demo_def demo_def row_def)

lemma sorted_demo_compare:
  "store_compare demo_glib sorted_demo = Some (\<lambda>a b. scp_tree_store_compare_func demo_glib demo_header 0 a b)"
  by (simp add: sorted_demo_def store_compare_def scp_fixup_compare_result_def demo_def header_at_def
      demo_header_def nth_int_def)

lemma sorted_demo_comparator:
  "comparator (scp_tree_store_compare_func demo_glib demo_header 0) UNIV"
proof -
  have "sortable demo_header 0 = UNIV"
    by (simp add: sortable_def ordered_def demo_header_def scp_tree_data_get_fundamental_type_simp)
  moreover have "\<exists>cmp. store_compare demo_glib sorted_demo = Some cmp \<and> comparator cmp (sortable demo_header (hdr_data demo_header))"
    by (rule store_compare_model)
      (simp_all add: sorted_demo_def demo_def header_at_def demo_header_def nth_int_def)
  ultimately show ?thesis by (simp add: sorted_demo_compare) (simp add: demo_header_def)
qed

lemma demo_cells:
  "scp_tree_store_compare_func G demo_header 0 [V_int a] [V_int b] = scp_compare (<) (sint a) (sint b)"
  by (simp add: scp_tree_store_compare_func_def demo_header_def scp_tree_data_to_pointer_def
      scp_tree_data_compare_func_def scp_tree_data_get_fundamental_type_simp read_as_def)

end
