(* ===== verification/ScpInsert.thy ===== *)
theory ScpInsert
  imports ScpSort
begin

text \<open>
  Inserting rows: linking a fresh element below its parent keeps the tree, and the row goes to the
  position asked for, or to its place in the sorted order; storing values in the cells of a row.
\<close>

subsection \<open>Sorting an element with any comparison function\<close>

lemma search_pos_loop_bounds:
  "(\<And>k. lo \<le> k \<Longrightarrow> k \<le> hi \<Longrightarrow> \<exists>r. probe k = Some r) \<Longrightarrow> lo \<le> low \<Longrightarrow> low \<le> hi \<Longrightarrow> high \<le> hi \<Longrightarrow>
   \<exists>r. search_pos_loop probe low high = Some r \<and> lo \<le> r \<and> r \<le> hi + 1"
proof (induction "nat (high - low)" arbitrary: low high rule: less_induct)
  case less
  note s = search_pos_loop.simps[of probe low high]
  show ?case
  proof (cases "low < high")
    case True
    let ?mid = "(low + high) div 2"
    have mid: "low \<le> ?mid" "?mid < high" using True by auto
    have "lo \<le> ?mid" "?mid \<le> hi" using mid less.prems(2-4) by linarith+
    then obtain r where r: "probe ?mid = Some r" using less.prems(1)[of ?mid] by blast
    have 1: "\<exists>r. search_pos_loop probe (?mid + 1) high = Some r \<and> lo \<le> r \<and> r \<le> hi + 1"
      using mid True less.prems(2-4) by (intro less.hyps less.prems(1)) auto
    have 2: "\<exists>r. search_pos_loop probe low (?mid - 1) = Some r \<and> lo \<le> r \<and> r \<le> hi + 1"
      using mid True less.prems(2-4) by (intro less.hyps less.prems(1)) auto
    from 1 2 show ?thesis using True r mid less.prems by (auto simp: s Let_def)
  next
    case False
    obtain r where "probe low = Some r" using less.prems(1)[of low] less.prems by auto
    then show ?thesis using False less.prems by (auto simp: s)
  qed
qed

lemma search_pos_bounds:
  assumes "\<And>k. lo \<le> k \<Longrightarrow> k \<le> hi \<Longrightarrow> \<exists>r. probe k = Some r" and "lo \<le> hi + 1"
  shows "\<exists>r. scp_search_pos probe lo hi = Some r \<and> lo \<le> r \<and> r \<le> hi + 1"
proof (cases "lo \<le> hi")
  case True
  then show ?thesis
    using search_pos_loop_bounds[OF assms(1), where low = lo and high = hi] by (simp add: scp_search_pos_def)
next
  case False
  with assms(2) show ?thesis by (simp add: scp_search_pos_def)
qed

lemma sort_element_total:
  assumes "wf s" "points_to s it (q @ [i])" "node_at s (root s) q = Some d"
    and cmp: "store_compare G s = Some cmp"
  shows "\<exists>t j. scp_sort_element G s it em = Some (t, it\<lparr>it_index := j\<rparr>) \<and>
    reordered s d (insert_at (nat j) (kids s d ! nat i) (remove_index (kids s d) (nat i))) t \<and>
    0 \<le> j \<and> j < int (length (kids s d)) \<and> points_to t (it\<lparr>it_index := j\<rparr>) (q @ [j])"
proof -
  let ?n = "int (length (kids s d))"
  obtain a e where *: "it = mk_iter s a i" "arrays s a = Some (kids s d)" "nth_int (kids s d) i = Some e"
    using assms(1,2) by (rule points_toE) (use assms(3) in auto)
  then have i: "0 \<le> i" "i < ?n" by (auto simp: nth_int_Some)
  let ?probe = "\<lambda>k. do { r \<leftarrow> row_at s a i; q \<leftarrow> row_at s a k; Some (cmp r q) }"
  have probe: "\<exists>r. ?probe k = Some r" if "0 \<le> k" "k < ?n" for k
    using row_at_kids[OF assms(1) *(2) that] row_at_kids[OF assms(1) *(2) i] by simp
  note unfold = scp_sort_element_unfold[OF assms(1) *(2) i cmp, of em]
  have "\<exists>j. scp_sort_element G s it em = scp_move_element s a it j em \<and> 0 \<le> j \<and> j < ?n"
  proof (cases "0 < i \<and> cmp (level_row s d i) (level_row s d (i - 1)) < 0")
    case True
    then obtain r where "scp_search_pos ?probe 0 (i - 2) = Some r" "0 \<le> r" "r \<le> i - 2 + 1"
      using search_pos_bounds[of 0 "i - 2" ?probe] probe i by auto
    with True show ?thesis using i *(1) unfold by auto
  next
    case before: False
    show ?thesis
    proof (cases "i < ?n - 1 \<and> cmp (level_row s d i) (level_row s d (i + 1)) > 0")
      case True
      then obtain r where "scp_search_pos ?probe (i + 2) (?n - 1) = Some r" "i + 2 \<le> r" "r \<le> ?n - 1 + 1"
        using search_pos_bounds[of "i + 2" "?n - 1" ?probe] probe i by auto
      then show ?thesis using True before i *(1) unfold by (intro exI[of _ "r - 1"]) auto
    next
      case False
      then have "scp_sort_element G s it em = Some (s, it)" using before *(1) unfold by auto
      also have "\<dots> = scp_move_element s a it i em" using *(1) by (simp add: scp_move_element_def)
      finally show ?thesis using i by auto
    qed
  qed
  then obtain j where j: "scp_sort_element G s it em = scp_move_element s a it j em" "0 \<le> j" "j < ?n" by blast
  then show ?thesis
    using move_element_spec[OF assms(1-3) _ j(2,3), of a em] * i by (auto simp: moved_insert_at nat_less_iff)
qed

subsection \<open>Linking a new element\<close>

text \<open>
  \<open>t\<close> is \<open>s\<close> with the new element \<open>e\<close>, of contents \<open>x\<close>, among the children \<open>ys\<close> of \<open>d\<close>, which
  are now in the array \<open>a\<close>: the one \<open>d\<close> had before, or a new one.
\<close>

definition linked :: "store \<Rightarrow> addr \<Rightarrow> aelem \<Rightarrow> addr \<Rightarrow> aelem \<Rightarrow> addr \<Rightarrow> addr list \<Rightarrow> store \<Rightarrow> bool" where
  "linked s d y e x a ys t \<longleftrightarrow>
     wf s \<and> elems s d = Some y \<and> next_addr s \<le> e \<and> d \<noteq> e \<and>
     ae_parent x = Some d \<and> ae_children x = None \<and> length (ae_data x) = n_columns s \<and>
     distinct ys \<and> set ys = insert e (set (kids s d)) \<and>
     (ae_children y = Some a \<or> ae_children y = None \<and> arrays s a = None) \<and>
     elems t = (elems s)(d \<mapsto> y\<lparr>ae_children := Some a\<rparr>, e \<mapsto> x) \<and> arrays t = (arrays s)(a \<mapsto> ys) \<and>
     root t = root s \<and> roar t = roar s \<and> stamp t = stamp s \<and> n_columns t = n_columns s \<and>
     headers t = headers s \<and> e < next_addr t \<and> a < next_addr t \<and> next_addr s \<le> next_addr t"

lemma linked_fresh:
  assumes "linked s d y e x a ys t"
  shows "elems s e = None" "e \<noteq> root s" "d < next_addr s"
proof -
  have wf: "wf s" and e: "next_addr s \<le> e" and d: "elems s d = Some y" using assms by (auto simp: linked_def)
  show "elems s e = None" using wf_elem_bound[OF wf, of e] e by (cases "elems s e") auto
  then show "e \<noteq> root s" using wf_root[OF wf] by auto
  show "d < next_addr s" using wf_elem_bound[OF wf d] .
qed

lemma linked_owner:
  assumes "linked s d y e x a ys t"
  shows "owns s c a \<longleftrightarrow> c = d \<and> ae_children y = Some a"
proof
  have wf: "wf s" and d: "elems s d = Some y" and a: "ae_children y = Some a \<or> arrays s a = None"
    using assms by (auto simp: linked_def)
  assume c: "owns s c a"
  then have "arrays s a \<noteq> None" using wf_owns[OF wf] by blast
  with a have y: "ae_children y = Some a" by blast
  with d have "owns s d a" by (simp add: owns_def)
  with c wf_owner[OF wf] y show "c = d \<and> ae_children y = Some a" by blast
qed (use assms in \<open>simp add: owns_def linked_def\<close>)

lemma linked_owns: "linked s d y e x a ys t \<Longrightarrow> owns t c b \<longleftrightarrow> (if c = d then b = a else c \<noteq> e \<and> owns s c b)"
  by (auto simp: owns_def linked_def)

lemma linked_child: "linked s d y e x a ys t \<Longrightarrow> child_of t c p \<longleftrightarrow> (if c = e then p = d else child_of s c p)"
  by (auto simp: child_of_def linked_def)

lemma linked_roar: "linked s d y e x a ys t \<Longrightarrow> a \<noteq> roar s"
  using linked_owner[of s d y e x a ys t d] wf_owns[of s d a] wf_roar[of s] by (auto simp: linked_def)

lemma linked_kids:
  assumes l: "linked s d y e x a ys t"
  shows "kids t = (kids s)(d := ys)"
proof
  fix c show "kids t c = ((kids s)(d := ys)) c"
  proof (cases "c = d \<or> c = e")
    case True
    then show ?thesis using l linked_fresh[OF l] by (auto simp: kids_def linked_def)
  next
    case False
    then have "\<not> owns s c a" using linked_owner[OF l] by blast
    with False l show ?thesis by (auto simp: kids_def linked_def owns_def split: option.splits)
  qed
qed

lemma linked_elem:
  assumes l: "linked s d y e x a ys t" and z: "elems t c = Some z"
  shows "c < next_addr t" "c \<noteq> root t \<Longrightarrow> length (ae_data z) = n_columns t"
    "c \<noteq> root t \<Longrightarrow> \<exists>p. ae_parent z = Some p \<and> p < c \<and> c \<in> set (kids t p)"
proof -
  note d = l[unfolded linked_def] and k = linked_kids[OF l] and e = linked_fresh[OF l]
  have wf: "wf s" using d by blast
  consider "c = e" "z = x" | z' where "c \<noteq> e" "elems s c = Some z'" "ae_parent z' = ae_parent z" "ae_data z' = ae_data z"
    using z d by (auto split: if_splits)
  note cases = this
  show "c < next_addr t" using cases
  proof cases
    case 2
    then show ?thesis using wf_elem_bound[OF wf 2(2)] d by linarith
  qed (use d in blast)
  show "length (ae_data z) = n_columns t" if "c \<noteq> root t" using cases
  proof cases
    case 2
    then show ?thesis using wf_data[OF wf 2(2)] that d by simp
  qed (use d in simp)
  show "\<exists>p. ae_parent z = Some p \<and> p < c \<and> c \<in> set (kids t p)" if "c \<noteq> root t" using cases
  proof cases
    case 1
    then show ?thesis using d e k by auto
  next
    case 2
    then show ?thesis using wf_parent[OF wf 2(2)] that d k by auto
  qed
qed

lemma linked_array:
  assumes l: "linked s d y e x a ys t" and o: "owns t c b"
  shows "b \<noteq> roar t \<and> (\<exists>zs. arrays t b = Some zs \<and> distinct zs \<and> (\<forall>c'\<in>set zs. child_of t c' c))"
proof -
  note d = l[unfolded linked_def]
  have wf: "wf s" using d by blast
  show ?thesis
  proof (cases "c = d")
    case True
    have "child_of s c' d" if "c' \<in> set (kids s d)" for c'
      using kids_parent[OF wf that] by (auto simp: child_of_def)
    then show ?thesis using True o d linked_roar[OF l] by (auto simp: linked_owns[OF l] linked_child[OF l])
  next
    case False
    then have *: "c \<noteq> e" "owns s c b" using o by (simp_all add: linked_owns[OF l])
    have "b \<noteq> a" using linked_owner[OF l, of c] False *(2) by blast
    moreover have "e \<notin> set zs" if "\<forall>c'\<in>set zs. child_of s c' c" for zs
      using that linked_fresh(1)[OF l] by (auto simp: child_of_def)
    ultimately show ?thesis using wf_owns[OF wf *(2)] d by (auto simp: linked_child[OF l])
  qed
qed

lemma wf_link:
  assumes l: "linked s d y e x a ys t"
  shows "wf t"
proof -
  note d = l[unfolded linked_def] and e = linked_fresh[OF l]
  have wf: "wf s" using d by blast
  show ?thesis
    unfolding wf_def
  proof (intro conjI allI impI)
    show "stamp t \<noteq> 0" "length (headers t) = n_columns t" using wfD(1,2)[OF wf] d by auto
    obtain r where "elems s (root s) = Some r" "ae_parent r = None" using wf_root[OF wf] by blast
    then show "\<exists>r. elems t (root t) = Some r \<and> ae_parent r = None" using e d by (cases "d = root s") auto
    show "arrays t (roar t) = Some [root t]" using wf_roar[OF wf] linked_roar[OF l] d by simp
    show "b < next_addr t" if "arrays t b = Some zs" for b zs
      using that d wf_array_bound[OF wf, of b zs] by (cases "b = a") auto
    show "b \<noteq> roar t" "\<exists>zs. arrays t b = Some zs \<and> distinct zs \<and> (\<forall>c'\<in>set zs. child_of t c' c)"
      if "owns t c b" for c b
      using linked_array[OF l that] by blast+
    show "c = c'" if "owns t c b" "owns t c' b" for c c' b
      using that linked_owner[OF l] wf_owner[OF wf] by (auto simp: linked_owns[OF l] split: if_splits)
  qed (use linked_elem[OF l] in blast)+
qed

text \<open>Everything but the heap, the flag \<open>columns_dirty\<close> and the signals.\<close>

definition same_settings :: "store \<Rightarrow> store \<Rightarrow> bool" where
  "same_settings s t \<longleftrightarrow> stamp t = stamp s \<and> root t = root s \<and> roar t = roar s \<and>
     n_columns t = n_columns s \<and> headers t = headers s \<and> default_header t = default_header s \<and>
     sort_column_id t = sort_column_id s \<and> sort_order t = sort_order s \<and> sort_func t = sort_func s \<and>
     sublevels t = sublevels s \<and> toplevel_reserved t = toplevel_reserved s \<and>
     sublevel_reserved t = sublevel_reserved s \<and> sublevel_discard t = sublevel_discard s"

lemma same_settings_refl [simp]: "same_settings s s"
  by (simp add: same_settings_def)

lemma same_settings_trans: "same_settings s t \<Longrightarrow> same_settings t u \<Longrightarrow> same_settings s u"
  by (simp add: same_settings_def)

lemma same_settings_simps [simp]:
  "same_settings s (emit sig s)" "same_settings s (set_array a xs s)" "same_settings s (set_elem e x s)"
  "same_settings s (s\<lparr>columns_dirty := b\<rparr>)" "same_settings s (s\<lparr>elems := el\<rparr>)"
  "same_settings s (s\<lparr>arrays := ar\<rparr>)" "same_settings s (s\<lparr>next_addr := n\<rparr>)"
  by (simp_all add: same_settings_def emit_def set_array_def set_elem_def)

lemma store_compare_same: "same_settings s t \<Longrightarrow> store_compare G t = store_compare G s"
proof -
  assume a: "same_settings s t"
  then have "header_at t = header_at s" by (intro ext) (simp add: header_at_def same_settings_def)
  moreover have "comparison G t f d = comparison G s f d" for f d
    using a by (cases f; cases "the f") (auto simp: same_settings_def)
  moreover have "scp_fixup_compare_result t = scp_fixup_compare_result s"
    using a by (intro ext) (simp add: scp_fixup_compare_result_def same_settings_def)
  ultimately show ?thesis using a by (simp add: store_compare_def same_settings_def)
qed

lemma scp_emit_reordered_settings:
  "scp_emit_reordered s it order = Some t \<Longrightarrow> same_settings s t"
  by (auto simp: scp_emit_reordered_def bind_eq_Some_conv split: if_splits)

lemma scp_move_element_settings:
  "scp_move_element s a it j em = Some (t, it') \<Longrightarrow> same_settings s t"
  by (auto simp: scp_move_element_def bind_eq_Some_conv Let_def split: if_splits
      dest!: scp_emit_reordered_settings intro: same_settings_trans[rotated])

lemma scp_sort_element_settings:
  "scp_sort_element G s it em = Some (t, it') \<Longrightarrow> same_settings s t"
  by (auto simp: scp_sort_element_def bind_eq_Some_conv Let_def split: if_splits
      dest!: scp_move_element_settings)

text \<open>Where new rows go: the root, or the row of an iterator.\<close>

definition parent_at :: "store \<Rightarrow> iter option \<Rightarrow> path \<Rightarrow> addr \<Rightarrow> bool" where
  "parent_at s parent q d \<longleftrightarrow> node_at s (root s) q = Some d \<and>
     (case parent of None \<Rightarrow> q = [] | Some it \<Rightarrow> points_to s it q)"

lemma points_to_elem:
  assumes "wf s" "points_to s it p" "node_at s (root s) p = Some d"
  shows "ITER_ELEM it s = Some d" "VALID_ITER it s"
proof -
  obtain i a d' e where "it = mk_iter s a i" "arrays s a = Some (kids s d')"
    "nth_int (kids s d') i = Some e" "node_at s (root s) p = Some e"
    using assms(1,2) by (rule points_toE) blast
  with assms(3) show "ITER_ELEM it s = Some d" "VALID_ITER it s"
    by (simp_all add: ITER_ELEM_mk_iter elem_at_def)
qed

lemma parent_elem_at:
  assumes "wf s" "parent_at s parent q d"
  shows "parent_elem parent s = Some d" "VALID_ITER_OR_NULL parent s" "\<exists>y. elems s d = Some y"
proof -
  show "parent_elem parent s = Some d" "VALID_ITER_OR_NULL parent s"
    using assms points_to_elem[OF assms(1)]
    by (auto simp: parent_at_def parent_elem_def VALID_ITER_OR_NULL_def split: option.splits)
  show "\<exists>y. elems s d = Some y"
    using assms node_at_elem[OF assms(1), of "root s" q d] wf_root[OF assms(1)]
    by (cases "q = []") (auto simp: parent_at_def)
qed

text \<open>A store in which one more element has been allocated but not linked.\<close>

definition with_fresh :: "store \<Rightarrow> aelem \<Rightarrow> store" where
  "with_fresh s x = s\<lparr>elems := (elems s)(next_addr s \<mapsto> x), next_addr := Suc (next_addr s)\<rparr>"

lemma with_fresh_sel [simp]:
  "elems (with_fresh s x) = (elems s)(next_addr s \<mapsto> x)" "arrays (with_fresh s x) = arrays s"
  "next_addr (with_fresh s x) = Suc (next_addr s)" "stamp (with_fresh s x) = stamp s"
  "signals (with_fresh s x) = signals s" "sublevels (with_fresh s x) = sublevels s"
  "root (with_fresh s x) = root s" "sort_func (with_fresh s x) = sort_func s"
  "n_columns (with_fresh s x) = n_columns s" "headers (with_fresh s x) = headers s"
  by (simp_all add: with_fresh_def)

lemma with_fresh_settings [simp]: "same_settings s (with_fresh s x)"
  by (simp add: with_fresh_def same_settings_def)

lemma insert_place_spec:
  assumes wf: "wf s" and y: "elems s d = Some y"
    and pos: "p \<le> length (kids s d)" "position = int p \<or> position = -1 \<and> p = length (kids s d)"
  shows "\<exists>a t. insert_place (with_fresh s x) d position = Some (Some (t, a, int p)) \<and>
    (ae_children y = Some a \<or> ae_children y = None \<and> arrays s a = None) \<and>
    arrays t a = Some (kids s d) \<and> (\<forall>b. b \<noteq> a \<longrightarrow> arrays t b = arrays s b) \<and>
    elems t = (elems s)(next_addr s \<mapsto> x, d \<mapsto> y\<lparr>ae_children := Some a\<rparr>) \<and>
    same_settings s t \<and> signals t = signals s \<and> next_addr s < next_addr t \<and> a < next_addr t"
proof -
  let ?e = "next_addr s" and ?s1 = "with_fresh s x"
  have de: "d \<noteq> ?e" using wf_elem_bound[OF wf y] by simp
  show ?thesis
  proof (cases "ae_children y")
    case (Some a)
    note k = wf_children(1)[OF wf y Some]
    have "(elems s)(?e \<mapsto> x, d \<mapsto> y\<lparr>ae_children := Some a\<rparr>) = (elems s)(?e \<mapsto> x)"
      using y Some de by (auto simp: fun_eq_iff)
    moreover have "a < Suc ?e" using wf_array_bound[OF wf k] by simp
    ultimately show ?thesis
      using Some k y de pos by (intro exI[of _ a] exI[of _ ?s1]) (auto simp: insert_place_def)
  next
    case None
    let ?t = "set_elem d (y\<lparr>ae_children := Some (Suc ?e)\<rparr>) (set_array (Suc ?e) [] ?s1\<lparr>next_addr := Suc (Suc ?e)\<rparr>)"
    have "kids s d = []" using y None by (simp add: kids_def)
    moreover have "arrays s (Suc ?e) = None"
      using wf_array_bound[OF wf, of "Suc ?e"] by (cases "arrays s (Suc ?e)") auto
    ultimately show ?thesis
      using None y de pos
      by (intro exI[of _ "Suc ?e"] exI[of _ ?t])
        (auto simp: insert_place_def alloc_array_def Let_def set_elem_def set_array_def
          same_settings_def with_fresh_def fun_eq_iff)
  qed
qed

lemma link_spec:
  assumes wf: "wf s" and p: "parent_at s parent q d"
    and x: "ae_children x = None" "length (ae_data x) = n_columns s"
    and pos: "p \<le> length (kids s d)" "position = int p \<or> position = -1 \<and> p = length (kids s d)"
  shows "\<exists>a t2 t. insert_place (with_fresh s x) d position = Some (Some (t2, a, int p)) \<and>
    elems t2 (next_addr s) = Some x \<and>
    scp_ptr_array_insert_val a p (next_addr s) (set_elem (next_addr s) (x\<lparr>ae_parent := Some d\<rparr>) t2) = Some t \<and>
    wf t \<and> kids t = (kids s)(d := insert_at p (next_addr s) (kids s d)) \<and>
    points_to t (mk_iter t a (int p)) (q @ [int p]) \<and> node_at t (root t) q = Some d \<and>
    (\<forall>e\<noteq>next_addr s. row t e = row s e) \<and> row t (next_addr s) = ae_data x \<and>
    (\<forall>e. e \<noteq> next_addr s \<longrightarrow> (elems t e = None \<longleftrightarrow> elems s e = None)) \<and>
    same_settings s t2 \<and> same_settings s t \<and> signals t2 = signals s \<and> signals t = signals s"
proof -
  let ?e = "next_addr s" and ?x = "x\<lparr>ae_parent := Some d\<rparr>"
  let ?ks = "insert_at p ?e (kids s d)"
  obtain y where y: "elems s d = Some y" using parent_elem_at[OF wf p] by blast
  have de: "d \<noteq> ?e" using wf_elem_bound[OF wf y] by auto
  have "elems s ?e = None" using wf_elem_bound[OF wf, of ?e] by (cases "elems s ?e") auto
  then have "distinct (?e # kids s d)" using kids_parent[OF wf, of ?e d] kids_distinct[OF wf] by auto
  moreover have "mset ?ks = mset (?e # kids s d)" by simp
  ultimately have ks: "distinct ?ks" "set ?ks = insert ?e (set (kids s d))" by (metis mset_eq_imp_distinct_iff) simp
  obtain a t2 where t2: "insert_place (with_fresh s x) d position = Some (Some (t2, a, int p))"
    "ae_children y = Some a \<or> ae_children y = None \<and> arrays s a = None"
    "arrays t2 a = Some (kids s d)" "\<forall>b. b \<noteq> a \<longrightarrow> arrays t2 b = arrays s b"
    "elems t2 = (elems s)(?e \<mapsto> x, d \<mapsto> y\<lparr>ae_children := Some a\<rparr>)"
    "same_settings s t2" "signals t2 = signals s" "?e < next_addr t2" "a < next_addr t2"
    using insert_place_spec[OF wf y pos, of x] by blast
  define t where "t = set_array a ?ks (set_elem ?e ?x t2)"
  have t: "elems t = (elems s)(d \<mapsto> y\<lparr>ae_children := Some a\<rparr>, ?e \<mapsto> ?x)" "arrays t = (arrays s)(a \<mapsto> ?ks)"
    "same_settings s t" "next_addr t = next_addr t2" "signals t = signals t2"
    using t2(4-6) de by (auto simp: t_def set_array_def set_elem_def same_settings_def fun_eq_iff)
  have ins: "scp_ptr_array_insert_val a p ?e (set_elem ?e ?x t2) = Some t"
    using t2(3) pos(1) insert_val_list[OF pos(1), of 0 ?e]
    by (simp add: t_def scp_ptr_array_insert_val_def set_elem_def Let_def)
  have "linked s d y ?e ?x a ?ks t"
    using wf y de x ks t2(2,6,8,9) t by (auto simp: linked_def same_settings_def)
  then have w: "wf t" "kids t = (kids s)(d := ?ks)" by (rule wf_link, rule linked_kids)
  have q: "node_at t (root t) q = Some d"
    using p t(3) by (simp add: node_at_reordered[OF wf w(2)] parent_at_def same_settings_def)
  have "nth_int (kids t d) (int p) = Some ?e" using pos(1) by (simp add: w(2) nth_insert_at)
  then have "points_to t (mk_iter t a (int p)) (q @ [int p])"
    using t(1) de by (intro points_to_intro[OF w(1) q]) auto
  moreover have "row t e = (if e = ?e then ae_data x else row s e)" for e
    using t(1) y de by (auto simp: row_def)
  ultimately show ?thesis
    using t2(1,5,6,7) de ins w q t y by (intro exI[of _ a] exI[of _ t2] exI[of _ t]) auto
qed

lemma scp_move_element_quiet:
  "scp_move_element s a it j False = Some (t, it') \<Longrightarrow> signals t = signals s"
  by (auto simp: scp_move_element_def bind_eq_Some_conv Let_def split: if_splits)

lemma scp_sort_element_quiet:
  "scp_sort_element G s it False = Some (t, it') \<Longrightarrow> signals t = signals s"
  by (auto simp: scp_sort_element_def bind_eq_Some_conv Let_def split: if_splits
      dest!: scp_move_element_quiet)

lemma remove_insert_at:
  "p \<le> length xs \<Longrightarrow> remove_index (insert_at p x xs) p = xs"
  "p \<le> length xs \<Longrightarrow> insert_at p x xs ! p = x"
  by (simp_all add: remove_index_def insert_at_def nth_append)

text \<open>The sort function in force and its data can be called.\<close>

definition sort_ready :: "glib \<Rightarrow> store \<Rightarrow> bool" where
  "sort_ready G s \<longleftrightarrow> (sort_func s \<noteq> None \<longrightarrow> store_compare G s \<noteq> None)"

text \<open>
  What inserting a row does: \<open>e\<close> joins the children of \<open>d\<close> at index \<open>j\<close>, every other row stays as
  it is, and the signals announce the row's path.
\<close>

definition inserted :: "store \<Rightarrow> iter option \<Rightarrow> path \<Rightarrow> addr \<Rightarrow> addr \<Rightarrow> row \<Rightarrow> nat \<Rightarrow> store \<Rightarrow> iter \<Rightarrow> bool" where
  "inserted s parent q d e r j t it \<longleftrightarrow>
     wf t \<and> kids t = (kids s)(d := insert_at j e (kids s d)) \<and> j \<le> length (kids s d) \<and>
     points_to t it (q @ [int j]) \<and> node_at t (root t) q = Some d \<and>
     row t e = r \<and> (\<forall>c. c \<noteq> e \<longrightarrow> row t c = row s c) \<and> elems s e = None \<and>
     (\<forall>c. c \<noteq> e \<longrightarrow> (elems t c = None \<longleftrightarrow> elems s c = None)) \<and> same_settings s t \<and>
     signals t = signals s @ Row_Inserted (Some (q @ [int j])) it #
       (if parent \<noteq> None \<and> kids s d = [] then [Row_Has_Child_Toggled (Some q) (the parent)] else [])"

text \<open>The linked element goes to its place in the sorted order, when there is one.\<close>

definition settle :: "glib \<Rightarrow> store \<Rightarrow> addr \<Rightarrow> int \<Rightarrow> (store \<times> iter) option" where
  "settle G t a i = (if sort_func t \<noteq> None then scp_sort_element G t (mk_iter t a i) False else Some (t, mk_iter t a i))"

lemma settle_quiet: "settle G t a i = Some (t', it) \<Longrightarrow> signals t' = signals t \<and> same_settings t t'"
  by (auto simp: settle_def scp_sort_element_quiet intro: scp_sort_element_settings split: if_splits)

lemma settle_spec:
  assumes t: "wf t" "points_to t (mk_iter t a (int p)) (q @ [int p])" "node_at t (root t) q = Some d"
    and ks: "kids t d = insert_at p e ks" "p \<le> length ks" and ready: "sort_ready G t"
  shows "\<exists>t' it j. settle G t a (int p) = Some (t', it) \<and> reordered t d (insert_at j e ks) t' \<and>
    j \<le> length ks \<and> points_to t' it (q @ [int j]) \<and> it_array it = Some a \<and> (sort_func t = None \<longrightarrow> j = p)"
proof (cases "sort_func t")
  case None
  then show ?thesis
    using t ks by (intro exI[of _ t] exI[of _ "mk_iter t a (int p)"] exI[of _ p]) (simp add: settle_def reordered_def fun_eq_iff)
next
  case (Some f)
  then obtain cmp where "store_compare G t = Some cmp" using ready by (auto simp: sort_ready_def)
  from sort_element_total[OF t this, of False]
  obtain t' j where "scp_sort_element G t (mk_iter t a (int p)) False = Some (t', (mk_iter t a (int p))\<lparr>it_index := j\<rparr>)"
    "reordered t d (insert_at (nat j) e ks) t'" "0 \<le> j" "j < int (length (kids t d))"
    "points_to t' ((mk_iter t a (int p))\<lparr>it_index := j\<rparr>) (q @ [j])"
    by (auto simp: ks remove_insert_at[OF ks(2)])
  then show ?thesis
    using Some ks by (intro exI[of _ t'] exI[of _ "(mk_iter t a (int p))\<lparr>it_index := j\<rparr>"] exI[of _ "nat j"])
      (simp add: settle_def nat_less_iff)
qed

lemma settle_sorted:
  assumes t: "wf t" "points_to t (mk_iter t a (int p)) (q @ [int p])" "node_at t (root t) q = Some d"
    and ks: "kids t d = insert_at p e ks" "p \<le> length ks" and run: "settle G t a (int p) = Some (t', it)"
    and cmp: "sort_func t \<noteq> None" "store_compare G t = Some cmp" "comparator cmp D"
    and rows: "\<forall>c\<in>set (kids t d). row t c \<in> D" "comparator.ascending cmp (map (row t) ks)"
  shows "comparator.ascending cmp (map (row t) (kids t' d))"
proof -
  have "comparator.ascending cmp (map (row t) (remove_index (kids t d) (nat (int p))))"
    using rows(2) unfolding ks nat_int remove_insert_at(1)[OF ks(2)] .
  from sort_element_spec[OF t cmp(2,3) rows(1) this, of False] run cmp(1)
  show ?thesis by (auto simp: settle_def)
qed

text \<open>The end of the insertion: the flag and the signals.\<close>

definition announced :: "iter option \<Rightarrow> path \<Rightarrow> nat \<Rightarrow> iter \<Rightarrow> bool \<Rightarrow> store \<Rightarrow> store" where
  "announced parent q j it first t =
     (let t = emit (Row_Inserted (Some (q @ [int j])) it) (t\<lparr>columns_dirty := True\<rparr>) in
      if parent \<noteq> None \<and> first then emit (Row_Has_Child_Toggled (Some q) (the parent)) t else t)"

lemma announced_sel [simp]:
  "root (announced parent q j it first t) = root t" "elems (announced parent q j it first t) = elems t" "arrays (announced parent q j it first t) = arrays t"
  "same_tree t (announced parent q j it first t)" "same_settings t (announced parent q j it first t)"
  "signals (announced parent q j it first t) = signals t @ Row_Inserted (Some (q @ [int j])) it #
     (if parent \<noteq> None \<and> first then [Row_Has_Child_Toggled (Some q) (the parent)] else [])"
  by (simp_all add: announced_def Let_def same_tree_def same_settings_def emit_def)

lemma insert_element_run:
  assumes wf: "wf s" and p: "parent_at s parent q d" and sub: "sublevels s \<or> parent = None"
    and place: "insert_place (with_fresh s x) d position = Some (Some (t2, a, int p))" "elems t2 (next_addr s) = Some x"
      "scp_ptr_array_insert_val a p (next_addr s) (set_elem (next_addr s) (x\<lparr>ae_parent := Some d\<rparr>) t2) = Some t0"
    and settled: "settle G t0 a (int p) = Some (t1, it)" "wf t1" "points_to t1 it (q @ [int j])"
      "arrays t1 a = Some (insert_at j (next_addr s) (kids s d))" "j \<le> length (kids s d)"
  shows "scp_insert_element G (with_fresh s x) it0 (next_addr s) position parent =
    Some (announced parent q j it (kids s d = []) t1, it, True)"
proof -
  let ?t3 = "t1\<lparr>columns_dirty := True\<rparr>"
  have same: "same_tree t1 ?t3" by (simp add: same_tree_def)
  have path: "scp_tree_store_get_path ?t3 it = Some (Some (q @ [int j]))"
    using get_path_points_to[OF settled(2,3)] by (simp only: same_tree_simps(13)[OF same])
  have valid: "parent_elem parent (with_fresh s x) = Some d" "VALID_ITER_OR_NULL parent (with_fresh s x)"
    using parent_elem_at(1,2)[OF wf p]
    by (auto simp: parent_elem_def VALID_ITER_OR_NULL_def VALID_ITER_def ITER_ELEM_def elem_at_def split: option.splits)
  have first: "length (insert_at j (next_addr s) (kids s d)) = 1 \<longleftrightarrow> kids s d = []" using settled(5) by simp
  have mk: "mk_iter t0 a (int p) = \<lparr>it_stamp = stamp t0, it_array = Some a, it_index = int p\<rparr>" by (simp add: mk_iter_def)
  show ?thesis
    using sub valid place settled(1)[unfolded settle_def] path settled(4) first
    by (simp add: scp_insert_element_def Let_def announced_def)
qed

lemma insert_element_spec:
  assumes wf: "wf s" and p: "parent_at s parent q d" and sub: "sublevels s \<or> parent = None"
    and ready: "sort_ready G s"
    and x: "ae_children x = None" "length (ae_data x) = n_columns s"
    and pos: "p \<le> length (kids s d)" "position = int p \<or> position = -1 \<and> p = length (kids s d)"
  shows "\<exists>t it j. scp_insert_element G (with_fresh s x) it0 (next_addr s) position parent = Some (t, it, True) \<and>
    inserted s parent q d (next_addr s) (ae_data x) j t it \<and>
    (sort_func s = None \<longrightarrow> j = p) \<and>
    (\<forall>cmp D. sort_func s \<noteq> None \<longrightarrow> store_compare G s = Some cmp \<longrightarrow> comparator cmp D \<longrightarrow>
      (\<forall>c\<in>set (kids s d). row s c \<in> D) \<longrightarrow> ae_data x \<in> D \<longrightarrow>
      comparator.ascending cmp (map (row s) (kids s d)) \<longrightarrow>
      comparator.ascending cmp (map (row t) (kids t d)))"
proof -
  let ?e = "next_addr s"
  have e_new: "elems s ?e = None" using wf_elem_bound[OF wf, of ?e] by (cases "elems s ?e") auto
  have e_kid: "?e \<notin> set (kids s d)" using kids_parent[OF wf, of ?e d] e_new by auto
  from link_spec[OF wf p x pos] obtain a t2 t0 where l:
    "insert_place (with_fresh s x) d position = Some (Some (t2, a, int p))" "elems t2 ?e = Some x"
    "scp_ptr_array_insert_val a p ?e (set_elem ?e (x\<lparr>ae_parent := Some d\<rparr>) t2) = Some t0"
    "wf t0" "kids t0 = (kids s)(d := insert_at p ?e (kids s d))"
    "points_to t0 (mk_iter t0 a (int p)) (q @ [int p])" "node_at t0 (root t0) q = Some d"
    "\<forall>e\<noteq>?e. row t0 e = row s e" "row t0 ?e = ae_data x"
    "\<forall>e. e \<noteq> ?e \<longrightarrow> (elems t0 e = None \<longleftrightarrow> elems s e = None)"
    "same_settings s t0" "signals t0 = signals s"
    by blast
  have sf: "sort_func t0 = sort_func s" using l(11) by (simp add: same_settings_def)
  have kd: "kids t0 d = insert_at p ?e (kids s d)" using l(5) by simp
  have "sort_ready G t0" using ready store_compare_same[OF l(11)] sf by (simp add: sort_ready_def)
  then obtain t1 it j where s: "settle G t0 a (int p) = Some (t1, it)" "reordered t0 d (insert_at j ?e (kids s d)) t1"
    "j \<le> length (kids s d)" "points_to t1 it (q @ [int j])" "it_array it = Some a" "sort_func s = None \<longrightarrow> j = p"
    using settle_spec[OF l(4,6,7) kd pos(1), of G] sf by auto
  have quiet: "signals t1 = signals s" and set: "same_settings s t1"
    using settle_quiet[OF s(1)] l(11,12) same_settings_trans by auto
  have t1: "wf t1" "elems t1 = elems t0" and k1: "kids t1 = (kids s)(d := insert_at j ?e (kids s d))"
    using s(2) l(5) by (simp_all add: reordered_def fun_eq_iff)
  have nq: "node_at t1 (root t1) q = Some d"
    using p set by (simp add: node_at_reordered[OF wf k1] parent_at_def same_settings_def)
  have arr: "arrays t1 a = Some (insert_at j ?e (kids s d))"
    using t1(1) s(4) by (rule points_toE) (use s(5) k1 nq in auto)
  let ?t = "announced parent q j it (kids s d = []) t1"
  have same: "same_tree t1 ?t" by simp
  note row = row_same[of ?t t0, simplified, OF t1(2)]
  have "inserted s parent q d ?e (ae_data x) j ?t it"
    unfolding inserted_def
    using t1 k1 s(3,4) nq quiet same_settings_trans[OF set announced_sel(5)] row l(8-10) e_new
      same_tree_simps(1,2,5,6)[OF same]
    by simp
  moreover have "comparator.ascending cmp (map (row ?t) (kids ?t d))"
    if c: "sort_func s \<noteq> None" "store_compare G s = Some cmp" "comparator cmp D"
      "\<forall>c\<in>set (kids s d). row s c \<in> D" "ae_data x \<in> D" "comparator.ascending cmp (map (row s) (kids s d))" for cmp D
  proof -
    have rows: "\<forall>c\<in>set (kids t0 d). row t0 c \<in> D" using c(4,5) l(8,9) by (auto simp: kd) metis
    have "map (row t0) (kids s d) = map (row s) (kids s d)" using l(8) e_kid by (intro map_cong refl) metis
    with c(6) have "comparator.ascending cmp (map (row t0) (kids s d))" by (simp del: map_eq_conv)
    moreover have "store_compare G t0 = Some cmp" "sort_func t0 \<noteq> None" using store_compare_same[OF l(11)] c(1,2) sf by auto
    ultimately have "comparator.ascending cmp (map (row t0) (kids t1 d))"
      using settle_sorted[OF l(4,6,7) kd pos(1) s(1)] c(3) rows by blast
    then show ?thesis using row same_tree_simps(1)[OF same] by simp
  qed
  ultimately show ?thesis
    using insert_element_run[OF wf p sub l(1-3) s(1) t1(1) s(4) arr s(3), of it0] s(6)
    by (intro exI[of _ ?t] exI[of _ it] exI[of _ j] conjI allI impI) blast+
qed

subsection \<open>Setting cells\<close>

text \<open>What storing a value does to a row.\<close>

definition put_cell :: "glib \<Rightarrow> store \<Rightarrow> int \<Rightarrow> gvalue \<Rightarrow> row \<Rightarrow> row" where
  "put_cell G s column v r =
     (let ty = hdr_type (headers s ! nat column) in
      if g_type_is_a G (gv_type v) ty
      then r[nat column := scp_tree_data_from_value (r ! nat column) v True]
      else case g_value_transform G v ty of
        None \<Rightarrow> r
      | Some w \<Rightarrow> r[nat column := scp_tree_data_from_value (r ! nat column) w True])"

fun put_cells :: "glib \<Rightarrow> store \<Rightarrow> (int \<times> gvalue) list \<Rightarrow> row \<Rightarrow> row" where
  "put_cells G s [] r = r"
| "put_cells G s ((column, v) # cvs) r =
     (if 0 \<le> column \<and> column < int (n_columns s) then put_cells G s cvs (put_cell G s column v r) else r)"

lemma length_put_cells [simp]: "length (put_cells G s cvs r) = length r"
  by (induction G s cvs r rule: put_cells.induct) (auto simp: put_cell_def Let_def split: option.splits)

definition set_row :: "addr \<Rightarrow> row \<Rightarrow> store \<Rightarrow> store" where
  "set_row e r s = (case elems s e of None \<Rightarrow> s | Some x \<Rightarrow> set_elem e (x\<lparr>ae_data := r\<rparr>) s)"

lemma set_elem_same: "elems s e = Some x \<Longrightarrow> set_elem e x s = s"
  by (simp add: set_elem_def fun_upd_idem)

lemma set_row_same: "elems s e = Some x \<Longrightarrow> set_row e (ae_data x) s = s"
  by (simp add: set_row_def set_elem_same)

lemma set_row_twice: "set_row e r (set_row e r' s) = set_row e r s"
  by (auto simp: set_row_def set_elem_def split: option.splits)

lemma set_row_sel [simp]:
  "arrays (set_row e r s) = arrays s" "root (set_row e r s) = root s" "roar (set_row e r s) = roar s"
  "stamp (set_row e r s) = stamp s" "next_addr (set_row e r s) = next_addr s"
  "signals (set_row e r s) = signals s" "headers (set_row e r s) = headers s"
  "n_columns (set_row e r s) = n_columns s" "sort_column_id (set_row e r s) = sort_column_id s"
  "sort_func (set_row e r s) = sort_func s"
  by (simp_all add: set_row_def set_elem_def split: option.splits)

lemma elems_set_row:
  "elems s e = Some x \<Longrightarrow> elems (set_row e r s) = (elems s)(e \<mapsto> x\<lparr>ae_data := r\<rparr>)"
  by (simp add: set_row_def set_elem_def)

lemma row_set_row: "elems s e = Some x \<Longrightarrow> row (set_row e r s) c = (if c = e then r else row s c)"
  by (simp add: row_def elems_set_row)

lemma set_row_settings [simp]: "same_settings s (set_row e r s)"
  by (simp add: set_row_def split: option.splits)

lemma put_cell_same: "headers t = headers s \<Longrightarrow> put_cell G t = put_cell G s"
  by (intro ext) (simp add: put_cell_def)

lemma put_cells_same:
  "headers t = headers s \<Longrightarrow> n_columns t = n_columns s \<Longrightarrow> put_cells G t cvs r = put_cells G s cvs r"
  by (induction cvs arbitrary: r) (auto simp: put_cell_same[of t s])

lemma header_at_nth: "0 \<le> c \<Longrightarrow> c < int (length (headers s)) \<Longrightarrow> header_at s c = Some (headers s ! nat c)"
  by (simp add: header_at_def nth_int_def)

lemma scp_set_value_row:
  assumes "elems s e = Some x" "length (ae_data x) = n_columns s" "length (headers s) = n_columns s"
    "0 \<le> column" "column < int (n_columns s)"
  shows "\<exists>b. scp_set_value G s e column v = Some (set_row e (put_cell G s column v (ae_data x)) s, b)"
proof -
  have h: "header_at s column = Some (headers s ! nat column)" using assms by (simp add: header_at_nth)
  have upd: "update_cell s e column f = Some (set_row e ((ae_data x)[nat column := f (ae_data x ! nat column)]) s)" for f
    using assms by (simp add: update_cell_def nth_int_def set_row_def)
  show ?thesis
    using assms h upd set_row_same[OF assms(1)]
    by (auto simp: scp_set_value_def put_cell_def Let_def split: option.splits)
qed

lemma set_vector_loop_row:
  assumes "length (headers s) = n_columns s"
  shows "elems s e = Some x \<Longrightarrow> length (ae_data x) = n_columns s \<Longrightarrow>
    \<exists>c so. set_vector_loop G e cvs (s, ch, sc) = Some (set_row e (put_cells G s cvs (ae_data x)) s, c, so)"
  using assms
proof (induction cvs arbitrary: s x ch sc)
  case Nil
  then show ?case by (simp add: set_row_same)
next
  case (Cons cv cvs)
  obtain column v where cv: "cv = (column, v)" by fastforce
  show ?case
  proof (cases "0 \<le> column \<and> column < int (n_columns s)")
    case True
    then obtain b where b: "scp_set_value G s e column v = Some (set_row e (put_cell G s column v (ae_data x)) s, b)"
      using scp_set_value_row[OF Cons.prems(1,2)] Cons.prems(3) by blast
    let ?s = "set_row e (put_cell G s column v (ae_data x)) s"
    let ?x = "x\<lparr>ae_data := put_cell G s column v (ae_data x)\<rparr>"
    have len: "length (put_cell G s column v (ae_data x)) = n_columns s"
      using Cons.prems by (auto simp: put_cell_def Let_def split: option.splits)
    have "\<exists>c so. set_vector_loop G e cvs (?s, ch \<or> b, sc \<or> column = sort_column_id s)
        = Some (set_row e (put_cells G ?s cvs (ae_data ?x)) ?s, c, so)"
      using len Cons.prems by (intro Cons.IH) (auto simp: elems_set_row)
    then obtain c so where "set_vector_loop G e cvs (?s, ch \<or> b, sc \<or> column = sort_column_id s)
        = Some (set_row e (put_cells G ?s cvs (ae_data ?x)) ?s, c, so)" by blast
    then show ?thesis
      using True b cv put_cells_same[of ?s s] by (simp add: set_row_twice)
  next
    case False
    then show ?thesis using cv Cons.prems by (auto simp: set_row_same)
  qed
qed

lemma set_row_with_fresh: "set_row (next_addr s) r (with_fresh s x) = with_fresh s (x\<lparr>ae_data := r\<rparr>)"
  by (simp add: set_row_def set_elem_def with_fresh_def)

text \<open>
  C24: \<open>scp_tree_store_insert\<close> adds one row with zero cells below the parent and changes no other row;
  the returned iterator points to it, \<open>row-inserted\<close> announces its path, followed by
  \<open>row-has-child-toggled\<close> for a parent that had no children. In an unsorted store the row is at the
  requested position, the end for -1. The tree stays well formed.
\<close>

theorem scp_tree_store_insert_correct:
  assumes "wf s" and "parent_at s parent q d" and "sublevels s \<or> parent = None" and "sort_ready G s"
    and "p \<le> length (kids s d)" and "position = int p \<or> position = -1 \<and> p = length (kids s d)"
  shows "\<exists>t it j. scp_tree_store_insert G s it0 parent position = Some (t, it) \<and>
    inserted s parent q d (next_addr s) (replicate (n_columns s) V_zero) j t it \<and>
    (sort_func s = None \<longrightarrow> j = p)"
proof -
  have "alloc_elem s = (with_fresh s (blank_elem s), next_addr s)"
    by (simp add: alloc_elem_def with_fresh_def set_elem_def Let_def)
  with insert_element_spec[OF assms(1-4), of "blank_elem s" p position it0] assms(5,6)
  show ?thesis by (fastforce simp: scp_tree_store_insert_def blank_elem_def)
qed

theorem scp_tree_store_insert_correct_witness:
  "\<exists>t it. scp_tree_store_insert demo_glib demo (demo_iter 0) (Some (demo_iter 1)) 0 = Some (t, it) \<and>
    wf t \<and> kids t 4 = [8, 7] \<and> points_to t it [1, 0]"
proof -
  have "parent_at demo (Some (demo_iter 1)) [1] 4"
    using demo_points_to(1)[of 1] by (simp add: parent_at_def demo_kids nth_int_def)
  from scp_tree_store_insert_correct[OF demo_wf this, of demo_glib 0 0 "demo_iter 0"] show ?thesis
    by (auto simp: sort_ready_def inserted_def demo_kids insert_at_def)
qed

lemma insert_with_values_spec:
  assumes "wf s" "parent_at s parent q d" "sublevels s \<or> parent = None" "sort_ready G s"
    "p \<le> length (kids s d)" "position = int p \<or> position = -1 \<and> p = length (kids s d)"
  shows "\<exists>t it j. scp_tree_store_insert_with_valuesv G s it0 parent position cvs = Some (t, it) \<and>
    inserted s parent q d (next_addr s) (put_cells G s cvs (replicate (n_columns s) V_zero)) j t it \<and>
    (sort_func s = None \<longrightarrow> j = p) \<and>
    (\<forall>cmp D. sort_func s \<noteq> None \<longrightarrow> store_compare G s = Some cmp \<longrightarrow> comparator cmp D \<longrightarrow>
      (\<forall>c\<in>set (kids s d). row s c \<in> D) \<longrightarrow> put_cells G s cvs (replicate (n_columns s) V_zero) \<in> D \<longrightarrow>
      comparator.ascending cmp (map (row s) (kids s d)) \<longrightarrow>
      comparator.ascending cmp (map (row t) (kids t d)))"
proof -
  let ?s1 = "with_fresh s (blank_elem s)" and ?r = "put_cells G s cvs (replicate (n_columns s) V_zero)"
  let ?x = "(blank_elem s)\<lparr>ae_data := ?r\<rparr>"
  have alloc: "alloc_elem s = (?s1, next_addr s)"
    by (simp add: alloc_elem_def with_fresh_def set_elem_def Let_def)
  have "\<exists>c so. scp_set_vector G ?s1 (next_addr s) False False cvs
      = Some (set_row (next_addr s) (put_cells G ?s1 cvs (ae_data (blank_elem s))) ?s1, c, so)"
    unfolding scp_set_vector_def
    by (rule set_vector_loop_row) (simp_all add: wf_headers[OF assms(1)], simp add: blank_elem_def)
  then obtain c so where vec: "scp_set_vector G ?s1 (next_addr s) False False cvs = Some (with_fresh s ?x, c, so)"
    using put_cells_same[of ?s1 s G cvs] by (auto simp: blank_elem_def set_row_with_fresh)
  have "ae_children ?x = None" "length (ae_data ?x) = n_columns s" "ae_data ?x = ?r" by (simp_all add: blank_elem_def)
  with insert_element_spec[OF assms(1-4) _ _ assms(5,6), of ?x it0]
  obtain t it j where "scp_insert_element G (with_fresh s ?x) it0 (next_addr s) position parent = Some (t, it, True)"
    "inserted s parent q d (next_addr s) ?r j t it" "sort_func s = None \<longrightarrow> j = p"
    "\<forall>cmp D. sort_func s \<noteq> None \<longrightarrow> store_compare G s = Some cmp \<longrightarrow> comparator cmp D \<longrightarrow>
      (\<forall>c\<in>set (kids s d). row s c \<in> D) \<longrightarrow> ?r \<in> D \<longrightarrow>
      comparator.ascending cmp (map (row s) (kids s d)) \<longrightarrow> comparator.ascending cmp (map (row t) (kids t d))"
    by auto
  then show ?thesis using alloc vec
    by (intro exI[of _ t] exI[of _ it] exI[of _ j]) (simp add: scp_tree_store_insert_with_valuesv_def)
qed



end
