(* ===== verification/ScpRemove.thy ===== *)
theory ScpRemove
  imports ScpInsert
begin

text \<open>
  Removing a row: the subtree below it is freed, the iterator moves to the next row or becomes
  invalid, and the invariant of the tree is kept.
\<close>

subsection \<open>Freeing a subtree\<close>

definition doomed :: "store \<Rightarrow> addr \<Rightarrow> addr \<Rightarrow> bool" where
  "doomed s e c \<longleftrightarrow> c = e \<or> below s e c"

definition doomed_arr :: "store \<Rightarrow> addr \<Rightarrow> addr \<Rightarrow> bool" where
  "doomed_arr s e a \<longleftrightarrow> (\<exists>c. doomed s e c \<and> owns s c a)"

lemma below_less: "wf s \<Longrightarrow> below s e c \<Longrightarrow> e < c"
proof -
  assume wf: "wf s"
  have "node_at s e p = Some c \<Longrightarrow> p \<noteq> [] \<Longrightarrow> e < c" for p
  proof (induction p arbitrary: e)
    case (Cons i p)
    then obtain b where b: "nth_int (kids s e) i = Some b" "node_at s b p = Some c"
      by (auto simp: bind_eq_Some_conv)
    have "e < b" by (rule kids_less[OF wf nth_int_in_set[OF b(1)]])
    then show ?case using Cons.IH[OF b(2)] b(2) by (cases "p = []") auto
  qed simp
  then show "below s e c \<Longrightarrow> e < c" by (auto simp: below_def)
qed

lemma doomed_unfold: "doomed s e c \<longleftrightarrow> c = e \<or> (\<exists>k\<in>set (kids s e). doomed s k c)"
  using below_unfold[of s e c] by (auto simp: doomed_def)

lemma doomed_path:
  assumes "wf s" "doomed s k c" "node_at s (root s) p = Some k"
  shows "\<exists>r. node_at s (root s) (p @ r) = Some c"
proof (cases "c = k")
  case True
  with assms(3) show ?thesis by (intro exI[of _ "[]"]) simp
next
  case False
  with assms show ?thesis by (auto simp: doomed_def below_def node_at_append)
qed

lemma siblings_disjoint:
  assumes "wf s" "k \<in> set (kids s e)" "k' \<in> set (kids s e)" "doomed s k c" "doomed s k' c"
  shows "k = k'"
proof -
  obtain x where "elems s e = Some x" using assms(2) by (rule kidsE)
  then obtain p where p: "node_at s (root s) p = Some e" using node_at_exists[OF assms(1)] by blast
  obtain i i' where i: "i < length (kids s e)" "kids s e ! i = k" "i' < length (kids s e)" "kids s e ! i' = k'"
    using assms(2,3) by (auto simp: in_set_conv_nth)
  have "node_at s (root s) (p @ [int i]) = Some k" "node_at s (root s) (p @ [int i']) = Some k'"
    using p i by (simp_all add: node_at_snoc)
  then obtain r r' where "node_at s (root s) ((p @ [int i]) @ r) = Some c"
    "node_at s (root s) ((p @ [int i']) @ r') = Some c"
    using doomed_path[OF assms(1,4)] doomed_path[OF assms(1,5)] by blast
  from node_at_inject[OF assms(1) this] i show ?thesis by simp
qed

definition cut :: "(addr \<Rightarrow> bool) \<Rightarrow> (addr \<Rightarrow> bool) \<Rightarrow> store \<Rightarrow> store" where
  "cut E A s = s\<lparr>elems := (\<lambda>c. if E c then None else elems s c), arrays := (\<lambda>a. if A a then None else arrays s a)\<rparr>"

lemma cut_sel [simp]:
  "elems (cut E A s) = (\<lambda>c. if E c then None else elems s c)"
  "arrays (cut E A s) = (\<lambda>a. if A a then None else arrays s a)"
  "root (cut E A s) = root s" "roar (cut E A s) = roar s" "stamp (cut E A s) = stamp s"
  "next_addr (cut E A s) = next_addr s" "n_columns (cut E A s) = n_columns s"
  "headers (cut E A s) = headers s" "signals (cut E A s) = signals s"
  "sublevel_discard (cut E A s) = sublevel_discard s"
  by (simp_all add: cut_def)

lemma cut_cut: "cut E A (cut E' A' s) = cut (\<lambda>c. E c \<or> E' c) (\<lambda>a. A a \<or> A' a) s"
  by (simp add: cut_def fun_eq_iff)

lemma cut_settings [simp]: "same_settings s (cut E A s)"
  by (simp add: same_settings_def cut_def)

lemma cut_none: "cut (\<lambda>_. False) (\<lambda>_. False) s = s"
  by (simp add: cut_def)

lemma free_elements_spec:
  assumes wf: "wf s"
    and IH: "\<And>k t. k \<in> set (kids s e) \<Longrightarrow> (\<And>c. doomed s k c \<Longrightarrow> elems t c = elems s c) \<Longrightarrow>
      (\<And>a. doomed_arr s k a \<Longrightarrow> arrays t a = arrays s a) \<Longrightarrow>
      scp_free_element f k t = Some (cut (doomed s k) (doomed_arr s k) t)"
  shows "distinct ks \<Longrightarrow> set ks \<subseteq> set (kids s e) \<Longrightarrow>
    (\<And>k c. k \<in> set ks \<Longrightarrow> doomed s k c \<Longrightarrow> elems t c = elems s c) \<Longrightarrow>
    (\<And>k a. k \<in> set ks \<Longrightarrow> doomed_arr s k a \<Longrightarrow> arrays t a = arrays s a) \<Longrightarrow>
    foldM (scp_free_element f) ks t =
      Some (cut (\<lambda>c. \<exists>k\<in>set ks. doomed s k c) (\<lambda>a. \<exists>k\<in>set ks. doomed_arr s k a) t)"
proof (induction ks arbitrary: t)
  case Nil
  show ?case by (simp add: cut_none)
next
  case (Cons k ks)
  let ?t = "cut (doomed s k) (doomed_arr s k) t"
  have k: "k \<in> set (kids s e)" using Cons.prems(2) by simp
  have free: "scp_free_element f k t = Some ?t" using Cons.prems(3,4) by (intro IH[OF k]) auto
  have dis: "\<not> doomed s k c" if "k' \<in> set ks" "doomed s k' c" for k' c
    using siblings_disjoint[OF wf k _ _ that(2)] that Cons.prems(1,2) by auto
  have dis_arr: "\<not> doomed_arr s k a" if "k' \<in> set ks" "doomed_arr s k' a" for k' a
    using that dis wf_owner[OF wf] unfolding doomed_arr_def by metis
  have "foldM (scp_free_element f) ks ?t =
      Some (cut (\<lambda>c. \<exists>k\<in>set ks. doomed s k c) (\<lambda>a. \<exists>k\<in>set ks. doomed_arr s k a) ?t)"
    using Cons.prems dis dis_arr by (intro Cons.IH) auto
  with free show ?case by (simp add: cut_cut disj_commute)
qed

lemma free_element_spec:
  assumes wf: "wf s"
  shows "elems s e = Some x \<Longrightarrow> next_addr s \<le> f + e \<Longrightarrow> (\<And>c. doomed s e c \<Longrightarrow> elems t c = elems s c) \<Longrightarrow>
    (\<And>a. doomed_arr s e a \<Longrightarrow> arrays t a = arrays s a) \<Longrightarrow>
    scp_free_element f e t = Some (cut (doomed s e) (doomed_arr s e) t)"
proof (induction f arbitrary: e x t)
  case 0
  then show ?case using wf_elem_bound[OF wf 0(1)] by simp
next
  case (Suc f)
  have te: "elems t e = Some x" using Suc.prems(1,3) by (simp add: doomed_def)
  show ?case
  proof (cases "ae_children x")
    case None
    then have "kids s e = []" using Suc.prems by (simp add: kids_def)
    then have d: "doomed s e c \<longleftrightarrow> c = e" for c by (simp add: doomed_unfold[of s e])
    have "\<not> doomed_arr s e a" for a using None Suc.prems(1) by (auto simp: doomed_arr_def d owns_def)
    then show ?thesis using te None by (simp add: cut_def d fun_upd_def)
  next
    case (Some a)
    note w = wf_children[OF wf Suc.prems(1) Some]
    have oe: "owns s e a" using Suc.prems(1) Some by (simp add: owns_def)
    have ta: "arrays t a = Some (kids s e)"
      using Suc.prems(4)[of a] oe w(1) by (auto simp: doomed_arr_def doomed_def)
    have sub: "doomed s e c" if "k \<in> set (kids s e)" "doomed s k c" for k c
      using that by (auto simp: doomed_unfold[of s e])
    have sub_arr: "doomed_arr s e b" if "k \<in> set (kids s e)" "doomed_arr s k b" for k b
      using that sub unfolding doomed_arr_def by blast
    have fold: "foldM (scp_free_element f) (kids s e) t =
      Some (cut (\<lambda>c. \<exists>k\<in>set (kids s e). doomed s k c) (\<lambda>a. \<exists>k\<in>set (kids s e). doomed_arr s k a) t)"
    proof (rule free_elements_spec[OF wf _ w(2)])
      fix k and t :: store assume k: "k \<in> set (kids s e)" and t: "\<And>c. doomed s k c \<Longrightarrow> elems t c = elems s c"
        "\<And>a. doomed_arr s k a \<Longrightarrow> arrays t a = arrays s a"
      obtain z where "elems s k = Some z" using kids_parent[OF wf k] by blast
      moreover have "next_addr s \<le> f + k" using Suc.prems(2) kids_less[OF wf k] by simp
      ultimately show "scp_free_element f k t = Some (cut (doomed s k) (doomed_arr s k) t)"
        using t by (rule Suc.IH)
    qed (use Suc.prems(3,4) sub sub_arr in auto)
    have self: "\<not> doomed s k e" if "k \<in> set (kids s e)" for k
      using kids_less[OF wf that] below_less[OF wf, of k e] by (auto simp: doomed_def)
    have arr: "doomed_arr s e b \<longleftrightarrow> b = a \<or> (\<exists>k\<in>set (kids s e). doomed_arr s k b)" for b
      using oe Suc.prems(1) Some unfolding doomed_arr_def doomed_unfold[of s e] by (auto simp: owns_def)
    show ?thesis
      using te Some ta fold
      by (simp add: cut_def fun_eq_iff doomed_unfold[of s e] arr)
  qed
qed

subsection \<open>Removing a row\<close>

text \<open>The tree without the subtree of the child at index \<open>i\<close> of \<open>d\<close>.\<close>

definition pruned :: "store \<Rightarrow> addr \<Rightarrow> addr \<Rightarrow> nat \<Rightarrow> addr \<Rightarrow> addr list" where
  "pruned s d e i = (\<lambda>c. if doomed s e c then [] else if c = d then remove_index (kids s d) i else kids s c)"

lemma remove_index_set: "distinct xs \<Longrightarrow> i < length xs \<Longrightarrow> set (remove_index xs i) = set xs - {xs ! i}"
proof -
  assume "distinct xs" "i < length xs"
  then have "distinct (xs ! i # remove_index xs i)" "set (xs ! i # remove_index xs i) = set xs"
    using mset_remove_index[of i xs] by (metis mset.simps(2) mset_eq_imp_distinct_iff, metis mset.simps(2) set_mset_mset)
  then show ?thesis by auto
qed

lemma distinct_remove_index: "distinct xs \<Longrightarrow> distinct (remove_index xs i)"
  by (simp add: remove_index_def) (metis Int_iff set_take_disj_set_drop_if_distinct le_add2 plus_1_eq_Suc)

text \<open>A subtree has the children of its rows, and, but for its top, their parents; the root is in none.\<close>

lemma doomed_child: "wf s \<Longrightarrow> doomed s e c \<Longrightarrow> c' \<in> set (kids s c) \<Longrightarrow> doomed s e c'"
proof (induction "c - e" arbitrary: e rule: less_induct)
  case less
  have "c = e \<or> below s e c" using less.prems(2) by (simp add: doomed_def)
  then show ?case
  proof
    assume "c = e"
    with less.prems(3) show ?thesis by (auto simp: doomed_def below_unfold[of s e c'])
  next
    assume "below s e c"
    then obtain m where m: "m \<in> set (kids s e)" "m = c \<or> below s m c" by (auto simp: below_unfold[of s e c])
    have "e < m" "m \<le> c" using kids_less[OF less.prems(1) m(1)] m(2) below_less[OF less.prems(1), of m c] by auto
    then have "doomed s m c'" using less.hyps[of m] m(2) less.prems by (auto simp: doomed_def)
    then show ?thesis using m(1) by (auto simp: doomed_unfold[of s e c'])
  qed
qed

lemma doomed_parent: "wf s \<Longrightarrow> doomed s e c' \<Longrightarrow> c' \<noteq> e \<Longrightarrow> child_of s c' c \<Longrightarrow> doomed s e c"
proof -
  assume wf: "wf s" and "doomed s e c'" "c' \<noteq> e" and c: "child_of s c' c"
  then obtain p i' where "node_at s e (p @ [i']) = Some c'"
    by (auto simp: doomed_def below_def) (metis rev_exhaust)
  then obtain m where m: "node_at s e p = Some m" "nth_int (kids s m) i' = Some c'"
    by (auto simp: node_at_snoc bind_eq_Some_conv)
  have "child_of s c' m" using kids_parent[OF wf nth_int_in_set[OF m(2)]] by (simp add: child_of_def)
  then have "m = c" using c by (auto simp: child_of_def)
  with m(1) show ?thesis by (cases "p = []") (auto simp: doomed_def below_def)
qed

lemma root_not_doomed: "wf s \<Longrightarrow> e \<in> set (kids s d) \<Longrightarrow> \<not> doomed s e (root s)"
proof
  assume wf: "wf s" and ek: "e \<in> set (kids s d)" and "doomed s e (root s)"
  moreover obtain p where "node_at s (root s) p = Some e" "p \<noteq> []"
    using node_at_exists[OF wf] kids_parent[OF wf ek] kids_neq_root[OF wf ek] by (metis node_at.simps(1) option.inject)
  ultimately show False
    using doomed_path[OF wf, of e "root s" p] node_at_inject[OF wf, of _ "root s" "[]"] by fastforce
qed

text \<open>The store without the subtree of row \<open>e\<close>, the child at \<open>i\<close> of \<open>d\<close>, whose children are in the array \<open>a\<close>.\<close>

definition prune :: "store \<Rightarrow> addr \<Rightarrow> addr \<Rightarrow> addr \<Rightarrow> nat \<Rightarrow> store" where
  "prune s d a e i = set_array a (remove_index (kids s d) i) (cut (doomed s e) (doomed_arr s e) s)"

lemma prune_sel [simp]:
  "elems (prune s d a e i) c = (if doomed s e c then None else elems s c)"
  "arrays (prune s d a e i) b = (if b = a then Some (remove_index (kids s d) i) else if doomed_arr s e b then None else arrays s b)"
  "root (prune s d a e i) = root s" "roar (prune s d a e i) = roar s" "stamp (prune s d a e i) = stamp s"
  "next_addr (prune s d a e i) = next_addr s" "n_columns (prune s d a e i) = n_columns s" "headers (prune s d a e i) = headers s"
  by (simp_all add: prune_def)

lemma owns_prune: "owns (prune s d a e i) c b \<longleftrightarrow> \<not> doomed s e c \<and> owns s c b"
  by (auto simp: owns_def)

lemma prune_spares:
  assumes "wf s" "owns s d a" "e \<in> set (kids s d)"
  shows "\<not> doomed s e d" "owns s c b \<Longrightarrow> \<not> doomed s e c \<Longrightarrow> \<not> doomed_arr s e b" "\<not> doomed_arr s e (roar s)" "a \<noteq> roar s"
proof -
  show "\<not> doomed s e d"
    using kids_less[OF assms(1,3)] below_less[OF assms(1), of e d] by (auto simp: doomed_def)
  show "owns s c b \<Longrightarrow> \<not> doomed s e c \<Longrightarrow> \<not> doomed_arr s e b"
    using wf_owner[OF assms(1)] by (auto simp: doomed_arr_def)
  show "\<not> doomed_arr s e (roar s)" "a \<noteq> roar s" using wf_owns[OF assms(1)] assms(2) by (auto simp: doomed_arr_def)
qed

lemma kids_prune:
  assumes wf: "wf s" and d: "owns s d a" and ek: "e \<in> set (kids s d)"
  shows "kids (prune s d a e i) = pruned s d e i"
proof
  fix c
  note spares = prune_spares[OF assms]
  obtain y where y: "elems s d = Some y" "ae_children y = Some a" using d by (auto simp: owns_def)
  consider "doomed s e c" | "\<not> doomed s e c" "c = d" | "\<not> doomed s e c" "c \<noteq> d" by blast
  then show "kids (prune s d a e i) c = pruned s d e i c"
  proof cases
    case 1
    then show ?thesis by (simp add: kids_def pruned_def)
  next
    case 2
    then show ?thesis using spares(1) y by (simp add: kids_def[of "prune s d a e i"] pruned_def)
  next
    case 3
    have "b \<noteq> a" "\<not> doomed_arr s e b" if "owns s c b" for b
      using that wf_owner[OF wf d] 3 spares(2)[OF that] by auto
    with 3 show ?thesis by (auto simp: kids_def pruned_def owns_def split: option.splits)
  qed
qed

lemma prune_array:
  assumes wf: "wf s" and d: "owns s d a" and i: "i < length (kids s d)" and e: "e = kids s d ! i"
    and o: "owns (prune s d a e i) c b"
  shows "\<exists>zs. arrays (prune s d a e i) b = Some zs \<and> distinct zs \<and> (\<forall>c'\<in>set zs. child_of (prune s d a e i) c' c)"
proof -
  have ek: "e \<in> set (kids s d)" using i e by simp
  have c: "\<not> doomed s e c" "owns s c b" using o by (auto simp: owns_prune)
  obtain zs where zs: "arrays s b = Some zs" "distinct zs" "\<forall>c'\<in>set zs. child_of s c' c"
    using wf_owns[OF wf c(2)] by blast
  have kc: "kids s c = zs" using c(2) zs by (auto simp: owns_def kids_def)
  have ch: "child_of (prune s d a e i) c' c" if "c' \<in> set zs" "c' \<noteq> e" for c'
    using zs(3) that doomed_parent[OF wf, of e c' c] c(1) by (auto simp: child_of_def)
  show ?thesis
  proof (cases "b = a")
    case True
    then have "c = d" using wf_owner[OF wf d] c(2) by blast
    then show ?thesis
      using True ch kc distinct_remove_index[OF kids_distinct[OF wf]] remove_index_set[OF kids_distinct[OF wf] i] e by auto
  next
    case False
    have "e \<notin> set zs"
    proof
      assume "e \<in> set zs"
      then have "c = d" using zs(3) kids_parent[OF wf ek] by (auto simp: child_of_def)
      with False d c(2) show False by (auto simp: owns_def)
    qed
    then show ?thesis using False zs ch prune_spares(2)[OF wf d ek c(2,1)] by auto
  qed
qed

lemma wf_prune:
  assumes wf: "wf s" and d: "owns s d a" and i: "i < length (kids s d)" and e: "e = kids s d ! i"
  shows "wf (prune s d a e i)"
proof -
  have ek: "e \<in> set (kids s d)" using i e by simp
  note spares = prune_spares[OF wf d ek] and kt = kids_prune[OF wf d ek, of i]
  let ?t = "prune s d a e i"
  show ?thesis
    unfolding wf_def
  proof (intro conjI allI impI)
    show "stamp ?t \<noteq> 0" "length (headers ?t) = n_columns ?t" using wfD(1,2)[OF wf] by auto
    show "\<exists>r. elems ?t (root ?t) = Some r \<and> ae_parent r = None" using wf_root[OF wf] root_not_doomed[OF wf ek] by simp
    show "arrays ?t (roar ?t) = Some [root ?t]" using wf_roar[OF wf] spares by simp
    show "c < next_addr ?t" if "elems ?t c = Some z" for c z
      using that wf_elem_bound[OF wf, of c z] by (auto split: if_splits)
    obtain xs where "arrays s a = Some xs" using wf_owns[OF wf d] by blast
    then show "b < next_addr ?t" if "arrays ?t b = Some zs" for b zs
      using that wf_array_bound[OF wf, of b zs] wf_array_bound[OF wf, of a xs] by (auto split: if_splits)
  next
    fix c z assume z: "elems ?t c = Some z" "c \<noteq> root ?t"
    then have c: "\<not> doomed s e c" "elems s c = Some z" "c \<noteq> root s" by (auto split: if_splits)
    then obtain p where p: "ae_parent z = Some p" "p < c" "c \<in> set (kids s p)" using wf_parent[OF wf c(2)] by blast
    show "length (ae_data z) = n_columns ?t" using wf_data[OF wf c(2,3)] by simp
    have "\<not> doomed s e p" using doomed_child[OF wf _ p(3)] c(1) by blast
    moreover have "c \<noteq> e" using c(1) by (auto simp: doomed_def)
    ultimately have "c \<in> set (kids ?t p)"
      using p(3) remove_index_set[OF kids_distinct[OF wf] i, folded e] unfolding kt pruned_def by (cases "p = d") simp_all
    with p show "\<exists>p. ae_parent z = Some p \<and> p < c \<and> c \<in> set (kids ?t p)" by blast
  next
    fix c b assume o: "owns ?t c b"
    then show "b \<noteq> roar ?t" using wf_owns[OF wf] by (auto simp: owns_prune)
    show "\<exists>zs. arrays ?t b = Some zs \<and> distinct zs \<and> (\<forall>c'\<in>set zs. child_of ?t c' c)" by (rule prune_array[OF wf d i e o])
  next
    fix c c' b assume "owns ?t c b" "owns ?t c' b"
    then show "c = c'" using wf_owner[OF wf] by (auto simp: owns_prune)
  qed
qed

lemma wf_discard:
  assumes wf: "wf s" and y: "elems s d = Some y" "ae_children y = Some a" and e: "kids s d = []"
  shows "wf (set_elem d (y\<lparr>ae_children := None\<rparr>) (s\<lparr>arrays := (arrays s)(a := None)\<rparr>))" (is "wf ?t")
    and "kids (set_elem d (y\<lparr>ae_children := None\<rparr>) (s\<lparr>arrays := (arrays s)(a := None)\<rparr>)) = kids s"
proof -
  have o: "owns ?t c b \<longleftrightarrow> c \<noteq> d \<and> owns s c b" for c b by (auto simp: owns_def set_elem_def)
  have da: "owns s d a" using y by (simp add: owns_def)
  have other: "b \<noteq> a" if "owns s c b" "c \<noteq> d" for c b using wf_owner[OF wf da] that by blast
  have ch: "child_of ?t = child_of s" using y by (intro ext) (auto simp: child_of_def set_elem_def)
  show k: "kids ?t = kids s"
  proof
    fix c show "kids ?t c = kids s c"
    proof (cases "c = d")
      case True
      then have "elems ?t c = Some (y\<lparr>ae_children := None\<rparr>)" by (simp add: set_elem_def)
      then have "kids ?t c = []" by (simp add: kids_def)
      with e True show ?thesis by simp
    next
      case False
      then have "b \<noteq> a" if "owns s c b" for b using other that by blast
      then show ?thesis using False by (auto simp: kids_def set_elem_def owns_def split: option.splits)
    qed
  qed
  have roar_a: "a \<noteq> roar s" using wf_owns[OF wf da] by blast
  obtain r where r: "elems s (root s) = Some r" "ae_parent r = None" using wf_root[OF wf] by blast
  show "wf ?t"
    unfolding wf_def k ch
  proof (intro conjI allI impI)
    show "\<exists>r. elems ?t (root ?t) = Some r \<and> ae_parent r = None"
      using r y by (cases "d = root s") (auto simp: set_elem_def)
    show "c < next_addr ?t" if "elems ?t c = Some z" for c z
      using that wf_elem_bound[OF wf, of c] y by (auto simp: set_elem_def split: if_splits)
    show "b < next_addr ?t" if "arrays ?t b = Some zs" for b zs
      using that wf_array_bound[OF wf, of b] by (auto simp: set_elem_def split: if_splits)
    fix c z assume z: "elems ?t c = Some z" "c \<noteq> root ?t"
    then obtain z' where "elems s c = Some z'" "ae_parent z' = ae_parent z" "ae_data z' = ae_data z" "c \<noteq> root s"
      using y by (auto simp: set_elem_def split: if_splits)
    then show "length (ae_data z) = n_columns ?t" "\<exists>p. ae_parent z = Some p \<and> p < c \<and> c \<in> set (kids s p)"
      using wf_data[OF wf, of c z'] wf_parent[OF wf, of c z'] by (auto simp: set_elem_def)
  next
    fix c b assume "owns ?t c b"
    then have c: "c \<noteq> d" "owns s c b" using o by auto
    then show "b \<noteq> roar ?t" "\<exists>zs. arrays ?t b = Some zs \<and> distinct zs \<and> (\<forall>c'\<in>set zs. child_of s c' c)"
      using wf_owns[OF wf c(2)] other[OF c(2,1)] by (auto simp: set_elem_def)
  next
    show "c = c'" if "owns ?t c b" "owns ?t c' b" for c c' b using that o wf_owner[OF wf] by blast
  qed (use wfD(1,2)[OF wf] wf_roar[OF wf] roar_a in \<open>simp_all add: set_elem_def\<close>)
qed

text \<open>
  Removing a row. The tree loses the subtree; the iterator stays on the same index, now the next
  row, or becomes invalid when the row was the last one.
\<close>

lemma points_to_pruned:
  assumes wf: "wf s" "points_to s it (q @ [i])" "node_at s (root s) q = Some d" "it_array it = Some a"
    and d: "owns s d a" and t: "wf t" "kids t = pruned s d (kids s d ! nat i) (nat i)"
      "stamp t = stamp s" "root t = root s" "owns t d a" and i: "i < int (length (kids s d)) - 1"
  shows "points_to t it (q @ [i])"
proof -
  let ?e = "kids s d ! nat i"
  obtain a' e y where e': "it = mk_iter s a' i" "elems s d = Some y" "ae_children y = Some a'"
    "nth_int (kids s d) i = Some e"
    using wf(1,2) by (rule points_toE) (use wf(3) in auto)
  then have e: "nth_int (kids s d) i = Some e" "it_stamp it = stamp s" "it_index it = i" by simp_all
  have ek: "?e \<in> set (kids s d)" using e(1) nth_int_in_set by (auto simp: nth_int_Some)
  have path: "node_at t b p = Some d" if "node_at s b p = Some d" for b p
    using that
  proof (induction p arbitrary: b)
    case (Cons j p)
    then obtain c where c: "nth_int (kids s b) j = Some c" "node_at s c p = Some d" by (auto simp: bind_eq_Some_conv)
    have "b < c" by (rule kids_less[OF wf(1) nth_int_in_set[OF c(1)]])
    moreover have "c \<le> d"
    proof (cases "p = []")
      case False
      with c(2) have "below s c d" by (auto simp: below_def)
      then show ?thesis using below_less[OF wf(1)] by (simp add: order_less_imp_le)
    qed (use c(2) in simp)
    ultimately have cd: "b < d" by simp
    have "\<not> doomed s ?e b"
      using cd kids_less[OF wf(1) ek] below_less[OF wf(1), of ?e b] by (auto simp: doomed_def)
    then show ?case using c cd Cons.IH[OF c(2)] t(2) by (simp add: pruned_def)
  qed simp
  have "\<not> doomed s ?e d" using kids_less[OF wf(1) ek] below_less[OF wf(1), of ?e d] by (auto simp: doomed_def)
  then have "kids t d = remove_index (kids s d) (nat i)" using t(2) by (simp add: pruned_def)
  moreover have "nat i < length (kids s d)" "0 \<le> i" using e(1) by (auto simp: nth_int_Some)
  ultimately show ?thesis
    using path[OF wf(3)] e i t wf(4) by (auto simp: points_to_def)
qed

definition removed :: "store \<Rightarrow> addr \<Rightarrow> nat \<Rightarrow> store \<Rightarrow> bool" where
  "removed s d i t \<longleftrightarrow> wf t \<and> kids t = pruned s d (kids s d ! i) i \<and> same_settings s t \<and>
     next_addr t = next_addr s \<and>
     (\<forall>c. elems t c = None \<longleftrightarrow> elems s c = None \<or> doomed s (kids s d ! i) c) \<and>
     (\<forall>c. \<not> doomed s (kids s d ! i) c \<longrightarrow> row t c = row s c) \<and>
     (\<forall>c. \<not> doomed s (kids s d ! i) c \<longrightarrow> c \<noteq> d \<or> kids t d \<noteq> [] \<longrightarrow> elems t c = elems s c)"

lemma remove_last_child:
  assumes "VALID_ITER it s" "it_array it = Some a" "it_index it = 0" "arrays s a = Some xs"
    "nth_int xs 0 = Some e" "elems s e = Some x" "ae_parent x = Some d"
    "scp_tree_store_get_path s it = Some (Some (q @ [0]))"
    "scp_free_element (next_addr s) e s = Some c0" "arrays c0 a = Some xs" "remove_index xs 0 = []"
    "t = emit (Row_Deleted (Some (q @ [0]))) (set_array a [] c0)" "elems t d = Some y" "d \<noteq> root t"
    "u = (if sublevel_discard t
      then set_elem d (y\<lparr>ae_children := None\<rparr>) (t\<lparr>arrays := (arrays t)(a := None)\<rparr>) else t)"
    "ae_parent y = Some g" "children_of g u = Some c" "q \<noteq> []"
  shows "scp_tree_store_remove s it =
    Some (emit (Row_Has_Child_Toggled (Some q) (it\<lparr>it_array := c, it_index := last q\<rparr>)) u,
      it\<lparr>it_array := c, it_index := last q, it_stamp := 0\<rparr>, False)"
proof -
  have t: "emit (Row_Deleted (Some (q @ [0]))) (set_array a (remove_index xs 0) c0) = t"
    "emit (Row_Deleted (Some (q @ [0]))) (set_array a [] c0) = t" using assms by simp_all
  show ?thesis
    unfolding scp_tree_store_remove_def
    using assms(1-11,13,14,16-18)
    by (simp add: t Let_def assms(15)[symmetric] cong: if_cong del: emit_sel set_array_sel split del: if_split)
qed

lemma removed_prune:
  assumes wf: "wf s" and oa: "owns s d a" and ni: "i < length (kids s d)" and e: "e = kids s d ! i"
    and u: "wf u" "kids u = kids (prune s d a e i)" "same_settings (prune s d a e i) u" "next_addr u = next_addr s"
    "\<And>c. elems u c = None \<longleftrightarrow> elems (prune s d a e i) c = None" "\<And>c. row u c = row (prune s d a e i) c"
    "\<And>c. c \<noteq> d \<or> kids u d \<noteq> [] \<Longrightarrow> elems u c = elems (prune s d a e i) c"
  shows "removed s d i u"
proof -
  have ek: "e \<in> set (kids s d)" using ni e by simp
  note spares = prune_spares(1)[OF wf oa ek] and kt = kids_prune[OF wf oa ek, of i]
  show ?thesis
    unfolding removed_def
  proof (intro conjI allI impI)
    show "same_settings s u" using u(3) by (auto simp: prune_def same_settings_def cut_def set_array_def)
    show "row u c = row s c" if "\<not> doomed s (kids s d ! i) c" for c
      using that u(6) by (simp add: row_def e)
  qed (use u kt e spares in auto)
qed

text \<open>What a call of \<open>scp_tree_store_remove\<close> starts from.\<close>

lemma remove_start:
  assumes wf: "wf s" and it: "points_to s it (q @ [i])" and d: "node_at s (root s) q = Some d"
  obtains a e x y where "it = mk_iter s a i" "elems s d = Some y" "ae_children y = Some a" "arrays s a = Some (kids s d)"
    "nth_int (kids s d) i = Some e" "elems s e = Some x" "ae_parent x = Some d" "0 \<le> i" "nat i < length (kids s d)" "e = kids s d ! nat i"
    "owns s d a" "scp_free_element (next_addr s) e s = Some (cut (doomed s e) (doomed_arr s e) s)"
    "arrays (cut (doomed s e) (doomed_arr s e) s) a = Some (kids s d)" "scp_tree_store_get_path s it = Some (Some (q @ [i]))"
    "\<not> doomed s e d" "wf (prune s d a e (nat i))" "kids (prune s d a e (nat i)) = pruned s d e (nat i)"
proof -
  obtain a e x y where *: "it = mk_iter s a i" "elems s d = Some y" "ae_children y = Some a"
    "arrays s a = Some (kids s d)" "nth_int (kids s d) i = Some e" "elems s e = Some x" "ae_parent x = Some d"
    using wf it by (rule points_toE) (use d in auto)
  have i: "0 \<le> i" "nat i < length (kids s d)" and e: "e = kids s d ! nat i" using *(5) by (auto simp: nth_int_Some)
  have ek: "e \<in> set (kids s d)" using i e by simp
  have oa: "owns s d a" using * by (simp add: owns_def)
  have free: "scp_free_element (next_addr s) e s = Some (cut (doomed s e) (doomed_arr s e) s)" by (rule free_element_spec[OF wf *(6)]) auto
  have "\<not> doomed_arr s e a" using prune_spares(2)[OF wf oa ek oa] prune_spares(1)[OF wf oa ek] by blast
  then have ca: "arrays (cut (doomed s e) (doomed_arr s e) s) a = Some (kids s d)" using * by simp
  show ?thesis
    by (rule that[OF * i e oa free ca get_path_points_to[OF wf it] prune_spares(1)[OF wf oa ek] wf_prune[OF wf oa i(2) e] kids_prune[OF wf oa ek]])
qed

text \<open>The row is not the only one of its level, or the level is the outermost one: the level stays.\<close>

lemma remove_keeps_level:
  assumes wf: "wf s" and it: "points_to s it (q @ [i])" and d: "node_at s (root s) q = Some d" and level: "length (kids s d) \<noteq> 1 \<or> q = []"
  shows "\<exists>t it'. scp_tree_store_remove s it = Some (t, it', i < int (length (kids s d)) - 1) \<and> removed s d (nat i) t \<and>
    (if i < int (length (kids s d)) - 1 then points_to t it' (q @ [i]) else it_stamp it' = 0) \<and>
    signals t = signals s @ [Row_Deleted (Some (q @ [i]))]"
  using wf it d
proof (rule remove_start)
  fix a e x y
  let ?ks = "kids s d"
  assume *: "it = mk_iter s a i" "elems s d = Some y" "ae_children y = Some a" "arrays s a = Some ?ks"
    "nth_int ?ks i = Some e" "elems s e = Some x" "ae_parent x = Some d" and i: "0 \<le> i" "nat i < length ?ks" and e: "e = ?ks ! nat i"
    and oa: "owns s d a" and free: "scp_free_element (next_addr s) e s = Some (cut (doomed s e) (doomed_arr s e) s)"
    and ca: "arrays (cut (doomed s e) (doomed_arr s e) s) a = Some ?ks" and path: "scp_tree_store_get_path s it = Some (Some (q @ [i]))"
    and dd: "\<not> doomed s e d" and w1: "wf (prune s d a e (nat i))" "kids (prune s d a e (nat i)) = pruned s d e (nat i)"
  let ?t1 = "prune s d a e (nat i)" and ?t = "emit (Row_Deleted (Some (q @ [i]))) (prune s d a e (nat i))"
  have same: "same_tree ?t1 ?t" by simp
  have t: "wf ?t" "kids ?t = pruned s d e (nat i)" using same_tree_simps(1,5)[OF same] w1 by auto
  have rem: "removed s d (nat i) ?t"
    by (rule removed_prune[OF wf oa i(2) e]) (use t w1 in \<open>simp_all add: row_def same_settings_def emit_def\<close>)
  have sig: "signals ?t = signals s @ [Row_Deleted (Some (q @ [i]))]" by (simp add: prune_def)
  have len: "length (remove_index ?ks (nat i)) = length ?ks - 1" using i by (simp add: remove_index_def)
  have valid: "VALID_ITER it s" "it_array it = Some a" "it_index it = i" using * by simp_all
  have dr: "d = root s \<longleftrightarrow> q = []"
    using d node_at_inject[OF wf, of q "root s" "[]"] by (auto dest: node_at_inject[OF wf])
  show ?thesis
  proof (cases "i < int (length ?ks) - 1")
    case True
    then have ne: "i \<noteq> int (length ?ks - Suc 0)" using i by simp
    have "scp_tree_store_remove s it = Some (?t, it, True)"
      using valid *(4-7) path free ca len ne by (simp add: scp_tree_store_remove_def prune_def Let_def)
    moreover have "points_to ?t it (q @ [i])"
      by (rule points_to_pruned[OF wf it d valid(2) oa]) (use True t e dd oa in \<open>auto simp: owns_def prune_def\<close>)
    ultimately show ?thesis using True rem sig by auto
  next
    case False
    then have "remove_index ?ks (nat i) \<noteq> [] \<or> d = root s" using dr len i level by (cases "remove_index ?ks (nat i) = []") auto
    then have skip: "(remove_index ?ks (nat i) = [] \<and> d \<noteq> root s) = False" by blast
    have "i = int (length ?ks - Suc 0)" using False i by linarith
    then have eq: "(i \<noteq> int (length ?ks - Suc 0)) = False" by blast
    have "scp_tree_store_remove s it = Some (?t, it\<lparr>it_stamp := 0\<rparr>, False)"
      using valid *(4-7) path free ca len unfolding scp_tree_store_remove_def prune_def
      by (simp add: Let_def eq skip)
    then show ?thesis using False rem sig by auto
  qed
qed

text \<open>The only child of a row: the parent loses its children, and perhaps their array.\<close>

lemma remove_only_child:
  assumes wf: "wf s" and it: "points_to s it (q @ [i])" and d: "node_at s (root s) q = Some d" and level: "length (kids s d) = 1" "q \<noteq> []"
  shows "\<exists>t it' it''. scp_tree_store_remove s it = Some (t, it', False) \<and> removed s d (nat i) t \<and> it_stamp it' = 0 \<and>
    signals t = signals s @ [Row_Deleted (Some (q @ [i])), Row_Has_Child_Toggled (Some q) it'']"
  using wf it d
proof (rule remove_start)
  fix a e x y
  let ?ks = "kids s d" and ?c = "cut (doomed s e) (doomed_arr s e) s"
  assume *: "it = mk_iter s a i" "elems s d = Some y" "ae_children y = Some a" "arrays s a = Some ?ks"
    "nth_int ?ks i = Some e" "elems s e = Some x" "ae_parent x = Some d" and i: "0 \<le> i" "nat i < length ?ks" and e: "e = ?ks ! nat i"
    and oa: "owns s d a" and free: "scp_free_element (next_addr s) e s = Some ?c"
    and ca: "arrays ?c a = Some ?ks" and path: "scp_tree_store_get_path s it = Some (Some (q @ [i]))"
    and dd: "\<not> doomed s e d" and w1: "wf (prune s d a e (nat i))" "kids (prune s d a e (nat i)) = pruned s d e (nat i)"
  have i0: "i = 0" using i level by simp
  let ?t1 = "prune s d a e (nat i)" and ?t2 = "emit (Row_Deleted (Some (q @ [0]))) (set_array a [] ?c)"
  have nil: "remove_index ?ks (nat i) = []" using level i by (simp add: remove_index_def)
  have t2: "?t2 = emit (Row_Deleted (Some (q @ [i]))) ?t1" using nil i0 by (simp add: prune_def)
  have same: "same_tree ?t1 ?t2" by (simp add: t2)
  have w2: "wf ?t2" "kids ?t2 = pruned s d e (nat i)" using same_tree_simps(1,5)[OF same] w1 by auto
  have valid: "VALID_ITER it s" "it_array it = Some a" "it_index it = 0" using * i0 by simp_all
  have dr: "d \<noteq> root s" using d node_at_inject[OF wf, of q "root s" "[]"] level(2) by (auto dest: node_at_inject[OF wf])
  have y2: "elems ?t2 d = Some y" using * dd by simp
  let ?u = "if sublevel_discard ?t2 then set_elem d (y\<lparr>ae_children := None\<rparr>) (?t2\<lparr>arrays := (arrays ?t2)(a := None)\<rparr>) else ?t2"
  have kd: "kids ?t2 d = []" using w2(2) dd nil by (simp add: pruned_def)
  have u: "wf ?u" "kids ?u = kids ?t2" using wf_discard[OF w2(1) y2 *(3) kd] w2(1) by auto
  have root: "d \<noteq> root ?t2" using dr by simp
  obtain g where g: "ae_parent y = Some g" "d \<in> set (kids ?u g)"
    using wf_parent[OF w2(1) y2 root] u(2) by auto
  obtain c where c: "children_of g ?u = Some c" using g(2) by (rule kidsE) (auto simp: children_of_def)
  let ?it = "it\<lparr>it_array := c, it_index := last q\<rparr>"
  let ?v = "emit (Row_Has_Child_Toggled (Some q) ?it) ?u"
  have "scp_tree_store_remove s it = Some (?v, ?it\<lparr>it_stamp := 0\<rparr>, False)"
    by (rule remove_last_child[OF valid *(4) *(5)[unfolded i0] *(6,7) path[unfolded i0] free ca nil[unfolded i0 nat_zero_as_int[symmetric], simplified] refl y2 root refl g(1) c level(2)])
  moreover have "removed s d (nat i) ?v"
  proof (rule removed_prune[OF wf oa i(2) e])
    have same: "same_tree ?u ?v" by simp
    show "wf ?v" "kids ?v = kids ?t1" using same_tree_simps(1,5)[OF same] u w2 w1 by auto
    show "same_settings ?t1 ?v" by (simp add: prune_def nil same_settings_def emit_def set_elem_def)
    show "next_addr ?v = next_addr s" by (simp add: set_elem_def emit_def)
    show "elems ?v c' = None \<longleftrightarrow> elems ?t1 c' = None" "row ?v c' = row ?t1 c'" for c'
      using *(2) dd by (simp_all add: row_def set_elem_def)
    show "elems ?v c' = elems ?t1 c'" if "c' \<noteq> d \<or> kids ?v d \<noteq> []" for c'
      using that kd u(2) same_tree_simps(1)[OF same] by (auto simp: set_elem_def)
  qed
  ultimately show ?thesis using i0 by (intro exI[of _ ?v] exI[of _ "?it\<lparr>it_stamp := 0\<rparr>"] exI[of _ ?it]) (auto simp: set_elem_def)
qed

lemma remove_spec:
  assumes wf: "wf s" and it: "points_to s it (q @ [i])" and d: "node_at s (root s) q = Some d"
  shows "\<exists>t it'. scp_tree_store_remove s it = Some (t, it', i < int (length (kids s d)) - 1) \<and>
    removed s d (nat i) t \<and>
    (if i < int (length (kids s d)) - 1 then points_to t it' (q @ [i]) else it_stamp it' = 0) \<and>
    (\<exists>it''. signals t = signals s @ Row_Deleted (Some (q @ [i])) #
      (if length (kids s d) = 1 \<and> q \<noteq> [] then [Row_Has_Child_Toggled (Some q) it''] else []))"
proof (cases "length (kids s d) = 1 \<and> q \<noteq> []")
  case True
  obtain a where "nth_int (kids s d) i = Some a" using wf it d by (rule remove_start)
  then have "\<not> i < int (length (kids s d)) - 1" using True by (auto simp: nth_int_Some)
  then show ?thesis using remove_only_child[OF wf it d] True by fastforce
next
  case False
  then show ?thesis using remove_keeps_level[OF wf it d] by fastforce
qed

text \<open>
  C6: \<open>scp_tree_store_remove\<close> frees exactly the row and everything below it, takes it out of its
  level and leaves all other rows as they are. It returns \<open>TRUE\<close> with the iterator on the next row, or
  \<open>FALSE\<close> with an invalid iterator after the last one. \<open>row-deleted\<close> is emitted, and
  \<open>row-has-child-toggled\<close> for the parent when the last child of a row is gone. The tree stays well
  formed.
\<close>

theorem scp_tree_store_remove_correct:
  assumes "wf s" and "points_to s it (q @ [i])" and "node_at s (root s) q = Some d"
  shows "\<exists>t it'. scp_tree_store_remove s it = Some (t, it', i < int (length (kids s d)) - 1) \<and>
    removed s d (nat i) t \<and>
    (if i < int (length (kids s d)) - 1 then points_to t it' (q @ [i]) else it_stamp it' = 0) \<and>
    (\<exists>it''. signals t = signals s @ Row_Deleted (Some (q @ [i])) #
      (if length (kids s d) = 1 \<and> q \<noteq> [] then [Row_Has_Child_Toggled (Some q) it''] else []))"
  by (rule remove_spec[OF assms])

theorem scp_tree_store_remove_correct_witness:
  "\<exists>t it. scp_tree_store_remove demo (demo_iter 1) = Some (t, it, True) \<and> wf t \<and>
    kids t 0 = [3, 5] \<and> points_to t it [1] \<and> elems t 4 = None \<and> elems t 7 = None"
proof -
  have "node_at demo 4 [0] = Some 7" by (simp add: demo_kids nth_int_def)
  then have "doomed demo 4 7" unfolding doomed_def below_def by (intro disjI2 exI[of _ "[0]"] conjI) auto
  moreover have "\<not> doomed demo 4 0" using below_less[OF demo_wf, of 4 0] by (auto simp: doomed_def)
  moreover have "doomed demo 4 4" by (simp add: doomed_def)
  ultimately show ?thesis
    using scp_tree_store_remove_correct[OF demo_wf, of "demo_iter 1" "[]" 1 0] demo_points_to(1)[of 1]
    by (auto simp: removed_def demo_kids pruned_def remove_index_def)
qed

end
