(* ===== verification/ScpCells.thy ===== *)
theory ScpCells
  imports ScpRemove
begin

text \<open>
  New stores are well formed, and so is a store after cells of a row have been set; the row moves to
  where it belongs when the store is sorted.
\<close>

subsection \<open>New stores\<close>

lemma constructor_wf: "scp_tree_store_constructor randoms sub = Some s \<Longrightarrow> wf s \<and> kids s = (\<lambda>_. []) \<and> sort_func s = None"
proof -
  assume "scp_tree_store_constructor randoms sub = Some s"
  then obtain w where w: "List.find (\<lambda>w. w \<noteq> 0) randoms = Some w" "stamp s = w" "root s = 0" "roar s = 1" "n_columns s = 0"
    "headers s = []" "elems s = [0 \<mapsto> \<lparr>ae_parent = None, ae_children = None, ae_data = [V_zero]\<rparr>]"
    "arrays s = [1 \<mapsto> [0]]" "next_addr s = 2" "sort_func s = None"
    by (auto simp: scp_tree_store_constructor_def bind_eq_Some_conv)
  have "w \<noteq> 0" using w(1) by (auto simp: find_Some_iff)
  moreover have "kids s = (\<lambda>_. [])" using w by (auto simp: kids_def)
  moreover have "\<not> owns s e a" for e a using w by (auto simp: owns_def split: if_splits)
  ultimately show ?thesis using w by (auto simp: wf_def split: if_splits)
qed

lemma headers_free_settings [simp]: "same_tree s (scp_tree_data_headers_free s)"
proof -
  have "same_tree s (fold (\<lambda>h s. if hdr_destroy h then emit (Destroy_Notify (hdr_data h)) s else s) hs s)" for hs
    by (induction hs arbitrary: s) (simp_all, blast intro: same_tree_trans[OF same_tree_emit])
  then show ?thesis by (simp add: scp_tree_data_headers_free_def)
qed

lemma headers_free_sort [simp]: "sort_func (scp_tree_data_headers_free s) = sort_func s"
proof -
  have "sort_func (fold (\<lambda>h s. if hdr_destroy h then emit (Destroy_Notify (hdr_data h)) s else s) hs s) = sort_func s" for hs
    by (induction hs arbitrary: s) (auto simp: emit_def)
  then show ?thesis by (simp add: scp_tree_data_headers_free_def)
qed

text \<open>Setting the types of the columns is safe as long as there are no rows.\<close>

lemma set_column_types_wf:
  assumes "wf s" "\<And>e. elems s e \<noteq> None \<Longrightarrow> e = root s"
  shows "wf (fst (scp_tree_store_set_column_types s types))"
proof (cases "columns_dirty s")
  case False
  let ?t = "(scp_tree_data_headers_free s)\<lparr>headers := scp_tree_data_headers_new types, default_header := zero_header, n_columns := length types\<rparr>"
  have *: "same_tree s (scp_tree_data_headers_free s)" by simp
  have eq: "elems ?t = elems s" "arrays ?t = arrays s" "root ?t = root s" "roar ?t = roar s" "stamp ?t = stamp s"
    "next_addr ?t = next_addr s" "n_columns ?t = length types" "length (headers ?t) = length types"
    using * by (simp_all add: same_tree_def scp_tree_data_headers_new_def enumerate_eq_zip)
  have k: "kids ?t = kids s" "owns ?t = owns s" "child_of ?t = child_of s"
    by (rule kids_same[OF eq(1,2)] owns_same[OF eq(1)] child_of_same[OF eq(1)])+
  have "e = root s" if "elems s e = Some x" for e x using assms(2)[of e] that by simp
  then have "wf ?t"
    using assms(1) unfolding wf_def eq k by blast
  with False show ?thesis by (simp add: scp_tree_store_set_column_types_def)
qed (simp add: scp_tree_store_set_column_types_def assms)

lemma newv_wf: "scp_tree_store_newv randoms sub types = Some (Some s) \<Longrightarrow> wf s \<and> kids s = (\<lambda>_. []) \<and> sort_func s = None"
proof -
  assume a: "scp_tree_store_newv randoms sub types = Some (Some s)"
  then obtain u where u: "scp_tree_store_constructor randoms sub = Some u" "fst (scp_tree_store_set_column_types u types) = s"
    by (cases "scp_tree_store_constructor randoms sub") (auto simp: scp_tree_store_newv_def Let_def split_beta split: if_splits)
  note c = constructor_wf[OF u(1)]
  have "e = root u" if "elems u e \<noteq> None" for e
    using u(1) that by (auto simp: scp_tree_store_constructor_def bind_eq_Some_conv split: if_splits)
  then have "wf s" using set_column_types_wf[of u types] c u(2) by auto
  moreover have "kids s = kids u" "sort_func s = sort_func u"
    using u(2) headers_free_settings[of u]
    by (auto simp: scp_tree_store_set_column_types_def same_tree_def intro!: kids_same split: if_splits)
  ultimately show ?thesis using c by simp
qed

subsection \<open>Setting cells\<close>

lemma wf_set_row:
  assumes "wf s" "elems s e = Some x" "length r = n_columns s"
  shows "wf (set_row e r s)" "kids (set_row e r s) = kids s" "owns (set_row e r s) = owns s" "child_of (set_row e r s) = child_of s"
proof -
  let ?t = "set_row e r s"
  have el: "elems ?t = (elems s)(e \<mapsto> x\<lparr>ae_data := r\<rparr>)" by (rule elems_set_row[OF assms(2)])
  show k: "kids ?t = kids s" using assms(2) by (intro ext) (simp add: kids_def el split: option.splits)
  show o: "owns ?t = owns s" using assms(2) by (intro ext) (auto simp: owns_def el)
  show c: "child_of ?t = child_of s" using assms(2) by (intro ext) (auto simp: child_of_def el)
  show "wf ?t"
    unfolding wf_def k o c
  proof (intro conjI allI impI)
    show "stamp ?t \<noteq> 0" "length (headers ?t) = n_columns ?t" "arrays ?t (roar ?t) = Some [root ?t]"
      using wfD[OF assms(1)] by simp_all
    show "\<exists>y. elems ?t (root ?t) = Some y \<and> ae_parent y = None"
      using wf_root[OF assms(1)] assms(2) by (auto simp: el)
    show "c < next_addr ?t" if "elems ?t c = Some y" for c y
      using that wf_elem_bound[OF assms(1)] assms(2) by (auto simp: el split: if_splits)
    show "a < next_addr ?t" if "arrays ?t a = Some xs" for a xs
      using that wf_array_bound[OF assms(1)] by simp
    show "length (ae_data y) = n_columns ?t" if "elems ?t c = Some y" "c \<noteq> root ?t" for c y
      using that wf_data[OF assms(1)] assms(3) by (auto simp: el split: if_splits)
    show "\<exists>p. ae_parent y = Some p \<and> p < c \<and> c \<in> set (kids s p)" if "elems ?t c = Some y" "c \<noteq> root ?t" for c y
      using that wf_parent[OF assms(1)] assms(2) by (auto simp: el split: if_splits)
    show "a \<noteq> roar ?t" if "owns s c a" for c a using wf_owns[OF assms(1) that] by simp
    show "\<exists>xs. arrays ?t a = Some xs \<and> distinct xs \<and> (\<forall>b\<in>set xs. child_of s b c)" if "owns s c a" for c a
      using wf_owns[OF assms(1) that] by simp
    show "c = c'" if "owns s c a" "owns s c' a" for c c' a using wf_owner[OF assms(1) that] .
  qed
qed

lemma points_to_set_row:
  assumes "wf s" "elems s e = Some x" "length r = n_columns s"
  shows "points_to (set_row e r s) = points_to s" "node_at (set_row e r s) = node_at s"
  using wf_set_row[OF assms] node_at_same[of "set_row e r s" s] by (auto simp: points_to_def fun_eq_iff)

text \<open>
  What setting cells does: the row of \<open>e\<close> has the new cells and the others are unchanged, and the row
  may move to another index of its level.
\<close>

definition cells_set :: "store \<Rightarrow> addr \<Rightarrow> nat \<Rightarrow> row \<Rightarrow> nat \<Rightarrow> store \<Rightarrow> bool" where
  "cells_set s d i r j t \<longleftrightarrow> wf t \<and> same_settings s t \<and>
     kids t = (kids s)(d := insert_at j (kids s d ! i) (remove_index (kids s d) i)) \<and>
     (\<forall>c. row t c = (if c = kids s d ! i then r else row s c))"

definition valid_cells :: "store \<Rightarrow> (int \<times> gvalue) list \<Rightarrow> (int \<times> gvalue) list" where
  "valid_cells s = takeWhile (\<lambda>(c, v). 0 \<le> c \<and> c < int (n_columns s))"

lemma scp_set_value_settings: "scp_set_value G s e column v = Some (t, b) \<Longrightarrow> same_settings s t"
  by (auto simp: scp_set_value_def update_cell_def bind_eq_Some_conv split: if_splits option.splits)

lemma set_vector_loop_flag:
  "set_vector_loop G e cvs (s, ch, sc) = Some (t, c, so) \<Longrightarrow> so = (sc \<or> sort_column_id s \<in> fst ` set (valid_cells s cvs))"
proof (induction cvs arbitrary: s ch sc)
  case Nil
  then show ?case by (simp add: valid_cells_def)
next
  case (Cons cv cvs)
  obtain column v where cv: "cv = (column, v)" by fastforce
  show ?case
  proof (cases "0 \<le> column \<and> column < int (n_columns s)")
    case True
    then obtain u b where u: "scp_set_value G s e column v = Some (u, b)"
      "set_vector_loop G e cvs (u, ch \<or> b, sc \<or> column = sort_column_id u) = Some (t, c, so)"
      using Cons.prems cv by (auto simp: bind_eq_Some_conv)
    have "n_columns u = n_columns s" "sort_column_id u = sort_column_id s"
      using scp_set_value_settings[OF u(1)] by (auto simp: same_settings_def)
    with Cons.IH[OF u(2)] show ?thesis using cv True by (auto simp: valid_cells_def)
  next
    case False
    then show ?thesis using Cons.prems cv by (auto simp: valid_cells_def)
  qed
qed

text \<open>Setting the cells, before the row is moved.\<close>

lemma set_vector_spec:
  assumes "wf s" "elems s e = Some x" "e \<noteq> root s"
  shows "\<exists>c. scp_set_vector G s e False False cvs = Some (set_row e (put_cells G s cvs (row s e)) s, c,
    custom_sort s \<or> sort_column_id s \<in> fst ` set (valid_cells s cvs))"
proof -
  have "\<exists>c so. scp_set_vector G s e False False cvs = Some (set_row e (put_cells G s cvs (row s e)) s, c, so)"
    using set_vector_loop_row[OF wf_headers[OF assms(1)] assms(2) wf_data[OF assms]] assms(2)
    by (simp add: scp_set_vector_def row_def)
  then show ?thesis using set_vector_loop_flag by (fastforce simp: scp_set_vector_def)
qed

lemma row_length: "wf s \<Longrightarrow> elems s e = Some x \<Longrightarrow> e \<noteq> root s \<Longrightarrow> length (row s e) = n_columns s"
  using wf_data by (simp add: row_def)

lemma remove_insert_same: "i < length xs \<Longrightarrow> insert_at i (xs ! i) (remove_index xs i) = xs"
  by (simp add: insert_at_def remove_index_def min_def Cons_nth_drop_Suc)

text \<open>The signal for a changed row.\<close>

lemma set_values_signals_tail:
  assumes "wf t" "points_to t it p"
  shows "\<exists>u. (if changed then do { p \<leftarrow> scp_tree_store_get_path t it; Some (emit (Row_Changed p it) t, it) } else Some (t, it))
      = Some (u, it) \<and> same_tree t u \<and> same_settings t u \<and>
    signals u = signals t @ (if changed then [Row_Changed (Some p) it] else [])"
  using get_path_points_to[OF assms] by (auto simp: emit_def same_tree_def same_settings_def)

lemma row_not_root: "wf s \<Longrightarrow> node_at s (root s) q = Some d \<Longrightarrow> points_to s it (q @ [i]) \<Longrightarrow>
  \<exists>x. elems s (kids s d ! nat i) = Some x \<and> kids s d ! nat i \<noteq> root s \<and> ITER_ELEM it s = Some (kids s d ! nat i) \<and>
    VALID_ITER it s \<and> nat i < length (kids s d) \<and> 0 \<le> i \<and> nth_int (kids s d) i = Some (kids s d ! nat i)"
proof -
  assume a: "wf s" "node_at s (root s) q = Some d" "points_to s it (q @ [i])"
  obtain b e x where b: "it = mk_iter s b i" "arrays s b = Some (kids s d)" "nth_int (kids s d) i = Some e" "elems s e = Some x"
    using a(1,3) by (rule points_toE) (use a(2) in auto)
  then have i: "0 \<le> i" "nat i < length (kids s d)" "kids s d ! nat i = e" by (auto simp: nth_int_Some)
  have "e \<noteq> root s" using kids_neq_root[OF a(1) nth_int_in_set[OF b(3)]] .
  then show ?thesis using b i by (simp add: ITER_ELEM_mk_iter elem_at_def)
qed

lemma sorted_wrt_remove_index: "sorted_wrt P ys \<Longrightarrow> sorted_wrt P (remove_index ys i)"
proof -
  assume "sorted_wrt P ys"
  then have "sorted_wrt P (take i ys @ drop i ys)" by simp
  moreover have "drop (i + 1) ys = drop 1 (drop i ys)" by simp
  ultimately show ?thesis
    unfolding remove_index_def sorted_wrt_append by (cases "drop i ys") (auto simp del: drop_drop)
qed

lemma set_valuesv_sorted:
  assumes wf: "wf s" and it: "points_to s it (q @ [i])" and d: "node_at s (root s) q = Some d"
    and cmp: "store_compare G s = Some cmp" "comparator cmp D" "\<forall>c\<in>set (kids s d). row s c \<in> D"
      "put_cells G s cvs (row s (kids s d ! nat i)) \<in> D" "comparator.ascending cmp (map (row s) (kids s d))"
    and so: "custom_sort s \<or> sort_column_id s \<in> fst ` set (valid_cells s cvs)"
  shows "\<exists>t j. scp_tree_store_set_valuesv G s it cvs = Some (t, it\<lparr>it_index := j\<rparr>) \<and>
    points_to t (it\<lparr>it_index := j\<rparr>) (q @ [j]) \<and> 0 \<le> j \<and> j < int (length (kids s d)) \<and>
    cells_set s d (nat i) (put_cells G s cvs (row s (kids s d ! nat i))) (nat j) t \<and>
    comparator.ascending cmp (map (row t) (kids t d))"
proof -
  let ?e = "kids s d ! nat i" let ?r = "put_cells G s cvs (row s ?e)" let ?s = "set_row ?e ?r s"
  obtain x where x: "elems s ?e = Some x" "?e \<noteq> root s" "ITER_ELEM it s = Some ?e" "VALID_ITER it s" "nat i < length (kids s d)" "0 \<le> i"
    using row_not_root[OF wf d it] by blast
  have len: "length ?r = n_columns s" using row_length[OF wf x(1,2)] by simp
  note w = wf_set_row[OF wf x(1) len] points_to_set_row[OF wf x(1) len]
  obtain c where vec: "scp_set_vector G s ?e False False cvs = Some (?s, c, True)"
    using set_vector_spec[OF wf x(1,2), of G cvs] so by auto
  have it': "points_to ?s it (q @ [i])" "node_at ?s (root ?s) q = Some d" using it d w by simp_all
  have sc: "store_compare G ?s = Some cmp" using store_compare_same[of s ?s G] cmp(1) by simp
  have rows: "row ?s = (row s)(?e := ?r)" by (rule ext) (simp add: row_set_row[OF x(1)])
  have D: "\<forall>c\<in>set (kids ?s d). row ?s c \<in> D" using cmp(3,4) w(2) rows by simp
  have rem: "?e \<notin> set (remove_index (kids s d) (nat i))"
    using remove_index_set[OF kids_distinct[OF wf] x(5)] by simp
  have asc: "comparator.ascending cmp (map (row ?s) (remove_index (kids ?s d) (nat i)))"
  proof -
    have "map (row ?s) (remove_index (kids ?s d) (nat i)) = map (row s) (remove_index (kids s d) (nat i))"
      using rem w(2) rows by auto
    moreover have "sorted_wrt (\<lambda>x y. cmp x y \<le> 0) (map (row s) (remove_index (kids s d) (nat i)))"
      using cmp(5) sorted_wrt_remove_index[of _ "map (row s) (kids s d)" "nat i"]
      by (simp add: comparator.ascending_def[OF cmp(2)] remove_index_def take_map drop_map)
    ultimately show ?thesis by (simp add: comparator.ascending_def[OF cmp(2)])
  qed
  obtain t j where t: "scp_sort_element G ?s it True = Some (t, it\<lparr>it_index := j\<rparr>)"
    "reordered ?s d (insert_at (nat j) (kids ?s d ! nat i) (remove_index (kids ?s d) (nat i))) t"
    "0 \<le> j" "j < int (length (kids ?s d))" "points_to t (it\<lparr>it_index := j\<rparr>) (q @ [j])"
    "comparator.ascending cmp (map (row ?s) (kids t d))"
    using sort_element_spec[OF w(1) it' sc cmp(2) D asc, of True] by blast
  have wft: "wf t" using t(2) by (simp add: reordered_def)
  have set: "same_settings s t"
    using scp_sort_element_settings[OF t(1)] set_row_settings same_settings_trans by blast
  obtain u where u: "scp_set_values_signals G ?s it c True = Some (u, it\<lparr>it_index := j\<rparr>)" "same_tree t u" "same_settings t u"
    using set_values_signals_tail[OF wft t(5), of c] t(1) by (auto simp: scp_set_values_signals_def)
  have "row u = row ?s" using u(2) t(2) by (intro row_same) (simp add: reordered_def same_tree_def)
  moreover have "kids u = kids t" "wf u" "points_to u = points_to t" using same_tree_simps[OF u(2)] wft by simp_all
  ultimately have "cells_set s d (nat i) ?r (nat j) u \<and> comparator.ascending cmp (map (row u) (kids u d)) \<and> points_to u (it\<lparr>it_index := j\<rparr>) (q @ [j])"
    using t w(2) set u(3) same_settings_trans rows unfolding cells_set_def reordered_def by auto
  moreover have "scp_tree_store_set_valuesv G s it cvs = Some (u, it\<lparr>it_index := j\<rparr>)"
    using x(3,4) vec u(1) by (simp add: scp_tree_store_set_valuesv_def)
  ultimately show ?thesis using t(3,4) w(2) by auto
qed

lemma set_valuesv_in_place:
  assumes wf: "wf s" and it: "points_to s it (q @ [i])" and d: "node_at s (root s) q = Some d"
    and so: "\<not> custom_sort s" "sort_column_id s \<notin> fst ` set (valid_cells s cvs)"
  shows "\<exists>t. scp_tree_store_set_valuesv G s it cvs = Some (t, it) \<and> points_to t it (q @ [i]) \<and>
    cells_set s d (nat i) (put_cells G s cvs (row s (kids s d ! nat i))) (nat i) t"
proof -
  let ?e = "kids s d ! nat i" let ?r = "put_cells G s cvs (row s ?e)" let ?s = "set_row ?e ?r s"
  obtain x where x: "elems s ?e = Some x" "?e \<noteq> root s" "ITER_ELEM it s = Some ?e" "VALID_ITER it s" "nat i < length (kids s d)"
    using row_not_root[OF wf d it] by blast
  have len: "length ?r = n_columns s" using row_length[OF wf x(1,2)] by simp
  note w = wf_set_row[OF wf x(1) len] points_to_set_row[OF wf x(1) len]
  obtain c where vec: "scp_set_vector G s ?e False False cvs = Some (?s, c, False)"
    using set_vector_spec[OF wf x(1,2), of G cvs] so by auto
  have it': "points_to ?s it (q @ [i])" using it w by simp
  obtain u where u: "scp_set_values_signals G ?s it c False = Some (u, it)" "same_tree ?s u" "same_settings ?s u"
    using set_values_signals_tail[OF w(1) it', of c] by (auto simp: scp_set_values_signals_def)
  have "row u = row ?s" using u(2) by (intro row_same) (simp add: same_tree_def)
  moreover have "row ?s c = (if c = ?e then ?r else row s c)" for c by (simp add: row_set_row[OF x(1)])
  moreover have "kids u = kids s" "wf u" "points_to u it (q @ [i])" using same_tree_simps[OF u(2)] w it' by simp_all
  ultimately have "cells_set s d (nat i) ?r (nat i) u \<and> points_to u it (q @ [i])"
    using u(3) same_settings_trans[OF set_row_settings] remove_insert_same[OF x(5)] unfolding cells_set_def by auto
  then show ?thesis using x(3,4) vec u(1) by (auto simp: scp_tree_store_set_valuesv_def)
qed

end
