(* ===== verification/ScpOrder.thy ===== *)
theory ScpOrder
  imports ScpCells
begin

text \<open>
  Reordering a level by a given permutation, and sorting all levels when the sort column is chosen.
  GLib's \<open>g_qsort_with_data\<close> is a parameter with the contract \<open>qsort_ok\<close>.
\<close>

subsection \<open>Reordering\<close>

lemma permute_spec:
  "n \<le> length order \<Longrightarrow> \<forall>i\<in>set order. 0 \<le> i \<and> i < int (length xs) \<Longrightarrow>
   permute xs order n = Some (map (\<lambda>i. xs ! nat i) (take n order))"
proof (induction n arbitrary: order)
  case (Suc n)
  then show ?case by (cases order) (simp_all add: nth_int_def)
qed simp

lemma map_nth_upto: "map (\<lambda>i. xs ! nat i) [0..int (length xs) - 1] = xs"
  by (rule nth_equalityI) auto

lemma permute_order:
  assumes "mset order = mset [0..int (length xs) - 1]"
  shows "permute xs order (length xs) = Some (map (\<lambda>i. xs ! nat i) order)"
    "mset (map (\<lambda>i. xs ! nat i) order) = mset xs"
proof -
  have "length order = length xs" using mset_eq_length[OF assms] by simp
  moreover have "set order = {0..int (length xs) - 1}" using mset_eq_setD[OF assms] by auto
  ultimately show "permute xs order (length xs) = Some (map (\<lambda>i. xs ! nat i) order)"
    using permute_spec[of "length xs" order xs] by auto
  show "mset (map (\<lambda>i. xs ! nat i) order) = mset xs"
    using assms map_nth_upto[of xs] by (metis mset_map)
qed

text \<open>The path to a row does not depend on the order of the levels below it.\<close>

lemma node_at_le: "wf s \<Longrightarrow> node_at s d p = Some e \<Longrightarrow> d \<le> e"
proof (induction p arbitrary: d)
  case (Cons i p)
  then obtain c where c: "nth_int (kids s d) i = Some c" "node_at s c p = Some e" by (auto simp: bind_eq_Some_conv)
  then show ?case using Cons.IH[OF Cons.prems(1) c(2)] kids_less[OF Cons.prems(1) nth_int_in_set[OF c(1)]] by simp
qed simp

lemma node_at_above:
  assumes "wf s" "\<And>c. c < e \<Longrightarrow> kids t c = kids s c"
  shows "node_at s d p = Some e \<Longrightarrow> node_at t d p = Some e"
proof (induction p arbitrary: d)
  case (Cons i p)
  then obtain c where c: "nth_int (kids s d) i = Some c" "node_at s c p = Some e" by (auto simp: bind_eq_Some_conv)
  have "d < e" using kids_less[OF assms(1) nth_int_in_set[OF c(1)]] node_at_le[OF assms(1) c(2)] by simp
  then show ?case using c Cons.IH[OF c(2)] assms(2) by simp
qed simp

lemma parent_at_above:
  assumes "wf s" "parent_at s parent q d" "\<And>c. c < d \<Longrightarrow> kids t c = kids s c" "elems t = elems s" "root t = root s" "stamp t = stamp s"
  shows "parent_at t parent q d"
proof -
  have n: "node_at s (root s) q = Some d" using assms(2) by (simp add: parent_at_def)
  have "points_to t it q" if it: "points_to s it q" for it
  proof -
    obtain c a where c: "node_at s (root s) (butlast q) = Some c" "owns s c a" "it_array it = Some a" "0 \<le> last q"
      "last q < int (length (kids s c))" "q \<noteq> []" "it_index it = last q" "it_stamp it = stamp s"
      using it by (auto simp: points_to_def)
    have "nth_int (kids s c) (last q) = Some d"
      using n c node_at_snoc[of s "root s" "butlast q" "last q"] by simp
    then have "c < d" using kids_less[OF assms(1) nth_int_in_set] by blast
    then have "kids t c = kids s c" "node_at t (root s) (butlast q) = Some c"
      using assms(3) node_at_above[OF assms(1) _ c(1), of t] by auto
    then show ?thesis using c assms(4-6) owns_same[OF assms(4)] by (simp add: points_to_def)
  qed
  then show ?thesis
    using assms(2,5) node_at_above[OF assms(1,3) n] by (auto simp: parent_at_def split: option.splits)
qed

lemma reorder_array_spec:
  assumes wf: "wf s" and p: "parent_at s parent q d" and x: "elems s d = Some x" "ae_children x = Some a"
    and order: "mset order = mset [0..int (length (kids s d)) - 1]"
  shows "\<exists>t. scp_reorder_array s parent a order = Some t \<and> reordered s d (map (\<lambda>i. kids s d ! nat i) order) t \<and>
    same_settings s t \<and> signals t = signals s @ [Rows_Reordered (Some q) parent order]"
proof -
  let ?ys = "map (\<lambda>i. kids s d ! nat i) order" let ?t = "set_array a ?ys s"
  have a: "arrays s a = Some (kids s d)" by (rule wf_children(1)[OF wf x])
  have r: "reordered s d ?ys ?t"
    by (rule reordered_set_array[OF wf]) (use x permute_order(2)[OF order] in \<open>auto simp: owns_def\<close>)
  have "parent_at ?t parent q d"
    by (rule parent_at_above[OF wf p]) (use r in \<open>auto simp: reordered_def\<close>)
  then have "(case parent of None \<Rightarrow> Some (Some []) | Some it \<Rightarrow> scp_tree_store_get_path ?t it) = Some (Some q)"
    using get_path_points_to r by (auto simp: parent_at_def reordered_def split: option.splits)
  then have "scp_reorder_array s parent a order = Some (emit (Rows_Reordered (Some q) parent order) ?t)"
    using a permute_order(1)[OF order] by (simp add: scp_reorder_array_def Let_def)
  moreover have "same_settings s (emit (Rows_Reordered (Some q) parent order) ?t)"
    by (rule same_settings_trans[OF same_settings_simps(2,1)])
  ultimately show ?thesis
    using reordered_same[OF r same_tree_emit] by (simp add: emit_def set_array_def)
qed

subsection \<open>Sorting all levels\<close>

definition shuffled :: "store \<Rightarrow> store \<Rightarrow> bool" where
  "shuffled s t \<longleftrightarrow> wf t \<and> same_settings s t \<and> next_addr t = next_addr s \<and> elems t = elems s \<and>
     (\<forall>e. mset (kids t e) = mset (kids s e))"

lemma shuffled_refl: "wf s \<Longrightarrow> shuffled s s"
  by (simp add: shuffled_def)

lemma shuffled_trans: "shuffled s t \<Longrightarrow> shuffled t u \<Longrightarrow> shuffled s u"
  by (auto simp: shuffled_def intro: same_settings_trans)

lemma shuffled_set: "shuffled s t \<Longrightarrow> set (kids t e) = set (kids s e)"
  unfolding shuffled_def by (metis mset_eq_setD)

lemma below_shuffled: 
  assumes "\<And>e. set (kids t e) = set (kids s e)" "below s d e"
  shows "below t d e"
proof -
  obtain p where p: "p \<noteq> []" "node_at s d p = Some e" using assms(2) by (auto simp: below_def)
  then show ?thesis
  proof (induction p arbitrary: d)
    case (Cons i p)
    then obtain c where c: "nth_int (kids s d) i = Some c" "node_at s c p = Some e" by (auto simp: bind_eq_Some_conv)
    have k: "c \<in> set (kids t d)" using nth_int_in_set[OF c(1)] assms(1) by simp
    show ?case
    proof (cases "p = []")
      case True
      then show ?thesis using c k by (auto simp: below_unfold[of t d])
    next
      case False
      then show ?thesis using c k Cons.IH[of c] by (auto simp: below_unfold[of t d])
    qed
  qed simp
qed

lemma doomed_shuffled: "shuffled s t \<Longrightarrow> doomed t d e = doomed s d e"
  using below_shuffled[of t s d e] below_shuffled[of s t d e] shuffled_set[of s t] unfolding doomed_def by auto

text \<open>What GLib promises of \<open>g_qsort_with_data\<close>.\<close>

definition qsort_ok :: "glib \<Rightarrow> bool" where
  "qsort_ok G \<longleftrightarrow> sorts (g_qsort_with_data G)"

context comparator
begin

lemma index_comparator:
  assumes "set rows \<subseteq> D"
  shows "comparator (\<lambda>i j. cmp (rows ! nat i) (rows ! nat j)) {i. 0 \<le> i \<and> i < int (length rows)}"
proof
  have D: "rows ! nat i \<in> D" if "i \<in> {i. 0 \<le> i \<and> i < int (length rows)}" for i
    using that assms by (auto simp: subset_iff)
  show "sgn (cmp (rows ! nat y) (rows ! nat x)) = - sgn (cmp (rows ! nat x) (rows ! nat y))"
    if "x \<in> {i. 0 \<le> i \<and> i < int (length rows)}" "y \<in> {i. 0 \<le> i \<and> i < int (length rows)}" for x y
    using flip[OF D[OF that(1)] D[OF that(2)]] .
  show "cmp (rows ! nat x) (rows ! nat z) \<le> 0"
    if "x \<in> {i. 0 \<le> i \<and> i < int (length rows)}" "y \<in> {i. 0 \<le> i \<and> i < int (length rows)}"
      "z \<in> {i. 0 \<le> i \<and> i < int (length rows)}" "cmp (rows ! nat x) (rows ! nat y) \<le> 0" "cmp (rows ! nat y) (rows ! nat z) \<le> 0" for x y z
    using trans[OF D[OF that(1)] D[OF that(2)] D[OF that(3)]] that(4,5) .
qed

end

text \<open>One level.\<close>

lemma rows_of_kids: "wf s \<Longrightarrow> rows_of s (kids s d) = Some (map (row s) (kids s d))"
proof -
  assume wf: "wf s"
  have "those (map (\<lambda>e. map_option ae_data (elems s e)) xs) = Some (map (row s) xs)" if "set xs \<subseteq> set (kids s d)" for xs
    using that
  proof (induction xs)
    case (Cons e xs)
    then obtain y where "elems s e = Some y" using kids_parent[OF wf, of e d] by auto
    then show ?case using Cons by (simp add: row_def)
  qed simp
  then show ?thesis by (simp add: rows_of_def)
qed

lemma ascending_order:
  assumes "qsort_ok G" "comparator cmp D" "set rows \<subseteq> D"
  shows "comparator.ascending cmp
    (map (\<lambda>i. rows ! nat i) (g_qsort_with_data G (scp_index_compare cmp rows) [0..int (length rows) - 1]))"
proof -
  let ?c = "scp_index_compare cmp rows" and ?order = "g_qsort_with_data G (scp_index_compare cmp rows) [0..int (length rows) - 1]"
  have c: "comparator ?c {i. 0 \<le> i \<and> i < int (length rows)}"
    using comparator.index_comparator[OF assms(2,3)] by (simp add: scp_index_compare_def[abs_def])
  have "comparator.ascending ?c (g_qsort_with_data G ?c xs)" if "set xs \<subseteq> {i. 0 \<le> i \<and> i < int (length rows)}" for xs
    using assms(1) c that unfolding qsort_ok_def sorts_def by blast
  moreover have "set [0..int (length rows) - 1] \<subseteq> {i. 0 \<le> i \<and> i < int (length rows)}" by auto
  ultimately have "sorted_wrt (\<lambda>x y. ?c x y \<le> 0) ?order"
    by (auto simp: comparator.ascending_def[OF c])
  then show ?thesis
    unfolding comparator.ascending_def[OF assms(2)] sorted_wrt_map scp_index_compare_def .
qed

lemma parent_at_child:
  assumes "wf s" "node_at s (root s) q = Some d" "elems s d = Some x" "ae_children x = Some a" "i < length (kids s d)"
  shows "parent_at s (Some (mk_iter s a (int i))) (q @ [int i]) (kids s d ! i)"
proof -
  have k: "nth_int (kids s d) (int i) = Some (kids s d ! i)" using assms(5) by (simp add: nth_int_def)
  show ?thesis
    using points_to_intro[OF assms(1-4) k] k assms(2) by (simp add: parent_at_def node_at_snoc)
qed

lemma doomed_ge: "wf s \<Longrightarrow> doomed s d e \<Longrightarrow> d \<le> e"
  using below_less[of s d e] by (auto simp: doomed_def)

text \<open>What sorting everything below \<open>d\<close> gives.\<close>

definition sorted_below :: "store \<Rightarrow> (row list \<Rightarrow> bool) \<Rightarrow> addr \<Rightarrow> store \<Rightarrow> bool" where
  "sorted_below s P d t \<longleftrightarrow> shuffled s t \<and>
     (\<forall>e. if doomed s d e then P (map (row t) (kids t e)) else kids t e = kids s e)"

text \<open>The loop over the rows of a level.\<close>

lemma sort_loop:
  assumes wf: "wf s" and d: "node_at s (root s) q = Some d" "elems s d = Some x" "ae_children x = Some a"
    and sort: "\<And>i u. i < length (kids s d) \<Longrightarrow> shuffled s u \<Longrightarrow> parent_at u (Some (mk_iter s a (int i))) (q @ [int i]) (kids s d ! i) \<Longrightarrow>
      \<exists>t. f i u = Some t \<and> sorted_below u P (kids s d ! i) t"
  shows "n \<le> length (kids s d) \<Longrightarrow> \<exists>t. foldM f [0..<n] s = Some t \<and> shuffled s t \<and>
    (\<forall>e. if \<exists>i<n. doomed s (kids s d ! i) e then P (map (row t) (kids t e)) else kids t e = kids s e)"
proof (induction n)
  case 0
  then show ?case using shuffled_refl[OF wf] by simp
next
  case (Suc n)
  then obtain u where u: "foldM f [0..<n] s = Some u" "shuffled s u"
    "\<And>e. if \<exists>i<n. doomed s (kids s d ! i) e then P (map (row u) (kids u e)) else kids u e = kids s e"
    by auto
  let ?k = "kids s d ! n"
  have n: "n < length (kids s d)" using Suc.prems by simp
  have same: "kids u e = kids s e" if "e \<le> d" for e
  proof -
    have "\<not> doomed s (kids s d ! i) e" if "i < n" for i
      using doomed_ge[OF wf, of "kids s d ! i" e] kids_less[OF wf nth_mem, of i d] that n \<open>e \<le> d\<close> by auto
    then show ?thesis using u(3)[of e] by auto
  qed
  have eq: "elems u = elems s" "root u = root s" "stamp u = stamp s" "wf u" using u(2) by (auto simp: shuffled_def same_settings_def)
  have du: "node_at u (root u) q = Some d"
    using node_at_above[OF wf _ d(1), of u] same eq(2) by simp
  have "parent_at u (Some (mk_iter s a (int n))) (q @ [int n]) ?k"
    using parent_at_child[OF eq(4) du, of x a n] d(2,3) eq same[of d] n by (simp add: mk_iter_def)
  from sort[OF n u(2) this] obtain t where t: "f n u = Some t" "sorted_below u P ?k t" by blast
  have st: "shuffled s t" using t(2) u(2) by (auto simp: sorted_below_def intro: shuffled_trans)
  have rows: "row t = row u" using t(2) by (intro row_same) (simp add: sorted_below_def shuffled_def)
  have "if \<exists>i<Suc n. doomed s (kids s d ! i) e then P (map (row t) (kids t e)) else kids t e = kids s e" for e
  proof (cases "doomed s ?k e")
    case True
    then show ?thesis using t(2) doomed_shuffled[OF u(2)] unfolding sorted_below_def by (metis lessI)
  next
    case False
    then have "kids t e = kids u e" using t(2) doomed_shuffled[OF u(2)] unfolding sorted_below_def by meson
    moreover have "(\<exists>i<Suc n. doomed s (kids s d ! i) e) \<longleftrightarrow> (\<exists>i<n. doomed s (kids s d ! i) e)"
      using False less_Suc_eq by auto
    ultimately show ?thesis using u(3)[of e] rows by simp
  qed
  then show ?case using u(1) t(1) st by (auto simp: foldM_append)
qed

lemma sorted_below_leaf:
  assumes "wf s" "kids s d = []" "P []"
  shows "sorted_below s P d s"
proof -
  have "doomed s d e \<longleftrightarrow> e = d" for e using assms(2) by (simp add: doomed_unfold[of s d e])
  then show ?thesis
    using assms shuffled_refl[OF assms(1)] by (simp add: sorted_below_def)
qed

lemma sorted_below_level:
  assumes wf: "wf s" and r: "reordered s d ys s1" "same_settings s s1" "mset ys = mset (kids s d)"
    and asc: "P (map (row s) ys)"
    and t: "shuffled s1 t" "\<And>e. if \<exists>i<length ys. doomed s1 (ys ! i) e
      then P (map (row t) (kids t e)) else kids t e = kids s1 e"
  shows "sorted_below s P d t"
proof -
  have s1: "shuffled s s1" using r by (simp add: shuffled_def reordered_def)
  have k1: "kids s1 = (kids s)(d := ys)" using r(1) by (simp add: reordered_def)
  have st: "shuffled s t" by (rule shuffled_trans[OF s1 t(1)])
  have rows: "row t = row s" by (rule row_same) (use st in \<open>simp add: shuffled_def\<close>)
  have ch: "(\<exists>i<length ys. doomed s1 (ys ! i) e) \<longleftrightarrow> (\<exists>k\<in>set (kids s d). doomed s k e)" for e
    using mset_eq_setD[OF r(3)] doomed_shuffled[OF s1] by (metis in_set_conv_nth)
  have "if doomed s d e then P (map (row t) (kids t e)) else kids t e = kids s e" for e
  proof (cases "\<exists>k\<in>set (kids s d). doomed s k e")
    case True
    then show ?thesis using t(2)[of e] ch[of e] doomed_unfold[of s d e] by simp
  next
    case False
    then have "kids t e = kids s1 e" "doomed s d e \<longleftrightarrow> e = d" using t(2)[of e] ch[of e] doomed_unfold[of s d e] by auto
    then show ?thesis using asc k1 rows by (cases "e = d") auto
  qed
  with st show ?thesis by (simp add: sorted_below_def)
qed

lemma sort_children_spec:
  assumes G: "qsort_ok G" "P []"
    and sort: "\<And>rows. set rows \<subseteq> D \<Longrightarrow>
      P (map (\<lambda>i. rows ! nat i) (g_qsort_with_data G (scp_index_compare cmp rows) [0..int (length rows) - 1]))"
  shows "wf s \<Longrightarrow> parent_at s parent q d \<Longrightarrow> store_compare G s = Some cmp \<Longrightarrow>
    (\<forall>e. elems s e \<noteq> None \<longrightarrow> e \<noteq> root s \<longrightarrow> row s e \<in> D) \<Longrightarrow> next_addr s \<le> f + d \<Longrightarrow>
    \<exists>t. scp_sort_children f G parent s = Some t \<and> sorted_below s P d t"
proof (induction f arbitrary: s parent q d)
  case 0
  then show ?case using parent_elem_at(3)[OF 0(1,2)] wf_elem_bound[OF 0(1), of d] by auto
next
  case (Suc f)
  note wf = Suc.prems(1) and p = Suc.prems(2)
  obtain x where x: "elems s d = Some x" using parent_elem_at(3)[OF wf p] by blast
  have pe: "parent_elem parent s = Some d" using parent_elem_at(1)[OF wf p] .
  show ?case
  proof (cases "ae_children x")
    case None
    then have "kids s d = []" using x by (simp add: kids_def)
    then show ?thesis using None x pe sorted_below_leaf[where P = P, OF wf _ G(2)] by (simp add: children_of_def)
  next
    case (Some a)
    have a: "arrays s a = Some (kids s d)" by (rule wf_children(1)[OF wf x Some])
    show ?thesis
    proof (cases "kids s d = []")
      case True
      then show ?thesis using Some x a pe sorted_below_leaf[where P = P, OF wf _ G(2)] by (simp add: children_of_def)
    next
      case False
      let ?ks = "kids s d" let ?order = "g_qsort_with_data G (scp_index_compare cmp (map (row s) ?ks)) [0..int (length ?ks) - 1]"
      let ?ys = "map (\<lambda>i. ?ks ! nat i) ?order"
      have rows: "\<forall>c\<in>set ?ks. row s c \<in> D"
        using Suc.prems(4) kids_parent[OF wf, of _ d] kids_neq_root[OF wf, of _ d] by fastforce
      have o1: "mset ?order = mset [0..int (length ?ks) - 1]" using G(1) by (simp add: qsort_ok_def sorts_def)
      have "map (row s) ?ys = map (\<lambda>i. map (row s) ?ks ! nat i) ?order"
        using mset_eq_setD[OF o1] by (auto simp: nat_less_iff)
      then have o2: "P (map (row s) ?ys)" using sort[of "map (row s) ?ks"] rows by (auto simp only: length_map set_map)
      note o = o1 o2
      obtain s1 where s1: "scp_reorder_array s parent a ?order = Some s1" "reordered s d ?ys s1" "same_settings s s1"
        using reorder_array_spec[OF wf p x Some o(1)] by blast
      have ys: "kids s1 d = ?ys" "length ?ys = length ?ks" "mset ?ys = mset ?ks"
        using s1(2) permute_order(2)[OF o(1)] mset_eq_length[OF o(1)] by (simp_all add: reordered_def)
      have e1: "wf s1" "elems s1 = elems s" "root s1 = root s" "stamp s1 = stamp s" "next_addr s1 = next_addr s"
        using s1(2) by (simp_all add: reordered_def)
      have n1: "node_at s1 (root s1) q = Some d"
        using parent_at_above[OF wf p, of s1] s1(2) e1 by (auto simp: reordered_def parent_at_def)
      have loop: "\<exists>t. scp_sort_children f G (Some (mk_iter u a (int i))) u = Some t \<and> sorted_below u P (kids s1 d ! i) t"
        if u: "i < length (kids s1 d)" "shuffled s1 u" "parent_at u (Some (mk_iter s1 a (int i))) (q @ [int i]) (kids s1 d ! i)" for i u
      proof (rule Suc.IH)
        have eu: "elems u = elems s" "next_addr u = next_addr s" "stamp u = stamp s" "root u = root s"
          using u(2) e1 by (simp_all add: shuffled_def same_settings_def)
        show "wf u" using u(2) by (simp add: shuffled_def)
        show "parent_at u (Some (mk_iter u a (int i))) (q @ [int i]) (kids s1 d ! i)"
          using u(3) eu(3) e1(4) by (simp add: mk_iter_def)
        show "store_compare G u = Some cmp"
          using Suc.prems(3) store_compare_same[OF same_settings_trans[OF s1(3)], of u G] u(2) by (simp add: shuffled_def)
        show "\<forall>e. elems u e \<noteq> None \<longrightarrow> e \<noteq> root u \<longrightarrow> row u e \<in> D"
          using Suc.prems(4) eu row_same[OF eu(1)] by simp
        show "next_addr u \<le> f + kids s1 d ! i"
          using kids_less[OF e1(1) nth_mem[OF u(1)]] Suc.prems(5) eu(2) by simp
      qed
      obtain t where t: "foldM (\<lambda>i s. scp_sort_children f G (Some (mk_iter s a (int i))) s) [0..<length (kids s1 d)] s1 = Some t"
        "shuffled s1 t" "\<And>e. if \<exists>i<length (kids s1 d). doomed s1 (kids s1 d ! i) e
          then P (map (row t) (kids t e)) else kids t e = kids s1 e"
        using sort_loop[OF e1(1) n1 _ Some, of "\<lambda>i s. scp_sort_children f G (Some (mk_iter s a (int i))) s" P "length (kids s1 d)"]
          loop x e1(2) by auto
      have "sorted_below s P d t"
        by (rule sorted_below_level[where P = P, OF wf s1(2,3) ys(3) o(2) t(2)]) (use t(3) ys in auto)
      moreover have "scp_sort_children (Suc f) G parent s = Some t"
        using pe x Some a False rows_of_kids[OF wf, of d] Suc.prems(3) s1(1) t(1) ys
        by (simp add: children_of_def Let_def)
      ultimately show ?thesis by blast
    qed
  qed
qed

lemma all_doomed: "wf s \<Longrightarrow> elems s e \<noteq> None \<Longrightarrow> doomed s (root s) e"
proof -
  assume "wf s" "elems s e \<noteq> None"
  then obtain p where "node_at s (root s) p = Some e" using node_at_exists[of s e] by auto
  then show ?thesis by (cases "p = []") (auto simp: doomed_def below_def)
qed

lemma wf_settings:
  assumes "wf s"
  shows "wf (s\<lparr>sort_func := f, sort_column_id := c, sort_order := o'\<rparr>)" "kids (s\<lparr>sort_func := f, sort_column_id := c, sort_order := o'\<rparr>) = kids s"
proof -
  have "same_tree s (s\<lparr>sort_func := f, sort_column_id := c, sort_order := o'\<rparr>)" by (simp add: same_tree_def)
  then show "wf (s\<lparr>sort_func := f, sort_column_id := c, sort_order := o'\<rparr>)"
    "kids (s\<lparr>sort_func := f, sort_column_id := c, sort_order := o'\<rparr>) = kids s"
    using assms same_tree_simps by auto
qed

lemma store_sort_spec:
  assumes "wf s" "qsort_ok G" "comparator cmp D" "store_compare G s = Some cmp"
    "\<forall>e. elems s e \<noteq> None \<longrightarrow> e \<noteq> root s \<longrightarrow> row s e \<in> D"
  shows "\<exists>t. scp_store_sort G s = Some t \<and> shuffled s t \<and> (\<forall>e. comparator.ascending cmp (map (row t) (kids t e)))"
proof -
  have nil: "comparator.ascending cmp []" by (simp add: comparator.ascending_def[OF assms(3)])
  have "parent_at s None [] (root s)" by (simp add: parent_at_def)
  then obtain t where t: "scp_sort_children (next_addr s) G None s = Some t" "sorted_below s (comparator.ascending cmp) (root s) t"
    using sort_children_spec[OF assms(2) _ _ assms(1) _ assms(4,5), of "comparator.ascending cmp" None "[]" "root s" "next_addr s"]
      nil ascending_order[OF assms(2,3)] by auto
  have "sort_func s \<noteq> None" using assms(4) by (cases "sort_func s") (auto simp: store_compare_def bind_eq_Some_conv)
  moreover have "comparator.ascending cmp (map (row t) (kids t e))" for e
  proof (cases "elems s e = None")
    case True
    then have "kids t e = []" using t(2) by (simp add: sorted_below_def shuffled_def kids_def)
    then show ?thesis by (simp add: comparator.ascending_def[OF assms(3)])
  next
    case False
    then show ?thesis using t(2) all_doomed[OF assms(1)] unfolding sorted_below_def by meson
  qed
  ultimately show ?thesis using t by (auto simp: scp_store_sort_def sorted_below_def)
qed

text \<open>
  C25: Choosing a sort column sorts the store: every level is ascending for the comparison of the column
  and the order, each level has the rows it had, and no row has changed its parent or its cells.
\<close>

theorem scp_tree_store_set_sort_column_sorts:
  assumes "wf s" and "qsort_ok G" and "0 \<le> column" and "header_at s column = Some h" and "hdr_func h = Some func"
    and "(sort_column_id s, sort_order s) \<noteq> (column, order)"
    and "store_compare G (s\<lparr>sort_func := Some func, sort_column_id := column, sort_order := order\<rparr>) = Some cmp"
    and "comparator cmp D" and "\<forall>e. elems s e \<noteq> None \<longrightarrow> e \<noteq> root s \<longrightarrow> row s e \<in> D"
  shows "\<exists>t. scp_tree_store_set_sort_column_id G s column order = Some t \<and> wf t \<and> elems t = elems s \<and>
    (\<forall>e. mset (kids t e) = mset (kids s e)) \<and> (\<forall>e. comparator.ascending cmp (map (row t) (kids t e))) \<and>
    scp_tree_store_get_sort_column_id t = (column, order, True)"
proof -
  let ?s = "s\<lparr>sort_func := Some func, sort_column_id := column, sort_order := order\<rparr>"
  let ?u = "emit Sort_Column_Changed ?s"
  have w: "wf ?u" "kids ?u = kids s"
    using wf_settings[OF assms(1), of order column "Some func"] same_tree_simps[OF same_tree_emit[of ?s Sort_Column_Changed]] by auto
  have col: "column < int (n_columns s)"
    using assms(1,3,4) wf_headers[OF assms(1)] by (auto simp: header_at_def nth_int_Some)
  have "store_compare G ?u = Some cmp" using assms(7) store_compare_same[of ?s ?u] by simp
  moreover have "\<forall>e. elems ?u e \<noteq> None \<longrightarrow> e \<noteq> root ?u \<longrightarrow> row ?u e \<in> D"
    using assms(9) by (simp add: emit_def row_def)
  ultimately obtain t where t: "scp_store_sort G ?u = Some t" "shuffled ?u t" "\<forall>e. comparator.ascending cmp (map (row t) (kids t e))"
    using store_sort_spec[OF w(1) assms(2,8)] by blast
  have "scp_tree_store_set_sort_column_id G s column order = Some t"
    using assms(3-6) col t(1) by (auto simp: scp_tree_store_set_sort_column_id_def UNSORTED_def)
  moreover have "sort_column_id t = column" "sort_order t = order" "elems t = elems s" "wf t"
    "\<forall>e. mset (kids t e) = mset (kids s e)"
    using t(2) w(2) by (simp_all add: shuffled_def same_settings_def emit_def)
  ultimately show ?thesis
    using t(3) assms(3) by (auto simp: scp_tree_store_get_sort_column_id_def UNSORTED_def DEFAULT_SORT_def)
qed

lemma demo_qsort: "qsort_ok demo_glib"
  by (simp add: qsort_ok_def demo_glib_def insertion_sort_sorts)

theorem scp_tree_store_set_sort_column_sorts_witness:
  "\<exists>t. scp_tree_store_set_sort_column_id demo_glib demo 0 GTK_SORT_DESCENDING = Some t \<and> wf t \<and>
    mset (kids t 0) = mset [3, 4, 5] \<and>
    comparator.ascending (\<lambda>a b. scp_fixup_compare_result (demo\<lparr>sort_order := GTK_SORT_DESCENDING\<rparr>)
      (scp_tree_store_compare_func demo_glib demo_header 0 a b)) (map (row t) (kids t 0))"
proof -
  let ?cmp = "\<lambda>a b. scp_fixup_compare_result (demo\<lparr>sort_order := GTK_SORT_DESCENDING\<rparr>)
      (scp_tree_store_compare_func demo_glib demo_header 0 a b)"
  let ?s = "demo\<lparr>sort_func := Some Model_Compare, sort_column_id := 0, sort_order := GTK_SORT_DESCENDING\<rparr>"
  have h: "hdr_func demo_header = Some Model_Compare" "hdr_data demo_header = 0" by (simp_all add: demo_header_def)
  have cmp: "store_compare demo_glib ?s = Some ?cmp"
    using h by (simp add: store_compare_def scp_fixup_compare_result_def header_at_def nth_int_def cong: if_cong)
  have "sortable demo_header 0 = UNIV"
    by (simp add: sortable_def ordered_def demo_header_def scp_tree_data_get_fundamental_type_simp)
  moreover have "\<exists>cmp. store_compare demo_glib ?s = Some cmp \<and> comparator cmp (sortable demo_header (hdr_data demo_header))"
    by (rule store_compare_model) (simp_all add: demo_def header_at_def demo_header_def nth_int_def)
  ultimately have "comparator ?cmp UNIV" using cmp by (simp add: demo_header_def)
  note scp_tree_store_set_sort_column_sorts[OF demo_wf demo_qsort _ _ _ _ cmp this, of demo_header]
  moreover have "sort_column_id demo = -2" by (simp add: demo_def)
  ultimately show ?thesis using h by (auto simp: demo_kids header_at_def nth_int_def)
qed

end
