(* ===== verification/ScpClear.thy ===== *)
theory ScpClear
  imports ScpOrder
begin

text \<open>
  Clearing the children of a row: what lies below is gone, the rest is untouched.
\<close>

subsection \<open>Clearing a level\<close>

lemma node_at_cong:
  assumes "\<And>c. doomed s k c \<Longrightarrow> kids t c = kids s c"
  shows "doomed s k e \<Longrightarrow> node_at t e p = node_at s e p"
proof (induction p arbitrary: e)
  case (Cons i p)
  have "node_at t c p = node_at s c p" if "nth_int (kids s e) i = Some c" for c
  proof (rule Cons.IH)
    have c: "c \<in> set (kids s e)" by (rule nth_int_in_set[OF that])
    have "\<exists>r. node_at s k r = Some e" using Cons.prems by (cases "e = k") (auto simp: doomed_def below_def intro: exI[of _ "[]"])
    then obtain r where "node_at s k r = Some e" by blast
    then have "node_at s k (r @ [i]) = Some c" using that by (simp add: node_at_snoc)
    then show "doomed s k c" by (auto simp: doomed_def below_def)
  qed
  then show ?case using assms[OF Cons.prems] by (cases "nth_int (kids s e) i") auto
qed simp

lemma doomed_cong:
  assumes "\<And>c. doomed s k c \<Longrightarrow> kids t c = kids s c"
  shows "doomed t k = doomed s k"
  using node_at_cong[OF assms, of k] by (auto simp: doomed_def below_def fun_eq_iff)

text \<open>The elements of \<open>E\<close> are gone, and the level below \<open>d\<close> may have changed; nothing else has.\<close>

definition gone :: "store \<Rightarrow> addr \<Rightarrow> (addr \<Rightarrow> bool) \<Rightarrow> store \<Rightarrow> bool" where
  "gone s d E t \<longleftrightarrow> wf t \<and> same_settings s t \<and> next_addr t = next_addr s \<and>
     (\<forall>c. elems t c = None \<longleftrightarrow> elems s c = None \<or> E c) \<and>
     (\<forall>c. \<not> E c \<longrightarrow> row t c = row s c \<and> (c \<noteq> d \<longrightarrow> kids t c = kids s c \<and> elems t c = elems s c))"

lemma gone_refl: "wf s \<Longrightarrow> gone s d (\<lambda>_. False) s"
  by (simp add: gone_def)

lemma gone_trans: "gone s d E t \<Longrightarrow> gone t d E' u \<Longrightarrow> gone s d (\<lambda>c. E c \<or> E' c) u"
  unfolding gone_def by (auto intro: same_settings_trans)

lemma gone_node:
  assumes "wf s" "node_at s (root s) q = Some d" "gone s d E t" "\<And>c. E c \<Longrightarrow> d < c"
  shows "node_at t (root t) q = Some d"
proof -
  have "kids t c = kids s c" if "c < d" for c
    using that assms(3) assms(4)[of c] by (auto simp: gone_def)
  then have "node_at t (root s) q = Some d" using node_at_above[OF assms(1) _ assms(2)] by blast
  then show ?thesis using assms(3) by (simp add: gone_def same_settings_def)
qed

text \<open>Removing the last row of a level, below which \<open>v\<close> has been cleared or not.\<close>

lemma remove_last_row:
  assumes wf: "wf u" and d: "node_at u (root u) q = Some d" "owns u d a" "length (kids u d) = Suc n"
    and k: "k = kids u d ! n" and v: "gone u k E v" "\<And>c. E c \<Longrightarrow> below u k c" 
      "\<And>c. doomed v k c \<or> E c \<longleftrightarrow> doomed u k c"
  shows "\<exists>w it b. scp_tree_store_remove v (mk_iter v a (int n)) = Some (w, it, b) \<and> gone u d (doomed u k) w \<and>
    kids w d = take n (kids u d) \<and> (0 < n \<longrightarrow> owns w d a) \<and> node_at w (root w) q = Some d"
proof -
  have kin: "k \<in> set (kids u d)" using d(3) k by simp
  have dk: "d < k" by (rule kids_less[OF wf kin])
  have Eg: "k < c" if "E c" for c using below_less[OF wf v(2)[OF that]] .
  have wfv: "wf v" using v(1) by (simp add: gone_def)
  have kd: "kids v d = kids u d" using v(1) dk Eg[of d] by (auto simp: gone_def)
  have same: "kids v c = kids u c" if "c < k" for c using v(1) that Eg[of c] by (auto simp: gone_def)
  have eld: "elems v d = elems u d" using v(1) dk Eg[of d] by (auto simp: gone_def)
  have nv: "node_at v (root v) q = Some d"
  proof -
    have "node_at v (root u) q = Some d" by (rule node_at_above[OF wf _ d(1)]) (use same dk in auto)
    then show ?thesis using v(1) by (simp add: gone_def same_settings_def)
  qed
  obtain y where y: "elems u d = Some y" "ae_children y = Some a" using d(2) by (auto simp: owns_def)
  have pt: "points_to v (mk_iter v a (int n)) (q @ [int n])"
    by (rule points_to_intro[OF wfv nv _ y(2), of _ k]) (use y eld kd k d(3) in \<open>auto simp: nth_int_def\<close>)
  obtain w it b where w: "scp_tree_store_remove v (mk_iter v a (int n)) = Some (w, it, b)" "removed v d n w"
    using remove_spec[OF wfv pt nv] by auto
  have vk: "kids v d ! n = k" using kd k by simp
  have kw: "kids w = pruned v d k n" using w(2) vk by (simp add: removed_def)
  have ndd: "\<not> doomed v k d" using doomed_ge[OF wfv, of k d] dk by auto
  have g: "gone u d (doomed u k) w"
    unfolding gone_def
  proof (intro conjI allI impI)
    show "wf w" "same_settings u w" "next_addr w = next_addr u"
      using w(2) v(1) same_settings_trans by (auto simp: removed_def gone_def)
    show "elems w c = None \<longleftrightarrow> elems u c = None \<or> doomed u k c" for c
      using w(2) v(1) v(3)[of c] vk by (auto simp: removed_def gone_def)
    fix c assume c: "\<not> doomed u k c"
    then have c': "\<not> doomed v k c" "\<not> E c" using v(3)[of c] by auto
    have ck: "c \<noteq> k" using c by (auto simp: doomed_def)
    show "row w c = row u c" using w(2) v(1) c' vk by (simp add: removed_def gone_def)
    show "kids w c = kids u c" if "c \<noteq> d" using v(1) c' ck that by (simp add: kw pruned_def gone_def)
    show "elems w c = elems u c" if "c \<noteq> d" using w(2) v(1) c' ck that vk by (simp add: removed_def gone_def)
  qed
  have take: "kids w d = take n (kids u d)"
    using ndd kd d(3) by (simp add: kw pruned_def remove_index_def)
  have "owns w d a" if "0 < n"
  proof -
    have "kids w d \<noteq> []" using take that d(3) by auto
    then have "elems w d = elems v d" using w(2) ndd vk by (simp add: removed_def)
    then show ?thesis using d(2) eld by (simp add: owns_def)
  qed
  moreover have "node_at w (root w) q = Some d"
  proof (rule gone_node[OF wf d(1) g])
    show "d < c" if "doomed u k c" for c using doomed_ge[OF wf that] dk by simp
  qed
  ultimately show ?thesis using w(1) g take by blast
qed

definition clears :: "nat \<Rightarrow> bool \<Rightarrow> bool" where
  "clears f em \<longleftrightarrow> (\<forall>s q d x. wf s \<longrightarrow> node_at s (root s) q = Some d \<longrightarrow> elems s d = Some x \<longrightarrow> next_addr s \<le> f + d \<longrightarrow>
     (\<exists>t. scp_clear_array f (ae_children x) em s = Some t \<and> gone s d (below s d) t \<and> kids t d = []))"

text \<open>The subtree of the last row, when its rows are announced too.\<close>

lemma clear_row:
  assumes wf: "wf u" and d: "node_at u (root u) q = Some d" "owns u d a" "length (kids u d) = Suc n" "next_addr u \<le> Suc f + d"
    and em: "em \<Longrightarrow> clears f True" and k: "k = kids u d ! n"
  shows "\<exists>v E. (if em then do { e \<leftarrow> elem_at u a (int n); c \<leftarrow> children_of e u; scp_clear_array f c True u } else Some u) = Some v \<and>
    gone u k E v \<and> (\<forall>c. E c \<longrightarrow> below u k c) \<and> (\<forall>c. doomed v k c \<or> E c \<longleftrightarrow> doomed u k c)"
proof (cases em)
  case False
  then show ?thesis using gone_refl[OF wf] by auto
next
  case True
  obtain y where y: "elems u d = Some y" "ae_children y = Some a" using d(2) by (auto simp: owns_def)
  have kk: "nth_int (kids u d) (int n) = Some k" using d(3) k by (simp add: nth_int_def)
  have kin: "k \<in> set (kids u d)" by (rule nth_int_in_set[OF kk])
  obtain z where z: "elems u k = Some z" using kids_parent[OF wf kin] by blast
  have e: "elem_at u a (int n) = Some k" using wf_children(1)[OF wf y] kk by (simp add: elem_at_def)
  have "node_at u (root u) (q @ [int n]) = Some k" using d(1) kk by (simp add: node_at_snoc)
  moreover have "next_addr u \<le> f + k" using kids_less[OF wf kin] d(4) by simp
  ultimately obtain v where v: "scp_clear_array f (ae_children z) True u = Some v" "gone u k (below u k) v" "kids v k = []"
    using em[OF True] wf z unfolding clears_def by blast
  have "doomed v k c \<longleftrightarrow> c = k" for c using v(3) by (simp add: doomed_unfold[of v k c])
  then have "doomed v k c \<or> below u k c \<longleftrightarrow> doomed u k c" for c by (auto simp: doomed_def)
  with v(1,2) True e z show ?thesis by (auto simp: children_of_def)
qed

lemma below_doomed: "below s d c \<longleftrightarrow> (\<exists>k\<in>set (kids s d). doomed s k c)"
  using below_unfold[of s d c] by (auto simp: doomed_def)

lemma clear_loop:
  assumes em: "em \<Longrightarrow> clears f True"
    and F: "F = (\<lambda>i s. do {
      s \<leftarrow> (if em then do { e \<leftarrow> elem_at s a (int i); c \<leftarrow> children_of e s; scp_clear_array f c True s } else Some s);
      (s, _, _) \<leftarrow> scp_tree_store_remove s (mk_iter s a (int i));
      Some s })"
  shows "wf u \<Longrightarrow> node_at u (root u) q = Some d \<Longrightarrow> length (kids u d) = n \<Longrightarrow> (0 < n \<Longrightarrow> owns u d a) \<Longrightarrow>
    next_addr u \<le> Suc f + d \<Longrightarrow>
    \<exists>t. foldM F (rev [0..<n]) u = Some t \<and> gone u d (below u d) t \<and> kids t d = []"
proof (induction n arbitrary: u)
  case 0
  then have "below u d = (\<lambda>_. False)" by (auto simp: fun_eq_iff below_unfold[of u d])
  then show ?case using 0 gone_refl[of u d] by simp
next
  case (Suc n)
  note wf = Suc.prems(1) and d = Suc.prems(2) and len = Suc.prems(3) and own = Suc.prems(4)[OF zero_less_Suc]
  define k where "k = kids u d ! n"
  obtain v E where v: "(if em then do { e \<leftarrow> elem_at u a (int n); c \<leftarrow> children_of e u; scp_clear_array f c True u } else Some u) = Some v"
    "gone u k E v" "\<And>c. E c \<Longrightarrow> below u k c" "\<And>c. doomed v k c \<or> E c \<longleftrightarrow> doomed u k c"
    using clear_row[OF wf d own len Suc.prems(5) em k_def] by blast
  obtain w it b where w: "scp_tree_store_remove v (mk_iter v a (int n)) = Some (w, it, b)" "gone u d (doomed u k) w"
    "kids w d = take n (kids u d)" "0 < n \<Longrightarrow> owns w d a" "node_at w (root w) q = Some d"
    using remove_last_row[OF wf d own len k_def v(2-4)] by blast
  have Fn: "F n u = Some w" unfolding F using v(1) w(1) by simp
  have "\<exists>t. foldM F (rev [0..<n]) w = Some t \<and> gone w d (below w d) t \<and> kids t d = []"
    by (rule Suc.IH) (use w len Suc.prems(5) in \<open>auto simp: gone_def\<close>)
  then obtain t where t: "foldM F (rev [0..<n]) w = Some t" "gone w d (below w d) t" "kids t d = []" by blast
  have split: "kids u d = take n (kids u d) @ [k]"
    using len by (metis append_take_drop_id drop_eq_Nil k_def lessI order_refl take_Suc_conv_app_nth take_all)
  have same: "doomed w c = doomed u c" if c: "c \<in> set (take n (kids u d))" for c
  proof (rule doomed_cong)
    fix b assume b: "doomed u c b"
    have cin: "c \<in> set (kids u d)" "k \<in> set (kids u d)" "c \<noteq> k"
      using c split kids_distinct[OF wf, of d] by (metis in_set_takeD, metis in_set_conv_decomp, metis distinct_append disjoint_iff list.set_intros(1))
    have "\<not> doomed u k b" using siblings_disjoint[OF wf cin(1,2) b] cin(3) by blast
    moreover have "b \<noteq> d" using doomed_ge[OF wf b] kids_less[OF wf cin(1)] by simp
    ultimately show "kids w b = kids u b" using w(2) by (simp add: gone_def)
  qed
  have "doomed u k c \<or> below w d c \<longleftrightarrow> below u d c" for c
  proof -
    have "below w d c \<longleftrightarrow> (\<exists>b\<in>set (take n (kids u d)). doomed u b c)"
      using same w(3) by (simp add: below_doomed[of w d c])
    moreover have "below u d c \<longleftrightarrow> (\<exists>b\<in>set (take n (kids u d) @ [k]). doomed u b c)"
      using split below_doomed[of u d c] by simp
    ultimately show ?thesis by auto
  qed
  then have "gone u d (below u d) t" using gone_trans[OF w(2) t(2)] by simp
  then show ?case using Fn t by auto
qed

lemma clears_step: "(em \<Longrightarrow> clears f True) \<Longrightarrow> clears (Suc f) em"
  unfolding clears_def
proof (intro allI impI)
  fix s q d x
  assume em: "em \<Longrightarrow> \<forall>s q d x. wf s \<longrightarrow> node_at s (root s) q = Some d \<longrightarrow> elems s d = Some x \<longrightarrow> next_addr s \<le> f + d \<longrightarrow>
     (\<exists>t. scp_clear_array f (ae_children x) True s = Some t \<and> gone s d (below s d) t \<and> kids t d = [])"
    and s: "wf s" "node_at s (root s) q = Some d" "elems s d = Some x" "next_addr s \<le> Suc f + d"
  show "\<exists>t. scp_clear_array (Suc f) (ae_children x) em s = Some t \<and> gone s d (below s d) t \<and> kids t d = []"
  proof (cases "ae_children x")
    case None
    then have "kids s d = []" using s(3) by (simp add: kids_def)
    moreover from this have "below s d = (\<lambda>_. False)" by (auto simp: fun_eq_iff below_unfold[of s d])
    ultimately show ?thesis using None gone_refl[OF s(1)] by simp
  next
    case (Some a)
    have "owns s d a" using s(3) Some by (simp add: owns_def)
    moreover have "arrays s a = Some (kids s d)" by (rule wf_children(1)[OF s(1,3) Some])
    moreover have "em \<Longrightarrow> clears f True" using em by (simp add: clears_def)
    ultimately show ?thesis
      using clear_loop[of em f, OF _ refl s(1,2) refl _ s(4), of a] Some by simp
  qed
qed

lemma clears_all: "clears f True"
proof (induction f)
  case 0
  show ?case unfolding clears_def
  proof (intro allI impI)
    fix s :: store and q d x
    assume "wf s" "elems s d = Some x" "next_addr s \<le> 0 + d"
    then show "\<exists>t. scp_clear_array 0 (ae_children x) True s = Some t \<and> gone s d (below s d) t \<and> kids t d = []"
      using wf_elem_bound[of s d x] by simp
  qed
qed (rule clears_step)

lemma clear_array_spec:
  assumes "wf s" "node_at s (root s) q = Some d" "elems s d = Some x"
  shows "\<exists>t. scp_clear_array (next_addr s) (ae_children x) em s = Some t \<and> gone s d (below s d) t \<and> kids t d = []"
proof -
  obtain n where n: "next_addr s = Suc n" using wf_elem_bound[OF assms(1,3)] by (cases "next_addr s") auto
  have "clears (Suc n) em" by (rule clears_step) (rule clears_all)
  then show ?thesis using assms n unfolding clears_def by simp
qed

lemma next_stamp_fresh: "next_stamp w \<noteq> 0" "next_stamp w \<noteq> w"
proof -
  have "w + 2 \<noteq> 0" if "w + 1 = 0"
  proof -
    have "w = -1" using that by (simp add: eq_neg_iff_add_eq_0)
    then show ?thesis by simp
  qed
  then show "next_stamp w \<noteq> 0" "next_stamp w \<noteq> w" by (auto simp: next_stamp_def)
qed

lemma wf_stamp_change:
  assumes "wf s" "w \<noteq> 0"
  shows "wf (s\<lparr>stamp := w\<rparr>)" "kids (s\<lparr>stamp := w\<rparr>) = kids s"
proof -
  let ?t = "s\<lparr>stamp := w\<rparr>"
  have k: "kids ?t = kids s" "owns ?t = owns s" "child_of ?t = child_of s"
    by (rule kids_same owns_same child_of_same; simp)+
  then show "kids ?t = kids s" by blast
  show "wf ?t" using assms unfolding wf_def k by simp
qed

text \<open>
  C28: Clearing the children of a row, or all rows, frees exactly what lies below and leaves every other
  row and level alone, whether or not the rows of the deeper levels are announced. When all rows are
  cleared the stamp changes, and never to zero, so every old iterator is invalid.
\<close>

theorem scp_tree_store_clear_children_correct:
  assumes "wf s" and "parent_at s parent q d"
  shows "\<exists>t. scp_tree_store_clear_children s parent emit_subsignals = Some t \<and> wf t \<and> kids t d = [] \<and>
    (\<forall>c. elems t c = None \<longleftrightarrow> elems s c = None \<or> below s d c) \<and>
    (\<forall>c. \<not> below s d c \<longrightarrow> row t c = row s c \<and> (c \<noteq> d \<longrightarrow> kids t c = kids s c)) \<and>
    (if parent = None then \<forall>it p. points_to s it p \<longrightarrow> \<not> VALID_ITER it t else stamp t = stamp s)"
proof -
  obtain x where x: "elems s d = Some x" using parent_elem_at(3)[OF assms] by blast
  have n: "node_at s (root s) q = Some d" using assms(2) by (simp add: parent_at_def)
  obtain u where u: "scp_clear_array (next_addr s) (ae_children x) emit_subsignals s = Some u"
    "gone s d (below s d) u" "kids u d = []"
    using clear_array_spec[OF assms(1) n x] by blast
  let ?t = "if parent = None then u\<lparr>stamp := next_stamp (stamp u)\<rparr> else u"
  have run: "scp_tree_store_clear_children s parent emit_subsignals = Some ?t"
    using parent_elem_at(1,2)[OF assms] x u(1) by (simp add: scp_tree_store_clear_children_def children_of_def)
  have w: "wf u" "stamp u = stamp s" using u(2) by (auto simp: gone_def same_settings_def)
  have t: "wf ?t" "kids ?t = kids u" "elems ?t = elems u" "row ?t = row u"
    using wf_stamp_change[OF w(1) next_stamp_fresh(1)] w(1) by (auto simp: row_def fun_eq_iff)
  have "if parent = None then \<forall>it p. points_to s it p \<longrightarrow> \<not> VALID_ITER it ?t else stamp ?t = stamp s"
    using w(2) next_stamp_fresh(2)[of "stamp s"] by (auto simp: points_to_def VALID_ITER_def)
  then show ?thesis
    using run t u(2,3) unfolding gone_def by (intro exI[of _ ?t] conjI) simp_all
qed

theorem scp_tree_store_clear_children_correct_witness:
  "\<exists>t. scp_tree_store_clear_children demo (Some (demo_iter 1)) True = Some t \<and> wf t \<and> kids t 4 = [] \<and> elems t 7 = None \<and> kids t 0 = [3, 4, 5]"
proof -
  have "parent_at demo (Some (demo_iter 1)) [1] 4"
    using demo_points_to(1)[of 1] by (simp add: parent_at_def demo_kids nth_int_def)
  moreover have "below demo 4 7" by (simp add: below_unfold[of demo 4 7] demo_kids)
  moreover have "\<not> below demo 4 0" using below_less[OF demo_wf, of 4 0] by auto
  ultimately show ?thesis
    using scp_tree_store_clear_children_correct[OF demo_wf, of "Some (demo_iter 1)" "[1]" 4 True] by (auto simp: demo_kids)
qed

end
