(* ===== verification/ScpReach.thy ===== *)
theory ScpReach
  imports ScpClear
begin

text \<open>
  Setting cells in a sorted store, the sort function that is taken away, and the stores a client can
  reach from a new one.
\<close>

text \<open>
  C26: Setting cells of a row in a sorted level keeps the level sorted: the row has the new cells, it moves
  to where it belongs, the iterator follows it, and no other row changes.
\<close>

theorem scp_tree_store_set_values_sorted:
  assumes "wf s" and "points_to s it (q @ [i])" and "node_at s (root s) q = Some d"
    and "store_compare G s = Some cmp" and "comparator cmp D" and "\<forall>c\<in>set (kids s d). row s c \<in> D"
    and "put_cells G s cvs (row s (kids s d ! nat i)) \<in> D" and "comparator.ascending cmp (map (row s) (kids s d))"
    and "custom_sort s \<or> sort_column_id s \<in> fst ` set (valid_cells s cvs)"
  shows "\<exists>t j. scp_tree_store_set_valuesv G s it cvs = Some (t, it\<lparr>it_index := j\<rparr>) \<and>
    points_to t (it\<lparr>it_index := j\<rparr>) (q @ [j]) \<and>
    cells_set s d (nat i) (put_cells G s cvs (row s (kids s d ! nat i))) (nat j) t \<and>
    comparator.ascending cmp (map (row t) (kids t d))"
  using set_valuesv_sorted[OF assms] by blast

theorem scp_tree_store_set_values_sorted_witness:
  "\<exists>t j. scp_tree_store_set_valuesv demo_glib sorted_demo (demo_iter 0) [(0, \<lparr>gv_type = hdr_type demo_header, gv_data = V_int 25\<rparr>)]
      = Some (t, (demo_iter 0)\<lparr>it_index := j\<rparr>) \<and> row t 3 = [V_int 25] \<and>
    comparator.ascending (scp_tree_store_compare_func demo_glib demo_header 0) (map (row t) (kids t 0))"
proof -
  let ?v = "\<lparr>gv_type = hdr_type demo_header, gv_data = V_int 25\<rparr>"
  have p: "points_to sorted_demo (demo_iter 0) ([] @ [0])" "node_at sorted_demo (root sorted_demo) [] = Some 0"
    using demo_points_to(1)[of 0] sorted_demo_points_to by (simp_all add: sorted_demo_def)
  have put: "put_cells demo_glib sorted_demo [(0, ?v)] [V_int 10] = [V_int 25]"
    by (simp add: put_cell_def sorted_demo_def demo_def demo_glib_def demo_header_def
        scp_tree_data_from_value_def scp_tree_data_get_fundamental_type_simp read_as_def)
  have asc: "comparator.ascending (scp_tree_store_compare_func demo_glib demo_header 0)
      (map (row sorted_demo) (kids sorted_demo 0))"
    by (simp add: sorted_demo_kids demo_kids sorted_demo_rows comparator.ascending_def[OF sorted_demo_comparator]
        demo_cells scp_compare_def)
  have c: "sort_column_id sorted_demo \<in> fst ` set (valid_cells sorted_demo [(0, ?v)])"
    by (simp add: valid_cells_def sorted_demo_def)
  from scp_tree_store_set_values_sorted[OF sorted_demo_wf p sorted_demo_compare sorted_demo_comparator, of "[(0, ?v)]"]
  show ?thesis using asc put c by (auto simp: cells_set_def sorted_demo_kids demo_kids sorted_demo_rows)
qed

lemma sort_element_null:
  assumes "wf s" "points_to s it (q @ [i])" "node_at s (root s) q = Some d" "2 \<le> length (kids s d)" "sort_func s = None"
  shows "scp_sort_element G s it em = None"
proof -
  obtain a e where *: "it = mk_iter s a i" "arrays s a = Some (kids s d)" "nth_int (kids s d) i = Some e"
    using assms(1,2) by (rule points_toE) (use assms(3) in auto)
  have no: "store_compare G s = None" using assms(5) by (cases "header_at s (sort_column_id s)") (auto simp: store_compare_def)
  have "it_array it = Some a" "it_index it = i" using *(1) by simp_all
  moreover have "do { r \<leftarrow> row_at s a i; q \<leftarrow> row_at s a k; cmp \<leftarrow> store_compare G s; Some (cmp r q) } = None" for k
    using no by (cases "row_at s a i"; cases "row_at s a k") auto
  ultimately show ?thesis
    using *(2,3) assms(4) unfolding scp_sort_element_def
    by (cases "header_at s (sort_column_id s)") (auto simp: Let_def nth_int_Some)
qed

text \<open>
  C37: Taking the sort function away from the column a store is sorted by leaves the column as the sort
  column. Setting a cell of that column then calls the missing function, as soon as its level has
  another row to compare with.
\<close>

theorem scp_tree_store_null_sort_func_crash:
  assumes "wf s" and "0 \<le> column" and "column < int (n_columns s)" and "sort_column_id s = column"
    and "scp_tree_store_set_sort_func G s column None data destroy = Some t"
    and "points_to s it (q @ [i])" and "node_at s (root s) q = Some d" and "2 \<le> length (kids s d)"
  shows "scp_tree_store_set_value G t it column v = None"
proof -
  obtain u where u: "scp_tree_data_set_header s column None data destroy = Some u"
    using assms(5) by (auto simp: scp_tree_store_set_sort_func_def bind_eq_Some_conv)
  obtain h where h: "header_at s column = Some h" using assms(1-3) header_at_nth wf_headers by simp
  have "same_tree s u" "sort_column_id u = column"
    using u assms(2,4) h by (auto simp: scp_tree_data_set_header_def same_tree_def emit_def Let_def split: if_splits)
  moreover from this have "t = u\<lparr>sort_func := None\<rparr>"
    using assms(5) u by (simp add: scp_tree_store_set_sort_func_def scp_store_sort_def)
  ultimately have st: "same_tree s t" "sort_column_id t = column" "sort_func t = None"
    by (simp_all add: same_tree_def)
  note eq = same_tree_simps[OF st(1)]
  have wft: "wf t" and itt: "points_to t it (q @ [i])" and dt: "node_at t (root t) q = Some d" and k: "kids t = kids s"
    using eq assms(1,6,7) st(1) by (simp_all add: same_tree_def)
  let ?e = "kids t d ! nat i" let ?cvs = "[(column, v)]" let ?r = "put_cells G t ?cvs (row t ?e)" let ?u = "set_row ?e ?r t"
  obtain x where x: "elems t ?e = Some x" "?e \<noteq> root t" "ITER_ELEM it t = Some ?e" "VALID_ITER it t"
    using row_not_root[OF wft dt itt] by blast
  have len: "length ?r = n_columns t" unfolding length_put_cells using row_length[OF wft x(1,2)] .
  have "sort_column_id t \<in> fst ` set (valid_cells t ?cvs)"
    using assms(2,3) st by (simp add: valid_cells_def same_tree_def)
  then obtain c where vec: "scp_set_vector G t ?e False False ?cvs = Some (?u, c, True)"
    using set_vector_spec[OF wft x(1,2), of G ?cvs] by auto
  have "scp_sort_element G ?u it True = None"
    by (rule sort_element_null) (use wf_set_row[OF wft x(1) len] points_to_set_row[OF wft x(1) len] itt dt k assms(8) st(3) in auto)
  then show ?thesis
    using x(3,4) vec by (simp add: scp_tree_store_set_value_def scp_tree_store_set_valuesv_def scp_set_values_signals_def)
qed

theorem scp_tree_store_null_sort_func_crash_witness:
  "\<exists>t. scp_tree_store_set_sort_func demo_glib sorted_demo 0 None 0 False = Some t \<and>
    scp_tree_store_set_value demo_glib t (demo_iter 1) 0 \<lparr>gv_type = hdr_type demo_header, gv_data = V_int 5\<rparr> = None"
proof -
  have "\<exists>t. scp_tree_store_set_sort_func demo_glib sorted_demo 0 None 0 False = Some t"
    by (simp add: scp_tree_store_set_sort_func_def scp_tree_data_set_header_def header_at_def sorted_demo_def
        nth_int_def demo_header_def scp_store_sort_def)
  moreover have "points_to sorted_demo (demo_iter 1) ([] @ [1])" "node_at sorted_demo (root sorted_demo) [] = Some 0"
    using demo_points_to(1)[of 1] sorted_demo_points_to by (simp_all add: sorted_demo_def)
  ultimately show ?thesis
    using scp_tree_store_null_sort_func_crash[OF sorted_demo_wf, of 0 demo_glib 0 False _ "demo_iter 1" "[]" 1 0]
    by (auto simp: sorted_demo_kids demo_kids) (auto simp: sorted_demo_def)
qed

subsection \<open>Reachable stores\<close>

lemma sort_element_shuffled:
  assumes "wf s" "points_to s it (q @ [i])" "node_at s (root s) q = Some d" "scp_sort_element G s it em = Some (t, it')"
  shows "wf t"
proof (cases "store_compare G s")
  case (Some cmp)
  then show ?thesis using sort_element_total[OF assms(1-3) Some, of em] assms(4) by (auto simp: reordered_def)
next
  case None
  have "do { r \<leftarrow> row_at s a i; q \<leftarrow> row_at s a k; cmp \<leftarrow> store_compare G s; Some (cmp r q) } = None" for a i k
    using None by (cases "row_at s a i"; cases "row_at s a k") auto
  then have "t = s" using assms(4) unfolding scp_sort_element_def by (auto simp: bind_eq_Some_conv Let_def split: if_splits)
  then show ?thesis using assms(1) by simp
qed

lemma set_valuesv_wf:
  assumes wf: "wf s" and it: "points_to s it (q @ [i])" and d: "node_at s (root s) q = Some d"
    and t: "scp_tree_store_set_valuesv G s it cvs = Some (t, it')"
  shows "wf t"
proof -
  let ?e = "kids s d ! nat i" let ?r = "put_cells G s cvs (row s ?e)" let ?u = "set_row ?e ?r s"
  obtain x where x: "elems s ?e = Some x" "?e \<noteq> root s" "ITER_ELEM it s = Some ?e" "VALID_ITER it s"
    using row_not_root[OF wf d it] by blast
  have len: "length ?r = n_columns s" unfolding length_put_cells using row_length[OF wf x(1,2)] .
  note w = wf_set_row[OF wf x(1) len] points_to_set_row[OF wf x(1) len]
  obtain c so where vec: "scp_set_vector G s ?e False False cvs = Some (?u, c, so)"
    using set_vector_spec[OF wf x(1,2), of G cvs] by blast
  then have sig: "scp_set_values_signals G ?u it c so = Some (t, it')"
    using t x(3,4) by (simp add: scp_tree_store_set_valuesv_def)
  then obtain v itv where v: "(if so then scp_sort_element G ?u it True else Some (?u, it)) = Some (v, itv)" "same_tree v t"
    by (auto simp: scp_set_values_signals_def bind_eq_Some_conv split: if_splits)
  have "wf v"
  proof (cases so)
    case True
    then show ?thesis
      using sort_element_shuffled[OF w(1), of it q i d G True v itv] v(1) w it d by simp
  next
    case False
    then show ?thesis using v(1) w(1) by simp
  qed
  then show ?thesis using same_tree_simps(5)[OF v(2)] by simp
qed

lemma store_sort_wf:
  assumes "wf s" "qsort_ok G" "scp_store_sort G s = Some t"
  shows "wf t"
proof (cases "sort_func s = None")
  case True
  then show ?thesis using assms by (simp add: scp_store_sort_def)
next
  case False
  have p: "parent_at s None [] (root s)" by (simp add: parent_at_def)
  show ?thesis
  proof (cases "store_compare G s")
    case (Some cmp)
    obtain u where "scp_sort_children (next_addr s) G None s = Some u" "sorted_below s (\<lambda>_. True) (root s) u"
      using sort_children_spec[where P = "\<lambda>_. True" and D = UNIV, OF assms(2) _ _ assms(1) p Some, of "next_addr s"] by auto
    then show ?thesis using assms(3) False by (auto simp: scp_store_sort_def sorted_below_def shuffled_def)
  next
    case None
    obtain n where n: "next_addr s = Suc n" using wf_root[OF assms(1)] wf_elem_bound[OF assms(1)] by (cases "next_addr s") fastforce+
    then show ?thesis
      using assms(1,3) False None by (auto simp: scp_store_sort_def bind_eq_Some_conv Let_def split: option.splits if_splits)
  qed
qed

lemma reorder_wf:
  assumes "wf s" "parent_at s parent q d" "mset order = mset [0..int (length (kids s d)) - 1]"
    "scp_tree_store_reorder s parent order = Some t"
  shows "wf t"
proof -
  obtain x where x: "elems s d = Some x" using parent_elem_at(3)[OF assms(1,2)] by blast
  show ?thesis
    using assms(1,4) parent_elem_at(1,2)[OF assms(1,2)] x reorder_array_spec[OF assms(1,2) x _ assms(3)]
    by (cases "ae_children x") (auto simp: scp_tree_store_reorder_def children_of_def reordered_def split: if_splits)
qed

lemma insert_with_values_wf:
  assumes "wf s" "parent_at s parent q d" "sublevels s \<or> parent = None" "sort_ready G s"
    "p \<le> length (kids s d)" "position = int p \<or> position = -1 \<and> p = length (kids s d)"
    "scp_tree_store_insert_with_valuesv G s it0 parent position cvs = Some (t, it)"
  shows "wf t"
  using insert_with_values_spec[OF assms(1-6), of it0 cvs] assms(7) by (auto simp: inserted_def)

text \<open>
  The operations a client may call, with iterators and paths that are valid. The sort function of a
  sorted store can be called when rows are inserted.
\<close>

inductive scp_step :: "glib \<Rightarrow> store \<Rightarrow> store \<Rightarrow> bool" for G where
  step_insert: "parent_at s parent q d \<Longrightarrow> sublevels s \<or> parent = None \<Longrightarrow> sort_ready G s \<Longrightarrow> p \<le> length (kids s d) \<Longrightarrow>
    position = int p \<or> position = -1 \<and> p = length (kids s d) \<Longrightarrow>
    scp_tree_store_insert G s it0 parent position = Some (t, it) \<Longrightarrow> scp_step G s t"
| step_insert_values: "parent_at s parent q d \<Longrightarrow> sublevels s \<or> parent = None \<Longrightarrow> sort_ready G s \<Longrightarrow> p \<le> length (kids s d) \<Longrightarrow>
    position = int p \<or> position = -1 \<and> p = length (kids s d) \<Longrightarrow>
    scp_tree_store_insert_with_valuesv G s it0 parent position cvs = Some (t, it) \<Longrightarrow> scp_step G s t"
| step_set_values: "points_to s it (q @ [i]) \<Longrightarrow> scp_tree_store_set_valuesv G s it cvs = Some (t, it') \<Longrightarrow> scp_step G s t"
| step_remove: "points_to s it (q @ [i]) \<Longrightarrow> scp_tree_store_remove s it = Some (t, it', again) \<Longrightarrow> scp_step G s t"
| step_clear: "parent_at s parent q d \<Longrightarrow> scp_tree_store_clear_children s parent emit_subsignals = Some t \<Longrightarrow> scp_step G s t"
| step_move: "sort_func s = None \<Longrightarrow> points_to s it (q @ [i]) \<Longrightarrow> node_at s (root s) q = Some d \<Longrightarrow>
    0 \<le> j \<Longrightarrow> j < int (length (kids s d)) \<Longrightarrow> scp_tree_store_move s it j = Some (t, it') \<Longrightarrow> scp_step G s t"
| step_swap: "points_to s a (q @ [i]) \<Longrightarrow> points_to s b (q @ [j]) \<Longrightarrow> i \<noteq> j \<Longrightarrow>
    scp_tree_store_swap s a b = Some t \<Longrightarrow> scp_step G s t"
| step_reorder: "parent_at s parent q d \<Longrightarrow> mset order = mset [0..int (length (kids s d)) - 1] \<Longrightarrow>
    scp_tree_store_reorder s parent order = Some t \<Longrightarrow> scp_step G s t"
| step_sort_column: "scp_tree_store_set_sort_column_id G s column order = Some t \<Longrightarrow> scp_step G s t"
| step_sort_func: "-1 \<le> column \<Longrightarrow> scp_tree_store_set_sort_func G s column func data destroy = Some t \<Longrightarrow> scp_step G s t"
| step_read: "scp_tree_store_get_iter s it0 p = Some (t, it, found) \<Longrightarrow> scp_step G s t"
| step_property: "scp_tree_store_set_property s pid v = Some t \<Longrightarrow> scp_step G s t"

lemma set_header_wf:
  assumes "wf s" "scp_tree_data_set_header s column func data destroy = Some t"
  shows "wf t"
proof -
  obtain h where h: "header_at s column = Some h"
    using assms(2) by (auto simp: scp_tree_data_set_header_def bind_eq_Some_conv)
  then have "same_tree s t"
    using assms(2) by (auto simp: scp_tree_data_set_header_def same_tree_def emit_def Let_def split: if_splits)
  then show ?thesis using assms(1) same_tree_simps(5) by simp
qed

lemma wf_same: "same_tree s t \<Longrightarrow> wf s \<Longrightarrow> wf t"
  using same_tree_simps(5) by simp

lemma node_of_points_to: "points_to s it (q @ [i]) \<Longrightarrow> \<exists>d. node_at s (root s) q = Some d"
  by (auto simp: points_to_def)

text \<open>The operations that have no lemma on the tree of their own.\<close>

lemma clear_children_wf:
  assumes "wf s" "parent_at s parent q d" "scp_tree_store_clear_children s parent emit_subsignals = Some t"
  shows "wf t"
proof -
  obtain x where x: "elems s d = Some x" using parent_elem_at(3)[OF assms(1,2)] by blast
  have n: "node_at s (root s) q = Some d" using assms(2) by (simp add: parent_at_def)
  obtain u where "scp_clear_array (next_addr s) (ae_children x) emit_subsignals s = Some u" "wf u"
    using clear_array_spec[OF assms(1) n x, of emit_subsignals] by (auto simp: gone_def)
  then show ?thesis
    using assms(3) parent_elem_at(1,2)[OF assms(1,2)] x wf_stamp_change(1)[OF _ next_stamp_fresh(1)]
    by (auto simp: scp_tree_store_clear_children_def children_of_def split: if_splits)
qed

lemma set_sort_column_wf:
  assumes "wf s" "qsort_ok G" "scp_tree_store_set_sort_column_id G s column order = Some t"
  shows "wf t"
proof (cases "sort_column_id s = column \<and> sort_order s = order")
  case True
  then show ?thesis using assms by (simp add: scp_tree_store_set_sort_column_id_def)
next
  case False
  then obtain func where f: "(case func of None \<Rightarrow> Some s | Some func \<Rightarrow>
      scp_store_sort G (emit Sort_Column_Changed (s\<lparr>sort_func := func, sort_column_id := column, sort_order := order\<rparr>))) = Some t"
    using assms(3) by (auto simp: scp_tree_store_set_sort_column_id_def bind_eq_Some_conv)
  show ?thesis
  proof (cases func)
    case None
    then show ?thesis using f assms(1) by simp
  next
    case (Some g)
    then show ?thesis
      using f store_sort_wf[OF wf_same[OF same_tree_emit wf_settings(1)[OF assms(1)]] assms(2)] by simp
  qed
qed

lemma set_sort_func_wf:
  assumes "wf s" "qsort_ok G" "scp_tree_store_set_sort_func G s column func data destroy = Some t"
  shows "wf t"
proof -
  obtain u where u: "scp_tree_data_set_header s column func data destroy = Some u"
    "(if sort_column_id u = column then scp_store_sort G (u\<lparr>sort_func := func\<rparr>) else Some u) = Some t"
    using assms(3) by (auto simp: scp_tree_store_set_sort_func_def bind_eq_Some_conv)
  have "wf u" by (rule set_header_wf[OF assms(1) u(1)])
  moreover from this have "wf (u\<lparr>sort_func := func\<rparr>)" by (rule wf_same[rotated]) (simp add: same_tree_def)
  ultimately show ?thesis using u(2) store_sort_wf[OF _ assms(2)] by (auto split: if_splits)
qed

lemma get_iter_same: "wf s \<Longrightarrow> scp_tree_store_get_iter s it0 p = Some (t, it, found) \<Longrightarrow> same_tree s t"
  using get_iter_at[of s p it0]
  by (cases "p = []") (auto simp: scp_tree_store_get_iter_def bind_eq_Some_conv split: if_splits option.splits)

lemma set_property_same: "scp_tree_store_set_property s pid v = Some t \<Longrightarrow> same_tree s t"
  by (cases "(s, pid, v)" rule: scp_tree_store_set_property.cases)
    (auto simp: same_tree_def bind_eq_Some_conv split: if_splits)

lemma step_wf:
  assumes "scp_step G s t" "wf s" "qsort_ok G"
  shows "wf t"
  using assms(1)
proof cases
  case (step_insert parent q d p position it0 it)
  then show ?thesis
    using insert_element_spec[OF assms(2) step_insert(1-3), of "blank_elem s" p position it0]
    by (fastforce simp: scp_tree_store_insert_def blank_elem_def inserted_def alloc_elem_def with_fresh_def set_elem_def Let_def)
next
  case (step_insert_values parent q d p position it0 cvs it)
  then show ?thesis using insert_with_values_wf[OF assms(2)] by blast
next
  case (step_set_values it q i cvs it')
  then show ?thesis using set_valuesv_wf[OF assms(2)] node_of_points_to by blast
next
  case (step_remove it q i it' again)
  then show ?thesis using remove_spec[OF assms(2)] node_of_points_to[OF step_remove(1)] by (fastforce simp: removed_def)
next
  case (step_move it q i d j it')
  obtain a e where *: "it = mk_iter s a i" "arrays s a = Some (kids s d)"
    using assms(2) step_move(2) by (rule points_toE) (use step_move(3) in auto)
  then have "scp_move_element s a it j True = Some (t, it')"
    using step_move by (simp add: scp_tree_store_move_def VALID_ITER_def mk_iter_def)
  then show ?thesis
    using move_element_spec[OF assms(2) step_move(2,3) _ step_move(4,5), of a True] * by (auto simp: reordered_def)
next
  case (step_swap a q i b j)
  then show ?thesis using swap_spec[OF assms(2)] node_of_points_to by (fastforce simp: reordered_def)
next
  case (step_clear parent q d emit_subsignals)
  then show ?thesis using clear_children_wf[OF assms(2)] by blast
next
  case (step_reorder parent q d order)
  then show ?thesis using reorder_wf[OF assms(2)] by blast
next
  case (step_sort_column column order)
  then show ?thesis by (rule set_sort_column_wf[OF assms(2,3)])
next
  case (step_sort_func column func data destroy)
  then show ?thesis using set_sort_func_wf[OF assms(2,3)] by blast
next
  case (step_read it0 p it found)
  then show ?thesis using wf_same[OF get_iter_same] assms(2) by blast
next
  case (step_property pid v)
  then show ?thesis using wf_same[OF set_property_same] assms(2) by blast
qed



end
