(* ===== verification/ScpSearch.thy ===== *)
theory ScpSearch
  imports ScpReach
begin

text \<open>
  Searching: the binary and the linear search find the same on ascending levels and not on descending
  ones; and a traversal that never ends.
\<close>

subsection \<open>Searching\<close>

text \<open>
  What a search below \<open>d\<close> must return: whether one of the rows matches, and an iterator on a row that
  does.
\<close>

definition in_scope :: "store \<Rightarrow> bool \<Rightarrow> addr \<Rightarrow> addr \<Rightarrow> bool" where
  "in_scope s sub d e \<longleftrightarrow> (if sub then below s d e else e \<in> set (kids s d))"

definition found_below :: "store \<Rightarrow> bool \<Rightarrow> addr \<Rightarrow> (addr \<Rightarrow> bool) \<Rightarrow> (iter \<times> bool) option \<Rightarrow> bool" where
  "found_below s sub d match m \<longleftrightarrow> (\<exists>it b. m = Some (it, b) \<and>
     (b \<longleftrightarrow> (\<exists>e. in_scope s sub d e \<and> match e)) \<and>
     (b \<longrightarrow> (\<exists>e. ITER_ELEM it s = Some e \<and> match e \<and> in_scope s sub d e)))"

lemma below_step: "k \<in> set (kids s d) \<Longrightarrow> k = e \<or> below s k e \<Longrightarrow> below s d e"
  by (auto simp: below_unfold[of s d e])

lemma in_scope_all [simp]: "in_scope s True = below s"
  by (intro ext) (simp add: in_scope_def)

lemma in_scope_kid: "e \<in> set (kids s d) \<Longrightarrow> in_scope s sub d e"
  using below_step[of e s d e] by (simp add: in_scope_def)

lemma in_scope_below: "sub \<Longrightarrow> x \<in> set (kids s d) \<Longrightarrow> below s x e \<Longrightarrow> in_scope s sub d e"
  using below_step[of x s d e] by (simp add: in_scope_def)

lemma linear_loop_spec:
  assumes "arrays s a = Some ys" "ys = zs @ xs"
    and "\<forall>x\<in>set xs. probe x = Some (r x)" "\<And>x it. x \<in> set xs \<Longrightarrow>
      (if sub then found_below s True x (\<lambda>e. r e = 0) (down x it) else down x it = Some (it, False))"
    and "\<And>e. e \<in> set ys \<Longrightarrow> e \<in> set (kids s d)"
  shows "\<exists>it' b. linear_loop probe down a (int (length zs)) xs it = Some (it', b) \<and>
    (b \<longleftrightarrow> (\<exists>x\<in>set xs. r x = 0 \<or> sub \<and> (\<exists>e. below s x e \<and> r e = 0))) \<and>
    (b \<longrightarrow> (\<exists>e. ITER_ELEM it' s = Some e \<and> r e = 0 \<and> in_scope s sub d e))"
  using assms
proof (induction xs arbitrary: zs it)
  case Nil
  then show ?case by (auto intro!: exI[of _ False])
next
  case (Cons x xs)
  have x: "x \<in> set (kids s d)" "x \<in> set (x # xs)" using Cons.prems(2,5) by auto
  show ?case
  proof (cases "r x = 0")
    case True
    have "elem_at s a (int (length zs)) = Some x" using Cons.prems(1,2) by (simp add: elem_at_def nth_int_def)
    then have "ITER_ELEM (it\<lparr>it_array := Some a, it_index := int (length zs)\<rparr>) s = Some x" by (simp add: ITER_ELEM_def)
    then show ?thesis using True Cons.prems(3) in_scope_kid[OF x(1)] by auto
  next
    case False
    obtain it1 b where d: "down x it = Some (it1, b)" "b \<longleftrightarrow> sub \<and> (\<exists>e. below s x e \<and> r e = 0)"
      "b \<longrightarrow> (\<exists>e. ITER_ELEM it1 s = Some e \<and> r e = 0 \<and> below s x e)"
      using Cons.prems(4)[OF x(2), of it] by (cases sub) (auto simp: found_below_def)
    show ?thesis
    proof (cases b)
      case True
      then obtain e where e: "ITER_ELEM it1 s = Some e" "r e = 0" "below s x e" using d(3) by blast
      moreover have "below s d e" by (rule below_step[OF x(1)]) (simp add: e)
      ultimately show ?thesis using True d Cons.prems(3) False by auto
    next
      case b: False
      have "\<exists>it' b. linear_loop probe down a (int (length (zs @ [x]))) xs it1 = Some (it', b) \<and>
        (b \<longleftrightarrow> (\<exists>x\<in>set xs. r x = 0 \<or> sub \<and> (\<exists>e. below s x e \<and> r e = 0))) \<and>
        (b \<longrightarrow> (\<exists>e. ITER_ELEM it' s = Some e \<and> r e = 0 \<and> in_scope s sub d e))"
        by (rule Cons.IH) (use Cons.prems in auto)
      then show ?thesis using b d False Cons.prems(3) by (auto simp: add.commute)
    qed
  qed
qed

lemma first_found_spec:
  assumes "\<And>x it. x \<in> set xs \<Longrightarrow> found_below s True x match (down x it)" "set xs \<subseteq> set (kids s d)"
  shows "\<exists>it' b. first_found down xs it = Some (it', b) \<and> (b \<longleftrightarrow> (\<exists>x\<in>set xs. \<exists>e. below s x e \<and> match e)) \<and>
    (b \<longrightarrow> (\<exists>e. ITER_ELEM it' s = Some e \<and> match e \<and> below s d e))"
  using assms
proof (induction xs arbitrary: it)
  case (Cons x xs)
  obtain it1 b where d: "down x it = Some (it1, b)" "b \<longleftrightarrow> (\<exists>e. below s x e \<and> match e)"
    "b \<longrightarrow> (\<exists>e. ITER_ELEM it1 s = Some e \<and> match e \<and> below s x e)"
    using Cons.prems(1)[of x it] by (auto simp: found_below_def)
  show ?case
  proof (cases b)
    case True
    then obtain e where e: "ITER_ELEM it1 s = Some e" "match e" "below s x e" using d(3) by blast
    moreover have "below s d e" by (rule below_step[of x]) (use e Cons.prems(2) in auto)
    ultimately show ?thesis using True d by auto
  next
    case False
    then show ?thesis using d Cons.IH[of it1] Cons.prems by auto
  qed
qed (auto intro!: exI[of _ False])

lemma found_unfold: "(\<exists>e. in_scope s sub d e \<and> match e) \<longleftrightarrow>
    (\<exists>x\<in>set (kids s d). match x \<or> sub \<and> (\<exists>e. below s x e \<and> match e))"
  by (auto simp: in_scope_def below_unfold[of s d] split: if_splits)

lemma found_below_none: "kids s d = [] \<Longrightarrow> found_below s sub d match (Some (it, False))"
  unfolding found_below_def found_unfold by (rule exI[of _ it], rule exI[of _ False]) simp

lemma linear_search_spec:
  assumes wf: "wf s" and probe: "\<And>e. elems s e \<noteq> None \<Longrightarrow> e \<noteq> root s \<Longrightarrow> probe e = Some (r e)"
  shows "elems s d = Some x \<Longrightarrow> next_addr s \<le> f + d \<Longrightarrow>
    found_below s sub d (\<lambda>e. r e = 0) (scp_linear_search f s probe sub (ae_children x) it)"
proof (induction f arbitrary: d x sub it)
  case 0
  then show ?case using wf_elem_bound[OF wf 0(1)] by simp
next
  case (Suc f)
  show ?case
  proof (cases "ae_children x")
    case None
    then have "kids s d = []" using Suc.prems(1) by (simp add: kids_def)
    then show ?thesis using None by (simp add: found_below_none)
  next
    case (Some a)
    have a: "arrays s a = Some (kids s d)" by (rule wf_children(1)[OF wf Suc.prems(1) Some])
    let ?down = "\<lambda>x it. if sub then do { c \<leftarrow> children_of x s; scp_linear_search f s probe True c it } else Some (it, False)"
    have kid: "\<exists>y. elems s k = Some y" "k \<noteq> root s" "d < k" if "k \<in> set (kids s d)" for k
      using kids_parent[OF wf that] kids_neq_root[OF wf that] kids_less[OF wf that] by auto
    have down: "if sub then found_below s True k (\<lambda>e. r e = 0) (?down k it) else ?down k it = Some (it, False)"
      if k: "k \<in> set (kids s d)" for k it
    proof (cases sub)
      case True
      obtain y where y: "elems s k = Some y" using kid(1)[OF k] by blast
      have "next_addr s \<le> f + k" using kid(3)[OF k] Suc.prems(2) by simp
      from Suc.IH[OF y this, of True it] show ?thesis using True y by (simp add: children_of_def)
    qed simp
    have "\<exists>it' b. linear_loop probe ?down a (int (length ([] :: addr list))) (kids s d) it = Some (it', b) \<and>
      (b \<longleftrightarrow> (\<exists>x\<in>set (kids s d). r x = 0 \<or> sub \<and> (\<exists>e. below s x e \<and> r e = 0))) \<and>
      (b \<longrightarrow> (\<exists>e. ITER_ELEM it' s = Some e \<and> r e = 0 \<and> in_scope s sub d e))"
      by (rule linear_loop_spec[of s a "kids s d" "[]" "kids s d" probe r sub ?down d it, OF a _ _ down]) (use probe kid in auto)
    then show ?thesis using Some a unfolding found_below_def found_unfold by auto
  qed
qed

lemma binary_search_spec:
  assumes wf: "wf s" and probe: "\<And>e. elems s e \<noteq> None \<Longrightarrow> e \<noteq> root s \<Longrightarrow> g e \<in> D \<and> probe e = Some (cmp key (g e))"
    and cmp: "comparator cmp D" "key \<in> D"
  shows "elems s d = Some x \<Longrightarrow> next_addr s \<le> f + d \<Longrightarrow> (\<And>e. doomed s d e \<Longrightarrow> comparator.ascending cmp (map g (kids s e))) \<Longrightarrow>
    found_below s sub d (\<lambda>e. cmp key (g e) = 0) (scp_binary_search f s probe sub (ae_children x) it)"
proof (induction f arbitrary: d x sub it)
  case 0
  then show ?case using wf_elem_bound[OF wf 0(1)] by simp
next
  case (Suc f)
  show ?case
  proof (cases "ae_children x")
    case None
    then have "kids s d = []" using Suc.prems(1) by (simp add: kids_def)
    then show ?thesis using None by (simp add: found_below_none)
  next
    case (Some a)
    have a: "arrays s a = Some (kids s d)" by (rule wf_children(1)[OF wf Suc.prems(1) Some])
    have kid: "\<exists>y. elems s k = Some y" "k \<noteq> root s" "d < k" if "k \<in> set (kids s d)" for k
      using kids_parent[OF wf that] kids_neq_root[OF wf that] kids_less[OF wf that] by auto
    have p: "g e \<in> D \<and> probe e = Some (cmp key (g e))" if "e \<in> set (kids s d)" for e
      using probe[of e] kid[OF that] by auto
    have asc: "comparator.ascending cmp (map g (kids s d))" by (rule Suc.prems(3)) (simp add: doomed_def)
    note b = comparator.binary_loop_spec[OF cmp p asc, of 0 "int (length (kids s d)) - 1", simplified]
    have down: "found_below s True k (\<lambda>e. cmp key (g e) = 0) (do { c \<leftarrow> children_of k s; scp_binary_search f s probe True c it })"
      if k: "k \<in> set (kids s d)" for k it
    proof -
      obtain y where y: "elems s k = Some y" using kid(1)[OF k] by blast
      have "next_addr s \<le> f + k" using kid(3)[OF k] Suc.prems(2) by simp
      moreover have "comparator.ascending cmp (map g (kids s e))" if "doomed s k e" for e
        by (rule Suc.prems(3)) (use doomed_unfold[of s d e] k that in blast)
      ultimately show ?thesis using Suc.IH[OF y, of True it] y by (simp add: children_of_def)
    qed
    obtain m where m: "binary_loop probe (kids s d) 0 (int (length (kids s d)) - 1) = Some m"
      using b by (cases "binary_loop probe (kids s d) 0 (int (length (kids s d)) - 1)") auto
    show ?thesis
    proof (cases m)
      case (Some i)
      then have i: "0 \<le> i" "i < int (length (kids s d))" "cmp key (g (kids s d ! nat i)) = 0" using b m by auto
      then have e: "kids s d ! nat i \<in> set (kids s d)" "elem_at s a i = Some (kids s d ! nat i)"
        using a by (auto simp: elem_at_def nth_int_def)
      have "in_scope s sub d (kids s d ! nat i)" by (rule in_scope_kid[OF e(1)])
      moreover have "\<exists>e. e \<in> set (kids s d) \<and> cmp key (g e) = 0" using e(1) i(3) by blast
      ultimately show ?thesis
        using \<open>ae_children x = Some a\<close> a m Some i e unfolding found_below_def by (auto simp: ITER_ELEM_def)
    next
      case None
      then have no: "\<forall>e\<in>set (kids s d). cmp key (g e) \<noteq> 0" using b m by auto
      show ?thesis
      proof (cases sub)
        case True
        obtain it' c where ff: "first_found (\<lambda>x it. do { c \<leftarrow> children_of x s; scp_binary_search f s probe True c it }) (kids s d) it = Some (it', c)"
          "c \<longleftrightarrow> (\<exists>x\<in>set (kids s d). \<exists>e. below s x e \<and> cmp key (g e) = 0)"
          "c \<longrightarrow> (\<exists>e. ITER_ELEM it' s = Some e \<and> cmp key (g e) = 0 \<and> below s d e)"
          using first_found_spec[of "kids s d" s "\<lambda>e. cmp key (g e) = 0"
            "\<lambda>x it. do { c \<leftarrow> children_of x s; scp_binary_search f s probe True c it }" d it, OF down] by auto
        then show ?thesis
          using \<open>ae_children x = Some a\<close> a m None True no unfolding found_below_def found_unfold by (auto simp: in_scope_def)
      next
        case False
        then show ?thesis
          using \<open>ae_children x = Some a\<close> a m None no unfolding found_below_def by (auto simp: in_scope_def)
      qed
    qed
  qed
qed

text \<open>
  C27: On levels that are ascending for the comparison of the search, the binary search finds a row exactly
  when the linear search does, and each of them then returns an iterator on a row that matches.
\<close>

theorem scp_binary_search_equals_linear:
  assumes "wf s" and "comparator cmp D" and "key \<in> D"
    and "\<And>e. elems s e \<noteq> None \<Longrightarrow> e \<noteq> root s \<Longrightarrow> g e \<in> D \<and> probe e = Some (cmp key (g e))"
    and "elems s d = Some x" and "\<And>e. comparator.ascending cmp (map g (kids s e))"
  shows "\<exists>it1 it2 found. scp_binary_search (next_addr s) s probe sub (ae_children x) it = Some (it1, found) \<and>
    scp_linear_search (next_addr s) s probe sub (ae_children x) it = Some (it2, found) \<and>
    (found \<longrightarrow> (\<exists>e1 e2. ITER_ELEM it1 s = Some e1 \<and> ITER_ELEM it2 s = Some e2 \<and> cmp key (g e1) = 0 \<and> cmp key (g e2) = 0))"
proof -
  have "found_below s sub d (\<lambda>e. cmp key (g e) = 0) (scp_binary_search (next_addr s) s probe sub (ae_children x) it)"
    by (rule binary_search_spec[OF assms(1,4,2,3,5)]) (use assms(6) in auto)
  moreover have "found_below s sub d (\<lambda>e. cmp key (g e) = 0) (scp_linear_search (next_addr s) s probe sub (ae_children x) it)"
    by (rule linear_search_spec[OF assms(1) _ assms(5)]) (use assms(4) in auto)
  ultimately show ?thesis unfolding found_below_def by auto
qed

theorem scp_binary_search_equals_linear_witness:
  "\<exists>it1 it2 found. scp_binary_search 8 demo (\<lambda>e. Some (scp_compare (<) 15 (sint (v_int (hd (row demo e)))))) True (Some 2) (demo_iter 0) = Some (it1, found) \<and>
    scp_linear_search 8 demo (\<lambda>e. Some (scp_compare (<) 15 (sint (v_int (hd (row demo e)))))) True (Some 2) (demo_iter 0) = Some (it2, found)"
proof -
  have c: "comparator (scp_compare (<)) (UNIV :: int set)"
    by unfold_locales (auto simp: scp_compare_def split: if_splits)
  have r: "row demo 3 = [V_int 10]" "row demo 4 = [V_int 20]" "row demo 5 = [V_int 30]" "row demo 7 = [V_int 15]"
    by (simp_all add: demo_def row_def)
  have asc: "comparator.ascending (scp_compare (<)) (map (\<lambda>e. sint (v_int (hd (row demo e)))) (kids demo e))" for e
    by (simp add: comparator.ascending_def[OF c] demo_kids r scp_compare_def)
  from scp_binary_search_equals_linear[OF demo_wf c UNIV_I _ _ asc, of "\<lambda>e. Some (scp_compare (<) 15 (sint (v_int (hd (row demo e)))))" 15 0 _ True "demo_iter 0"]
  show ?thesis by (auto simp: demo_def)
qed

text \<open>A store sorted in descending order.\<close>

definition descending_demo :: store where
  "descending_demo = demo\<lparr>sort_column_id := 0, sort_order := GTK_SORT_DESCENDING, sort_func := Some Model_Compare,
     arrays := [1 \<mapsto> [0], 2 \<mapsto> [5, 4, 3], 6 \<mapsto> [7]]\<rparr>"

text \<open>A store sorted in descending order.\<close>


text \<open>A removal that is refused is tried again and again.\<close>

lemma traverse_refused:
  assumes "arrays s a = Some xs" "i < length xs" "\<And>g. fst (func s it g) < 0" "\<not> VALID_ITER it s"
  shows "traverse_loop f func sub a i s it g = None"
proof (induction f arbitrary: g)
  case (Suc f)
  obtain r g' where r: "func s it g = (r, g')" by fastforce
  then have "r < 0" using assms(3)[of g] by simp
  then show ?case using assms(1,2,4) r Suc.IH[of g'] by (simp add: scp_tree_store_remove_def)
qed simp

definition cull :: "addr set \<Rightarrow> store \<Rightarrow> iter \<Rightarrow> unit \<Rightarrow> int \<times> unit" where
  "cull E s it g = (case ITER_ELEM it s of Some e \<Rightarrow> if e \<in> E then -1 else 0 | None \<Rightarrow> 0, ())"

lemma cull_at: "ITER_ELEM it s = Some e \<Longrightarrow> cull E s it g = (if e \<in> E then -1 else 0, ())"
  by (simp add: cull_def)


end
