(* ===== verification/ScpRefine.thy ===== *)
theory ScpRefine
  imports ScpSearch
begin

text \<open>
  The tree store as an abstract data type: the tree of rows a client sees, the edits of that tree, and the
  proof that the functions of the store, called through paths and iterators, make exactly those edits.
\<close>

subsection \<open>The store as a tree\<close>

text \<open>What a client of the tree model sees: rows of cells with subtrees in order, no addresses.\<close>

datatype tree = Tree (cells: row) (subs: "tree list")

fun tree_below :: "nat \<Rightarrow> store \<Rightarrow> addr \<Rightarrow> tree" where
  "tree_below 0 s e = Tree (row s e) []"
| "tree_below (Suc f) s e = Tree (row s e) (map (tree_below f s) (kids s e))"

definition tree_of :: "store \<Rightarrow> addr \<Rightarrow> tree" where
  "tree_of s = tree_below (next_addr s) s"

definition store_tree :: "store \<Rightarrow> tree" where
  "store_tree s = tree_of s (root s)"

lemma tree_below_fuel:
  assumes "wf s"
  shows "next_addr s \<le> f + e \<Longrightarrow> next_addr s \<le> g + e \<Longrightarrow> tree_below f s e = tree_below g s e"
proof (induction f arbitrary: e g)
  case 0
  then have "elems s e = None" using wf_elem_bound[OF assms, of e] by fastforce
  then have "kids s e = []" by (simp add: kids_def)
  then show ?case by (cases g) simp_all
next
  case (Suc f)
  show ?case
  proof (cases g)
    case 0
    then have "elems s e = None" using Suc.prems wf_elem_bound[OF assms, of e] by fastforce
    then show ?thesis using 0 by (simp add: kids_def)
  next
    case (Suc h)
    have "tree_below f s c = tree_below h s c" if "c \<in> set (kids s e)" for c
      using kids_less[OF assms that] Suc.prems Suc by (intro Suc.IH) simp_all
    then show ?thesis using Suc by simp
  qed
qed

lemma tree_unfold: "wf s \<Longrightarrow> tree_of s e = Tree (row s e) (map (tree_of s) (kids s e))"
proof -
  assume wf: "wf s"
  have "tree_of s e = tree_below (Suc (next_addr s)) s e"
    unfolding tree_of_def by (rule tree_below_fuel[OF wf]) simp_all
  then show ?thesis by (simp add: tree_of_def)
qed

lemma tree_cong:
  assumes "wf s" "wf t"
  shows "(\<And>c. doomed s e c \<Longrightarrow> kids t c = kids s c \<and> row t c = row s c) \<Longrightarrow> tree_of t e = tree_of s e"
proof (induction "next_addr s - e" arbitrary: e rule: less_induct)
  case less
  have e: "kids t e = kids s e" "row t e = row s e" using less.prems[of e] by (simp_all add: doomed_def)
  have "tree_of t c = tree_of s c" if c: "c \<in> set (kids s e)" for c
  proof (rule less.hyps)
    obtain x where "elems s c = Some x" using kids_parent[OF assms(1) c] by blast
    then show "next_addr s - c < next_addr s - e"
      using wf_elem_bound[OF assms(1)] kids_less[OF assms(1) c] by fastforce
    show "kids t b = kids s b \<and> row t b = row s b" if "doomed s c b" for b
      using that c less.prems[of b] by (auto simp: doomed_unfold[of s e])
  qed
  then show ?case using e by (simp add: tree_unfold[OF assms(1), of e] tree_unfold[OF assms(2), of e])
qed

lemma doomed_iff: "doomed s e c \<longleftrightarrow> (\<exists>p. node_at s e p = Some c)"
proof
  show "doomed s e c \<Longrightarrow> \<exists>p. node_at s e p = Some c"
    by (auto simp: doomed_def below_def intro: exI[of _ "[]"])
  assume "\<exists>p. node_at s e p = Some c"
  then obtain p where "node_at s e p = Some c" by blast
  then show "doomed s e c" by (cases "p = []") (auto simp: doomed_def below_def)
qed

lemma doomed_trans: "doomed s e c \<Longrightarrow> doomed s c b \<Longrightarrow> doomed s e b"
proof -
  assume "doomed s e c" "doomed s c b"
  then obtain p q where "node_at s e p = Some c" "node_at s c q = Some b" by (auto simp: doomed_iff)
  then have "node_at s e (p @ q) = Some b" by (simp add: node_at_append)
  then show ?thesis by (auto simp: doomed_iff)
qed

text \<open>Changing the node a path leads to.\<close>

fun at_node :: "path \<Rightarrow> (tree \<Rightarrow> tree option) \<Rightarrow> tree \<Rightarrow> tree option" where
  "at_node [] f T = f T"
| "at_node (i # p) f T = do {
     c \<leftarrow> nth_int (subs T) i;
     c \<leftarrow> at_node p f c;
     Some (Tree (cells T) ((subs T)[nat i := c])) }"

lemma nth_int_map: "nth_int (map f xs) i = map_option f (nth_int xs i)"
  by (auto simp: nth_int_def)

lemma at_node_store:
  assumes wf: "wf s" "wf t"
  shows "node_at s e q = Some d \<Longrightarrow> (\<exists>x. elems s e = Some x) \<Longrightarrow>
    (\<And>c. doomed s e c \<Longrightarrow> \<not> doomed s d c \<Longrightarrow> kids t c = kids s c \<and> row t c = row s c) \<Longrightarrow>
    f (tree_of s d) = Some (tree_of t d) \<Longrightarrow> at_node q f (tree_of s e) = Some (tree_of t e)"
proof (induction q arbitrary: e)
  case (Cons i q)
  obtain c where c: "nth_int (kids s e) i = Some c" "node_at s c q = Some d"
    using Cons.prems(1) by (auto simp: bind_eq_Some_conv)
  have ck: "c \<in> set (kids s e)" "nat i < length (kids s e)" "kids s e ! nat i = c" "0 \<le> i"
    using nth_int_in_set[OF c(1)] c(1) by (auto simp: nth_int_Some)
  have cd: "doomed s c d" using c(2) by (auto simp: doomed_iff)
  have sub: "doomed s e b" if "k \<in> set (kids s e)" "doomed s k b" for k b
    using that by (auto simp: doomed_unfold[of s e])
  have "e < d" using kids_less[OF wf(1) ck(1)] node_at_le[OF wf(1) c(2)] by simp
  then have "\<not> doomed s d e" using doomed_ge[OF wf(1), of d e] by auto
  then have e: "kids t e = kids s e" "row t e = row s e" using Cons.prems(3)[of e] by (simp_all add: doomed_def)
  have "at_node q f (tree_of s c) = Some (tree_of t c)"
    by (rule Cons.IH[OF c(2)]) (use Cons.prems(3,4) kids_parent[OF wf(1) ck(1)] sub[OF ck(1)] in auto)
  moreover have "tree_of t k = tree_of s k" if k: "k \<in> set (kids s e)" "k \<noteq> c" for k
  proof (rule tree_cong[OF wf])
    fix b assume b: "doomed s k b"
    have "\<not> doomed s d b"
    proof
      assume "doomed s d b"
      then have "doomed s c b" by (rule doomed_trans[OF cd])
      then show False using siblings_disjoint[OF wf(1) k(1) ck(1) b] k(2) by simp
    qed
    then show "kids t b = kids s b \<and> row t b = row s b" using Cons.prems(3)[OF sub[OF k(1) b]] by simp
  qed
  then have "map (tree_of t) (kids s e) = (map (tree_of s) (kids s e))[nat i := tree_of t c]"
    using ck kids_distinct[OF wf(1), of e] by (intro nth_equalityI) (auto simp: nth_list_update nth_eq_iff_index_eq)
  ultimately show ?case
    using c(1) e by (simp add: tree_unfold[OF wf(1), of e] tree_unfold[OF wf(2), of e] nth_int_map)
qed simp

subsection \<open>Edits\<close>

text \<open>
  The edits of one level, on the list of its rows: the contract of the operations on a store that is
  not sorted. An edit that asks for a row or a place that is not there has no result.
\<close>

datatype edit = Insert int "(int \<times> gvalue) list" | Set_Cells int "(int \<times> gvalue) list"
  | Remove int | Move int int | Swap int int | Reorder "int list" | Clear bool

fun level_edit :: "glib \<Rightarrow> store \<Rightarrow> edit \<Rightarrow> tree list \<Rightarrow> tree list option" where
  "level_edit G s (Insert position cvs) ts =
     (let p = (if position = -1 then int (length ts) else position);
          new = Tree (put_cells G s cvs (replicate (n_columns s) V_zero)) [] in
      if 0 \<le> p \<and> p \<le> int (length ts) then Some (insert_at (nat p) new ts) else None)"
| "level_edit G s (Set_Cells i cvs) ts = do {
     c \<leftarrow> nth_int ts i;
     Some (ts[nat i := Tree (put_cells G s cvs (cells c)) (subs c)]) }"
| "level_edit G s (Remove i) ts = do { _ \<leftarrow> nth_int ts i; Some (remove_index ts (nat i)) }"
| "level_edit G s (Move i position) ts = do {
     let j = (if position = -1 then int (length ts) - 1 else position);
     c \<leftarrow> nth_int ts i;
     _ \<leftarrow> nth_int ts j;
     Some (insert_at (nat j) c (remove_index ts (nat i))) }"
| "level_edit G s (Swap i j) ts = do {
     a \<leftarrow> nth_int ts i;
     b \<leftarrow> nth_int ts j;
     Some (ts[nat i := b, nat j := a]) }"
| "level_edit G s (Reorder order) ts =
     (if mset order = mset [0..int (length ts) - 1] then Some (map (\<lambda>i. ts ! nat i) order) else None)"
| "level_edit G s (Clear _) ts = Some []"

definition edit_node :: "glib \<Rightarrow> store \<Rightarrow> edit \<Rightarrow> tree \<Rightarrow> tree option" where
  "edit_node G s ed T = map_option (Tree (cells T)) (level_edit G s ed (subs T))"

fun tree_edit :: "glib \<Rightarrow> store \<Rightarrow> path \<times> edit \<Rightarrow> tree \<Rightarrow> tree option" where
  "tree_edit G s (q, ed) T = at_node q (edit_node G s ed) T"

text \<open>
  A client that makes the same edits through the functions of the store: it looks the path up and
  calls the function with the iterator.
\<close>

definition null_iter :: iter where
  "null_iter = \<lparr>it_stamp = 0, it_array = None, it_index = 0\<rparr>"

definition iter_of :: "store \<Rightarrow> path \<Rightarrow> (store \<times> iter) option" where
  "iter_of s p = do {
     (t, it, found) \<leftarrow> scp_tree_store_get_iter s null_iter p;
     if found then Some (t, it) else None }"

definition parent_of :: "store \<Rightarrow> path \<Rightarrow> (store \<times> iter option) option" where
  "parent_of s q = (if q = [] then Some (s, None) else map_option (\<lambda>(t, it). (t, Some it)) (iter_of s q))"

fun run_edit :: "glib \<Rightarrow> path \<times> edit \<Rightarrow> store \<Rightarrow> store option" where
  "run_edit G (q, Insert position cvs) s = do {
     (s, parent) \<leftarrow> parent_of s q;
     map_option fst (scp_tree_store_insert_with_valuesv G s null_iter parent position cvs) }"
| "run_edit G (q, Set_Cells i cvs) s = do {
     (s, it) \<leftarrow> iter_of s (q @ [i]);
     map_option fst (scp_tree_store_set_valuesv G s it cvs) }"
| "run_edit G (q, Remove i) s = do {
     (s, it) \<leftarrow> iter_of s (q @ [i]);
     map_option fst (scp_tree_store_remove s it) }"
| "run_edit G (q, Move i position) s = do {
     (s, it) \<leftarrow> iter_of s (q @ [i]);
     map_option fst (scp_tree_store_move s it position) }"
| "run_edit G (q, Swap i j) s = do {
     (s, x) \<leftarrow> iter_of s (q @ [i]);
     (s, y) \<leftarrow> iter_of s (q @ [j]);
     scp_tree_store_swap s x y }"
| "run_edit G (q, Reorder order) s = do {
     (s, parent) \<leftarrow> parent_of s q;
     scp_tree_store_reorder s parent order }"
| "run_edit G (q, Clear emit_subsignals) s = do {
     (s, parent) \<leftarrow> parent_of s q;
     scp_tree_store_clear_children s parent emit_subsignals }"

text \<open>What the edits leave alone, and a store that is not sorted.\<close>

definition same_columns :: "store \<Rightarrow> store \<Rightarrow> bool" where
  "same_columns s t \<longleftrightarrow> n_columns t = n_columns s \<and> headers t = headers s \<and> sublevels t = sublevels s \<and>
     sort_func t = sort_func s \<and> sort_column_id t = sort_column_id s \<and> root t = root s"

definition unsorted :: "store \<Rightarrow> bool" where
  "unsorted s \<longleftrightarrow> sort_func s = None \<and> sort_column_id s < 0"

lemma same_settings_columns: "same_settings s t \<Longrightarrow> same_columns s t"
  by (simp add: same_settings_def same_columns_def)

lemma same_columns_trans: "same_columns s t \<Longrightarrow> same_columns t u \<Longrightarrow> same_columns s u"
  by (simp add: same_columns_def)

lemma level_edit_same: "same_columns s t \<Longrightarrow> level_edit G t ed ts = level_edit G s ed ts"
proof -
  assume st: "same_columns s t"
  then have "put_cells G t = put_cells G s" using put_cells_same[of t s] by (auto simp: same_columns_def fun_eq_iff)
  moreover have "n_columns t = n_columns s" using st by (simp add: same_columns_def)
  ultimately show ?thesis by (cases ed) (simp_all only: level_edit.simps)
qed

lemma edit_node_same: "same_columns s t \<Longrightarrow> edit_node G t ed = edit_node G s ed"
  by (intro ext) (simp add: edit_node_def level_edit_same)

text \<open>Looking paths up changes nothing that is seen.\<close>

lemma same_tree_tree: "same_tree s t \<Longrightarrow> tree_of t = tree_of s"
proof -
  assume st: "same_tree s t"
  have "row t = row s" by (rule row_same) (use st in \<open>simp add: same_tree_def\<close>)
  with same_tree_simps(1)[OF st] have "tree_below f t = tree_below f s" for f by (induction f) (auto simp: fun_eq_iff)
  then show ?thesis using st by (simp add: tree_of_def same_tree_def)
qed

lemma iter_of_path:
  assumes "wf s" "node_at s (root s) p = Some e" "p \<noteq> []"
  shows "\<exists>it. iter_of s p = Some (s\<lparr>columns_dirty := True\<rparr>, it) \<and> points_to s it p"
proof -
  note pt = points_to_exists[OF assms]
  show ?thesis using get_iter_points_to[OF assms(1) pt] pt by (auto simp: iter_of_def)
qed

lemma parent_of_path:
  assumes "wf s" "node_at s (root s) q = Some d"
  shows "\<exists>t parent. parent_of s q = Some (t, parent) \<and> same_tree s t \<and> same_settings s t \<and>
    parent_at t parent q d \<and> (parent = None \<longleftrightarrow> q = [])"
proof (cases "q = []")
  case True
  then show ?thesis using assms by (simp add: parent_of_def parent_at_def)
next
  case False
  let ?t = "s\<lparr>columns_dirty := True\<rparr>"
  obtain it where it: "iter_of s q = Some (?t, it)" "points_to s it q" using iter_of_path[OF assms False] by blast
  have "parent_at ?t (Some it) q d"
    using it(2) assms(2) same_tree_simps(2,6)[OF same_tree_dirty] by (simp add: parent_at_def)
  then show ?thesis using it(1) False by (simp add: parent_of_def)
qed

subsection \<open>One edit\<close>

lemma root_doomed: "wf s \<Longrightarrow> node_at s (root s) q = Some d \<Longrightarrow> \<exists>x. elems s d = Some x"
  using wf_root[of s] node_at_elem[of s "root s" q d] by (cases "q = []") auto

lemma kid_tree:
  assumes "wf s" "wf t" "k \<in> set (kids s d)"
    "\<And>c. doomed s d c \<Longrightarrow> c \<noteq> d \<Longrightarrow> kids t c = kids s c \<and> row t c = row s c"
  shows "tree_of t k = tree_of s k"
proof (rule tree_cong[OF assms(1,2)])
  fix c assume c: "doomed s k c"
  then have "doomed s d c" using assms(3) by (auto simp: doomed_unfold[of s d])
  moreover have "c \<noteq> d" using doomed_ge[OF assms(1) c] kids_less[OF assms(1,3)] by simp
  ultimately show "kids t c = kids s c \<and> row t c = row s c" using assms(4) by simp
qed

text \<open>An edit of a level in the store is the edit of the level in the tree.\<close>

lemma edit_level:
  assumes wf: "wf s" "wf t" and root: "root t = root s" and d: "node_at s (root s) q = Some d" and row: "row t d = row s d"
    and out: "\<And>c. elems s c \<noteq> None \<Longrightarrow> \<not> doomed s d c \<Longrightarrow> kids t c = kids s c \<and> row t c = row s c"
    and lvl: "level_edit G s ed (map (tree_of s) (kids s d)) = Some (map (tree_of t) (kids t d))"
  shows "tree_edit G s (q, ed) (store_tree s) = Some (store_tree t)"
proof -
  have "edit_node G s ed (tree_of s d) = Some (tree_of t d)"
    using lvl row by (simp add: edit_node_def tree_unfold[OF wf(1), of d] tree_unfold[OF wf(2), of d])
  moreover have "elems s c \<noteq> None" if "doomed s (root s) c" for c
    using that root_doomed[OF wf(1)] by (auto simp: doomed_iff)
  ultimately have "at_node q (edit_node G s ed) (tree_of s (root s)) = Some (tree_of t (root s))"
    using d wf_root[OF wf(1)] out by (intro at_node_store[OF wf d]) auto
  then show ?thesis using root by (simp add: store_tree_def)
qed

lemma unsorted_ready: "unsorted s \<Longrightarrow> sort_ready G s"
  by (simp add: unsorted_def sort_ready_def)

lemma map_insert_at: "map f (insert_at i x xs) = insert_at i (f x) (map f xs)"
  by (simp add: insert_at_def take_map drop_map)

lemma map_remove_index: "map f (remove_index xs i) = remove_index (map f xs) i"
  by (simp add: remove_index_def take_map drop_map)

lemma insert_refines:
  assumes wf: "wf s" and p: "parent_at s parent q d" "sublevels s \<or> parent = None" and un: "unsorted s"
    and ed: "level_edit G s (Insert position cvs) (map (tree_of s) (kids s d)) = Some ts"
  shows "\<exists>t it. scp_tree_store_insert_with_valuesv G s it0 parent position cvs = Some (t, it) \<and> wf t \<and> same_columns s t \<and>
    tree_edit G s (q, Insert position cvs) (store_tree s) = Some (store_tree t)"
proof -
  let ?n = "next_addr s" and ?r = "put_cells G s cvs (replicate (n_columns s) V_zero)"
  define k where "k = (if position = -1 then length (kids s d) else nat position)"
  have k: "k \<le> length (kids s d)" "position = int k \<or> position = -1 \<and> k = length (kids s d)"
    "ts = insert_at k (Tree ?r []) (map (tree_of s) (kids s d))"
    using ed by (auto simp: k_def Let_def split: if_splits)
  obtain t it j where t: "scp_tree_store_insert_with_valuesv G s it0 parent position cvs = Some (t, it)"
    "inserted s parent q d ?n ?r j t it" "sort_func s = None \<longrightarrow> j = k"
    using insert_with_values_spec[OF wf p unsorted_ready[OF un] k(1,2), of G it0 cvs] by (elim exE conjE) (rule that)
  have "j = k" using t(3) un by (simp add: unsorted_def)
  have t': "wf t" "kids t = (kids s)(d := insert_at k ?n (kids s d))" "row t ?n = ?r"
    "\<And>c. c \<noteq> ?n \<Longrightarrow> row t c = row s c" "elems s ?n = None" "same_settings s t"
    using t(2) \<open>j = k\<close> by (auto simp: inserted_def)
  have d: "node_at s (root s) q = Some d" using p(1) by (simp add: parent_at_def)
  have nd: "d \<noteq> ?n" using root_doomed[OF wf d] t'(5) by auto
  have alive: "kids t c = kids s c \<and> row t c = row s c" if "elems s c \<noteq> None" "c \<noteq> d" for c
    using that t'(2) t'(4)[of c] t'(5) by (cases "c = ?n") auto
  have "tree_of t ?n = Tree ?r []"
  proof -
    have "kids t ?n = []" using t'(2,5) nd by (simp add: kids_def)
    then show ?thesis using t'(3) tree_unfold[OF t'(1), of ?n] by simp
  qed
  moreover have "tree_of t c = tree_of s c" if "c \<in> set (kids s d)" for c
  proof (rule kid_tree[OF wf t'(1) that])
    fix b assume "doomed s d b" "b \<noteq> d"
    then obtain r where "node_at s d r = Some b" "r \<noteq> []" by (auto simp: doomed_def below_def)
    then show "kids t b = kids s b \<and> row t b = row s b"
      using node_at_elem[OF wf] alive[of b] \<open>b \<noteq> d\<close> by blast
  qed
  ultimately have "map (tree_of t) (kids t d) = ts"
    using t'(2) k(3) by (simp add: map_insert_at cong: map_cong)
  then have "tree_edit G s (q, Insert position cvs) (store_tree s) = Some (store_tree t)"
    using ed t'(4)[of d] nd alive t'(6) by (intro edit_level[OF wf t'(1) _ d]) (auto simp: same_settings_def doomed_def)
  then show ?thesis using t(1) t'(1) same_settings_columns[OF t'(6)] by blast
qed

lemma set_cells_refines:
  assumes wf: "wf s" and it: "points_to s it (q @ [i])" and d: "node_at s (root s) q = Some d" and un: "unsorted s"
    and ed: "level_edit G s (Set_Cells i cvs) (map (tree_of s) (kids s d)) = Some ts"
  shows "\<exists>t. scp_tree_store_set_valuesv G s it cvs = Some (t, it) \<and> wf t \<and> same_columns s t \<and>
    tree_edit G s (q, Set_Cells i cvs) (store_tree s) = Some (store_tree t)"
proof -
  let ?e = "kids s d ! nat i"
  let ?r = "put_cells G s cvs (row s ?e)"
  have i: "nat i < length (kids s d)" "0 \<le> i" using row_not_root[OF wf d it] by auto
  have "\<not> custom_sort s" "sort_column_id s \<notin> fst ` set (valid_cells s cvs)"
    using un by (auto simp: unsorted_def custom_sort_def valid_cells_def dest!: set_takeWhileD)
  from set_valuesv_in_place[OF wf it d this] obtain t where t:
    "scp_tree_store_set_valuesv G s it cvs = Some (t, it)" "cells_set s d (nat i) ?r (nat i) t" by blast
  have t': "wf t" "kids t = kids s" "\<And>c. row t c = (if c = ?e then ?r else row s c)" "same_settings s t"
    using t(2) remove_insert_same[OF i(1)] by (auto simp: cells_set_def)
  have ek: "?e \<in> set (kids s d)" using i by simp
  have ed_neq: "d \<noteq> ?e" "\<not> doomed s ?e d" using kids_less[OF wf ek] doomed_ge[OF wf, of ?e d] by auto
  have same: "tree_of t c = tree_of s c" if c: "c \<in> set (kids s d)" "c \<noteq> ?e" for c
  proof (rule tree_cong[OF wf t'(1)])
    fix b assume "doomed s c b"
    then have "b \<noteq> ?e" using siblings_disjoint[OF wf c(1) ek, of b] c(2) by (auto simp: doomed_def)
    then show "kids t b = kids s b \<and> row t b = row s b" using t'(2,3) by simp
  qed
  have below: "tree_of t c = tree_of s c" if c: "c \<in> set (kids s ?e)" for c
    by (rule kid_tree[OF wf t'(1) c]) (use t'(2,3) in auto)
  have e: "tree_of t ?e = Tree ?r (subs (tree_of s ?e))"
    using below t'(2,3) by (simp add: tree_unfold[OF wf, of ?e] tree_unfold[OF t'(1), of ?e])
  have "map (tree_of t) (kids t d) = ts"
  proof (rule nth_equalityI)
    have ts: "ts = (map (tree_of s) (kids s d))[nat i := Tree ?r (subs (tree_of s ?e))]"
      using ed i by (auto simp: nth_int_map nth_int_def tree_unfold[OF wf, of ?e] split: if_splits)
    show "length (map (tree_of t) (kids t d)) = length ts" using ts t'(2) by simp
    fix k assume "k < length (map (tree_of t) (kids t d))"
    then have "k < length (kids s d)" using t'(2) by simp
    then show "map (tree_of t) (kids t d) ! k = ts ! k"
      using ts t'(2) same e i nth_mem[of k "kids s d"] kids_distinct[OF wf, of d]
      by (cases "k = nat i") (auto simp: nth_eq_iff_index_eq)
  qed
  moreover have "below s d ?e" using ek below_unfold[of s d ?e] by blast
  then have "doomed s d ?e" by (simp add: doomed_def)
  then have "kids t c = kids s c \<and> row t c = row s c" if "\<not> doomed s d c" for c
    using that t'(2) t'(3)[of c] by auto
  ultimately have "tree_edit G s (q, Set_Cells i cvs) (store_tree s) = Some (store_tree t)"
    using ed t'(3)[of d] ed_neq(1) t'(4) by (intro edit_level[OF wf t'(1) _ d]) (auto simp: same_settings_def)
  then show ?thesis using t(1) t'(1) same_settings_columns[OF t'(4)] by blast
qed

lemma remove_refines:
  assumes wf: "wf s" and it: "points_to s it (q @ [i])" and d: "node_at s (root s) q = Some d"
    and ed: "level_edit G s (Remove i) (map (tree_of s) (kids s d)) = Some ts"
  shows "\<exists>t it' again. scp_tree_store_remove s it = Some (t, it', again) \<and> wf t \<and> same_columns s t \<and>
    tree_edit G s (q, Remove i) (store_tree s) = Some (store_tree t)"
proof -
  let ?e = "kids s d ! nat i"
  have i: "nat i < length (kids s d)" "0 \<le> i" using row_not_root[OF wf d it] by auto
  obtain t it' again where t: "scp_tree_store_remove s it = Some (t, it', again)" "removed s d (nat i) t"
    using remove_spec[OF wf it d] by blast
  have t': "wf t" "kids t = pruned s d ?e (nat i)" "\<And>c. \<not> doomed s ?e c \<Longrightarrow> row t c = row s c" "same_settings s t"
    using t(2) by (auto simp: removed_def)
  have ek: "?e \<in> set (kids s d)" using i by simp
  have nd: "\<not> doomed s ?e d" using kids_less[OF wf ek] doomed_ge[OF wf, of ?e d] by auto
  have kd: "kids t d = remove_index (kids s d) (nat i)" using t'(2) nd by (simp add: pruned_def)
  have same: "tree_of t c = tree_of s c" if c: "c \<in> set (kids s d)" "c \<noteq> ?e" for c
  proof (rule tree_cong[OF wf t'(1)])
    fix b assume b: "doomed s c b"
    then have "\<not> doomed s ?e b" using siblings_disjoint[OF wf c(1) ek, of b] c(2) by auto
    moreover have "b \<noteq> d" using doomed_ge[OF wf b] kids_less[OF wf c(1)] by simp
    ultimately show "kids t b = kids s b \<and> row t b = row s b" using t'(2,3) by (simp add: pruned_def)
  qed
  have "map (tree_of t) (kids t d) = map (tree_of s) (kids t d)"
    using kd remove_index_set[OF kids_distinct[OF wf] i(1)] same by auto
  then have "map (tree_of t) (kids t d) = ts"
    using ed i kd by (auto simp: nth_int_map nth_int_def map_remove_index split: if_splits)
  moreover have "kids t c = kids s c \<and> row t c = row s c" if "\<not> doomed s d c" for c
  proof -
    have "\<not> doomed s ?e c" using that ek by (auto simp: doomed_unfold[of s d])
    then show ?thesis using that t'(2,3) by (auto simp: pruned_def doomed_def)
  qed
  ultimately have "tree_edit G s (q, Remove i) (store_tree s) = Some (store_tree t)"
    using ed t'(3)[OF nd] t'(4) by (intro edit_level[OF wf t'(1) _ d]) (auto simp: same_settings_def)
  then show ?thesis using t(1) t'(1) same_settings_columns[OF t'(4)] by blast
qed

text \<open>The edits that only change the order of a level.\<close>

lemma reordered_refines:
  assumes wf: "wf s" and d: "node_at s (root s) q = Some d" and t: "reordered s d ys t" "set ys \<subseteq> set (kids s d)"
    and ed: "level_edit G s ed (map (tree_of s) (kids s d)) = Some (map (tree_of s) ys)"
  shows "tree_edit G s (q, ed) (store_tree s) = Some (store_tree t)"
proof -
  have t': "wf t" "root t = root s" "kids t = (kids s)(d := ys)" using t(1) by (auto simp: reordered_def)
  have row: "row t = row s" by (rule row_same) (use t(1) in \<open>simp add: reordered_def\<close>)
  have "tree_of t c = tree_of s c" if "c \<in> set (kids s d)" for c
    by (rule kid_tree[OF wf t'(1) that]) (use t'(3) row in auto)
  then have "map (tree_of t) (kids t d) = map (tree_of s) ys" using t(2) t'(3) by auto
  then show ?thesis
    using t'(3) row ed by (intro edit_level[OF wf t'(1,2) d]) (auto simp: doomed_def)
qed

lemma move_refines:
  assumes wf: "wf s" and it: "points_to s it (q @ [i])" and d: "node_at s (root s) q = Some d" and un: "unsorted s"
    and ed: "level_edit G s (Move i position) (map (tree_of s) (kids s d)) = Some ts"
  shows "\<exists>t it'. scp_tree_store_move s it position = Some (t, it') \<and> wf t \<and> same_columns s t \<and>
    tree_edit G s (q, Move i position) (store_tree s) = Some (store_tree t)"
proof -
  define j where "j = (if position = -1 then int (length (kids s d)) - 1 else position)"
  obtain a e where a: "it = mk_iter s a i" "arrays s a = Some (kids s d)" "nth_int (kids s d) i = Some e"
    using wf it by (rule points_toE) (use d in auto)
  then have i: "0 \<le> i" "nat i < length (kids s d)" "VALID_ITER it s" "it_array it = Some a" by (auto simp: nth_int_Some)
  have j: "0 \<le> j" "j < int (length (kids s d))"
    using ed by (auto simp: j_def Let_def bind_eq_Some_conv nth_int_Some)
  obtain t where t: "scp_move_element s a it j True = Some (t, it\<lparr>it_index := j\<rparr>)"
    "reordered s d (moved (kids s d) (nat i) (nat j)) t"
    using move_element_spec[OF wf it d i(4) j, of True] by blast
  have run: "scp_tree_store_move s it position = Some (t, it\<lparr>it_index := j\<rparr>)"
    using t(1) i a(2) un j by (auto simp: scp_tree_store_move_def unsorted_def j_def split: if_splits)
  have nn: "nat j < length (kids s d)" using j by simp
  have "set (moved (kids s d) (nat i) (nat j)) = set (kids s d)"
    using mset_moved[OF i(2) nn] by (metis mset_eq_setD)
  moreover have "level_edit G s (Move i position) (map (tree_of s) (kids s d)) = Some (map (tree_of s) (moved (kids s d) (nat i) (nat j)))"
    using i j moved_insert_at[OF i(2) nn] unfolding j_def
    by (cases "position = -1") (auto simp: Let_def nth_int_map nth_int_def map_insert_at map_remove_index)
  ultimately have "tree_edit G s (q, Move i position) (store_tree s) = Some (store_tree t)"
    using reordered_refines[OF wf d t(2)] by simp
  moreover have "wf t" using t(2) by (simp add: reordered_def)
  ultimately show ?thesis using run same_settings_columns[OF scp_move_element_settings[OF t(1)]] by blast
qed

lemma swap_refines:
  assumes wf: "wf s" and x: "points_to s x (q @ [i])" and y: "points_to s y (q @ [j])" and d: "node_at s (root s) q = Some d"
    and ed: "level_edit G s (Swap i j) (map (tree_of s) (kids s d)) = Some ts"
  shows "\<exists>t. scp_tree_store_swap s x y = Some t \<and> wf t \<and> same_columns s t \<and>
    tree_edit G s (q, Swap i j) (store_tree s) = Some (store_tree t)"
proof (cases "i = j")
  case True
  have i: "nat i < length (kids s d)" "0 \<le> i" using row_not_root[OF wf d x] by auto
  have "it_index x = it_index y" using x y True by (simp add: points_to_def)
  then have run: "scp_tree_store_swap s x y = Some s" by (simp add: scp_tree_store_swap_def)
  have "reordered s d (kids s d) s" using wf by (simp add: reordered_def)
  moreover have "level_edit G s (Swap i j) (map (tree_of s) (kids s d)) = Some (map (tree_of s) (kids s d))"
    using True i list_update_id[of "map (tree_of s) (kids s d)" "nat i"] by (auto simp: nth_int_def)
  ultimately have "tree_edit G s (q, Swap i j) (store_tree s) = Some (store_tree s)"
    using reordered_refines[OF wf d] by blast
  then show ?thesis using run wf by (auto simp: same_columns_def)
next
  case False
  obtain t where t: "scp_tree_store_swap s x y = Some t" "reordered s d (swapped (kids s d) (nat i) (nat j)) t"
    using swap_spec[OF wf x y False d] by blast
  have ij: "nat i < length (kids s d)" "0 \<le> i" "nat j < length (kids s d)" "0 \<le> j"
    using row_not_root[OF wf d x] row_not_root[OF wf d y] by auto
  have "set (swapped (kids s d) (nat i) (nat j)) \<subseteq> set (kids s d)"
    using ij by (auto simp: swapped_def dest!: set_update_subset_insert[THEN subsetD])
  moreover have "level_edit G s (Swap i j) (map (tree_of s) (kids s d)) = Some (map (tree_of s) (swapped (kids s d) (nat i) (nat j)))"
    using ij by (auto simp: nth_int_def swapped_def map_update)
  ultimately have "tree_edit G s (q, Swap i j) (store_tree s) = Some (store_tree t)"
    by (rule reordered_refines[OF wf d t(2)])
  moreover have "same_settings s t"
    using t(1) by (auto simp: scp_tree_store_swap_def bind_eq_Some_conv Let_def split: if_splits
        dest!: scp_emit_reordered_settings intro: same_settings_trans[rotated])
  ultimately show ?thesis using t same_settings_columns by (auto simp: reordered_def)
qed

lemma reorder_refines:
  assumes wf: "wf s" and p: "parent_at s parent q d" and un: "unsorted s"
    and ed: "level_edit G s (Reorder order) (map (tree_of s) (kids s d)) = Some ts"
  shows "\<exists>t. scp_tree_store_reorder s parent order = Some t \<and> wf t \<and> same_columns s t \<and>
    tree_edit G s (q, Reorder order) (store_tree s) = Some (store_tree t)"
proof -
  let ?ys = "map (\<lambda>i. kids s d ! nat i) order"
  have d: "node_at s (root s) q = Some d" using p by (simp add: parent_at_def)
  have o: "mset order = mset [0..int (length (kids s d)) - 1]" using ed by (simp split: if_splits)
  obtain x where x: "elems s d = Some x" using parent_elem_at(3)[OF wf p] by blast
  have run: "\<exists>t. scp_tree_store_reorder s parent order = Some t \<and> reordered s d ?ys t \<and> same_settings s t"
  proof (cases "ae_children x")
    case None
    then have k: "kids s d = []" using x by (simp add: kids_def)
    with o have "order = []" by simp
    then have "reordered s d ?ys s" using wf k by (simp add: reordered_def fun_upd_idem)
    then show ?thesis
      using None un parent_elem_at(1,2)[OF wf p] x by (simp add: scp_tree_store_reorder_def unsorted_def children_of_def)
  next
    case (Some a)
    then show ?thesis
      using un parent_elem_at(1,2)[OF wf p] x reorder_array_spec[OF wf p x Some o]
      by (auto simp: scp_tree_store_reorder_def unsorted_def children_of_def)
  qed
  then obtain t where t: "scp_tree_store_reorder s parent order = Some t" "reordered s d ?ys t" "same_settings s t" by blast
  have "set ?ys = set (kids s d)" using permute_order(2)[OF o] by (metis mset_eq_setD)
  moreover have "\<forall>i\<in>set order. 0 \<le> i \<and> i < int (length (kids s d))" using mset_eq_setD[OF o] by auto
  then have "level_edit G s (Reorder order) (map (tree_of s) (kids s d)) = Some (map (tree_of s) ?ys)"
    using o by auto
  ultimately have "tree_edit G s (q, Reorder order) (store_tree s) = Some (store_tree t)"
    using reordered_refines[OF wf d t(2)] by simp
  then show ?thesis using t same_settings_columns by (auto simp: reordered_def)
qed

lemma clear_refines:
  assumes wf: "wf s" and p: "parent_at s parent q d"
  shows "\<exists>t. scp_tree_store_clear_children s parent em = Some t \<and> wf t \<and> same_columns s t \<and>
    tree_edit G s (q, Clear em) (store_tree s) = Some (store_tree t)"
proof -
  have d: "node_at s (root s) q = Some d" using p by (simp add: parent_at_def)
  obtain x where x: "elems s d = Some x" using parent_elem_at(3)[OF wf p] by blast
  obtain u where u: "scp_clear_array (next_addr s) (ae_children x) em s = Some u" "gone s d (below s d) u" "kids u d = []"
    using clear_array_spec[OF wf d x] by blast
  let ?t = "if parent = None then u\<lparr>stamp := next_stamp (stamp u)\<rparr> else u"
  have run: "scp_tree_store_clear_children s parent em = Some ?t"
    using parent_elem_at(1,2)[OF wf p] x u(1) by (simp add: scp_tree_store_clear_children_def children_of_def)
  have u': "wf u" "same_settings s u" using u(2) by (auto simp: gone_def)
  have t: "wf ?t" "kids ?t = kids u" "row ?t = row u"
    using wf_stamp_change[OF u'(1) next_stamp_fresh(1)] u'(1) by (auto simp: row_def fun_eq_iff)
  have sc: "same_columns s ?t" using u'(2) by (simp add: same_settings_def same_columns_def)
  have nd: "\<not> below s d d" using below_less[OF wf, of d d] by auto
  have "tree_edit G s (q, Clear em) (store_tree s) = Some (store_tree ?t)"
  proof (rule edit_level[OF wf t(1) _ d])
    show "root ?t = root s" using sc by (simp add: same_columns_def)
    show "row ?t d = row s d" using t(3) u(2) nd by (simp add: gone_def)
    show "kids ?t c = kids s c \<and> row ?t c = row s c" if "\<not> doomed s d c" for c
      using that t(2,3) u(2) by (simp add: gone_def doomed_def)
    show "level_edit G s (Clear em) (map (tree_of s) (kids s d)) = Some (map (tree_of ?t) (kids ?t d))"
      using t(2) u(3) by simp
  qed
  then show ?thesis using run t(1) sc by blast
qed

subsection \<open>Scripts of edits\<close>

lemma at_node_defined:
  assumes "wf s"
  shows "at_node q f (tree_of s e) = Some T \<Longrightarrow> \<exists>d T'. node_at s e q = Some d \<and> f (tree_of s d) = Some T'"
proof (induction q arbitrary: e T)
  case (Cons i q)
  then obtain c T' where "nth_int (kids s e) i = Some c" "at_node q f (tree_of s c) = Some T'"
    by (auto simp: tree_unfold[OF assms, of e] nth_int_map bind_eq_Some_conv)
  then show ?case using Cons.IH by auto
qed simp

text \<open>The level that an edit of the tree asks for is there in the store.\<close>

lemma edit_level_there:
  assumes "wf s" "tree_edit G s (q, ed) (store_tree s) = Some T"
  shows "\<exists>d ts. node_at s (root s) q = Some d \<and> level_edit G s ed (map (tree_of s) (kids s d)) = Some ts"
proof -
  obtain d T' where d: "node_at s (root s) q = Some d" "edit_node G s ed (tree_of s d) = Some T'"
    using at_node_defined[OF assms(1), of q "edit_node G s ed" "root s" T] assms(2) by (auto simp: store_tree_def)
  then show ?thesis by (auto simp: edit_node_def tree_unfold[OF assms(1), of d])
qed

text \<open>The row an edit of the level asks for can be looked up.\<close>

lemma iter_of_row:
  assumes "wf s" "node_at s (root s) q = Some d" "nth_int (map f (kids s d)) i = Some c"
  shows "\<exists>it t. iter_of s (q @ [i]) = Some (t, it) \<and> same_tree s t \<and> same_settings s t \<and> points_to t it (q @ [i])"
proof -
  obtain e where "nth_int (kids s d) i = Some e" using assms(3) by (auto simp: nth_int_map)
  then have "node_at s (root s) (q @ [i]) = Some e" using assms(2) by (simp add: node_at_snoc)
  from iter_of_path[OF assms(1) this] obtain it where
    "iter_of s (q @ [i]) = Some (s\<lparr>columns_dirty := True\<rparr>, it)" "points_to s it (q @ [i])" by auto
  then show ?thesis using same_tree_simps(6)[OF same_tree_dirty[of s True]] by auto
qed

text \<open>What a lookup leaves: everything but a flag.\<close>

definition looked_up :: "store \<Rightarrow> store \<Rightarrow> bool" where
  "looked_up s t \<longleftrightarrow> same_tree s t \<and> same_settings s t"

lemma looked_up_trans: "looked_up s t \<Longrightarrow> looked_up t u \<Longrightarrow> looked_up s u"
  unfolding looked_up_def using same_tree_trans same_settings_trans by blast

lemma looked_up_same:
  assumes "looked_up s t"
  shows "wf t = wf s" "unsorted t = unsorted s" "sublevels t = sublevels s" "node_at t = node_at s" "kids t = kids s"
    "root t = root s" "tree_of t = tree_of s" "store_tree t = store_tree s" "points_to t = points_to s"
    "level_edit G t = level_edit G s" "tree_edit G t = tree_edit G s" "same_columns t = same_columns s"
proof -
  have st: "same_tree s t" and se: "same_settings s t" using assms by (simp_all add: looked_up_def)
  show "wf t = wf s" "node_at t = node_at s" "kids t = kids s" "points_to t = points_to s"
    using same_tree_simps[OF st] by simp_all
  have c: "same_columns s t" by (rule same_settings_columns[OF se])
  show r: "root t = root s" "sublevels t = sublevels s" "unsorted t = unsorted s"
    using se by (simp_all add: same_settings_def unsorted_def)
  show tree: "tree_of t = tree_of s" by (rule same_tree_tree[OF st])
  show "store_tree t = store_tree s" using r tree by (simp add: store_tree_def)
  show "level_edit G t = level_edit G s" by (simp add: fun_eq_iff level_edit_same[OF c])
  show "tree_edit G t = tree_edit G s" by (rule ext, rule ext) (auto simp: edit_node_same[OF c])
  show "same_columns t = same_columns s" using se by (auto simp: same_settings_def same_columns_def fun_eq_iff)
qed

lemma parent_of_looked_up:
  assumes "wf s" "node_at s (root s) q = Some d"
  obtains t parent where "parent_of s q = Some (t, parent)" "looked_up s t" "parent_at t parent q d"
  using parent_of_path[OF assms] that by (auto simp: looked_up_def)

lemma iter_of_looked_up:
  assumes "wf s" "node_at s (root s) q = Some d" "nth_int (map f (kids s d)) i = Some c"
  obtains t it where "iter_of s (q @ [i]) = Some (t, it)" "looked_up s t" "points_to t it (q @ [i])"
  using iter_of_row[OF assms] that by (auto simp: looked_up_def)

lemma edit_refines:
  assumes wf: "wf s" and un: "unsorted s" "sublevels s" and T: "tree_edit G s (q, ed) (store_tree s) = Some T"
  shows "\<exists>t. run_edit G (q, ed) s = Some t \<and> wf t \<and> same_columns s t \<and> store_tree t = T"
proof -
  obtain d ts where d: "node_at s (root s) q = Some d" "level_edit G s ed (map (tree_of s) (kids s d)) = Some ts"
    using edit_level_there[OF wf T] by blast
  obtain s1 parent where par: "parent_of s q = Some (s1, parent)" "looked_up s s1" "parent_at s1 parent q d"
    by (rule parent_of_looked_up[OF wf d(1)])
  note p = looked_up_same[OF par(2)]
  have row: "\<exists>u it. iter_of s (q @ [i]) = Some (u, it) \<and> looked_up s u \<and> points_to u it (q @ [i])"
    if "nth_int (map (tree_of s) (kids s d)) i = Some c" for i c
    by (rule iter_of_looked_up[OF wf d(1) that]) blast
  show ?thesis
  proof (cases ed)
    case (Insert position cvs)
    then show ?thesis
      using insert_refines[of s1 parent q d G position cvs ts null_iter] par wf un d T p by auto
  next
    case (Set_Cells i cvs)
    then obtain u it where it: "iter_of s (q @ [i]) = Some (u, it)" "looked_up s u" "points_to u it (q @ [i])"
      using d(2) by (auto simp: bind_eq_Some_conv dest!: row)
    note u = looked_up_same[OF it(2)]
    show ?thesis using Set_Cells set_cells_refines[of u it q i d G cvs ts] it wf un d T u by auto
  next
    case (Remove i)
    then obtain u it where it: "iter_of s (q @ [i]) = Some (u, it)" "looked_up s u" "points_to u it (q @ [i])"
      using d(2) by (auto simp: bind_eq_Some_conv dest!: row)
    note u = looked_up_same[OF it(2)]
    show ?thesis using Remove remove_refines[of u it q i d G ts] it wf d T u by auto
  next
    case (Move i position)
    then obtain u it where it: "iter_of s (q @ [i]) = Some (u, it)" "looked_up s u" "points_to u it (q @ [i])"
      using d(2) by (auto simp: bind_eq_Some_conv Let_def dest!: row)
    note u = looked_up_same[OF it(2)]
    show ?thesis using Move move_refines[of u it q i d G position ts] it wf un d T u by auto
  next
    case (Swap i j)
    then obtain a b where ij: "nth_int (map (tree_of s) (kids s d)) i = Some a" "nth_int (map (tree_of s) (kids s d)) j = Some b"
      using d(2) by (auto simp: bind_eq_Some_conv)
    obtain u x where x: "iter_of s (q @ [i]) = Some (u, x)" "looked_up s u" "points_to u x (q @ [i])" using row[OF ij(1)] by blast
    note u = looked_up_same[OF x(2)]
    obtain v y where y: "iter_of u (q @ [j]) = Some (v, y)" "looked_up u v" "points_to v y (q @ [j])"
      by (rule iter_of_looked_up[of u q d "tree_of s" j b]) (use wf d(1) ij(2) u in auto)
    note v = looked_up_same[OF y(2)]
    show ?thesis using Swap swap_refines[of v x q i y j d G ts] x y wf d T u v by auto
  next
    case (Reorder order)
    then show ?thesis using reorder_refines[of s1 parent q d G order ts] par wf un d T p by auto
  next
    case (Clear em)
    then show ?thesis using clear_refines[of s1 parent q d em G] par wf d T p by auto
  qed
qed

lemma unsorted_columns: "same_columns s t \<Longrightarrow> unsorted t = unsorted s \<and> sublevels t = sublevels s \<and> tree_edit G t = tree_edit G s"
proof -
  assume a: "same_columns s t"
  have "tree_edit G t = tree_edit G s" by (rule ext, rule ext) (auto simp: edit_node_same[OF a])
  then show ?thesis using a by (auto simp: same_columns_def unsorted_def)
qed

text \<open>
  C1: The store implements a tree of rows: a script of edits that can be made on the tree can be made, through
  paths and iterators, on any well-formed store that is not sorted, none of the calls faults, the store is well formed
  at the end, and the tree in it is the edited tree.
\<close>

theorem scp_script_refines:
  assumes "wf s" and "unsorted s" and "sublevels s" and "foldM (tree_edit G s) script (store_tree s) = Some T"
  shows "\<exists>t. foldM (run_edit G) script s = Some t \<and> wf t \<and> store_tree t = T"
proof -
  have "\<exists>t. foldM (run_edit G) script u = Some t \<and> wf t \<and> store_tree t = T"
    if "wf u" "same_columns s u" "foldM (tree_edit G s) script (store_tree u) = Some T" for u
    using that
  proof (induction script arbitrary: u)
    case (Cons qe script)
    obtain q ed where qe: "qe = (q, ed)" by fastforce
    obtain T' where T': "tree_edit G s qe (store_tree u) = Some T'" "foldM (tree_edit G s) script T' = Some T"
      using Cons.prems(3) by (auto simp del: tree_edit.simps simp: bind_eq_Some_conv)
    note c = unsorted_columns[OF Cons.prems(2), of G]
    have "\<exists>v. run_edit G (q, ed) u = Some v \<and> wf v \<and> same_columns u v \<and> store_tree v = T'"
      using edit_refines[OF Cons.prems(1), of G q ed T'] c assms(2,3) T'(1) qe by (simp del: tree_edit.simps)
    then obtain v where v: "run_edit G qe u = Some v" "wf v" "same_columns u v" "store_tree v = T'" using qe by blast
    have "\<exists>t. foldM (run_edit G) script v = Some t \<and> wf t \<and> store_tree t = T"
      by (rule Cons.IH) (use v T'(2) same_columns_trans[OF Cons.prems(2) v(3)] in auto)
    then show ?case using v(1) by simp
  qed auto
  then show ?thesis using assms(1,4) by (auto simp: same_columns_def)
qed

lemma demo_tree: "store_tree demo = Tree [] [Tree [V_int 10] [], Tree [V_int 20] [Tree [V_int 15] []], Tree [V_int 30] []]"
  by (simp add: store_tree_def tree_of_def eval_nat_numeral kids_def row_def demo_def)

theorem scp_script_refines_witness:
  "\<exists>t. foldM (run_edit demo_glib) [([], Move 0 (-1)), ([0], Insert 1 []), ([], Remove 1), ([1], Clear True)] demo = Some t \<and>
    wf t \<and> store_tree t = Tree [] [Tree [V_int 20] [Tree [V_int 15] [], Tree [V_zero] []], Tree [V_int 10] []]"
proof (rule scp_script_refines[OF demo_wf])
  show "unsorted demo" "sublevels demo" by (simp_all add: unsorted_def demo_def)
  have "n_columns demo = 1" by (simp add: demo_def)
  then show "foldM (tree_edit demo_glib demo) [([], Move 0 (-1)), ([0], Insert 1 []), ([], Remove 1), ([1], Clear True)] (store_tree demo)
    = Some (Tree [] [Tree [V_int 20] [Tree [V_int 15] [], Tree [V_zero] []], Tree [V_int 10] []])"
    by (simp add: demo_tree edit_node_def nth_int_def insert_at_def remove_index_def Let_def)
qed

end
