(* ===== verification/ScpParse.thy ===== *)
theory ScpParse
  imports Prelude
begin

text \<open>
  The parser of GDB's records in the scope plugin (\<open>scope/src/parse.c\<close>): messages are changed in place, nodes point into them. With the
  same grammar on strings.
\<close>

subsection \<open>Writing into the message\<close>

definition put_byte :: "block \<Rightarrow> nat \<Rightarrow> char \<Rightarrow> block option" where
  "put_byte m i c = (if i < length m then Some (m[i := c]) else None)"

lemma put_byte_length: "put_byte m i c = Some m' \<Longrightarrow> length m' = length m"
  by (auto simp: put_byte_def split: if_splits)

text \<open>A \<open>const char *\<close> is a string constant or points into the message, which is changed in place.\<close>

datatype cptr = Constant string | At nat

datatype parse_node =
    PT_VALUE (node_name: cptr) (node_value: cptr)
  | PT_ARRAY (node_name: cptr) (node_array: "parse_node list")

text \<open>The string a pointer stands for.\<close>

definition c_string :: "block \<Rightarrow> nat \<Rightarrow> string option" where
  "c_string m i = (if NUL \<in> set (drop i m) then Some (takeWhile (\<lambda>c. c \<noteq> NUL) (drop i m)) else None)"

fun pointed :: "block \<Rightarrow> cptr \<Rightarrow> string option" where
  "pointed m (Constant s) = Some s"
| "pointed m (At i) = c_string m i"

subsection \<open>\<open>parse_string\<close>\<close>

text \<open>
  The result of a parser is the message and the error that \<open>parse_error\<close> logs, or the text pointer. The character behind a backslash:
\<close>

definition unescape_char :: "char \<Rightarrow> block \<Rightarrow> nat \<Rightarrow> (block \<times> nat) option" where
  "unescape_char newline m text = do {
     let text = text + 1;
     c \<leftarrow> rd m text;
     if c = BSL \<or> c = DQ then Some (m, text)
     else if c \<in> {CHR ''n'', CHR ''N''} \<and> newline \<noteq> NUL then do { m \<leftarrow> put_byte m text newline; Some (m, text) }
     else if c \<in> {CHR ''n'', CHR ''N'', CHR ''t'', CHR ''T''} \<and> newline \<noteq> NUL then do { m \<leftarrow> put_byte m text TAB; Some (m, text) }
     else Some (m, text - 1) }"

function parse_string_loop :: "char \<Rightarrow> block \<Rightarrow> nat \<Rightarrow> nat \<Rightarrow> (block \<times> (string + nat)) option" where
  "parse_string_loop newline m out text = do {
     let text = text + 1;
     c \<leftarrow> rd m text;
     if c = DQ then do { m \<leftarrow> put_byte m out NUL; Some (m, Inr (text + 1)) }
     else do {
       (m, text) \<leftarrow> (if c = BSL then unescape_char newline m text else Some (m, text));
       c \<leftarrow> rd m text;
       m \<leftarrow> put_byte m out c;
       c \<leftarrow> rd m text;
       if c = NUL then Some (m, Inl ''\" expected'') else parse_string_loop newline m (out + 1) text } }"
  by pat_completeness auto
termination
  by (relation "measure (\<lambda>(newline, m, out, text). length m - text)")
    (auto simp: unescape_char_def Let_def put_byte_def rd_def split: if_splits Option.bind_splits)

declare parse_string_loop.simps [simp del]

definition scope_parse_string :: "block \<Rightarrow> nat \<Rightarrow> char \<Rightarrow> (block \<times> (string + nat)) option" where
  "scope_parse_string m text newline = parse_string_loop newline m text text"

subsection \<open>\<open>parse_text\<close>\<close>

definition node_char :: "char \<Rightarrow> bool" where
  "node_char c \<longleftrightarrow> is_alnum c \<or> c \<in> set ''_.-''"

definition parse_name :: "block \<Rightarrow> nat \<Rightarrow> (block \<times> (string + cptr \<times> nat)) option" where
  "parse_name m text = do {
     let text = text + 1;
     c \<leftarrow> rd m text;
     if is_alpha c \<or> c = CHR ''_'' then do {
       let name = At text;
       text \<leftarrow> skip_while node_char m (text + 1);
       c \<leftarrow> rd m text;
       if c \<noteq> CHR ''='' then Some (m, Inl ''= expected'')
       else do { m \<leftarrow> put_byte m text NUL; Some (m, Inr (name, text + 1)) } }
     else Some (m, Inr (Constant [], text)) }"

definition ends :: "bool \<Rightarrow> char" where
  "ends brace = (if brace then CHR ''}'' else CHR '']'')"

text \<open>The value of a node: a string, or an array, whose elements \<open>nested\<close> parses.\<close>

definition parse_node_item :: "(block \<Rightarrow> nat \<Rightarrow> char \<Rightarrow> (block \<times> parse_node list \<times> (string + nat)) option) \<Rightarrow>
    block \<Rightarrow> parse_node list \<Rightarrow> cptr \<Rightarrow> nat \<Rightarrow> char \<Rightarrow> char \<Rightarrow> (block \<times> parse_node list \<times> (string + nat)) option" where
  "parse_node_item nested m nodes name text stop newline = do {
     c \<leftarrow> rd m text;
     if c = DQ then do {
       (m, r) \<leftarrow> scope_parse_string m text newline;
       if isl r \<and> newline = NUL then Some (m, [], r) else Some (m, nodes @ [PT_VALUE name (At text)], r) }
     else do {
       let brace = (c = CHR ''{'');
       if \<not> brace \<and> c \<noteq> CHR ''['' then Some (m, nodes, Inl ''\" { or [ expected'')
       else do {
         c \<leftarrow> rd m (text + 1);
         (m, array, r) \<leftarrow> (if c = ends brace then Some (m, [], Inr (text + 2)) else nested m text (ends brace));
         s \<leftarrow> pointed m name;
         Some (m, if stop \<noteq> NUL \<or> s \<noteq> ''time'' then nodes @ [PT_ARRAY name array] else nodes, r) } } }"

text \<open>
  The loop of \<open>parse_text\<close>; \<open>stop\<close> is its parameter \<open>end\<close>. The nodes are given back with the result. Each turn of the loop and each nested
  array takes one unit of fuel.
\<close>

primrec parse_text :: "nat \<Rightarrow> block \<Rightarrow> parse_node list \<Rightarrow> nat \<Rightarrow> char \<Rightarrow> char \<Rightarrow> (block \<times> parse_node list \<times> (string + nat)) option" where
  "parse_text 0 m nodes text stop newline = None"
| "parse_text (Suc n) m nodes text stop newline = do {
     (m, nm) \<leftarrow> parse_name m text;
     (case nm of
        Inl err \<Rightarrow> Some (m, nodes, Inl err)
      | Inr (name, text) \<Rightarrow> do {
          (m, nodes, r) \<leftarrow> parse_node_item (\<lambda>m text stop. parse_text n m [] text stop newline) m nodes name text stop newline;
          (case r of
             Inl err \<Rightarrow> Some (m, nodes, Inl err)
           | Inr text \<Rightarrow> do {
               c \<leftarrow> rd m text;
               if c = CHR '','' then parse_text n m nodes text stop newline
               else if c = stop then Some (m, nodes, Inr (text + of_bool (stop \<noteq> NUL)))
               else Some (m, nodes, Inl '', or end expected'') }) }) }"

subsection \<open>The parser on strings\<close>

text \<open>The same grammar on strings: no pointers, no writes, and the strings are values.\<close>

datatype gdb_node = GValue string string | GArray string "gdb_node list"

fun p_string :: "char \<Rightarrow> string \<Rightarrow> string \<times> (string + string)" where
  "p_string newline [] = ([], Inl ''\" expected'')"
| "p_string newline (c # s) =
     (if c = DQ then ([], Inr s)
      else if c = BSL then
        (case s of
           [] \<Rightarrow> ([BSL], Inl ''\" expected'')
         | e # s' \<Rightarrow>
             if e = BSL \<or> e = DQ then apfst ((#) e) (p_string newline s')
             else if e \<in> {CHR ''n'', CHR ''N''} \<and> newline \<noteq> NUL then apfst ((#) newline) (p_string newline s')
             else if e \<in> {CHR ''n'', CHR ''N'', CHR ''t'', CHR ''T''} \<and> newline \<noteq> NUL then apfst ((#) TAB) (p_string newline s')
             else apfst ((#) BSL) (p_string newline s))
      else apfst ((#) c) (p_string newline s))"

definition p_name :: "string \<Rightarrow> string + string \<times> string" where
  "p_name s = (if s \<noteq> [] \<and> (is_alpha (hd s) \<or> hd s = CHR ''_'') then
     (case dropWhile node_char s of
        [] \<Rightarrow> Inl ''= expected''
      | c # r \<Rightarrow> if c = CHR ''='' then Inr (takeWhile node_char s, r) else Inl ''= expected'')
     else Inr ([], s))"

definition p_item :: "(string \<Rightarrow> char \<Rightarrow> gdb_node list \<times> (string + string)) \<Rightarrow>
    gdb_node list \<Rightarrow> string \<Rightarrow> string \<Rightarrow> char \<Rightarrow> char \<Rightarrow> gdb_node list \<times> (string + string)" where
  "p_item nested nodes name s stop newline =
     (case s of
        [] \<Rightarrow> (nodes, Inl ''\" { or [ expected'')
      | c # s \<Rightarrow>
          if c = DQ then
            (let (v, r) = p_string newline s in
             if isl r \<and> newline = NUL then ([], r) else (nodes @ [GValue name v], r))
          else if c = CHR ''{'' \<or> c = CHR ''['' then
            (let (array, r) = (if s \<noteq> [] \<and> hd s = ends (c = CHR ''{'') then ([], Inr (tl s)) else nested s (ends (c = CHR ''{''))) in
             (if stop \<noteq> NUL \<or> name \<noteq> ''time'' then nodes @ [GArray name array] else nodes, r))
          else (nodes, Inl ''\" { or [ expected''))"

primrec p_text :: "nat \<Rightarrow> gdb_node list \<Rightarrow> string \<Rightarrow> char \<Rightarrow> char \<Rightarrow> gdb_node list \<times> (string + string)" where
  "p_text 0 nodes s stop newline = (nodes, Inl [])"
| "p_text (Suc n) nodes s stop newline =
     (case p_name s of
        Inl err \<Rightarrow> (nodes, Inl err)
      | Inr (name, s) \<Rightarrow>
          (let (nodes, r) = p_item (\<lambda>s stop. p_text n [] s stop newline) nodes name s stop newline in
           (case r of
              Inl err \<Rightarrow> (nodes, Inl err)
            | Inr s \<Rightarrow>
                if s \<noteq> [] \<and> hd s = CHR '','' then p_text n nodes (tl s) stop newline
                else if stop = NUL \<and> s = [] then (nodes, Inr s)
                else if stop \<noteq> NUL \<and> s \<noteq> [] \<and> hd s = stop then (nodes, Inr (tl s))
                else (nodes, Inl '', or end expected''))))"

end
