(* ===== verification/ScpRoutes.thy ===== *)
theory ScpRoutes
  imports ScpParse
begin

text \<open>
  Messages of the scope plugin (\<open>scope/src/parse.c\<close>): the table of routes from messages to callbacks, and the lookups on nodes.
\<close>

subsection \<open>Messages and their routes\<close>

text \<open>The callbacks are functions of other files of the plugin, named here by their C names.\<close>

datatype parse_route = Route (route_prefix: string) (callback: "string option") (mark: char) (newline: char) (args: nat)

definition parse_routes :: "parse_route list" where
  "parse_routes = [
    Route ''*running,'' (Some ''on_thread_running'') NUL NUL 0,
    Route ''*stopped,reason=\"exited'' None NUL NUL 0,
    Route ''*stopped,reason=\"breakpoint'' (Some ''on_break_stopped'') NUL NUL 0,
    Route ''*stopped,'' (Some ''on_thread_stopped'') NUL NUL 0,
    Route ''=thread-created,'' (Some ''on_thread_created'') NUL NUL 0,
    Route ''=thread-exited,'' (Some ''on_thread_exited'') NUL NUL 0,
    Route ''=thread-selected,id=\"'' (Some ''on_thread_selected'') NUL NUL 1,
    Route ''=thread-group-started,id=\"'' (Some ''on_thread_group_started'') NUL NUL 1,
    Route ''=thread-group-exited,id=\"'' (Some ''on_thread_group_exited'') NUL NUL 1,
    Route ''=thread-group-added,id=\"'' (Some ''on_thread_group_added'') NUL NUL 1,
    Route ''=thread-group-removed,id=\"'' (Some ''on_thread_group_removed'') NUL NUL 1,
    Route ''=breakpoint-created,bkpt={'' (Some ''on_break_created'') NUL NUL 1,
    Route ''=breakpoint-modified,bkpt={'' (Some ''on_break_created'') NUL NUL 1,
    Route ''=breakpoint-deleted,id=\"'' (Some ''on_break_deleted'') NUL NUL 1,
    Route ''^done,bkpt={'' (Some ''on_break_inserted'') NUL NUL 1,
    Route ''^done,wpt={'' (Some ''on_break_inserted'') NUL NUL 1,
    Route ''^done,hw-awpt={'' (Some ''on_break_inserted'') NUL NUL 1,
    Route ''^done,hw-rwpt={'' (Some ''on_break_inserted'') NUL NUL 1,
    Route ''^done,threads=['' (Some ''on_thread_follow'') (CHR ''2'') NUL 1,
    Route ''^done,threads=['' (Some ''on_thread_info'') NUL NUL 1,
    Route ''^done,new-thread-id=\"'' (Some ''on_thread_selected'') NUL NUL 1,
    Route ''^done,BreakpointTable={'' (Some ''on_break_list'') NUL NUL 1,
    Route ''^done,frame={'' (Some ''on_stack_follow'') (CHR ''2'') NUL 0,
    Route ''^done,frame={'' (Some ''on_thread_frame'') (CHR ''4'') NUL 0,
    Route ''^done,stack=['' (Some ''on_stack_frames'') (CHR ''*'') NUL 1,
    Route ''^done,stack-args=['' (Some ''on_stack_arguments'') (CHR ''*'') NUL 1,
    Route ''^done,variables=['' (Some ''on_local_variables'') (CHR ''*'') NUL 1,
    Route ''^done,line=\"'' (Some ''on_debug_list_source'') (CHR ''2'') NUL 2,
    Route ''^done,value=\"'' (Some ''on_inspect_evaluate'') (CHR ''2'') NUL 1,
    Route ''^done,value=\"'' (Some ''on_tooltip_value'') (CHR ''3'') NUL 1,
    Route ''^done,value=\"'' (Some ''on_inspect_evaluate'') (CHR ''4'') NUL 1,
    Route ''^done,value=\"'' (Some ''on_watch_value'') (CHR ''6'') NUL 1,
    Route ''^done,value=\"'' (Some ''on_inspect_assign'') (CHR ''7'') NUL 1,
    Route ''^done,value=\"'' (Some ''on_menu_evaluate_value'') (CHR ''8'') NUL 1,
    Route ''^done,name=\"'' (Some ''on_inspect_variable'') (CHR ''7'') NUL 1,
    Route ''^done,format=\"'' (Some ''on_inspect_format'') (CHR ''7'') NUL 1,
    Route ''^done,numchild=\"'' (Some ''on_inspect_children'') (CHR ''7'') NUL 2,
    Route ''^done,ndeleted=\"'' (Some ''on_inspect_ndeleted'') (CHR ''7'') NUL 0,
    Route ''^done,path_expr=\"'' (Some ''on_inspect_path_expr'') (CHR ''4'') NUL 1,
    Route ''^done,changelist=['' (Some ''on_inspect_changelist'') NUL NUL 1,
    Route ''^done,memory=['' (Some ''on_memory_read_bytes'') NUL NUL 1,
    Route ''^done,features=['' (Some ''on_break_features'') (CHR ''5'') NUL 1,
    Route ''^done,features=['' (Some ''on_target_features'') (CHR ''7'') NUL 1,
    Route ''^done,register-names=['' (Some ''on_register_names'') NUL NUL 1,
    Route ''^done,changed-registers=['' (Some ''on_register_changes'') NUL NUL 1,
    Route ''^done,register-values=['' (Some ''on_register_values'') (CHR ''*'') NUL 1,
    Route ''^running'' (Some ''on_debug_loaded'') (CHR ''1'') NUL 0,
    Route ''^done'' (Some ''on_debug_loaded'') (CHR ''1'') NUL 0,
    Route ''^done'' (Some ''on_break_done'') (CHR ''2'') NUL 0,
    Route ''^done'' (Some ''on_debug_auto_run'') (CHR ''5'') NUL 0,
    Route ''^done'' (Some ''on_data_modified'') (CHR ''7'') NUL 0,
    Route ''^error,'' (Some ''on_debug_load_error'') (CHR ''1'') LF 0,
    Route ''^error,'' (Some ''on_tooltip_error'') (CHR ''3'') NUL 0,
    Route ''^error'' (Some ''on_quiet_error'') (CHR ''4'') NUL 0,
    Route ''^error,'' (Some ''on_watch_error'') (CHR ''6'') TAB 0,
    Route ''^error,'' (Some ''on_debug_error'') NUL LF 0,
    Route ''^exit'' (Some ''on_debug_exit'') NUL NUL 0]"

text \<open>\<open>g_str_has_prefix\<close>: the comparison ends with the first character that differs.\<close>

fun has_prefix :: "block \<Rightarrow> nat \<Rightarrow> string \<Rightarrow> bool option" where
  "has_prefix m i [] = Some True"
| "has_prefix m i (p # ps) = do { c \<leftarrow> rd m i; if c = p then has_prefix m (Suc i) ps else Some False }"

text \<open>The first route whose prefix and mark fit; \<open>token\<close> points into the message, or is \<open>NULL\<close>.\<close>

fun find_route :: "block \<Rightarrow> nat \<Rightarrow> nat option \<Rightarrow> parse_route list \<Rightarrow> parse_route option option" where
  "find_route m message token [] = Some None"
| "find_route m message token (r # rs) = do {
     pre \<leftarrow> has_prefix m message (route_prefix r);
     hit \<leftarrow> (if \<not> pre then Some False
       else if mark r = NUL then Some True
       else (case token of
           None \<Rightarrow> Some False
         | Some t \<Rightarrow> if mark r = CHR ''*'' then Some True else do { c \<leftarrow> rd m t; Some (mark r = c) }));
     if hit then Some (Some r) else find_route m message token rs }"

definition comma_of :: "string \<Rightarrow> nat option" where
  "comma_of prefix = (if CHR '','' \<in> set prefix then Some (length (takeWhile (\<lambda>c. c \<noteq> CHR '','') prefix)) else None)"

text \<open>
  The message after the call, the nodes the callback of the route gets, and the messages logged as errors. The fuel is the length of the
  message.
\<close>

definition parse_message :: "block \<Rightarrow> nat \<Rightarrow> nat option \<Rightarrow> (block \<times> (string \<times> parse_node list) option \<times> string list) option" where
  "parse_message m message token = do {
     route \<leftarrow> find_route m message token parse_routes;
     (case route of
        None \<Rightarrow> Some (m, None, [])
      | Some route \<Rightarrow>
          (case callback route of
             None \<Rightarrow> Some (m, None, [])
           | Some cb \<Rightarrow> do {
               (m, nodes, errs) \<leftarrow>
                 (case comma_of (route_prefix route) of
                    None \<Rightarrow> Some (m, [], [])
                  | Some comma \<Rightarrow> do {
                      (m, nodes, r) \<leftarrow> parse_text (length m) m [] (message + comma) NUL (newline route);
                      Some (m, nodes, case r of Inl e \<Rightarrow> [e] | Inr _ \<Rightarrow> []) });
               if length nodes < args route then Some (m, None, errs @ [''missing argument(s)''])
               else Some (m, Some (cb, nodes @ (case token of None \<Rightarrow> [] | Some t \<Rightarrow> [PT_VALUE (Constant ''=token'') (At (t + 1))])), errs) })) }"

subsection \<open>Looking nodes up\<close>

text \<open>\<open>parse_find_node\<close> gives the index of the node.\<close>

fun parse_find_node :: "block \<Rightarrow> parse_node list \<Rightarrow> string \<Rightarrow> nat option option" where
  "parse_find_node m [] name = Some None"
| "parse_find_node m (n # ns) name = do {
     s \<leftarrow> pointed m (node_name n);
     if s = name then Some (Some 0) else do { i \<leftarrow> parse_find_node m ns name; Some (map_option Suc i) } }"

datatype node_type = Value_Type | Array_Type

fun type_of_node :: "parse_node \<Rightarrow> node_type" where
  "type_of_node (PT_VALUE _ _) = Value_Type"
| "type_of_node (PT_ARRAY _ _) = Array_Type"

definition parse_find_node_type :: "block \<Rightarrow> parse_node list \<Rightarrow> string \<Rightarrow> node_type \<Rightarrow> (parse_node option \<times> string list) option" where
  "parse_find_node_type m nodes name ty = do {
     i \<leftarrow> parse_find_node m nodes name;
     (case i of
        None \<Rightarrow> Some (None, [])
      | Some i \<Rightarrow>
          if type_of_node (nodes ! i) = ty then Some (Some (nodes ! i), [])
          else Some (None, [name @ '': found '' @ (if ty = Value_Type then ''array'' else ''value'')])) }"

text \<open>\<open>parse_grab_token\<close>: the token, and the nodes without it. A cast of an array to a string is a fault.\<close>

definition parse_grab_token :: "block \<Rightarrow> parse_node list \<Rightarrow> (cptr option \<times> parse_node list) option" where
  "parse_grab_token m nodes = do {
     i \<leftarrow> parse_find_node m nodes ''=token'';
     (case i of
        None \<Rightarrow> Some (None, nodes)
      | Some i \<Rightarrow> (case nodes ! i of
            PT_VALUE _ v \<Rightarrow> Some (Some v, take i nodes @ drop (Suc i) nodes)
          | PT_ARRAY _ _ \<Rightarrow> None)) }"

text \<open>\<open>parse_lead_array\<close> and \<open>parse_lead_value\<close> take the type of the first node for granted.\<close>

fun parse_lead_array :: "parse_node list \<Rightarrow> parse_node list option" where
  "parse_lead_array (PT_ARRAY _ ns # _) = Some ns"
| "parse_lead_array _ = None"

fun parse_lead_value :: "parse_node list \<Rightarrow> cptr option" where
  "parse_lead_value (PT_VALUE _ v # _) = Some v"
| "parse_lead_value _ = None"

text \<open>\<open>on_target_features\<close>: the new value of \<open>pref_gdb_async_mode\<close>.\<close>

fun target_features :: "block \<Rightarrow> parse_node list \<Rightarrow> bool \<Rightarrow> bool option" where
  "target_features m [] async = Some async"
| "target_features m (PT_VALUE _ v # ns) async = do { s \<leftarrow> pointed m v; target_features m ns (async \<or> s = ''async'') }"
| "target_features m (PT_ARRAY _ _ # ns) async = None"

definition on_target_features :: "block \<Rightarrow> parse_node list \<Rightarrow> bool option" where
  "on_target_features m nodes = do { ns \<leftarrow> parse_lead_array nodes; target_features m ns False }"

end
