(* ===== verification/ScpParseRef.thy ===== *)
theory ScpParseRef
  imports ScpParse
begin

text \<open>
  The parser that changes the message in place is the parser on strings: what it leaves of the message, and what its nodes point to, step
  by step.
\<close>

subsection \<open>Strings inside the message\<close>

text \<open>The string at \<open>i\<close> ends before \<open>hi\<close>, with its \<open>NUL\<close>.\<close>

definition str_at :: "block \<Rightarrow> nat \<Rightarrow> nat \<Rightarrow> string \<Rightarrow> bool" where
  "str_at m hi i s \<longleftrightarrow> i + length s < hi \<and> hi \<le> length m \<and> take (Suc (length s)) (drop i m) = s @ [NUL] \<and> NUL \<notin> set s"

lemma str_at_same: "str_at m hi i s \<Longrightarrow> take hi m' = take hi m \<Longrightarrow> str_at m' hi i s"
proof -
  assume a: "str_at m hi i s" and t: "take hi m' = take hi m"
  then have h: "i + length s < hi" "hi \<le> length m" by (simp_all add: str_at_def)
  have "length (take hi m') = hi" using t h by simp
  then have l: "hi \<le> length m'" by simp
  have sub: "take (Suc (length s)) (drop i m) = drop i (take (i + Suc (length s)) (take hi m))" for m :: block
    using h by (simp add: take_drop add.commute)
  have "take (Suc (length s)) (drop i m') = take (Suc (length s)) (drop i m)" unfolding sub[of m] sub[of m'] t ..
  then show ?thesis using a l by (simp add: str_at_def)
qed

lemma str_at_mono: "str_at m hi i s \<Longrightarrow> hi \<le> hi' \<Longrightarrow> hi' \<le> length m \<Longrightarrow> str_at m hi' i s"
  by (auto simp: str_at_def)

lemma str_at_c_string: "str_at m hi i s \<Longrightarrow> c_string m i = Some s"
proof -
  assume a: "str_at m hi i s"
  then have d: "drop i m = s @ NUL # drop (Suc (length s)) (drop i m)" and n: "NUL \<notin> set s"
    using append_take_drop_id[of "Suc (length s)" "drop i m"] unfolding str_at_def by auto
  from n have "takeWhile (\<lambda>c. c \<noteq> NUL) (s @ NUL # z) = s" for z by (induction s) auto
  then show ?thesis using d by (metis c_string_def in_set_conv_decomp)
qed

lemma str_at_Cons:
  assumes "str_at m hi (Suc i) s" "i < length m" "m ! i = c" "c \<noteq> NUL"
  shows "str_at m hi i (c # s)"
  using assms by (auto simp: str_at_def Cons_nth_drop_Suc[symmetric])

lemma str_at_Nil: "i < hi \<Longrightarrow> hi \<le> length m \<Longrightarrow> m ! i = NUL \<Longrightarrow> str_at m hi i []"
  by (simp add: str_at_def Cons_nth_drop_Suc[symmetric])

text \<open>What is behind the text pointer: the rest of the message, its \<open>NUL\<close>, and whatever follows.\<close>

definition unread :: "block \<Rightarrow> nat \<Rightarrow> string \<Rightarrow> string \<Rightarrow> bool" where
  "unread m i s z \<longleftrightarrow> drop i m = s @ NUL # z \<and> NUL \<notin> set s"

lemma unread_rd: "unread m i s z \<Longrightarrow> rd m i = Some (if s = [] then NUL else hd s)"
  by (cases s) (auto simp: unread_def intro: rd_drop)

lemma unread_Cons: "unread m i (c # s) z \<Longrightarrow> unread m (Suc i) s z \<and> rd m i = Some c \<and> c \<noteq> NUL"
  by (auto simp: unread_def intro: rd_drop drop_Suc_rest)

lemma unread_0: "unread m 0 s z \<longleftrightarrow> m = s @ NUL # z \<and> NUL \<notin> set s"
  by (simp add: unread_def)

lemma unread_c_string: "unread m i s z \<Longrightarrow> c_string m i = Some s"
proof -
  assume u: "unread m i s z"
  have "NUL \<notin> set s \<Longrightarrow> takeWhile (\<lambda>c. c \<noteq> NUL) (s @ NUL # z) = s" by (induction s) auto
  then show ?thesis using u by (simp add: c_string_def unread_def)
qed

lemma unread_less: "unread m i s z \<Longrightarrow> i + length s < length m"
proof -
  assume "unread m i s z"
  then have "length (drop i m) = length s + Suc (length z)" by (simp add: unread_def)
  then show ?thesis by simp
qed

lemma unread_drop: "unread m i s z \<Longrightarrow> k \<le> length s \<Longrightarrow> unread m (i + k) (drop k s) z"
proof -
  assume u: "unread m i s z" and k: "k \<le> length s"
  have "drop (i + k) m = drop k (drop i m)" by (simp add: add.commute)
  also have "\<dots> = drop k s @ NUL # z" using u k by (simp add: unread_def del: drop_drop)
  finally show ?thesis using u in_set_dropD[of NUL k s] by (auto simp: unread_def)
qed

lemma unread_put: "unread m i s z \<Longrightarrow> put_byte m j c = Some m' \<Longrightarrow> j < i \<Longrightarrow> unread m' i s z"
  by (auto simp: unread_def put_byte_def split: if_splits)

text \<open>A pointer or an error of the parser is what the parser on strings says.\<close>

definition stands :: "block \<Rightarrow> string \<Rightarrow> string + nat \<Rightarrow> string + string \<Rightarrow> bool" where
  "stands m z r gr \<longleftrightarrow> (case (r, gr) of
      (Inl e, Inl e') \<Rightarrow> e = e'
    | (Inr t, Inr s) \<Rightarrow> unread m t s z
    | _ \<Rightarrow> False)"

definition reach :: "block \<Rightarrow> string + nat \<Rightarrow> nat" where
  "reach m r = (case r of Inl _ \<Rightarrow> length m | Inr t \<Rightarrow> t)"

lemma put_byte_Some: "i < length m \<Longrightarrow> put_byte m i c = Some (m[i := c])"
  by (simp add: put_byte_def)

lemma parse_string_loop_step:
  assumes "rd m (Suc text) = Some c" "c \<noteq> DQ" "c \<noteq> BSL" "out \<le> text"
  shows "parse_string_loop newline m out text =
    (if c = NUL then Some (m[out := c], Inl ''\" expected'') else parse_string_loop newline (m[out := c]) (Suc out) (Suc text))"
proof -
  have l: "Suc text < length m" using assms(1) by (simp add: rd_def split: if_splits)
  then have "rd (m[out := c]) (Suc text) = Some c" using assms(1,4) by (simp add: rd_def)
  then show ?thesis using assms l by (subst parse_string_loop.simps) (simp add: put_byte_def)
qed

definition string_ok :: "char \<Rightarrow> block \<Rightarrow> nat \<Rightarrow> nat \<Rightarrow> string \<Rightarrow> string \<Rightarrow> bool" where
  "string_ok newline m out text s z \<longleftrightarrow> (\<exists>m' r. parse_string_loop newline m out text = Some (m', r) \<and> length m' = length m \<and>
     take out m' = take out m \<and> stands m' z r (snd (p_string newline s)) \<and> str_at m' (reach m' r) out (fst (p_string newline s)))"

lemma string_ok_step:
  assumes "string_ok newline m1 (Suc out) text1 s1 z"
    and "parse_string_loop newline m out text = parse_string_loop newline m1 (Suc out) text1"
    and "p_string newline s = apfst ((#) c) (p_string newline s1)"
    and "take out m1 = take out m" "m1 ! out = c" "c \<noteq> NUL" "length m1 = length m" "out < length m"
  shows "string_ok newline m out text s z"
proof -
  obtain m' r where r: "parse_string_loop newline m1 (Suc out) text1 = Some (m', r)" "length m' = length m1"
    "take (Suc out) m' = take (Suc out) m1" "stands m' z r (snd (p_string newline s1))" "str_at m' (reach m' r) (Suc out) (fst (p_string newline s1))"
    using assms(1) by (auto simp: string_ok_def)
  have "m' ! out = c" using arg_cong[OF r(3), of "\<lambda>l. l ! out"] assms(5) by simp
  moreover have "take out m' = take out m" using arg_cong[OF r(3), of "take out"] assms(4) by simp
  ultimately show ?thesis using r assms by (auto simp: string_ok_def intro!: str_at_Cons)
qed

lemma escape_step:
  assumes "unread m (Suc text) (BSL # e # s) z" "out \<le> text" "unescape_char newline m (Suc text) = Some (m1, text1)"
    "rd m1 text1 = Some c" "c \<noteq> NUL" "text1 < length m1" "length m1 = length m" 
  shows "parse_string_loop newline m out text = parse_string_loop newline (m1[out := c]) (Suc out) text1"
proof -
  have l: "out < length m" using unread_less[OF assms(1)] assms(2) by simp
  have "rd (m1[out := c]) text1 = Some c" using assms(4,6,7) using l by (auto simp: rd_def nth_list_update)
  then show ?thesis using assms unread_Cons[OF assms(1)] l
    by (subst parse_string_loop.simps) (simp add: put_byte_def)
qed

lemma parse_string_loop_ok: "unread m (Suc text) s z \<Longrightarrow> out \<le> text \<Longrightarrow> string_ok newline m out text s z"
proof (induction newline s arbitrary: m out "text" rule: p_string.induct)
  case (1 newline)
  then have "rd m (Suc text) = Some NUL" "Suc text < length m" using unread_rd[OF 1(1)] unread_less[OF 1(1)] by simp_all
  then show ?case using 1 parse_string_loop_step[of m "text" NUL out newline]
    by (auto simp: string_ok_def stands_def reach_def intro!: str_at_Nil)
next
  case (2 newline c s)
  note IH = 2(1-5) and prems = 2(6,7)
  have u: "unread m (Suc (Suc text)) s z" "rd m (Suc text) = Some c" "c \<noteq> NUL" using unread_Cons[OF prems(1)] by simp_all
  note len = unread_less[OF prems(1)]
  consider (quote) "c = DQ" | (last) "c = BSL" "s = []" | (escape) e s' where "c = BSL" "s = e # s'" | (plain_text) "c \<noteq> DQ" "c \<noteq> BSL"
    by (cases s) auto
  then show ?case
  proof cases
    case quote
    then have "parse_string_loop newline m out text = Some (m[out := NUL], Inr (Suc (Suc text)))"
      using u len prems(2) by (subst parse_string_loop.simps) (simp add: put_byte_def)
    moreover have "unread (m[out := NUL]) (Suc (Suc text)) s z" using u prems(2) by (auto simp: unread_def)
    ultimately show ?thesis using quote len prems(2)
      by (auto simp: string_ok_def stands_def reach_def intro!: str_at_Nil)
  next
    case plain_text
    have "unread (m[out := c]) (Suc (Suc text)) s z" using u prems(2) by (auto simp: unread_def)
    then have "string_ok newline (m[out := c]) (Suc out) (Suc text) s z" using IH(5)[OF plain_text, of "m[out := c]" "Suc text" "Suc out"] prems(2) by simp
    then show ?thesis
      by (rule string_ok_step) (use plain_text u len prems(2) parse_string_loop_step[of m "text" c out newline] in \<open>simp_all\<close>)
  next
    case last
    have len2: "Suc (Suc text) < length m" using unread_less[OF u(1)] by simp
    have n: "rd m (Suc (Suc text)) = Some NUL" using unread_rd[OF u(1)] last by simp
    then have "unescape_char newline m (Suc text) = Some (m, Suc text)" by (simp add: unescape_char_def)
    moreover have "rd (m[out := BSL]) (Suc text) = Some BSL" using u(2) last prems(2) len by (simp add: rd_def nth_list_update split: if_splits)
    moreover have "rd (m[out := BSL]) (Suc (Suc text)) = Some NUL" using n prems(2) by (simp add: rd_def split: if_splits)
    ultimately have "parse_string_loop newline m out text = Some (m[out := BSL, Suc out := NUL], Inl ''\" expected'')"
      using last u len prems(2) parse_string_loop_step[of "m[out := BSL]" "Suc text" NUL "Suc out" newline]
      by (subst parse_string_loop.simps) (simp add: put_byte_def)
    moreover have "str_at (m[out := BSL, Suc out := NUL]) (length m) out [BSL]"
      using len2 prems(2) by (intro str_at_Cons str_at_Nil) simp_all
    ultimately show ?thesis using last by (simp add: string_ok_def stands_def reach_def)
  next
    case escape
    let ?t = "Suc (Suc text)"
    have e: "unread m (Suc ?t) s' z" "rd m ?t = Some e" "e \<noteq> NUL" using unread_Cons[of m ?t e s' z] u(1) escape by simp_all
    have l: "?t < length m" using unread_less[OF u(1)] by simp
    have one: ?thesis if ch: "unescape_char newline m (Suc text) = Some (m[?t := ch], ?t)" "p_string newline (c # s) = apfst ((#) ch) (p_string newline s')"
      "ch \<noteq> NUL" and ok: "\<And>m out text. unread m (Suc text) s' z \<Longrightarrow> out \<le> text \<Longrightarrow> string_ok newline m out text s' z" for ch
    proof -
      have "unread (m[?t := ch, out := ch]) (Suc ?t) s' z" using e(1) prems(2) by (simp add: unread_def)
      then have "string_ok newline (m[?t := ch, out := ch]) (Suc out) ?t s' z" using ok prems(2) by simp
      moreover have "parse_string_loop newline m out text = parse_string_loop newline (m[?t := ch, out := ch]) (Suc out) ?t"
        using l by (intro escape_step[of m "text" e s' z]) (use prems escape ch l in \<open>simp_all add: rd_def\<close>)
      ultimately show ?thesis by (rule string_ok_step) (use ch prems(2) l in simp_all)
    qed
    show ?thesis
    proof (cases "e = BSL \<or> e = DQ")
      case True
      have "m[?t := e] = m" using e(2) by (auto simp: rd_def split: if_splits)
      then show ?thesis using True e escape IH(1)[OF _ escape True] by (intro one[of e]) (auto simp: unescape_char_def)
    next
      case no_quote: False
      show ?thesis
      proof (cases "e \<in> {CHR ''n'', CHR ''N''} \<and> newline \<noteq> NUL")
        case True
        then show ?thesis using no_quote e l escape IH(2)[OF _ escape no_quote True]
          by (intro one[of newline]) (auto simp: unescape_char_def put_byte_def)
      next
        case no_newline: False
        show ?thesis
        proof (cases "e \<in> {CHR ''n'', CHR ''N'', CHR ''t'', CHR ''T''} \<and> newline \<noteq> NUL")
          case True
          then show ?thesis using no_quote no_newline e l escape IH(3)[OF _ escape no_quote no_newline True]
            by (intro one[of TAB]) (auto simp: unescape_char_def put_byte_def)
        next
          case False
          have un: "unescape_char newline m (Suc text) = Some (m, Suc text)"
            using no_quote no_newline False e by (auto simp: unescape_char_def)
          have "unread (m[out := BSL]) (Suc (Suc text)) s z" using u(1) prems(2) by (simp add: unread_def)
          then have "string_ok newline (m[out := BSL]) (Suc out) (Suc text) s z"
            using IH(4)[OF _ escape no_quote no_newline False] escape prems(2) by simp
          moreover have "parse_string_loop newline m out text = parse_string_loop newline (m[out := BSL]) (Suc out) (Suc text)"
            using prems escape l u(2) un by (intro escape_step[of m "text" e s' z]) simp_all
          ultimately show ?thesis
            by (rule string_ok_step) (use no_quote no_newline False escape prems(2) l in auto)
        qed
      qed
    qed
  qed
qed

subsection \<open>The nodes and what they stand for\<close>

fun ptr_at :: "block \<Rightarrow> nat \<Rightarrow> cptr \<Rightarrow> string \<Rightarrow> bool" where
  "ptr_at m hi (Constant c) s \<longleftrightarrow> c = s"
| "ptr_at m hi (At i) s \<longleftrightarrow> str_at m hi i s"

fun denotes :: "block \<Rightarrow> nat \<Rightarrow> parse_node \<Rightarrow> gdb_node \<Rightarrow> bool"
  and denotes_all :: "block \<Rightarrow> nat \<Rightarrow> parse_node list \<Rightarrow> gdb_node list \<Rightarrow> bool" where
  "denotes m hi (PT_VALUE n v) (GValue s t) \<longleftrightarrow> ptr_at m hi n s \<and> ptr_at m hi v t"
| "denotes m hi (PT_ARRAY n ns) (GArray s gs) \<longleftrightarrow> ptr_at m hi n s \<and> denotes_all m hi ns gs"
| "denotes m hi _ _ \<longleftrightarrow> False"
| "denotes_all m hi [] [] \<longleftrightarrow> True"
| "denotes_all m hi (n # ns) (g # gs) \<longleftrightarrow> denotes m hi n g \<and> denotes_all m hi ns gs"
| "denotes_all m hi _ _ \<longleftrightarrow> False"

text \<open>Reading the nodes out of the message.\<close>

fun resolve :: "block \<Rightarrow> parse_node \<Rightarrow> gdb_node option"
  and resolve_all :: "block \<Rightarrow> parse_node list \<Rightarrow> gdb_node list option" where
  "resolve m (PT_VALUE n v) = do { s \<leftarrow> pointed m n; t \<leftarrow> pointed m v; Some (GValue s t) }"
| "resolve m (PT_ARRAY n ns) = do { s \<leftarrow> pointed m n; gs \<leftarrow> resolve_all m ns; Some (GArray s gs) }"
| "resolve_all m [] = Some []"
| "resolve_all m (n # ns) = do { g \<leftarrow> resolve m n; gs \<leftarrow> resolve_all m ns; Some (g # gs) }"

lemma ptr_at_same: "ptr_at m hi p s \<Longrightarrow> take hi m' = take hi m \<Longrightarrow> ptr_at m' hi p s"
  by (cases p) (auto intro: str_at_same)

lemma ptr_at_mono: "ptr_at m hi p s \<Longrightarrow> hi \<le> hi' \<Longrightarrow> hi' \<le> length m \<Longrightarrow> ptr_at m hi' p s"
  by (cases p) (auto intro: str_at_mono)

lemma ptr_at_pointed: "ptr_at m hi p s \<Longrightarrow> pointed m p = Some s"
  by (cases p) (auto intro: str_at_c_string)

lemma denotes_same:
  "denotes m hi n g \<Longrightarrow> take hi m' = take hi m \<Longrightarrow> denotes m' hi n g"
  "denotes_all m hi ns gs \<Longrightarrow> take hi m' = take hi m \<Longrightarrow> denotes_all m' hi ns gs"
  by (induction m hi n g and m hi ns gs rule: denotes_denotes_all.induct) (auto intro: ptr_at_same)

lemma denotes_mono:
  "denotes m hi n g \<Longrightarrow> hi \<le> hi' \<Longrightarrow> hi' \<le> length m \<Longrightarrow> denotes m hi' n g"
  "denotes_all m hi ns gs \<Longrightarrow> hi \<le> hi' \<Longrightarrow> hi' \<le> length m \<Longrightarrow> denotes_all m hi' ns gs"
  by (induction m hi n g and m hi ns gs rule: denotes_denotes_all.induct) (auto intro: ptr_at_mono)

lemma denotes_resolve:
  "denotes m hi n g \<Longrightarrow> resolve m n = Some g"
  "denotes_all m hi ns gs \<Longrightarrow> resolve_all m ns = Some gs"
  by (induction m hi n g and m hi ns gs rule: denotes_denotes_all.induct) (auto simp: ptr_at_pointed)

lemma denotes_all_snoc: "denotes_all m hi ns gs \<Longrightarrow> denotes m hi n g \<Longrightarrow> denotes_all m hi (ns @ [n]) (gs @ [g])"
proof (induction ns arbitrary: gs)
  case Nil
  then show ?case by (cases gs) auto
next
  case (Cons x xs)
  then show ?case by (cases gs) auto
qed

lemma unread_length: "unread m i s z \<Longrightarrow> i + length s + Suc (length z) = length m"
proof -
  assume "unread m i s z"
  then have "length (drop i m) = length s + Suc (length z)" by (simp add: unread_def)
  then show ?thesis by simp
qed

text \<open>
  What a parser makes of the rest of the message, when \<open>g\<close> is what the parser on strings makes of it: the message below \<open>lo\<close>
  is as it was, the nodes stand for the nodes of \<open>g\<close>, and so does the text pointer or error.
\<close>

definition parsed :: "block \<Rightarrow> nat \<Rightarrow> string \<Rightarrow> (block \<times> parse_node list \<times> (string + nat)) option \<Rightarrow> gdb_node list \<times> (string + string) \<Rightarrow> bool" where
  "parsed m lo z res g \<longleftrightarrow> (\<exists>m' ns r. res = Some (m', ns, r) \<and> length m' = length m \<and> take lo m' = take lo m \<and>
     stands m' z r (snd g) \<and> denotes_all m' (reach m' r) ns (fst g) \<and> lo \<le> reach m' r)"

lemma stands_cases:
  assumes "stands m z r gr"
  obtains e where "r = Inl e" "gr = Inl e" | t s where "r = Inr t" "gr = Inr s" "unread m t s z"
  using assms by (auto simp: stands_def split: sum.splits)

lemma reach_le: "stands m z r gr \<Longrightarrow> reach m r \<le> length m"
  by (auto simp: stands_def reach_def dest: unread_less split: sum.splits)

lemma parse_string_ok:
  assumes "unread m text (DQ # s) z"
  shows "\<exists>m' r. scope_parse_string m text newline = Some (m', r) \<and> length m' = length m \<and> take text m' = take text m \<and>
    stands m' z r (snd (p_string newline s)) \<and> str_at m' (reach m' r) text (fst (p_string newline s)) \<and> (\<forall>t. r = Inr t \<longrightarrow> text < t)"
proof -
  have "unread m (Suc text) s z" using unread_Cons[OF assms] by simp
  then obtain m' r where "parse_string_loop newline m text text = Some (m', r)" "length m' = length m" "take text m' = take text m"
    "stands m' z r (snd (p_string newline s))" "str_at m' (reach m' r) text (fst (p_string newline s))"
    using parse_string_loop_ok[of m "text" s z "text" newline] by (auto simp: string_ok_def)
  then show ?thesis unfolding scope_parse_string_def by (auto simp: str_at_def reach_def)
qed

lemma name_char_start: "is_alpha c \<or> c = CHR ''_'' \<Longrightarrow> node_char c"
  by (auto simp: node_char_def char_class_defs)

lemma not_name_NUL: "\<not> node_char NUL"
  by (simp add: node_char_def char_class_defs)

lemma parse_name_skip:
  assumes "unread m (Suc text) s z" "s \<noteq> []" "is_alpha (hd s) \<or> hd s = CHR ''_''"
  shows "skip_while node_char m (Suc (Suc text)) = Some (Suc text + length (takeWhile node_char s))"
    "drop (Suc text + length (takeWhile node_char s)) m = dropWhile node_char s @ NUL # z"
    "drop (Suc text) m = takeWhile node_char s @ dropWhile node_char s @ NUL # z"
proof -
  let ?a = "takeWhile node_char s" and ?r = "dropWhile node_char s @ NUL # z"
  show d: "drop (Suc text) m = ?a @ ?r" using assms(1) by (simp add: unread_def)
  then show d2: "drop (Suc text + length ?a) m = ?r" by (metis add.commute append_eq_conv_conj drop_drop)
  obtain c a' where a: "?a = c # a'" using assms(2,3) name_char_start by (cases s) auto
  have "drop (Suc (Suc text)) m = a' @ ?r" using d unfolding a by (simp add: drop_Suc_rest)
  moreover have "\<forall>x\<in>set a'. node_char x" using a by (metis list.set_intros(2) set_takeWhileD)
  moreover obtain x r where r: "?r = x # r" by (cases ?r) auto
  moreover have "\<not> node_char x" using r not_name_NUL hd_dropWhile[of node_char s] by (cases "dropWhile node_char s") auto
  ultimately show "skip_while node_char m (Suc (Suc text)) = Some (Suc text + length ?a)"
    using skip_while_rest[of "Suc (Suc text)" m a' x r node_char] by (simp add: a)
qed

lemma parse_name_ok:
  assumes u: "unread m (Suc text) s z"
  shows "case p_name s of
      Inl e \<Rightarrow> parse_name m text = Some (m, Inl e)
    | Inr (nm, s') \<Rightarrow> \<exists>m' p t. parse_name m text = Some (m', Inr (p, t)) \<and> length m' = length m \<and> take (Suc text) m' = take (Suc text) m \<and>
        unread m' t s' z \<and> ptr_at m' t p nm \<and> text < t"
proof (cases "s \<noteq> [] \<and> (is_alpha (hd s) \<or> hd s = CHR ''_'')")
  case False
  then have "p_name s = Inr ([], s)" by (auto simp: p_name_def)
  moreover have "\<not> (is_alpha NUL \<or> NUL = CHR ''_'')" by (simp add: char_class_defs)
  then have "parse_name m text = Some (m, Inr (Constant [], Suc text))"
    using False unread_rd[OF u] by (auto simp: parse_name_def)
  ultimately show ?thesis using u by auto
next
  case True
  let ?a = "takeWhile node_char s" and ?r = "dropWhile node_char s"
  note skip = parse_name_skip[OF u] True
  have rd: "rd m (Suc text) = Some (hd s)" using unread_rd[OF u] True by simp
  show ?thesis
  proof (cases "?r \<noteq> [] \<and> hd ?r = CHR ''=''")
    case False
    then have "p_name s = Inl ''= expected''" using True by (cases ?r) (auto simp: p_name_def simp del: dropWhile_eq_Nil_conv)
    moreover have "rd m (Suc text + length ?a) = Some (if ?r = [] then NUL else hd ?r)"
      using skip by (cases ?r) (auto intro: rd_drop)
    ultimately show ?thesis using False True rd skip by (auto simp: parse_name_def)
  next
    case eq: True
    then obtain r where r: "?r = CHR ''='' # r" by (cases ?r) auto
    have sub: "set r \<subseteq> set s" using set_dropWhileD[of _ node_char s] r by auto
    let ?t = "Suc text + length ?a"
    have l: "?t < length m" using skip(2) True r by (metis append_Cons drop_not_Nil_less)
    have "p_name s = Inr (?a, r)" using True r by (simp add: p_name_def)
    moreover have "rd m ?t = Some (CHR ''='')" using skip(2) True r by (auto intro: rd_drop)
    then have "parse_name m text = Some (m[?t := NUL], Inr (At (Suc text), Suc ?t))"
      using True rd skip l by (simp add: parse_name_def put_byte_def)
    moreover have "unread (m[?t := NUL]) (Suc ?t) r z"
      using skip(2) True r u sub by (auto simp: unread_def intro: drop_Suc_rest)
    moreover have "str_at (m[?t := NUL]) (Suc ?t) (Suc text) ?a"
    proof -
      have "take (length ?a) (drop (Suc text) m) = ?a" using skip(3) True by simp
      then have "take (Suc (length ?a)) (drop (Suc text) (m[?t := NUL])) = ?a @ [NUL]"
        using l by (simp add: take_Suc_conv_app_nth drop_update_swap)
      moreover have "NUL \<notin> set ?a" using u by (auto simp: unread_def dest: set_takeWhileD)
      ultimately show ?thesis using l by (simp add: str_at_def)
    qed
    ultimately show ?thesis by auto
  qed
qed


lemma parsed_error: "denotes_all m lo ns gs \<Longrightarrow> lo \<le> length m \<Longrightarrow> parsed m lo z (Some (m, ns, Inl e)) (gs, Inl e)"
  by (auto simp: parsed_def stands_def reach_def intro: denotes_mono)

lemma parse_item_ok:
  assumes u: "unread m text s z" and len: "length s \<le> n"
    and nested: "\<And>m text s stop. unread m (Suc text) s z \<Longrightarrow> length s < n \<Longrightarrow> parsed m (Suc text) z (nested m text stop) (p_nested s stop)"
    and nodes: "denotes_all m text nodes gs" and name: "ptr_at m text p nm"
  shows "parsed m text z (parse_node_item nested m nodes p text stop newline) (p_item p_nested gs nm s stop newline)"
proof (cases s)
  case Nil
  have "rd m text = Some NUL" using unread_rd[OF u] Nil by simp
  then have "parse_node_item nested m nodes p text stop newline = Some (m, nodes, Inl ''\" { or [ expected'')"
    by (simp add: parse_node_item_def)
  moreover have "p_item p_nested gs nm s stop newline = (gs, Inl ''\" { or [ expected'')" by (simp add: p_item_def Nil)
  ultimately show ?thesis using parsed_error[OF nodes] unread_less[OF u] by simp
next
  case (Cons c s')
  have c: "rd m text = Some c" "unread m (Suc text) s' z" using unread_Cons[of m "text" c s' z] u Cons by simp_all
  consider (quote) "c = DQ" | (array) "c = CHR ''{'' \<or> c = CHR ''[''" | (error) "c \<noteq> DQ" "c \<noteq> CHR ''{''" "c \<noteq> CHR ''[''" by blast
  then show ?thesis
  proof cases
    case error
    then have "parse_node_item nested m nodes p text stop newline = Some (m, nodes, Inl ''\" { or [ expected'')"
      using c by (simp add: parse_node_item_def)
    moreover have "p_item p_nested gs nm s stop newline = (gs, Inl ''\" { or [ expected'')" using error by (simp add: p_item_def Cons)
    ultimately show ?thesis using parsed_error[OF nodes] unread_less[OF u] by simp
  next
    case quote
    obtain m' r where r: "scope_parse_string m text newline = Some (m', r)" "length m' = length m" "take text m' = take text m"
      "stands m' z r (snd (p_string newline s'))" "str_at m' (reach m' r) text (fst (p_string newline s'))" "\<forall>t. r = Inr t \<longrightarrow> text < t"
      using parse_string_ok[of m "text" s' z newline] u Cons quote by blast
    obtain v gr where v: "p_string newline s' = (v, gr)" by fastforce
    have isl: "isl r = isl gr" using r(4) v by (auto elim: stands_cases)
    have lo: "text \<le> reach m' r" using r(5) by (simp add: str_at_def)
    have le: "reach m' r \<le> length m'" using reach_le[OF r(4)] .
    have "denotes_all m' (reach m' r) nodes gs" "ptr_at m' (reach m' r) p nm"
      using denotes_mono(2)[OF denotes_same(2)[OF nodes r(3)] lo le] ptr_at_mono[OF ptr_at_same[OF name r(3)] lo le] .
    then have "denotes_all m' (reach m' r) (nodes @ [PT_VALUE p (At text)]) (gs @ [GValue nm v])"
      using r(5) v by (intro denotes_all_snoc) simp_all
    then show ?thesis using r v isl lo c quote
      by (auto simp: parsed_def parse_node_item_def p_item_def Cons)
  next
    case array
    let ?e = "ends (c = CHR ''{'')"
    have e: "?e \<noteq> NUL" by (simp add: ends_def)
    have c1: "rd m (Suc text) = Some (if s' = [] then NUL else hd s')" using unread_rd[OF c(2)] .
    define res where "res = (if (if s' = [] then NUL else hd s') = ?e then Some (m, [], Inr (text + 2)) else nested m text ?e)"
    define pres where "pres = (if s' \<noteq> [] \<and> hd s' = ?e then ([], Inr (tl s')) else p_nested s' ?e)"
    have "parsed m (Suc text) z res pres"
    proof (cases "s' \<noteq> [] \<and> hd s' = ?e")
      case True
      then have "unread m (Suc (Suc text)) (tl s') z" using unread_Cons[of m "Suc text" "hd s'" "tl s'" z] c(2) by (cases s') simp_all
      then show ?thesis using True by (simp add: res_def pres_def parsed_def stands_def reach_def)
    next
      case False
      then show ?thesis using nested[OF c(2)] len Cons e by (auto simp: res_def pres_def)
    qed
    then obtain m' ns r gs' gr where r: "res = Some (m', ns, r)" "pres = (gs', gr)" "length m' = length m" "take (Suc text) m' = take (Suc text) m"
      "stands m' z r gr" "denotes_all m' (reach m' r) ns gs'" "Suc text \<le> reach m' r"
      by (cases pres) (auto simp: parsed_def)
    have t: "take text m' = take text m" using arg_cong[OF r(4), of "take text"] by simp
    have lo: "text \<le> reach m' r" using r(7) by simp
    note le = reach_le[OF r(5)]
    have "denotes_all m' (reach m' r) nodes gs" and nm: "ptr_at m' (reach m' r) p nm"
      using denotes_mono(2)[OF denotes_same(2)[OF nodes t] lo le] ptr_at_mono[OF ptr_at_same[OF name t] lo le] .
    then have all: "denotes_all m' (reach m' r) (nodes @ [PT_ARRAY p ns]) (gs @ [GArray nm gs'])" "denotes_all m' (reach m' r) nodes gs"
      using r(6) by (simp_all add: denotes_all_snoc)
    have run: "parse_node_item nested m nodes p text stop newline = do { (m, array, r) \<leftarrow> res; s \<leftarrow> pointed m p;
        Some (m, if stop \<noteq> NUL \<or> s \<noteq> ''time'' then nodes @ [PT_ARRAY p array] else nodes, r) }"
      using array c(1) c1 by (elim disjE) (simp_all add: parse_node_item_def res_def)
    have "p_item p_nested gs nm s stop newline = (let (array, r) = pres in
        (if stop \<noteq> NUL \<or> nm \<noteq> ''time'' then gs @ [GArray nm array] else gs, r))"
      using array by (elim disjE) (simp_all add: p_item_def Cons pres_def)
    then show ?thesis using r run all t lo ptr_at_pointed[OF nm] by (auto simp: parsed_def)
  qed
qed

lemma take_le: "take hi a = take hi b \<Longrightarrow> lo \<le> hi \<Longrightarrow> take lo a = take lo b"
  by (metis min.absorb1 take_take)

lemma parsed_trans:
  "parsed m1 lo1 z res g \<Longrightarrow> length m1 = length m \<Longrightarrow> take lo m1 = take lo m \<Longrightarrow> lo \<le> lo1 \<Longrightarrow> parsed m lo z res g"
  unfolding parsed_def by (elim exE conjE, intro exI conjI) (auto dest: take_le)

lemma parse_text_Suc:
  assumes "parse_name m text = Some (m1, Inr (p, t1))"
    and "parse_node_item (\<lambda>m text stop. parse_text n m [] text stop newline) m1 nodes p t1 stop newline = Some (m2, ns, r)"
  shows "parse_text (Suc n) m nodes text stop newline =
    (case r of Inl err \<Rightarrow> Some (m2, ns, Inl err)
     | Inr t2 \<Rightarrow> do { c \<leftarrow> rd m2 t2;
         if c = CHR '','' then parse_text n m2 ns t2 stop newline
         else if c = stop then Some (m2, ns, Inr (t2 + of_bool (stop \<noteq> NUL)))
         else Some (m2, ns, Inl '', or end expected'') })"
  using assms by simp

lemma parse_text_ok:
  "unread m (Suc text) s z \<Longrightarrow> length s < n \<Longrightarrow> denotes_all m (Suc text) nodes gs \<Longrightarrow>
   parsed m (Suc text) z (parse_text n m nodes text stop newline) (p_text n gs s stop newline)"
proof (induction n arbitrary: m "text" s nodes gs stop)
  case (Suc n)
  note name = parse_name_ok[OF Suc.prems(1)] and len = unread_length[OF Suc.prems(1)]
  show ?case
  proof (cases "p_name s")
    case (Inl e)
    then show ?thesis using name parsed_error[OF Suc.prems(3)] unread_less[OF Suc.prems(1)] by simp
  next
    case (Inr x)
    obtain nm s1 where x: "x = (nm, s1)" by fastforce
    obtain m1 p t1 where n1: "parse_name m text = Some (m1, Inr (p, t1))" "length m1 = length m" "take (Suc text) m1 = take (Suc text) m"
      "unread m1 t1 s1 z" "ptr_at m1 t1 p nm" "text < t1"
      using name Inr x by auto
    have l1: "length s1 \<le> n" using unread_length[OF n1(4)] len n1(2,6) Suc.prems(2) by simp
    have d1: "denotes_all m1 t1 nodes gs"
      using denotes_mono(2)[OF denotes_same(2)[OF Suc.prems(3) n1(3)]] n1(6) unread_less[OF n1(4)] by simp
    have nested: "parsed m (Suc text) z (parse_text n m [] text stop newline) (p_text n [] s stop newline)"
      if "unread m (Suc text) s z" "length s < n" for m "text" s stop
      by (rule Suc.IH[OF that]) simp
    obtain gs2 gr where g: "p_item (\<lambda>s stop. p_text n [] s stop newline) gs nm s1 stop newline = (gs2, gr)" by fastforce
    from parse_item_ok[where nested = "\<lambda>m text stop. parse_text n m [] text stop newline" and p_nested = "\<lambda>s stop. p_text n [] s stop newline"
        and stop = stop and newline = newline, OF n1(4) l1 nested d1 n1(5)]
    obtain m2 ns r where i: "parse_node_item (\<lambda>m text stop. parse_text n m [] text stop newline) m1 nodes p t1 stop newline = Some (m2, ns, r)"
      "length m2 = length m1" "take t1 m2 = take t1 m1" "stands m2 z r gr" "denotes_all m2 (reach m2 r) ns gs2" "t1 \<le> reach m2 r"
      by (auto simp: parsed_def g)
    have keep: "length m2 = length m" "take (Suc text) m2 = take (Suc text) m"
      using n1 i take_le[OF i(3), of "Suc text"] by simp_all
    note run = parse_text_Suc[OF n1(1) i(1)]
    have prun: "p_text (Suc n) gs s stop newline = (case gr of
        Inl err \<Rightarrow> (gs2, Inl err)
      | Inr s \<Rightarrow> if s \<noteq> [] \<and> hd s = CHR '','' then p_text n gs2 (tl s) stop newline
          else if stop = NUL \<and> s = [] then (gs2, Inr s)
          else if stop \<noteq> NUL \<and> s \<noteq> [] \<and> hd s = stop then (gs2, Inr (tl s))
          else (gs2, Inl '', or end expected''))"
      using Inr x g by simp
    show ?thesis
    proof (rule stands_cases[OF i(4)])
      fix e assume e: "r = Inl e" "gr = Inl e"
      have "parsed m2 (length m2) z (Some (m2, ns, Inl e)) (gs2, Inl e)"
        using parsed_error[of m2 "length m2" ns gs2 z e] i(5) e by (simp add: reach_def)
      then have "parsed m (Suc text) z (Some (m2, ns, Inl e)) (gs2, Inl e)"
        by (rule parsed_trans) (use keep len in simp_all)
      then show ?thesis unfolding run prun using e by simp
    next
      fix t2 s2 assume e: "r = Inr t2" "gr = Inr s2" "unread m2 t2 s2 z"
      have c: "rd m2 t2 = Some (if s2 = [] then NUL else hd s2)" using unread_rd[OF e(3)] .
      have t2: "Suc text \<le> t2" "t2 \<le> length m2" using i(6) e(1) n1(6) unread_less[OF e(3)] by (simp_all add: reach_def)
      have d2: "denotes_all m2 t2 ns gs2" using i(5) e(1) by (simp add: reach_def)
      have lift: "parsed m (Suc text) z res g" if "parsed m2 lo z res g" "Suc text \<le> lo" for lo res g
        using parsed_trans[OF that(1) keep that(2)] .
      show ?thesis
      proof (cases "s2 \<noteq> [] \<and> hd s2 = CHR '',''")
        case True
        then obtain s3 where s3: "s2 = CHR '','' # s3" by (cases s2) auto
        then have u: "unread m2 (Suc t2) s3 z" using unread_Cons[of m2 t2 "CHR '',''" s3 z] e(3) by simp
        have "length s3 < n" using unread_length[OF u] len keep(1) t2 Suc.prems(2) by simp
        from Suc.IH[OF u this denotes_mono(2)[OF d2]] unread_less[OF e(3)]
        have "parsed m2 (Suc t2) z (parse_text n m2 ns t2 stop newline) (p_text n gs2 s3 stop newline)" by simp
        from lift[OF this] t2(1) show ?thesis unfolding run prun using e c s3 by simp
      next
        case no_comma: False
        show ?thesis
        proof (cases "(if s2 = [] then NUL else hd s2) = stop")
          case True
          have nul: "s2 \<noteq> [] \<Longrightarrow> hd s2 \<noteq> NUL" using e(3) by (cases s2) (auto simp: unread_def)
          let ?t = "t2 + of_bool (stop \<noteq> NUL)" and ?s = "if stop = NUL then s2 else tl s2"
          have u: "unread m2 ?t ?s z"
            using True nul e(3) unread_Cons[of m2 t2 "hd s2" "tl s2" z] by (cases s2) auto
          then have "parsed m2 t2 z (Some (m2, ns, Inr ?t)) (gs2, Inr ?s)"
            using denotes_mono(2)[OF d2, of ?t] unread_less[OF u] by (simp add: parsed_def stands_def reach_def)
          from lift[OF this t2(1)] show ?thesis unfolding run prun using e c True nul no_comma by (auto split: if_splits)
        next
          case False
          have "parsed m2 t2 z (Some (m2, ns, Inl '', or end expected'')) (gs2, Inl '', or end expected'')"
            using parsed_error[OF d2 t2(2)] .
          from lift[OF this t2(1)] show ?thesis unfolding run prun using e c False no_comma by (auto split: if_splits)
        qed
      qed
    qed
  qed
qed simp

end
