(* ===== verification/ScpParsePrint.thy ===== *)
theory ScpParsePrint
  imports ScpParse
begin

text \<open>
  The parser on strings: the fuel is enough, and what it makes of results printed as GDB prints them.
\<close>

subsection \<open>The fuel is enough\<close>

lemma p_string_length: "snd (p_string newline s) = Inr r \<Longrightarrow> length r < length s"
proof (induction newline s arbitrary: r rule: p_string.induct)
  case (2 newline c s)
  show ?case
  proof (cases "c = BSL \<and> s \<noteq> []")
    case True
    then obtain e s' where s: "s = e # s'" by (cases s) auto
    show ?thesis using 2(1-4)[OF _ _ s] 2(6) True s by (force split: if_splits)
  next
    case False
    then show ?thesis using 2(5,6) by (cases "c = DQ"; cases "c = BSL"; cases s) (auto intro: less_SucI)
  qed
qed simp

lemma p_name_length: "p_name s = Inr (nm, r) \<Longrightarrow> length r \<le> length s"
proof -
  assume p: "p_name s = Inr (nm, r)"
  show "length r \<le> length s"
  proof (cases "s \<noteq> [] \<and> (is_alpha (hd s) \<or> hd s = CHR ''_'')")
    case True
    then obtain c where "dropWhile node_char s = c # r" using p by (simp add: p_name_def split: list.splits if_splits)
    then show ?thesis using length_dropWhile_le[of node_char s] by simp
  next
    case False
    then show ?thesis using p unfolding p_name_def by (simp only: if_False) simp
  qed
qed
lemma p_item_length:
  assumes "\<And>s stop r. length s < n \<Longrightarrow> snd (nested s stop) = Inr r \<Longrightarrow> length r \<le> length s" and "length s \<le> n"
    and "snd (p_item nested gs nm s stop newline) = Inr r"
  shows "length r < length s"
proof (cases s)
  case (Cons c s')
  have n: "length r \<le> length s'" if "snd (nested s' e) = Inr r" for e using assms(1)[OF _ that] assms(2) Cons by simp
  consider "c = DQ" | "c \<noteq> DQ" "c = CHR ''{'' \<or> c = CHR ''[''" | "c \<noteq> DQ" "c \<noteq> CHR ''{'' \<and> c \<noteq> CHR ''[''" by blast
  then show ?thesis
  proof cases
    case 1
    then have "snd (p_string newline s') = Inr r" using assms(3) Cons by (simp add: p_item_def Let_def split: prod.splits if_splits)
    then show ?thesis using p_string_length[of newline s' r] Cons by simp
  next
    case 2
    then have "snd (if s' \<noteq> [] \<and> hd s' = ends (c = CHR ''{'') then ([], Inr (tl s')) else nested s' (ends (c = CHR ''{''))) = Inr r"
      using assms(3) by (simp only: p_item_def Cons list.case if_False if_True case_prod_unfold Let_def snd_conv)
    then show ?thesis using n[of "ends (c = CHR ''{'')"] Cons by (auto split: if_splits)
  next
    case 3
    then show ?thesis using assms(3) Cons by (simp add: p_item_def)
  qed
qed (use assms(3) in \<open>simp add: p_item_def\<close>)

lemma p_item_cong:
  assumes "\<And>s stop. length s < n \<Longrightarrow> nested' s stop = nested s stop" and "length s \<le> n"
  shows "p_item nested' gs nm s stop newline = p_item nested gs nm s stop newline"
proof (cases s)
  case (Cons c s')
  then have "nested' s' e = nested s' e" for e using assms by simp
  then show ?thesis by (simp add: p_item_def Cons cong: if_cong)
qed (simp add: p_item_def)

lemma p_text_fuel:
  "length s < n \<Longrightarrow> n \<le> k \<Longrightarrow>
   p_text k gs s stop newline = p_text n gs s stop newline \<and>
   (\<forall>r. snd (p_text n gs s stop newline) = Inr r \<longrightarrow> length r \<le> length s)"
proof (induction n arbitrary: k s gs stop)
  case (Suc n)
  then obtain j where k: "k = Suc j" "n \<le> j" by (cases k) auto
  show ?case
  proof (cases "p_name s")
    case (Inr x)
    obtain nm s1 where x: "x = (nm, s1)" by fastforce
    have l1: "length s1 \<le> n" "length s1 \<le> length s" using p_name_length[of s nm s1] Inr x Suc.prems(1) by simp_all
    have same: "p_item (\<lambda>s stop. p_text j [] s stop newline) gs nm s1 stop newline = p_item (\<lambda>s stop. p_text n [] s stop newline) gs nm s1 stop newline"
      by (rule p_item_cong[OF _ l1(1)]) (use Suc.IH k in blast)
    obtain gs2 gr where g: "p_item (\<lambda>s stop. p_text n [] s stop newline) gs nm s1 stop newline = (gs2, gr)" by fastforce
    show ?thesis
    proof (cases gr)
      case (Inl e)
      then show ?thesis using Inr x g same k by simp
    next
      case r: (Inr s2)
      have "length s2 < length s1"
        using p_item_length[of n "\<lambda>s stop. p_text n [] s stop newline" s1 gs nm stop newline s2] Suc.IH[of _ n] l1(1) g r by auto
      moreover have "length (tl s2) < n" if "s2 \<noteq> []" using calculation l1 that by simp
      ultimately show ?thesis using Inr x g same k r Suc.IH[of "tl s2" j gs2 stop] l1 by (fastforce split: if_splits)
    qed
  qed (use k in simp)
qed simp

subsection \<open>Printing\<close>

text \<open>Results as GDB writes them: tuples in braces, lists in brackets, a backslash before a backslash and a quote.\<close>

datatype gdb_tree = TValue string string | TTuple string "gdb_tree list" | TList string "gdb_tree list"

definition escape :: "string \<Rightarrow> string" where
  "escape v = concat (map (\<lambda>c. if c = DQ \<or> c = BSL then [BSL, c] else [c]) v)"

definition name_eq :: "string \<Rightarrow> string" where
  "name_eq nm = (if nm = [] then [] else nm @ ''='')"

fun print_tree :: "gdb_tree \<Rightarrow> string" and print_trees :: "gdb_tree list \<Rightarrow> string" where
  "print_tree (TValue nm v) = name_eq nm @ DQ # escape v @ [DQ]"
| "print_tree (TTuple nm ts) = name_eq nm @ ''{'' @ print_trees ts @ ''}''"
| "print_tree (TList nm ts) = name_eq nm @ ''['' @ print_trees ts @ '']''"
| "print_trees [] = []"
| "print_trees (t # ts) = print_tree t @ (if ts = [] then [] else CHR '','' # print_trees ts)"

fun node_of :: "gdb_tree \<Rightarrow> gdb_node" where
  "node_of (TValue nm v) = GValue nm v"
| "node_of (TTuple nm ts) = GArray nm (map node_of ts)"
| "node_of (TList nm ts) = GArray nm (map node_of ts)"

definition valid_name :: "string \<Rightarrow> bool" where
  "valid_name nm \<longleftrightarrow> nm = [] \<or> (is_alpha (hd nm) \<or> hd nm = CHR ''_'') \<and> list_all node_char nm"

fun valid_tree :: "gdb_tree \<Rightarrow> bool" where
  "valid_tree (TValue nm v) \<longleftrightarrow> valid_name nm \<and> NUL \<notin> set v"
| "valid_tree (TTuple nm ts) \<longleftrightarrow> valid_name nm \<and> list_all valid_tree ts"
| "valid_tree (TList nm ts) \<longleftrightarrow> valid_name nm \<and> list_all valid_tree ts"

text \<open>The nodes of the outermost level, where an array with the name \<open>time\<close> is skipped.\<close>

definition kept_node :: "char \<Rightarrow> gdb_tree \<Rightarrow> bool" where
  "kept_node stop t \<longleftrightarrow> stop \<noteq> NUL \<or> (case t of TValue _ _ \<Rightarrow> True | TTuple nm _ \<Rightarrow> nm \<noteq> ''time'' | TList nm _ \<Rightarrow> nm \<noteq> ''time'')"

lemma p_string_escape: "NUL \<notin> set v \<Longrightarrow> p_string newline (escape v @ DQ # s) = (v, Inr s)"
  by (induction v) (auto simp: escape_def)

lemma p_name_eq:
  assumes "valid_name nm" "s \<noteq> [] \<Longrightarrow> \<not> (is_alpha (hd s) \<or> hd s = CHR ''_'')"
  shows "p_name (name_eq nm @ s) = Inr (nm, s)"
proof (cases "nm = []")
  case False
  have eq: "\<not> node_char (CHR ''='')" by (simp add: node_char_def char_class_defs)
  have nc: "\<forall>c\<in>set nm. node_char c" using assms(1) False by (simp add: valid_name_def list_all_iff)
  have "dropWhile node_char (nm @ CHR ''='' # s) = CHR ''='' # s" "takeWhile node_char (nm @ CHR ''='' # s) = nm"
    using nc eq by (simp_all add: dropWhile_append2 takeWhile_append2)
  then show ?thesis using assms(1) False by (auto simp: p_name_def name_eq_def valid_name_def)
qed (use assms(2) in \<open>auto simp: p_name_def name_eq_def\<close>)

definition tree_start :: "char \<Rightarrow> bool" where
  "tree_start c \<longleftrightarrow> is_alpha c \<or> c = CHR ''_'' \<or> c = DQ \<or> c = CHR ''{'' \<or> c = CHR ''[''"

lemma print_tree_start: "valid_tree t \<Longrightarrow> print_tree t \<noteq> [] \<and> tree_start (hd (print_tree t))"
  by (cases t) (auto simp: name_eq_def tree_start_def valid_name_def)

lemma print_trees_start: "list_all valid_tree ts \<Longrightarrow> ts \<noteq> [] \<Longrightarrow> print_trees ts \<noteq> [] \<and> tree_start (hd (print_trees ts))"
  using print_tree_start by (cases ts) auto

fun tree_name :: "gdb_tree \<Rightarrow> string" where
  "tree_name (TValue nm v) = nm"
| "tree_name (TTuple nm ts) = nm"
| "tree_name (TList nm ts) = nm"

fun tree_body :: "gdb_tree \<Rightarrow> string" where
  "tree_body (TValue nm v) = DQ # escape v @ [DQ]"
| "tree_body (TTuple nm ts) = ''{'' @ print_trees ts @ ''}''"
| "tree_body (TList nm ts) = ''['' @ print_trees ts @ '']''"

lemma print_tree_split: "print_tree t = name_eq (tree_name t) @ tree_body t"
  by (cases t) auto

lemma tree_body_start: "\<exists>c r. tree_body t = c # r \<and> \<not> (is_alpha c \<or> c = CHR ''_'')"
  by (cases t) (auto simp: char_class_defs)

lemma valid_tree_name: "valid_tree t \<Longrightarrow> valid_name (tree_name t)"
  by (cases t) auto

lemma tree_start_neq: "tree_start c \<Longrightarrow> c \<noteq> ends b"
  by (auto simp: tree_start_def ends_def char_class_defs)

lemma p_item_array:
  assumes ts: "list_all valid_tree ts" and c: "c = (if b then CHR ''{'' else CHR ''['')"
    and nested: "ts \<noteq> [] \<Longrightarrow> nested (print_trees ts @ ends b # more) (ends b) = (map node_of ts, Inr more)"
  shows "p_item nested gs nm (c # print_trees ts @ ends b # more) stop newline =
    (gs @ (if stop \<noteq> NUL \<or> nm \<noteq> ''time'' then [GArray nm (map node_of ts)] else []), Inr more)"
proof -
  have c': "c \<noteq> DQ" "c = CHR ''{'' \<or> c = CHR ''[''" "(c = CHR ''{'') = b" using c by (auto split: if_splits)
  show ?thesis
  proof (cases "ts = []")
    case True
    then show ?thesis using c' by (simp add: p_item_def)
  next
    case False
    let ?s = "print_trees ts @ ends b # more"
    have "?s \<noteq> []" "hd ?s \<noteq> ends b" using print_trees_start[OF ts False] tree_start_neq by auto
    then show ?thesis using c' nested[OF False] by (simp add: p_item_def)
  qed
qed

lemma p_item_tree:
  assumes "valid_tree t"
    and "\<And>ts b. t = TTuple (tree_name t) ts \<or> t = TList (tree_name t) ts \<Longrightarrow> ts \<noteq> [] \<Longrightarrow>
      nested (print_trees ts @ ends b # more) (ends b) = (map node_of ts, Inr more)"
  shows "p_item nested gs (tree_name t) (tree_body t @ more) stop newline = (gs @ map node_of (filter (kept_node stop) [t]), Inr more)"
proof (cases t)
  case (TValue nm v)
  then show ?thesis using assms(1) p_string_escape[of v newline more] by (simp add: p_item_def kept_node_def)
next
  case (TTuple nm ts)
  have "p_item nested gs nm (CHR ''{'' # print_trees ts @ ends True # more) stop newline =
      (gs @ (if stop \<noteq> NUL \<or> nm \<noteq> ''time'' then [GArray nm (map node_of ts)] else []), Inr more)"
    using assms TTuple by (intro p_item_array) auto
  then show ?thesis using TTuple by (simp add: ends_def kept_node_def)
next
  case (TList nm ts)
  have "p_item nested gs nm (CHR ''['' # print_trees ts @ ends False # more) stop newline =
      (gs @ (if stop \<noteq> NUL \<or> nm \<noteq> ''time'' then [GArray nm (map node_of ts)] else []), Inr more)"
    using assms TList by (intro p_item_array) auto
  then show ?thesis using TList by (simp add: ends_def kept_node_def)
qed

lemma p_text_print:
  "list_all valid_tree ts \<Longrightarrow> ts \<noteq> [] \<Longrightarrow> length (print_trees ts) < n \<Longrightarrow> stop \<noteq> CHR '','' \<Longrightarrow> (stop = NUL \<Longrightarrow> rest = []) \<Longrightarrow>
   p_text n gs (print_trees ts @ (if stop = NUL then [] else [stop]) @ rest) stop newline = (gs @ map node_of (filter (kept_node stop) ts), Inr rest)"
proof (induction n arbitrary: ts gs stop rest)
  case (Suc n)
  then obtain t us where ts: "ts = t # us" by (cases ts) auto
  let ?tail = "(if stop = NUL then [] else [stop]) @ rest"
  let ?more = "(if us = [] then [] else CHR '','' # print_trees us) @ ?tail"
  obtain c r where body: "tree_body t = c # r" "\<not> (is_alpha c \<or> c = CHR ''_'')" using tree_body_start by blast
  have valid: "valid_tree t" "list_all valid_tree us" using Suc.prems(1) ts by simp_all
  have input: "print_trees ts @ ?tail = name_eq (tree_name t) @ (tree_body t @ ?more)"
    using ts by (simp add: print_tree_split)
  have name: "p_name (print_trees ts @ ?tail) = Inr (tree_name t, tree_body t @ ?more)"
    unfolding input using p_name_eq[OF valid_tree_name[OF valid(1)], of "tree_body t @ ?more"] body by auto
  have item: "p_item (\<lambda>s stop. p_text n [] s stop newline) gs (tree_name t) (tree_body t @ ?more) stop newline =
      (gs @ map node_of (filter (kept_node stop) [t]), Inr ?more)"
  proof (rule p_item_tree[OF valid(1)])
    fix vs b assume v: "t = TTuple (tree_name t) vs \<or> t = TList (tree_name t) vs" "vs \<noteq> []"
    have "list_all valid_tree vs" "length (print_trees vs) + 2 \<le> length (print_tree t)"
      using v(1) valid(1) by (metis valid_tree.simps(2) valid_tree.simps(3)) (use v(1) in \<open>cases t; auto\<close>)
    moreover have "length (print_tree t) < Suc n" using Suc.prems(3) ts by simp
    ultimately have "p_text n [] (print_trees vs @ (if ends b = NUL then [] else [ends b]) @ ?more) (ends b) newline =
        ([] @ map node_of (filter (kept_node (ends b)) vs), Inr ?more)"
      using v(2) by (intro Suc.IH) (auto simp: ends_def split: if_splits)
    moreover have "kept_node (ends b) = (\<lambda>_. True)" "ends b \<noteq> NUL" by (auto simp: kept_node_def ends_def)
    ultimately show "p_text n [] (print_trees vs @ ends b # ?more) (ends b) newline = (map node_of vs, Inr ?more)" by simp
  qed
  show ?case
  proof (cases "us = []")
    case True
    then show ?thesis using name item ts Suc.prems(4,5) by auto
  next
    case False
    have "length (print_trees us) < n" using Suc.prems(3) ts False by simp
    from Suc.IH[OF valid(2) False this Suc.prems(4,5), of "gs @ map node_of (filter (kept_node stop) [t])"]
    show ?thesis using name item ts False by simp
  qed
qed simp

end
