(* ===== verification/ScpMessage.thy ===== *)
theory ScpMessage
  imports ScpRoutes ScpParseRef ScpParsePrint
begin

text \<open>
  Whole messages: their route, the arguments of the callbacks, the token, and the round trip from printed results to a callback.
\<close>

subsection \<open>Messages as strings\<close>

text \<open>What \<open>parse_message\<close> makes of a message, with strings for pointers.\<close>

definition route_fits :: "string \<Rightarrow> string option \<Rightarrow> parse_route \<Rightarrow> bool" where
  "route_fits s tk r \<longleftrightarrow> take (length (route_prefix r)) s = route_prefix r \<and>
     (mark r = NUL \<or> (case tk of None \<Rightarrow> False | Some t \<Rightarrow> mark r = CHR ''*'' \<or> (t \<noteq> [] \<and> mark r = hd t)))"

definition p_route :: "string \<Rightarrow> string option \<Rightarrow> parse_route option" where
  "p_route s tk = find (route_fits s tk) parse_routes"

definition p_nodes :: "string \<Rightarrow> parse_route \<Rightarrow> gdb_node list \<times> string list" where
  "p_nodes s route = (case comma_of (route_prefix route) of
      None \<Rightarrow> ([], [])
    | Some comma \<Rightarrow> (let (nodes, r) = p_text (length s) [] (drop (Suc comma) s) NUL (newline route) in
        (nodes, case r of Inl e \<Rightarrow> [e] | Inr _ \<Rightarrow> [])))"

definition p_message :: "string \<Rightarrow> string option \<Rightarrow> (string \<times> gdb_node list) option \<times> string list" where
  "p_message s tk = (case p_route s tk of
      None \<Rightarrow> (None, [])
    | Some route \<Rightarrow> (case callback route of
        None \<Rightarrow> (None, [])
      | Some cb \<Rightarrow> (let (nodes, errs) = p_nodes s route in
          if length nodes < args route then (None, errs @ [''missing argument(s)''])
          else (Some (cb, nodes @ (case tk of None \<Rightarrow> [] | Some t \<Rightarrow> [GValue ''=token'' (tl t)])), errs))))"

subsection \<open>The route\<close>

lemma has_prefix_ok: "unread m i s z \<Longrightarrow> NUL \<notin> set p \<Longrightarrow> has_prefix m i p = Some (take (length p) s = p)"
proof (induction p arbitrary: i s)
  case (Cons c p)
  show ?case
  proof (cases s)
    case Nil
    then show ?thesis using Cons.prems unread_rd[OF Cons.prems(1)] by auto
  next
    case (Cons d s')
    then have u: "unread m (Suc i) s' z" "rd m i = Some d" using Cons.prems(1) unread_Cons by blast+
    have "has_prefix m (Suc i) p = Some (take (length p) s' = p)" using Cons.IH[OF u(1)] Cons.prems(2) by simp
    then show ?thesis using u(2) Cons by simp
  qed
qed simp

text \<open>The token, where there is one, is a string in front of the message.\<close>

definition token_at :: "block \<Rightarrow> nat \<Rightarrow> nat option \<Rightarrow> string option \<Rightarrow> bool" where
  "token_at m i token tk \<longleftrightarrow> (case (token, tk) of
      (None, None) \<Rightarrow> True
    | (Some t, Some s) \<Rightarrow> str_at m i t s \<and> s \<noteq> []
    | _ \<Rightarrow> False)"

lemma str_at_rd: "str_at m hi i s \<Longrightarrow> s \<noteq> [] \<Longrightarrow> rd m i = Some (hd s)"
  by (cases "drop i m"; cases s) (auto simp: str_at_def intro: rd_drop)

lemma str_at_tl: "str_at m hi i s \<Longrightarrow> s \<noteq> [] \<Longrightarrow> str_at m hi (Suc i) (tl s)"
  by (cases "drop i m"; cases s) (auto simp: str_at_def dest: drop_Suc_rest)

definition routes_ok :: "parse_route list \<Rightarrow> bool" where
  "routes_ok rs \<longleftrightarrow> (\<forall>r\<in>set rs. NUL \<notin> set (route_prefix r))"

lemma find_route_ok:
  assumes "unread m message s z" "token_at m message token tk"
  shows "routes_ok rs \<Longrightarrow> find_route m message token rs = Some (find (route_fits s tk) rs)"
proof (induction rs)
  case (Cons r rs)
  then have IH: "find_route m message token rs = Some (find (route_fits s tk) rs)"
    and pre: "has_prefix m message (route_prefix r) = Some (take (length (route_prefix r)) s = route_prefix r)"
    using has_prefix_ok[OF assms(1), of "route_prefix r"] by (auto simp: routes_ok_def)
  have fits: "route_fits s tk r \<longleftrightarrow> take (length (route_prefix r)) s = route_prefix r \<and>
     (mark r = NUL \<or> (case tk of None \<Rightarrow> False | Some t \<Rightarrow> mark r = CHR ''*'' \<or> (t \<noteq> [] \<and> mark r = hd t)))"
    by (rule route_fits_def)
  show ?case
  proof (cases token)
    case None
    then have "tk = None" using assms(2) by (auto simp: token_at_def split: option.splits)
    then show ?thesis using None IH pre fits by simp
  next
    case (Some t)
    then obtain u where u: "tk = Some u" "str_at m message t u" "u \<noteq> []"
      using assms(2) by (auto simp: token_at_def split: option.splits)
    then show ?thesis using Some IH pre str_at_rd[OF u(2,3)] fits by simp
  qed
qed simp

lemma parse_routes_ok: "routes_ok parse_routes"
  unfolding routes_ok_def parse_routes_def by simp

lemma comma_of_nth: "comma_of p = Some c \<Longrightarrow> c < length p \<and> p ! c = CHR '','' \<and> CHR '','' \<notin> set (take c p)"
proof -
  assume c: "comma_of p = Some c"
  then have m: "CHR '','' \<in> set p" and c: "c = length (takeWhile (\<lambda>c. c \<noteq> CHR '','') p)"
    by (auto simp: comma_of_def split: if_splits)
  then have "takeWhile (\<lambda>c. c \<noteq> CHR '','') p \<noteq> p" by (metis set_takeWhileD)
  then have "c < length p" using c by (metis length_takeWhile_le le_neq_implies_less takeWhile_eq_take take_all order_refl)
  then show ?thesis using c nth_length_takeWhile[of "\<lambda>c. c \<noteq> CHR '','' " p] by (auto simp flip: takeWhile_eq_take dest: set_takeWhileD)
qed

subsection \<open>A message is what its string says\<close>

text \<open>
  The call gives what \<open>p_message\<close> says of the string, whatever the message is: it stays inside the block, and the nodes, read
  in the message the call leaves, are those of the string.
\<close>

lemma find_Some_mem: "find P xs = Some x \<Longrightarrow> x \<in> set xs \<and> P x"
  by (auto simp: find_Some_iff)

lemma resolve_all_append: "resolve_all m xs = Some a \<Longrightarrow> resolve_all m ys = Some b \<Longrightarrow> resolve_all m (xs @ ys) = Some (a @ b)"
  by (induction xs arbitrary: a) (auto split: Option.bind_splits)

lemma resolve_all_length: "resolve_all m ns = Some gs \<Longrightarrow> length ns = length gs"
  by (induction ns arbitrary: gs) (auto split: Option.bind_splits)

lemma resolve_token:
  assumes "token_at m i token tk" "take i m' = take i m"
  shows "resolve_all m' (case token of None \<Rightarrow> [] | Some t \<Rightarrow> [PT_VALUE (Constant ''=token'') (At (t + 1))]) =
    Some (case tk of None \<Rightarrow> [] | Some t \<Rightarrow> [GValue ''=token'' (tl t)])"
proof (cases token)
  case None
  then show ?thesis using assms(1) by (auto simp: token_at_def split: option.splits)
next
  case (Some t)
  then obtain u where u: "tk = Some u" "str_at m i t u" "u \<noteq> []"
    using assms(1) by (auto simp: token_at_def split: option.splits)
  have "str_at m' i (Suc t) (tl u)" using str_at_same[OF str_at_tl[OF u(2,3)] assms(2)] .
  then show ?thesis using Some u(1) str_at_c_string by simp
qed

lemma route_text_ok:
  assumes "unread m i s z" "comma_of (route_prefix r) = Some c" "take (length (route_prefix r)) s = route_prefix r"
  shows "parsed m (Suc (i + c)) z (parse_text (length m) m [] (i + c) NUL nl) (p_text (length s) [] (drop (Suc c) s) NUL nl)"
proof -
  have "length (route_prefix r) \<le> length s" using assms(3) by (metis length_take min.cobounded1 min_def)
  then have c: "Suc c \<le> length s" using comma_of_nth[OF assms(2)] by simp
  then have u: "unread m (Suc (i + c)) (drop (Suc c) s) z" using unread_drop[OF assms(1), of "Suc c"] by simp
  have l: "length (drop (Suc c) s) < length s" "length s \<le> length m" using c unread_less[OF assms(1)] by simp_all
  show ?thesis using parse_text_ok[OF u, of "length m" "[]" "[]" NUL nl] l p_text_fuel[OF l, of "[]" NUL nl] by simp
qed

lemma nodes_ok:
  assumes "unread m i s z" "route_fits s tk r"
  shows "\<exists>m' ns gs errs. (case comma_of (route_prefix r) of
        None \<Rightarrow> Some (m, [], [])
      | Some comma \<Rightarrow> do {
          (m, nodes, x) \<leftarrow> parse_text (length m) m [] (i + comma) NUL (newline r);
          Some (m, nodes, case x of Inl e \<Rightarrow> [e] | Inr _ \<Rightarrow> []) }) = Some (m', ns, errs) \<and>
      length m' = length m \<and> take i m' = take i m \<and> resolve_all m' ns = Some gs \<and> p_nodes s r = (gs, errs)"
proof (cases "comma_of (route_prefix r)")
  case (Some c)
  have "parsed m (Suc (i + c)) z (parse_text (length m) m [] (i + c) NUL (newline r)) (p_text (length s) [] (drop (Suc c) s) NUL (newline r))"
    using assms route_text_ok[OF assms(1) Some, of "newline r"] by (simp add: route_fits_def)
  then obtain m' ns x where p: "parse_text (length m) m [] (i + c) NUL (newline r) = Some (m', ns, x)"
    "length m' = length m" "take (Suc (i + c)) m' = take (Suc (i + c)) m"
    "stands m' z x (snd (p_text (length s) [] (drop (Suc c) s) NUL (newline r)))"
    "resolve_all m' ns = Some (fst (p_text (length s) [] (drop (Suc c) s) NUL (newline r)))"
    unfolding parsed_def using denotes_resolve(2) by blast
  have "take i m' = take i m" using take_le[OF p(3), of i] by simp
  then show ?thesis using Some p by (auto simp: p_nodes_def Let_def case_prod_unfold elim: stands_cases)
qed (simp add: p_nodes_def)

text \<open>C2: A call of \<open>parse_message\<close> on a C string, with a token in front of it or none, never leaves the block and always returns: it calls
  the callback that the parser on strings names, with nodes that, read in the message as the call leaves it, are the nodes that parser
  gives, and logs the same errors; or it calls none, and so does that parser.\<close>

theorem parse_message_refines:
  assumes "unread m i s z" "token_at m i token tk"
  shows "\<exists>m' res errs. parse_message m i token = Some (m', res, errs) \<and> length m' = length m \<and> take i m' = take i m \<and>
    (case res of
       None \<Rightarrow> p_message s tk = (None, errs)
     | Some (cb, nodes) \<Rightarrow> (\<exists>gs. resolve_all m' nodes = Some gs \<and> p_message s tk = (Some (cb, gs), errs)))"
proof (cases "p_route s tk")
  case None
  then show ?thesis using find_route_ok[OF assms parse_routes_ok] by (simp add: parse_message_def p_route_def p_message_def)
next
  case (Some r)
  then have fits: "route_fits s tk r" by (simp add: p_route_def find_Some_mem)
  have route: "find_route m i token parse_routes = Some (Some r)"
    using find_route_ok[OF assms parse_routes_ok] Some by (simp add: p_route_def)
  show ?thesis
  proof (cases "callback r")
    case None
    then show ?thesis using route Some by (simp add: parse_message_def p_message_def)
  next
    case cb: (Some cb)
    from nodes_ok[OF assms(1) fits] obtain m' ns gs errs where n:
      "(case comma_of (route_prefix r) of
        None \<Rightarrow> Some (m, [], [])
      | Some comma \<Rightarrow> do {
          (m, nodes, x) \<leftarrow> parse_text (length m) m [] (i + comma) NUL (newline r);
          Some (m, nodes, case x of Inl e \<Rightarrow> [e] | Inr _ \<Rightarrow> []) }) = Some (m', ns, errs)"
      "length m' = length m" "take i m' = take i m" "resolve_all m' ns = Some gs" "p_nodes s r = (gs, errs)" by blast
    note t = resolve_token[OF assms(2) n(3)]
    have "length ns = length gs" using resolve_all_length[OF n(4)] .
    then show ?thesis using n Some cb route resolve_all_append[OF n(4) t]
      by (auto simp: parse_message_def p_message_def)
  qed
qed

theorem parse_message_refines_witness:
  "\<exists>m' nodes. parse_message (''7'' @ NUL # ''^done,value=\"1\"'' @ [NUL]) 2 (Some 0) = Some (m', Some (''on_inspect_assign'', nodes), []) \<and>
    resolve_all m' nodes = Some [GValue ''value'' ''1'', GValue ''=token'' []]"
proof -
  let ?s = "''^done,value=\"1\"''"
  have u: "unread (''7'' @ NUL # ?s @ [NUL]) 2 ?s []" by (simp add: unread_def)
  have t: "token_at (''7'' @ NUL # ?s @ [NUL]) 2 (Some 0) (Some ''7'')" by (simp add: token_at_def str_at_def)
  have "p_message ?s (Some ''7'') = (Some (''on_inspect_assign'', [GValue ''value'' ''1'', GValue ''=token'' []]), [])" by code_simp
  then show ?thesis using parse_message_refines[OF u t] by (auto split: option.splits)
qed

subsection \<open>What the first node is\<close>

fun gdb_name :: "gdb_node \<Rightarrow> string" where
  "gdb_name (GValue nm _) = nm"
| "gdb_name (GArray nm _) = nm"

fun gdb_type :: "gdb_node \<Rightarrow> node_type" where
  "gdb_type (GValue _ _) = Value_Type"
| "gdb_type (GArray _ _) = Array_Type"

lemma p_item_extends:
  "fst (p_item nested gs nm s stop nl) = [] \<and> isl (snd (p_item nested gs nm s stop nl)) \<or>
   (\<exists>ys. fst (p_item nested gs nm s stop nl) = gs @ ys)"
  by (auto simp: p_item_def Let_def case_prod_unfold split: list.splits if_splits)

lemma p_text_extends:
  "fst (p_text n gs s stop nl) = [] \<and> isl (snd (p_text n gs s stop nl)) \<or> (\<exists>ys. fst (p_text n gs s stop nl) = gs @ ys)"
proof (induction n arbitrary: gs s)
  case (Suc n)
  show ?case
  proof (cases "p_name s")
    case (Inr x)
    obtain nm t where x: "x = (nm, t)" by fastforce
    obtain gs2 r where g: "p_item (\<lambda>s stop. p_text n [] s stop nl) gs nm t stop nl = (gs2, r)" by fastforce
    have e: "gs2 = [] \<and> isl r \<or> (\<exists>ys. gs2 = gs @ ys)" using p_item_extends[of "\<lambda>s stop. p_text n [] s stop nl" gs nm t stop nl] g by simp
    show ?thesis
    proof (cases r)
      case (Inl err)
      then show ?thesis using Inr x g e by auto
    next
      case r: (Inr u)
      then obtain ys where "gs2 = gs @ ys" using e by auto
      then show ?thesis using Inr x g r Suc.IH[of gs2 "tl u"] by auto
    qed
  qed simp
qed simp

lemma p_text_first:
  assumes "valid_name nm" "nm \<noteq> ''time''" "q \<in> {DQ, CHR ''{'', CHR ''['' }"
    and "fst (p_text (Suc n) [] (name_eq nm @ q # s) NUL nl) \<noteq> []"
  shows "\<exists>g gs. fst (p_text (Suc n) [] (name_eq nm @ q # s) NUL nl) = g # gs \<and> gdb_name g = nm \<and>
    gdb_type g = (if q = DQ then Value_Type else Array_Type)"
proof -
  have "p_name (name_eq nm @ q # s) = Inr (nm, q # s)"
    using assms(3) by (intro p_name_eq[OF assms(1)]) (auto simp: char_class_defs)
  moreover obtain gs r where g: "p_item (\<lambda>s stop. p_text n [] s stop nl) [] nm (q # s) NUL nl = (gs, r)" by fastforce
  ultimately have p: "p_text (Suc n) [] (name_eq nm @ q # s) NUL nl = (case r of
      Inl err \<Rightarrow> (gs, Inl err)
    | Inr s \<Rightarrow> if s \<noteq> [] \<and> hd s = CHR '','' then p_text n gs (tl s) NUL nl
        else if NUL = NUL \<and> s = [] then (gs, Inr s)
        else if NUL \<noteq> NUL \<and> s \<noteq> [] \<and> hd s = NUL then (gs, Inr (tl s))
        else (gs, Inl '', or end expected''))" by (simp only: p_text.simps sum.case prod.case Let_def)
  have first: "gs \<noteq> [] \<Longrightarrow> \<exists>g. gs = [g] \<and> gdb_name g = nm \<and> gdb_type g = (if q = DQ then Value_Type else Array_Type)"
    and "gs = [] \<Longrightarrow> isl r"
    using g assms(2,3) by (auto simp: p_item_def Let_def case_prod_unfold split: if_splits)
  moreover have ne: "gs \<noteq> []" using calculation(2) p assms(4) by (cases r) auto
  moreover obtain ys where "fst (p_text (Suc n) [] (name_eq nm @ q # s) NUL nl) = gs @ ys"
    using p ne p_text_extends[of n gs _ NUL nl] assms(4) by (fastforce split: sum.splits if_splits)
  ultimately show ?thesis by (metis append_Cons append_Nil)
qed

text \<open>The name and the type a prefix ends with: \<open>name="\<close>, \<open>name={\<close> or \<open>name=[\<close>.\<close>

definition lead_of :: "string \<Rightarrow> (string \<times> char) option" where
  "lead_of p = (case comma_of p of
      None \<Rightarrow> None
    | Some c \<Rightarrow> (let t = drop (Suc c) p; nm = take (length t - 2) t in
        if 2 \<le> length t \<and> nm \<noteq> [] \<and> t = name_eq nm @ [last t] then Some (nm, last t) else None))"

definition leads_ok :: "parse_route list \<Rightarrow> bool" where
  "leads_ok rs \<longleftrightarrow> list_all (\<lambda>r. 0 < args r \<longrightarrow> (case lead_of (route_prefix r) of
      None \<Rightarrow> False
    | Some (nm, q) \<Rightarrow> valid_name nm \<and> nm \<noteq> ''time'' \<and> q \<in> {DQ, CHR ''{'', CHR ''['' })) rs"

lemma parse_routes_leads: "leads_ok parse_routes"
  by code_simp

lemma first_node:
  assumes "route_fits s tk r" "leads_ok parse_routes" "r \<in> set parse_routes" "0 < args r" "args r \<le> length (fst (p_nodes s r))"
  shows "\<exists>nm q g gs. lead_of (route_prefix r) = Some (nm, q) \<and> fst (p_nodes s r) = g # gs \<and> gdb_name g = nm \<and>
    gdb_type g = (if q = DQ then Value_Type else Array_Type)"
proof -
  obtain nm q where l: "lead_of (route_prefix r) = Some (nm, q)" "valid_name nm" "nm \<noteq> ''time''" "q \<in> {DQ, CHR ''{'', CHR ''['' }"
    using assms(2-4) unfolding leads_ok_def list_all_iff by (auto split: option.splits)
  then obtain c where c: "comma_of (route_prefix r) = Some c" "drop (Suc c) (route_prefix r) = name_eq nm @ [q]"
    by (auto simp: lead_of_def Let_def split: option.splits if_splits)
  let ?p = "route_prefix r"
  have take: "take (length ?p) s = ?p" using assms(1) by (simp add: route_fits_def)
  then have "s = ?p @ drop (length ?p) s" by (metis append_take_drop_id)
  moreover have "Suc c \<le> length ?p" using comma_of_nth[OF c(1)] by simp
  ultimately have d: "drop (Suc c) s = name_eq nm @ q # drop (length ?p) s" using c(2) by (metis append.assoc append_Cons append_Nil drop_append diff_is_0_eq drop_0)
  have "s \<noteq> []" using d by (auto simp: name_eq_def)
  then obtain n where n: "length s = Suc n" by (cases s) auto
  have e: "fst (p_nodes s r) = fst (p_text (Suc n) [] (name_eq nm @ q # drop (length ?p) s) NUL (newline r))"
    unfolding p_nodes_def using c(1) d n by (simp add: Let_def case_prod_unfold del: p_text.simps)
  have ne: "fst (p_text (Suc n) [] (name_eq nm @ q # drop (length ?p) s) NUL (newline r)) \<noteq> []"
    using assms(4,5) e by (metis le_zero_eq list.size(3) not_gr_zero)
  show ?thesis using p_text_first[OF l(2-4) ne] l(1) unfolding e by auto
qed

text \<open>The callbacks that cast the first node to an array, and those that cast it to a string, without a look at its type.\<close>

definition array_callbacks :: "string list" where
  "array_callbacks = [''on_thread_info'', ''on_thread_follow'', ''on_break_list'', ''on_break_features'', ''on_target_features'', ''on_stack_frames'',
     ''on_stack_arguments'', ''on_local_variables'', ''on_inspect_changelist'', ''on_memory_read_bytes'', ''on_register_names'',
     ''on_register_changes'', ''on_register_values'']"

definition value_callbacks :: "string list" where
  "value_callbacks = [''on_thread_selected'', ''on_thread_group_started'', ''on_thread_group_exited'', ''on_thread_group_added'',
     ''on_thread_group_removed'', ''on_break_deleted'', ''on_inspect_format'', ''on_inspect_evaluate'', ''on_inspect_assign'',
     ''on_inspect_path_expr'', ''on_menu_evaluate_value'', ''on_tooltip_value'', ''on_watch_value'']"

lemma callback_leads:
  "list_all (\<lambda>r. case callback r of None \<Rightarrow> True | Some cb \<Rightarrow>
     (cb \<in> set array_callbacks \<longrightarrow> 0 < args r \<and> (case lead_of (route_prefix r) of None \<Rightarrow> False | Some (nm, q) \<Rightarrow> q \<noteq> DQ)) \<and>
     (cb \<in> set value_callbacks \<longrightarrow> 0 < args r \<and> (case lead_of (route_prefix r) of None \<Rightarrow> False | Some (nm, q) \<Rightarrow> q = DQ))) parse_routes"
  by code_simp

text \<open>What a call of a callback says about the route.\<close>

lemma p_message_Some:
  assumes "p_message s tk = (Some (cb, gs), errs)"
  obtains r where "p_route s tk = Some r" "route_fits s tk r" "r \<in> set parse_routes" "callback r = Some cb"
    "args r \<le> length (fst (p_nodes s r))" "gs = fst (p_nodes s r) @ (case tk of None \<Rightarrow> [] | Some t \<Rightarrow> [GValue ''=token'' (tl t)])"
  using assms find_Some_mem[of "route_fits s tk" parse_routes]
  by (auto simp: p_message_def Let_def case_prod_unfold p_route_def split: option.splits if_splits)

lemma resolve_lead:
  assumes "resolve_all m nodes = Some (g # gs)"
  shows "gdb_type g = Array_Type \<Longrightarrow> \<exists>ns. parse_lead_array nodes = Some ns"
    and "gdb_type g = Value_Type \<Longrightarrow> \<exists>v. parse_lead_value nodes = Some v"
  using assms by (cases nodes; cases "hd nodes"; auto split: Option.bind_splits)+

lemma lead_resolved:
  assumes "p_message s tk = (Some (cb, gs), errs)" "resolve_all m nodes = Some gs"
  shows "(cb \<in> set array_callbacks \<longrightarrow> parse_lead_array nodes \<noteq> None) \<and> (cb \<in> set value_callbacks \<longrightarrow> parse_lead_value nodes \<noteq> None)"
proof -
  obtain r where r: "route_fits s tk r" "r \<in> set parse_routes" "callback r = Some cb" "args r \<le> length (fst (p_nodes s r))"
    "gs = fst (p_nodes s r) @ (case tk of None \<Rightarrow> [] | Some t \<Rightarrow> [GValue ''=token'' (tl t)])" by (rule p_message_Some[OF assms(1)])
  have cl: "cb \<in> set array_callbacks \<Longrightarrow> 0 < args r \<and> (\<exists>nm q. lead_of (route_prefix r) = Some (nm, q) \<and> q \<noteq> DQ)"
    "cb \<in> set value_callbacks \<Longrightarrow> 0 < args r \<and> (\<exists>nm q. lead_of (route_prefix r) = Some (nm, q) \<and> q = DQ)"
    using callback_leads r(2,3) unfolding list_all_iff by (auto split: option.splits)
  have first: "0 < args r \<Longrightarrow> \<exists>nm q g gs'. lead_of (route_prefix r) = Some (nm, q) \<and> gs = g # gs' \<and>
      gdb_type g = (if q = DQ then Value_Type else Array_Type)"
    using first_node[OF r(1) parse_routes_leads r(2) _ r(4)] r(5) by fastforce
  show ?thesis
  proof (intro conjI impI)
    assume "cb \<in> set array_callbacks"
    then obtain g gs' where "gs = g # gs'" "gdb_type g = Array_Type" using cl(1) first by fastforce
    then show "parse_lead_array nodes \<noteq> None" using resolve_lead(1) assms(2) by auto
  next
    assume "cb \<in> set value_callbacks"
    then obtain g gs' where "gs = g # gs'" "gdb_type g = Value_Type" using cl(2) first by fastforce
    then show "parse_lead_value nodes \<noteq> None" using resolve_lead(2) assms(2) by auto
  qed
qed

theorem parse_message_types:
  assumes "unread m i s z" "token_at m i token tk" "parse_message m i token = Some (m', Some (cb, nodes), errs)"
  shows "(cb \<in> set array_callbacks \<longrightarrow> parse_lead_array nodes \<noteq> None) \<and> (cb \<in> set value_callbacks \<longrightarrow> parse_lead_value nodes \<noteq> None)"
proof -
  obtain gs where "resolve_all m' nodes = Some gs" "p_message s tk = (Some (cb, gs), errs)"
    using parse_message_refines[OF assms(1,2)] assms(3) by auto
  then show ?thesis using lead_resolved by blast
qed

subsection \<open>Names and tokens\<close>

text \<open>No node of a message has the name the parser gives the token.\<close>

fun named_ok :: "gdb_node \<Rightarrow> bool" where
  "named_ok (GValue nm _) \<longleftrightarrow> nm \<noteq> ''=token''"
| "named_ok (GArray nm gs) \<longleftrightarrow> nm \<noteq> ''=token'' \<and> list_all named_ok gs"

lemma p_name_token: "p_name s = Inr (nm, r) \<Longrightarrow> nm \<noteq> ''=token''"
proof -
  assume p: "p_name s = Inr (nm, r)"
  have "nm = [] \<or> nm = takeWhile node_char s" using p by (auto simp: p_name_def split: if_splits list.splits)
  moreover have "CHR ''='' \<notin> set (takeWhile node_char s)" by (auto dest!: set_takeWhileD simp: node_char_def char_class_defs)
  moreover have "CHR ''='' \<in> set ''=token''" by simp
  ultimately show ?thesis by (metis list.distinct(1))
qed

lemma p_item_named:
  assumes "\<And>s stop. list_all named_ok (fst (nested s stop))" "list_all named_ok gs" "nm \<noteq> ''=token''"
  shows "list_all named_ok (fst (p_item nested gs nm s stop nl))"
proof (cases s)
  case (Cons c t)
  have n: "list_all named_ok (fst (if t \<noteq> [] \<and> hd t = ends (c = CHR ''{'') then ([], Inr (tl t)) else nested t (ends (c = CHR ''{''))))"
    using assms(1) by simp
  show ?thesis using assms n unfolding p_item_def Cons by (auto simp: Let_def case_prod_unfold)
qed (use assms in \<open>simp add: p_item_def\<close>)

lemma p_text_named: "list_all named_ok gs \<Longrightarrow> list_all named_ok (fst (p_text n gs s stop nl))"
proof (induction n arbitrary: gs s stop)
  case (Suc n)
  show ?case
  proof (cases "p_name s")
    case (Inr x)
    obtain nm t where x: "x = (nm, t)" by fastforce
    obtain gs2 r where g: "p_item (\<lambda>s stop. p_text n [] s stop nl) gs nm t stop nl = (gs2, r)" by fastforce
    have "list_all named_ok gs2"
      using p_item_named[of "\<lambda>s stop. p_text n [] s stop nl" gs nm t stop nl] Suc g p_name_token Inr x by simp
    then show ?thesis using Inr x g Suc.IH[of gs2] by (auto split: sum.splits)
  qed (use Suc.prems in simp)
qed simp

text \<open>\<open>on_break_list\<close> up to the walk over the breakpoints: whether to refresh, the stage, and the nodes to walk over.\<close>

datatype break_stage = BG_PERSIST | BG_DISCARD | BG_UNKNOWN | BG_PARTLOC | BG_APPLIED | BG_FOLLOW | BG_IGNORE | BG_ONLOAD | BG_RUNTO

definition on_break_list :: "block \<Rightarrow> parse_node list \<Rightarrow> (string list + bool \<times> break_stage \<times> parse_node list) option" where
  "on_break_list m nodes = do {
     lead \<leftarrow> parse_lead_array nodes;
     (body, errs) \<leftarrow> parse_find_node_type m lead ''body'' Array_Type;
     (case body of
        Some (PT_ARRAY _ nodes) \<Rightarrow> do {
          (token, nodes) \<leftarrow> parse_grab_token m nodes;
          token \<leftarrow> (case token of None \<Rightarrow> Some None | Some p \<Rightarrow> map_option Some (pointed m p));
          let refresh = (token = Some []);
          let stage = (if token = Some ''2'' then BG_IGNORE else BG_DISCARD);
          Some (Inr (refresh, stage, nodes)) }
      | _ \<Rightarrow> Some (Inl (errs @ [''no body'']))) }"

lemma resolve_name: "resolve m n = Some g \<Longrightarrow> pointed m (node_name n) = Some (gdb_name g)"
  by (cases n) (auto split: Option.bind_splits)

lemma find_node_resolved:
  "resolve_all m nodes = Some gs \<Longrightarrow>
   parse_find_node m nodes name = Some (if name \<in> gdb_name ` set gs then Some (length (takeWhile (\<lambda>g. gdb_name g \<noteq> name) gs)) else None)"
proof (induction nodes arbitrary: gs)
  case (Cons n ns)
  then obtain g gs' where g: "gs = g # gs'" "resolve m n = Some g" "resolve_all m ns = Some gs'" by (auto split: Option.bind_splits)
  then show ?case using Cons.IH[OF g(3)] resolve_name[OF g(2)] by auto
qed simp

lemma named_ok_name: "named_ok g \<Longrightarrow> gdb_name g \<noteq> ''=token''"
  by (cases g) auto

lemma named_ok_names: "list_all named_ok gs \<Longrightarrow> ''=token'' \<notin> gdb_name ` set gs"
  using named_ok_name by (fastforce simp: list_all_iff)

lemma grab_no_token: "resolve_all m nodes = Some gs \<Longrightarrow> list_all named_ok gs \<Longrightarrow> parse_grab_token m nodes = Some (None, nodes)"
  using find_node_resolved[of m nodes gs "''=token''"] named_ok_names by (simp add: parse_grab_token_def)

lemma grab_token:
  assumes "resolve_all m ns = Some gs" "list_all named_ok gs" "pointed m p = Some ''=token''"
  shows "parse_grab_token m (ns @ [PT_VALUE p v]) = Some (Some v, ns)"
proof -
  have "parse_find_node m (ns @ [PT_VALUE p v]) ''=token'' = Some (Some (length ns))"
    using assms(1,2)
  proof (induction ns arbitrary: gs)
    case (Cons n ns)
    then obtain g gs' where g: "gs = g # gs'" "resolve m n = Some g" "resolve_all m ns = Some gs'" by (auto split: Option.bind_splits)
    then show ?case using Cons.IH[OF g(3)] Cons.prems(2) resolve_name[OF g(2)] named_ok_name[of g] by simp
  qed (simp add: assms(3))
  then show ?thesis by (simp add: parse_grab_token_def nth_append)
qed

lemma p_nodes_named: "list_all named_ok (fst (p_nodes s r))"
  unfolding p_nodes_def using p_text_named[of "[]"] by (auto simp: Let_def case_prod_unfold split: option.splits)

lemma resolve_all_split:
  "resolve_all m nodes = Some (gs @ hs) \<Longrightarrow> \<exists>ns ms. nodes = ns @ ms \<and> resolve_all m ns = Some gs \<and> resolve_all m ms = Some hs"
proof (induction gs arbitrary: nodes)
  case Nil
  then show ?case by (intro exI[of _ "[]"] exI[of _ nodes]) simp
next
  case (Cons g gs)
  then obtain n ns where n: "nodes = n # ns" "resolve m n = Some g" "resolve_all m ns = Some (gs @ hs)"
    by (cases nodes) (auto split: Option.bind_splits)
  then obtain as bs where "ns = as @ bs" "resolve_all m as = Some gs" "resolve_all m bs = Some hs" using Cons.IH by blast
  then show ?case using n by (intro exI[of _ "n # as"] exI[of _ bs]) simp
qed

lemma grab_resolved:
  assumes "resolve_all m nodes = Some (gs @ [GValue ''=token'' t])" "list_all named_ok gs"
  shows "\<exists>v ns. parse_grab_token m nodes = Some (Some v, ns) \<and> pointed m v = Some t \<and> resolve_all m ns = Some gs"
proof -
  obtain ns ms where n: "nodes = ns @ ms" "resolve_all m ns = Some gs" "resolve_all m ms = Some [GValue ''=token'' t]"
    using resolve_all_split[OF assms(1)] by blast
  then obtain x where x: "ms = [x]" "resolve m x = Some (GValue ''=token'' t)" by (cases ms; cases "tl ms") (auto split: Option.bind_splits)
  then obtain p v where "x = PT_VALUE p v" "pointed m p = Some ''=token''" "pointed m v = Some t"
    by (cases x) (auto split: Option.bind_splits)
  then show ?thesis using grab_token[OF n(2) assms(2)] n x by blast
qed

text \<open>A callback whose route has a mark gets the token; it is the token of the message without its first character.\<close>

theorem parse_message_token:
  assumes "unread m i s z" "token_at m i token tk" "parse_message m i token = Some (m', Some (cb, nodes), errs)"
  shows "\<exists>r. p_route s tk = Some r \<and> callback r = Some cb \<and> (mark r \<noteq> NUL \<longrightarrow> tk \<noteq> None) \<and>
    (case tk of
       None \<Rightarrow> parse_grab_token m' nodes = Some (None, nodes) \<and> resolve_all m' nodes = Some (fst (p_nodes s r))
     | Some t \<Rightarrow> \<exists>v ns. parse_grab_token m' nodes = Some (Some v, ns) \<and> pointed m' v = Some (tl t) \<and>
         resolve_all m' ns = Some (fst (p_nodes s r)))"
proof -
  obtain gs where gs: "resolve_all m' nodes = Some gs" "p_message s tk = (Some (cb, gs), errs)"
    using parse_message_refines[OF assms(1,2)] assms(3) by auto
  obtain r where r: "p_route s tk = Some r" "route_fits s tk r" "callback r = Some cb"
    "gs = fst (p_nodes s r) @ (case tk of None \<Rightarrow> [] | Some t \<Rightarrow> [GValue ''=token'' (tl t)])" by (rule p_message_Some[OF gs(2)])
  show ?thesis
  proof (cases tk)
    case None
    then have "parse_grab_token m' nodes = Some (None, nodes)" using grab_no_token[OF gs(1)] r(4) p_nodes_named by simp
    then show ?thesis using None r gs by (auto simp: route_fits_def)
  next
    case (Some t)
    have "\<exists>v ns. parse_grab_token m' nodes = Some (Some v, ns) \<and> pointed m' v = Some (tl t) \<and> resolve_all m' ns = Some (fst (p_nodes s r))"
      using grab_resolved[of m' nodes "fst (p_nodes s r)" "tl t"] gs(1) r(4) Some p_nodes_named by simp
    then show ?thesis using Some r by simp
  qed
qed



lemma resolve_all_nth: "resolve_all m nodes = Some gs \<Longrightarrow> i < length nodes \<Longrightarrow> resolve m (nodes ! i) = Some (gs ! i)"
proof (induction nodes arbitrary: gs i)
  case (Cons n ns)
  then show ?case by (cases i) (auto split: Option.bind_splits)
qed simp

lemma parse_find_node_less: "resolve_all m nodes = Some gs \<Longrightarrow> parse_find_node m nodes name = Some (Some i) \<Longrightarrow> i < length nodes"
proof -
  assume r: "resolve_all m nodes = Some gs" and i: "parse_find_node m nodes name = Some (Some i)"
  then have n: "name \<in> gdb_name ` set gs" "i = length (takeWhile (\<lambda>g. gdb_name g \<noteq> name) gs)"
    using find_node_resolved[OF r, of name] by (auto split: if_splits)
  then have "takeWhile (\<lambda>g. gdb_name g \<noteq> name) gs \<noteq> gs" by (metis (mono_tags, lifting) imageE set_takeWhileD)
  then have "i < length gs" using n(2) by (metis length_takeWhile_le le_neq_implies_less takeWhile_eq_take take_all order_refl)
  then show ?thesis using resolve_all_length[OF r] by simp
qed

text \<open>
  The route of \<open>on_stack_follow\<close> asks for no argument, and a string that does not end throws the nodes before it away: the callback, which takes
  the first node for an array once the token is out, gets none.
\<close>

lemma on_stack_follow_unguarded:
  "\<exists>m errs. parse_message (''2'' @ NUL # ''^done,frame={},x=\"'' @ [NUL]) 2 (Some 0) =
    Some (m, Some (''on_stack_follow'', [PT_VALUE (Constant ''=token'') (At 1)]), errs)"
proof -
  have "parse_message (''2'' @ NUL # ''^done,frame={},x=\"'' @ [NUL]) 2 (Some 0) =
      Some (''2'' @ NUL # ''^done,frame'' @ NUL # ''{},x'' @ [NUL, NUL, NUL],
        Some (''on_stack_follow'', [PT_VALUE (Constant ''=token'') (At 1)]), [''\" expected''])" by code_simp
  then show ?thesis by blast
qed

text \<open>C20: \<open>on_break_list\<close> never refreshes the list: whatever the message and its token, the token is looked up in the body of the table, where
  \<open>parse_message\<close> does not put it, so the refresh and the stage for token 2 are never taken.\<close>

theorem on_break_list_no_refresh:
  assumes "unread m i s z" "token_at m i token tk" "parse_message m i token = Some (m', Some (''on_break_list'', nodes), errs)"
  shows "\<exists>r. on_break_list m' nodes = Some r \<and> (\<forall>refresh stage ns. r = Inr (refresh, stage, ns) \<longrightarrow> \<not> refresh \<and> stage = BG_DISCARD)"
proof -
  obtain gs where gs: "resolve_all m' nodes = Some gs" "p_message s tk = (Some (''on_break_list'', gs), errs)"
    using parse_message_refines[OF assms(1,2)] assms(3) by auto
  obtain r where r: "gs = fst (p_nodes s r) @ (case tk of None \<Rightarrow> [] | Some t \<Rightarrow> [GValue ''=token'' (tl t)])" by (rule p_message_Some[OF gs(2)])
  obtain lead where lead: "parse_lead_array nodes = Some lead" using lead_resolved[OF gs(2,1)] by (auto simp: array_callbacks_def)
  then obtain p ns where nodes: "nodes = PT_ARRAY p lead # ns" by (cases nodes rule: parse_lead_array.cases) auto
  then obtain nm as gs' where as: "gs = GArray nm as # gs'" "resolve_all m' lead = Some as" using gs(1) by (auto split: Option.bind_splits)
  have "fst (p_nodes s r) \<noteq> []" using as(1) r by (cases tk) auto
  then have "GArray nm as \<in> set (fst (p_nodes s r))" using as(1) r by (cases "fst (p_nodes s r)") auto
  then have ok: "list_all named_ok as" using p_nodes_named[of s r] by (auto simp: list_all_iff)
  obtain f where f: "parse_find_node m' lead ''body'' = Some f" using find_node_resolved[OF as(2)] by blast
  show ?thesis
  proof (cases "\<exists>j p bs. f = Some j \<and> lead ! j = PT_ARRAY p bs")
    case True
    then obtain j p' bs where j: "f = Some j" "lead ! j = PT_ARRAY p' bs" by blast
    have l: "j < length lead" using parse_find_node_less[OF as(2)] f j(1) by blast
    have rj: "resolve m' (PT_ARRAY p' bs) = Some (as ! j)" using resolve_all_nth[OF as(2) l] j(2) by metis
    have mem: "as ! j \<in> set as" using l resolve_all_length[OF as(2)] by simp
    obtain nm' hs where h: "as ! j = GArray nm' hs" "resolve_all m' bs = Some hs"
      using rj unfolding resolve.simps bind_eq_Some_conv by (metis option.inject)
    have "list_all named_ok hs" using ok mem h(1) by (auto simp: list_all_iff)
    then show ?thesis using lead f j grab_no_token[OF h(2)] by (simp add: on_break_list_def parse_find_node_type_def)
  next
    case False
    then show ?thesis using lead f
      by (cases f; cases "lead ! the f") (auto simp: on_break_list_def parse_find_node_type_def)
  qed
qed

theorem on_break_list_no_refresh_witness:
  "on_break_list (''4'' @ NUL # ''^done,BreakpointTable'' @ NUL # ''{body'' @ NUL # ''[]}'' @ [NUL])
     [PT_ARRAY (At 8) [PT_ARRAY (At 25) []], PT_VALUE (Constant ''=token'') (At 1)] = Some (Inr (False, BG_DISCARD, []))"
proof -
  let ?s = "''^done,BreakpointTable={body=[]}''"
  have u: "unread (''4'' @ NUL # ?s @ [NUL]) 2 ?s []" by (simp add: unread_def)
  have t: "token_at (''4'' @ NUL # ?s @ [NUL]) 2 (Some 0) (Some ''4'')" by (simp add: token_at_def str_at_def)
  have p: "parse_message (''4'' @ NUL # ?s @ [NUL]) 2 (Some 0) =
      Some (''4'' @ NUL # ''^done,BreakpointTable'' @ NUL # ''{body'' @ NUL # ''[]}'' @ [NUL],
        Some (''on_break_list'', [PT_ARRAY (At 8) [PT_ARRAY (At 25) []], PT_VALUE (Constant ''=token'') (At 1)]), [])" by code_simp
  have "on_break_list (''4'' @ NUL # ''^done,BreakpointTable'' @ NUL # ''{body'' @ NUL # ''[]}'' @ [NUL])
     [PT_ARRAY (At 8) [PT_ARRAY (At 25) []], PT_VALUE (Constant ''=token'') (At 1)] = Some (Inr (False, BG_DISCARD, []))" by code_simp
  then show ?thesis using on_break_list_no_refresh[OF u t p] by blast
qed

subsection \<open>A printed record\<close>

lemma tree_NUL:
  "valid_tree t \<Longrightarrow> NUL \<notin> set (print_tree t)"
  "list_all valid_tree ts \<Longrightarrow> NUL \<notin> set (print_trees ts)"
proof (induction t and ts rule: print_tree_print_trees.induct)
  case (1 nm v)
  have "NUL \<notin> set (escape v)" using 1 by (auto simp: escape_def)
  then show ?case using 1 by (auto simp: name_eq_def valid_name_def list_all_iff node_char_def char_class_defs)
qed (auto simp: name_eq_def valid_name_def list_all_iff node_char_def char_class_defs)

lemma p_message_print:
  assumes "list_all valid_tree ts" "ts \<noteq> []" "p_route (cls @ CHR '','' # print_trees ts) tk = Some r" "callback r = Some cb"
    "comma_of (route_prefix r) = Some (length cls)" "args r \<le> length (filter (kept_node NUL) ts)"
  shows "p_message (cls @ CHR '','' # print_trees ts) tk =
    (Some (cb, map node_of (filter (kept_node NUL) ts) @ (case tk of None \<Rightarrow> [] | Some t \<Rightarrow> [GValue ''=token'' (tl t)])), [])"
proof -
  let ?s = "cls @ CHR '','' # print_trees ts"
  have "p_text (length ?s) [] (print_trees ts @ (if NUL = NUL then [] else [NUL]) @ []) NUL (newline r) =
      ([] @ map node_of (filter (kept_node NUL) ts), Inr [])"
    using assms(1,2) by (intro p_text_print) auto
  then have "p_text (length ?s) [] (drop (Suc (length cls)) ?s) NUL (newline r) = (map node_of (filter (kept_node NUL) ts), Inr [])" by simp
  then have "p_nodes ?s r = (map node_of (filter (kept_node NUL) ts), [])" unfolding p_nodes_def assms(5) option.case Let_def by simp
  then show ?thesis using assms(3,4,6) by (simp add: p_message_def)
qed

text \<open>C15: Results printed the way GDB prints them, nested tuples and lists with escaped strings, reach the callback of their route as the
  nodes that were printed, without an error; arrays named time are left out at the top, and the token is the last node.\<close>

theorem parse_message_print:
  assumes "list_all valid_tree ts" "ts \<noteq> []" "NUL \<notin> set cls" "unread m i (cls @ CHR '','' # print_trees ts) z" "token_at m i token tk"
    and "p_route (cls @ CHR '','' # print_trees ts) tk = Some r" "callback r = Some cb"
    "comma_of (route_prefix r) = Some (length cls)" "args r \<le> length (filter (kept_node NUL) ts)"
  shows "\<exists>m' nodes. parse_message m i token = Some (m', Some (cb, nodes), []) \<and>
    resolve_all m' nodes = Some (map node_of (filter (kept_node NUL) ts) @ (case tk of None \<Rightarrow> [] | Some t \<Rightarrow> [GValue ''=token'' (tl t)]))"
  using parse_message_refines[OF assms(4,5)] p_message_print[OF assms(1,2,6-9)] by (auto split: option.splits)

theorem parse_message_print_witness:
  "\<exists>m' nodes. parse_message (''23'' @ NUL # ''^done'' @ CHR '','' # print_trees [TTuple ''frame'' [TValue ''level'' ''0'', TValue ''func'' ''a\"b'']] @ [NUL]) 3 (Some 0) =
      Some (m', Some (''on_stack_follow'', nodes), []) \<and>
    resolve_all m' nodes = Some [GArray ''frame'' [GValue ''level'' ''0'', GValue ''func'' ''a\"b''], GValue ''=token'' ''3'']"
proof -
  let ?ts = "[TTuple ''frame'' [TValue ''level'' ''0'', TValue ''func'' ''a\"b'']]"
  let ?m = "''23'' @ NUL # ''^done'' @ CHR '','' # print_trees ?ts @ [NUL]"
  have v: "list_all valid_tree ?ts" by (simp add: valid_name_def node_char_def char_class_defs)
  have n: "NUL \<notin> set (''^done'' @ CHR '','' # print_trees ?ts)" using tree_NUL(2)[OF v] by simp
  have u: "unread ?m 3 (''^done'' @ CHR '','' # print_trees ?ts) []" using n by (simp add: unread_def del: print_trees.simps)
  have t: "token_at ?m 3 (Some 0) (Some ''23'')" by (simp add: token_at_def str_at_def)
  have r: "p_route (''^done'' @ CHR '','' # print_trees ?ts) (Some ''23'') = Some (Route ''^done,frame={'' (Some ''on_stack_follow'') (CHR ''2'') NUL 0)"
    by code_simp
  show ?thesis using parse_message_print[OF v _ _ u t r, of "''on_stack_follow''"] by (simp add: kept_node_def comma_of_def del: print_trees.simps)
qed

end
