(* ===== verification/ScpDebug.thy ===== *)
theory ScpDebug
  imports ScpMessage "HOL-Library.Word"
begin

text \<open>
  The driver of the debugger (\<open>scope/src/debug.c\<close>): the queue of commands, the output of GDB, the state of the session, and the menu. The functions
  of other files that the driver calls are an argument of type \<open>calls\<close>.
\<close>

subsection \<open>State\<close>

datatype gdb_state = INACTIVE | ACTIVE | KILLING

datatype thread_state = THREAD_BLANK | THREAD_RUNNING | THREAD_STOPPED | THREAD_QUERY_FRAME | THREAD_AT_SOURCE | THREAD_AT_ASSEMBLER

text \<open>The order of the enumeration.\<close>

fun thread_rank :: "thread_state \<Rightarrow> nat" where
  "thread_rank THREAD_BLANK = 0"
| "thread_rank THREAD_RUNNING = 1"
| "thread_rank THREAD_STOPPED = 2"
| "thread_rank THREAD_QUERY_FRAME = 3"
| "thread_rank THREAD_AT_SOURCE = 4"
| "thread_rank THREAD_AT_ASSEMBLER = 5"

lemma thread_rank_inject: "thread_rank x = thread_rank y \<longleftrightarrow> x = y"
  by (cases x; cases y) auto

instantiation thread_state :: linorder
begin

definition less_eq_thread_state :: "thread_state \<Rightarrow> thread_state \<Rightarrow> bool" where
  "less_eq_thread_state x y \<longleftrightarrow> thread_rank x \<le> thread_rank y"

definition less_thread_state :: "thread_state \<Rightarrow> thread_state \<Rightarrow> bool" where
  "less_thread_state x y \<longleftrightarrow> thread_rank x < thread_rank y"

instance
  by standard (auto simp: less_eq_thread_state_def less_thread_state_def thread_rank_inject)

end

datatype debug_state = DS_INACTIVE | DS_BUSY | DS_READY | DS_DEBUG | DS_HANGING

text \<open>What the functions print, and the calls of other parts of the plugin, which may change the state in turn.\<close>

datatype dc_event = Dc_output nat string | Dc_output_nl nat string | Dc_error string | Show_message string

datatype call = Callback string "parse_node list" | On_inspect_signal nat | On_error "parse_node list" | Update_state debug_state
  | Views_update debug_state | Views_clear | Utils_lock_all bool | Breaks_apply | Inspects_apply | View_dirty_watch | Open_debug_panel
  | Registers_query_names

record debug =
  gdb_state :: gdb_state
  wait_prompt :: "32 word"
  wait_result :: "32 word"
  commands :: string
  send_channel :: bool
  send_source_id :: bool
  leading_receive :: bool
  debug_auto_run :: bool
  debug_auto_exit :: bool
  debug_load_error :: bool
  thread_count :: "32 word"
  thread_prompt :: "32 word"
  thread_state :: thread_state
  thread_id :: "string option"
  frame_id :: "string option"
  pref_gdb_async_mode :: bool
  break_async :: int
  dc_log :: "dc_event list"

type_synonym calls = "call \<Rightarrow> block \<Rightarrow> debug \<Rightarrow> debug"

definition dc :: "dc_event \<Rightarrow> debug \<Rightarrow> debug" where
  "dc e d = d\<lparr>dc_log := dc_log d @ [e]\<rparr>"

definition debug_state :: "debug \<Rightarrow> debug_state" where
  "debug_state d =
     (if gdb_state d = INACTIVE then DS_INACTIVE
      else if gdb_state d = KILLING \<or> wait_prompt d \<noteq> 0 \<or> commands d \<noteq> [] then DS_BUSY
      else if thread_count d \<noteq> 0 then
        (if thread_state d \<le> THREAD_RUNNING then if pref_gdb_async_mode d \<or> thread_prompt d \<noteq> 0 then DS_READY else DS_BUSY
         else DS_DEBUG)
      else DS_HANGING)"

subsection \<open>Sending\<close>

datatype target = N | T | F

text \<open>The thread and the frame that a command is for.\<close>

definition thread_args :: "target \<Rightarrow> debug \<Rightarrow> string" where
  "thread_args tf d =
     (case thread_id d of
        Some tid \<Rightarrow> if tf \<noteq> N then '' --thread '' @ tid @
            (case frame_id d of
               Some fid \<Rightarrow> if tf = F \<and> THREAD_STOPPED \<le> thread_state d then '' --frame '' @ fid else []
             | None \<Rightarrow> [])
          else []
      | None \<Rightarrow> [])"

text \<open>The command up to its first space, the thread and the frame, the rest, and a newline.\<close>

definition debug_send_command :: "target \<Rightarrow> string \<Rightarrow> debug \<Rightarrow> debug" where
  "debug_send_command tf command d =
     (if gdb_state d = ACTIVE then
        (let word = takeWhile (\<lambda>c. \<not> is_cspace c) command; rest = dropWhile (\<lambda>c. \<not> is_cspace c) command in
         d\<lparr>commands := commands d @ word @ thread_args tf d @ rest @ [LF], send_source_id := send_source_id d \<or> send_channel d\<rparr>)
      else d)"

text \<open>\<open>debug_send_evaluate\<close> for an expression in the locale's encoding; the token is one character.\<close>

definition debug_send_evaluate :: "char \<Rightarrow> string \<Rightarrow> string \<Rightarrow> debug \<Rightarrow> debug" where
  "debug_send_evaluate token scid expr =
     debug_send_command F (CHR ''0'' # token # scid @ ''-data-evaluate-expression \"'' @ escape expr @ ''\"'')"

text \<open>
  The loop that counts the commands written, \<open>m\<close> being the string of commands. Without a newline in the rest \<open>strchr\<close> gives \<open>NULL\<close>,
  whose successor is read: a fault.
\<close>

function count_written :: "block \<Rightarrow> nat \<Rightarrow> nat \<Rightarrow> 32 word \<Rightarrow> 32 word option" where
  "count_written m s n wait = do {
     s \<leftarrow> skip_while (\<lambda>c. c \<noteq> LF \<and> c \<noteq> NUL) m s;
     c \<leftarrow> rd m s;
     if c = NUL then None
     else if n \<le> s then Some wait
     else do { c \<leftarrow> rd m (s + 1); if c = NUL then Some (wait + 1) else count_written m (s + 1) n (wait + 1) } }"
  by pat_completeness auto
termination
  by (relation "measure (\<lambda>(m, s, n, wait). length m - s)") (auto dest!: skip_while_ge)

declare count_written.simps [simp del]

text \<open>\<open>written\<close> is the number of bytes that \<open>spawn_write_data\<close> writes.\<close>

definition send_commands_cb :: "calls \<Rightarrow> nat \<Rightarrow> debug \<Rightarrow> debug option" where
  "send_commands_cb run written d =
     (if 0 < written then do {
        let m = cstr (commands d);
        let d = dc (Dc_output 0 (take written (commands d))) d;
        let d = d\<lparr>wait_prompt := 1\<rparr>;
        wait \<leftarrow> count_written m 0 written (wait_result d);
        let d = d\<lparr>wait_result := wait, commands := drop written (commands d)\<rparr>;
        Some (run (Update_state DS_BUSY) [] d) }
      else Some d)"

definition send_source_destroy_cb :: "debug \<Rightarrow> debug" where
  "send_source_destroy_cb d = d\<lparr>send_source_id := False\<rparr>"

text \<open>\<open>obtain_send_channel_cb\<close>, where the descriptor of the pipe is duplicated.\<close>

definition obtain_send_channel_cb :: "bool \<Rightarrow> debug \<Rightarrow> debug" where
  "obtain_send_channel_cb failure d = (if failure then d else d\<lparr>send_channel := True, send_source_id := True\<rparr>)"

subsection \<open>Receiving\<close>

definition ignoring :: "string \<Rightarrow> dc_event" where
  "ignoring e = Dc_error (e @ '', ignoring to EOLN'')"

text \<open>Console, target and log output of the debugger.\<close>

definition parse_stream :: "calls \<Rightarrow> block \<Rightarrow> string option \<Rightarrow> debug \<Rightarrow> (block \<times> debug) option" where
  "parse_stream run m err d = do {
     c \<leftarrow> rd m 1;
     (m, failed, d) \<leftarrow>
       (if c = DQ then do {
          (m, r) \<leftarrow> scope_parse_string m 1 LF;
          s \<leftarrow> c_string m 1;
          Some (m, isl r, dc (Dc_output 1 s) (case r of Inl e \<Rightarrow> dc (Dc_error e) d | Inr _ \<Rightarrow> d)) }
        else do { s \<leftarrow> c_string m 0; Some (m, True, dc (Dc_output 1 s) d) });
     (case err of
        Some e \<Rightarrow> Some (m, dc (ignoring e) d)
      | None \<Rightarrow>
          if failed then Some (m, dc (Dc_error ''\" expected'') d)
          else do {
            sig \<leftarrow> has_prefix m 0 ''~^(Scope)#07'';
            Some (m, if sig then run (On_inspect_signal 12) m d else d) }) }"

text \<open>The echo of a record, and the count of results; \<open>c\<close> is the character behind its number.\<close>

definition note_record :: "bool \<Rightarrow> string \<Rightarrow> char \<Rightarrow> debug \<Rightarrow> debug" where
  "note_record shown s c d =
     (let d = (if shown then dc (Dc_output_nl 1 s) d else d) in
      if c = CHR ''^'' then
        if wait_result d \<noteq> 0 then d\<lparr>wait_result := wait_result d - 1\<rparr> else dc (Dc_error ''extra result'') d
      else d)"

text \<open>All other records; a token is moved one byte down, over its first digit, to make room for its \<open>NUL\<close>.\<close>

definition parse_record :: "calls \<Rightarrow> bool \<Rightarrow> block \<Rightarrow> string option \<Rightarrow> debug \<Rightarrow> (block \<times> debug) option" where
  "parse_record run option_library_messages m err d = do {
     message \<leftarrow> skip_while is_digit m 0;
     library \<leftarrow> has_prefix m message ''=library-'';
     s \<leftarrow> c_string m 0;
     c \<leftarrow> rd m message;
     let d = note_record (err \<noteq> None \<or> option_library_messages \<or> \<not> library) s c d;
     c \<leftarrow> rd m 0;
     (m, token) \<leftarrow> (if c = CHR ''0'' \<and> 1 < message then do {
         m \<leftarrow> put_byte (memmove m 0 1 (message - 1)) (message - 1) NUL;
         Some (m, Some 0) }
       else Some (m, None));
     (case err of
        Some e \<Rightarrow> Some (m, dc (ignoring e) d)
      | None \<Rightarrow> do {
          (m, called, errs) \<leftarrow> parse_message m message token;
          let d = fold (\<lambda>e. dc (Dc_error e)) errs d;
          Some (m, case called of None \<Rightarrow> d | Some (cb, nodes) \<Rightarrow> run (Callback cb nodes) m d) }) }"

definition debug_parse :: "calls \<Rightarrow> bool \<Rightarrow> block \<Rightarrow> string option \<Rightarrow> debug \<Rightarrow> (block \<times> debug) option" where
  "debug_parse run option_library_messages m err d = do {
     c \<leftarrow> rd m 0;
     if c \<noteq> NUL \<and> c \<in> set ''~@&'' then parse_stream run m err d
     else do {
       s \<leftarrow> c_string m 0;
       if s = ''(gdb) '' then Some (m, (dc (Dc_output 3 ''(gdb) '') d)\<lparr>wait_prompt := wait_result d\<rparr>)
       else parse_record run option_library_messages m err d } }"

text \<open>A chunk of output, without its line end, and what is wrong with it.\<close>

definition chunk_end :: "string \<Rightarrow> (block \<times> string option) option" where
  "chunk_end str =
     (if str = [] then None
      else
        (let m = cstr str; term = length str - 1 in
         if str ! term = LF then
           (let term = (if 2 \<le> length str \<and> str ! (term - 1) = CR then term - 1 else term) in Some (m[term := NUL], None))
         else if str ! term = CR then Some (m[term := NUL], None)
         else if str ! term = NUL then Some (m, Some ''binary zero encountered'')
         else Some (m, Some ''line too long or incomplete'')))"

text \<open>\<open>str\<close> is \<open>None\<close> for a call without data.\<close>

definition receive_output_cb :: "calls \<Rightarrow> bool \<Rightarrow> string option \<Rightarrow> debug \<Rightarrow> debug option" where
  "receive_output_cb run option_library_messages str d = do {
     d \<leftarrow> (case str of
         None \<Rightarrow> Some d
       | Some str \<Rightarrow> do {
           (m, err) \<leftarrow> chunk_end str;
           d \<leftarrow> (if leading_receive d then map_option snd (debug_parse run option_library_messages m err d) else Some d);
           Some (d\<lparr>leading_receive := (err = None)\<rparr>) });
     let d = (if commands d = [] then run (Views_update (debug_state d)) [] d else d);
     Some (run (Update_state (debug_state d)) [] d) }"

subsection \<open>Callbacks\<close>

definition on_debug_error :: "calls \<Rightarrow> block \<Rightarrow> parse_node list \<Rightarrow> debug \<Rightarrow> debug" where
  "on_debug_error run m nodes d = run (On_error nodes) m (d\<lparr>debug_auto_run := False\<rparr>)"

definition on_debug_load_error :: "calls \<Rightarrow> block \<Rightarrow> parse_node list \<Rightarrow> debug \<Rightarrow> debug" where
  "on_debug_load_error run m nodes d = run (On_error nodes) m (d\<lparr>debug_load_error := True\<rparr>)"

text \<open>The program to debug, as set up in the dialog of \<open>program.c\<close>, and the preferences read at the start.\<close>

record program =
  program_executable :: string
  program_arguments :: string
  program_environment :: string
  program_working_dir :: string
  program_load_script :: string
  program_auto_run_exit :: bool
  program_non_stop_mode :: bool
  program_temp_breakpoint :: bool
  program_temp_break_location :: string
  slave_pty_name :: "string option"
  option_open_panel_on_load :: bool

text \<open>The token decides which of two commands, the program's and the script's, is the last. It is read without a test for \<open>NULL\<close>.\<close>

definition on_debug_loaded :: "calls \<Rightarrow> program \<Rightarrow> block \<Rightarrow> parse_node list \<Rightarrow> debug \<Rightarrow> debug option" where
  "on_debug_loaded run p m nodes d = do {
     (token, nodes) \<leftarrow> parse_grab_token m nodes;
     if debug_load_error d then Some d
     else do {
       t \<leftarrow> token;
       s \<leftarrow> pointed m t;
       let c = (if s = [] then 0 else int (cc (hd s)));
       let c = (if c < 128 then c else c - 256);
       if c + of_bool (program_load_script p = []) \<ge> int (cc (CHR ''1'')) then do {
         let d = run View_dirty_watch m (run Inspects_apply m (run Breaks_apply m d));
         Some (if program_temp_breakpoint p then
             if program_temp_break_location p \<noteq> [] then
               debug_send_command N (''02-break-insert -t '' @ program_temp_break_location p @ [LF] @ ''05'') d
             else debug_send_command N (''-gdb-set listsize 1'' @ [LF] @ ''02-file-list-exec-source-file'' @ [LF] @ ''-gdb-set listsize 10'') d
           else debug_send_command N ''05'' d) }
       else Some d } }"

definition on_debug_exit :: "debug \<Rightarrow> debug" where
  "on_debug_exit d = d\<lparr>gdb_state := KILLING\<rparr>"

definition on_debug_auto_run :: "bool \<Rightarrow> debug \<Rightarrow> debug" where
  "on_debug_auto_run breaks_active d =
     (if debug_auto_run d \<and> thread_count d = 0 then
        if breaks_active then debug_send_command N ''-exec-run'' d else dc (Show_message ''No breakpoints. Hanging.'') d
      else d)"

definition on_debug_auto_exit :: "debug \<Rightarrow> debug" where
  "on_debug_auto_exit d = (if debug_auto_exit d then (debug_send_command N ''-gdb-exit'' d)\<lparr>gdb_state := KILLING\<rparr> else d)"

subsection \<open>Starting and stopping the debugger\<close>

definition gdb_finalize :: "debug \<Rightarrow> debug" where
  "gdb_finalize d = (if send_channel d then
     (let d = d\<lparr>send_channel := False\<rparr> in if send_source_id d then send_source_destroy_cb d else d) else d)"

definition gdb_exit_cb :: "calls \<Rightarrow> string \<Rightarrow> debug \<Rightarrow> debug" where
  "gdb_exit_cb run status d =
     (let saved_state = gdb_state d;
          d = (gdb_finalize d)\<lparr>gdb_state := INACTIVE\<rparr>;
          d = (if saved_state = ACTIVE then dc (Show_message (''GDB died unexpectedly with status '' @ status @ ''.'')) d
               else if thread_count d \<noteq> 0 then dc (Show_message ''Program terminated.'') d
               else d) in
      run (Update_state DS_INACTIVE) [] (run (Utils_lock_all False) [] (run Views_clear [] d)))"

text \<open>\<open>locale_of\<close> is \<open>utils_get_locale_from_utf8\<close>.\<close>

definition append_startup :: "(string \<Rightarrow> string) \<Rightarrow> string \<Rightarrow> string option \<Rightarrow> debug \<Rightarrow> debug" where
  "append_startup locale_of command val d =
     (case val of
        Some v \<Rightarrow> if v \<noteq> [] then d\<lparr>commands := commands d @ command @ '' '' @ locale_of v @ [LF]\<rparr> else d
      | None \<Rightarrow> d)"

text \<open>\<open>g_strsplit (s, "\n", -1)\<close>.\<close>

function split_lines :: "string \<Rightarrow> string list" where
  "split_lines s = (if s = [] then [] else if LF \<in> set s then
     takeWhile (\<lambda>c. c \<noteq> LF) s # (if tl (dropWhile (\<lambda>c. c \<noteq> LF) s) = [] then [[]] else split_lines (tl (dropWhile (\<lambda>c. c \<noteq> LF) s)))
   else [s])"
  by pat_completeness auto
termination
proof (relation "measure length")
  fix s :: string assume "s \<noteq> []"
  then show "(tl (dropWhile (\<lambda>c. c \<noteq> LF) s), s) \<in> measure length"
    using length_dropWhile_le[of "\<lambda>c. c \<noteq> LF" s] by (cases s) (auto simp: le_imp_less_Suc diff_le_self less_imp_diff_less)
qed simp

declare split_lines.simps [simp del]

definition breaks_query_async :: "debug \<Rightarrow> debug" where
  "breaks_query_async d =
     (if break_async d = -1 then d\<lparr>break_async := 0, commands := commands d @ ''05-list-features'' @ [LF]\<rparr> else d)"

definition append_if :: "bool \<Rightarrow> string \<Rightarrow> debug \<Rightarrow> debug" where
  "append_if b command d = (if b then d\<lparr>commands := commands d @ command @ [LF]\<rparr> else d)"

text \<open>
  \<open>load_program\<close> on Unix. \<open>failure\<close> is what \<open>spawn_with_callbacks\<close> reports; the status bar and the cursor are left out.
\<close>

definition load_program :: "calls \<Rightarrow> (string \<Rightarrow> string) \<Rightarrow> program \<Rightarrow> string option \<Rightarrow> debug \<Rightarrow> debug" where
  "load_program run locale_of p failure d =
     (case failure of
        Some e \<Rightarrow> dc (Show_message e) d
      | None \<Rightarrow>
          (let d = run (Utils_lock_all True) [] (d\<lparr>gdb_state := ACTIVE, dc_log := []\<rparr>);
               d = d\<lparr>wait_result := 0, wait_prompt := 1, commands := [], leading_receive := True\<rparr>;
               d = append_if (pref_gdb_async_mode d) ''-gdb-set target-async on'' d;
               d = append_if (program_non_stop_mode p) ''-gdb-set non-stop on'' d;
               d = append_startup locale_of ''010-file-exec-and-symbols'' (Some (program_executable p)) d;
               d = append_startup locale_of ''-gdb-set inferior-tty'' (slave_pty_name p) d;
               d = append_startup locale_of ''-environment-cd'' (Some (program_working_dir p)) d;
               d = append_startup locale_of ''-exec-arguments'' (Some (program_arguments p)) d;
               d = fold (\<lambda>envar. append_startup locale_of ''-gdb-set environment'' (Some envar)) (split_lines (program_environment p)) d;
               d = append_startup locale_of ''011source -v'' (Some (program_load_script p)) d;
               d = append_if True ''07-list-target-features'' d;
               d = breaks_query_async d;
               d = (if program_executable p \<noteq> [] \<or> program_load_script p \<noteq> [] then
                      d\<lparr>debug_load_error := False, debug_auto_exit := program_auto_run_exit p, debug_auto_run := program_auto_run_exit p\<rparr>
                    else d\<lparr>debug_auto_run := False, debug_auto_exit := False\<rparr>);
               d = (if option_open_panel_on_load p then run Open_debug_panel [] d else d) in
           run Registers_query_names [] d))"

text \<open>
  \<open>check\<close> is \<open>utils_check_path\<close> on the executable, the directory and the script, and says what is wrong with a path.
\<close>

definition on_debug_run_continue :: "calls \<Rightarrow> (string \<Rightarrow> string) \<Rightarrow> program \<Rightarrow> (string \<Rightarrow> string option) \<Rightarrow> string option \<Rightarrow> debug \<Rightarrow> debug" where
  "on_debug_run_continue run locale_of p check failure d =
     (if gdb_state d = INACTIVE then
        if program_executable p = [] then
          dc (Show_message ''No executable set. Please set an executable under \"Debug/Setup Program\".'') d
        else (case check (program_executable p) of
            Some e \<Rightarrow> dc (Show_message e) d
          | None \<Rightarrow> (case check (program_working_dir p) of
                Some e \<Rightarrow> dc (Show_message e) d
              | None \<Rightarrow> (case check (program_load_script p) of
                    Some e \<Rightarrow> dc (Show_message e) d
                  | None \<Rightarrow> load_program run locale_of p failure d)))
      else if thread_count d \<noteq> 0 then debug_send_command T ''-exec-continue'' d
      else debug_send_command N ''-exec-run'' (run Inspects_apply [] (run Breaks_apply [] d)))"

definition on_debug_goto_source :: "debug \<Rightarrow> debug" where
  "on_debug_goto_source = debug_send_command T ''-exec-step''"

definition on_debug_step_into :: "debug \<Rightarrow> debug" where
  "on_debug_step_into d = debug_send_command T (if thread_state d = THREAD_AT_SOURCE then ''-exec-step'' else ''-exec-step-instruction'') d"

definition on_debug_step_over :: "debug \<Rightarrow> debug" where
  "on_debug_step_over d = debug_send_command T (if thread_state d = THREAD_AT_SOURCE then ''-exec-next'' else ''-exec-next-instruction'') d"

definition on_debug_step_out :: "debug \<Rightarrow> debug" where
  "on_debug_step_out = debug_send_command T ''-exec-finish''"

text \<open>\<open>menu_item\<close>: whether there is one. \<open>failure\<close> is what \<open>spawn_kill_process\<close> reports.\<close>

definition on_debug_terminate :: "bool \<Rightarrow> string option \<Rightarrow> debug \<Rightarrow> debug" where
  "on_debug_terminate menu_item failure d =
     (if debug_state d = DS_BUSY then
        (let d = d\<lparr>gdb_state := KILLING\<rparr> in case failure of Some e \<Rightarrow> dc (Show_message e) d | None \<Rightarrow> d)
      else if debug_state d \<in> {DS_READY, DS_DEBUG} \<and> menu_item \<and> \<not> debug_auto_exit d then debug_send_command N ''kill'' d
      else (debug_send_command N ''-gdb-exit'' d)\<lparr>gdb_state := KILLING\<rparr>)"

text \<open>\<open>path\<close> is the file of the current document and \<open>line\<close> its line, in decimal.\<close>

definition on_debug_goto_cursor :: "bool \<Rightarrow> string \<Rightarrow> string \<Rightarrow> debug \<Rightarrow> debug" where
  "on_debug_goto_cursor pref_scope_goto_cursor path line =
     debug_send_command T ((if pref_scope_goto_cursor then ''020-break-insert -t'' else ''-exec-until'') @ '' '' @ path @ '':'' @ line)"

text \<open>The error output of GDB; \<open>None\<close> is a call without data.\<close>

definition receive_errors_cb :: "string option \<Rightarrow> debug \<Rightarrow> debug" where
  "receive_errors_cb str d = (case str of Some s \<Rightarrow> dc (Dc_output 2 (c_content s)) d | None \<Rightarrow> d)"

definition debug_finalize :: "debug \<Rightarrow> debug" where
  "debug_finalize d = (if gdb_state d \<noteq> INACTIVE then gdb_finalize d else d)"

end
