(* ===== verification/ScpDriver.thy ===== *)
theory ScpDriver
  imports ScpDebug
begin

text \<open>
  What the driver keeps: the queue of commands and the count of results, records in whole lines, the contract of the functions it calls, the
  locale \<open>debug_calls\<close>, and its steps.
\<close>

subsection \<open>The queue of commands\<close>

text \<open>The queue is empty or ends with a newline. Commands are C strings, so that it has no \<open>NUL\<close>.\<close>

definition queue_ok :: "debug \<Rightarrow> bool" where
  "queue_ok d \<longleftrightarrow> (commands d = [] \<or> last (commands d) = LF) \<and> NUL \<notin> set (commands d)"

definition newlines :: "string \<Rightarrow> nat" where
  "newlines s = length (filter (\<lambda>c. c = LF) s)"

lemma newlines_simps [simp]:
  "newlines [] = 0" "newlines (c # s) = (if c = LF then Suc (newlines s) else newlines s)" "newlines (s @ t) = newlines s + newlines t"
  by (simp_all add: newlines_def)

lemma newlines_0: "LF \<notin> set s \<Longrightarrow> newlines s = 0"
  by (auto simp: newlines_def filter_empty_conv)

lemma newlines_take_drop: "newlines (take n s) + newlines (drop n s) = newlines s"
  by (metis append_take_drop_id newlines_simps(3))

lemma count_written_ok:
  "drop s m = u @ [NUL] \<Longrightarrow> NUL \<notin> set u \<Longrightarrow> u \<noteq> [] \<Longrightarrow> last u = LF \<Longrightarrow>
   count_written m s n w = Some (w + of_nat (newlines (take (n - s) u)))"
proof (induction "length u" arbitrary: s u w rule: less_induct)
  case less
  have "LF \<in> set u" using less.prems(3,4) by (metis last_in_set)
  then obtain a b where u: "u = a @ LF # b" "LF \<notin> set a" by (meson split_list_first)
  have d: "drop s m = a @ LF # (b @ [NUL])" using less.prems(1) u by simp
  have sk: "skip_while (\<lambda>c. c \<noteq> LF \<and> c \<noteq> NUL) m s = Some (s + length a)"
    using skip_while_rest[OF d, of "\<lambda>c. c \<noteq> LF \<and> c \<noteq> NUL"] less.prems(2) u by auto
  have ds: "drop (s + length a) m = LF # (b @ [NUL])" using drop_rest[OF d refl] .
  have dn: "drop (Suc (s + length a)) m = b @ [NUL]" using drop_Suc_rest[OF ds] .
  show ?case
  proof (cases "n \<le> s + length a")
    case True
    then have "take (n - s) u = take (n - s) a" using u by simp
    then have "newlines (take (n - s) u) = 0" using u(2) by (metis in_set_takeD newlines_0)
    then show ?thesis using sk True rd_drop[OF ds] by (simp add: count_written.simps[of m s])
  next
    case False
    then have t: "take (n - s) u = a @ LF # take (n - Suc (s + length a)) b" using u
      by (simp add: take_Cons')
    show ?thesis
    proof (cases "b = []")
      case True
      then have "rd m (Suc (s + length a)) = Some NUL" using rd_drop[of "Suc (s + length a)" m NUL "[]"] dn by simp
      then show ?thesis using sk False rd_drop[OF ds] t True u(2) newlines_0 by (simp add: count_written.simps[of m s])
    next
      case b: False
      then obtain c b' where "b = c # b'" by (cases b) auto
      then have "rd m (Suc (s + length a)) = Some c" "c \<noteq> NUL" using dn rd_drop less.prems(2) u by auto
      moreover have "count_written m (Suc (s + length a)) n (w + 1) = Some (w + 1 + of_nat (newlines (take (n - Suc (s + length a)) b)))"
        using less.hyps[of b "Suc (s + length a)"] dn less.prems u b by simp
      ultimately show ?thesis using sk False rd_drop[OF ds] t newlines_0[OF u(2)]
        by (simp add: count_written.simps[of m s])
    qed
  qed
qed

lemma send_commands_ok:
  assumes "queue_ok d" "written \<le> length (commands d)"
  shows "send_commands_cb run written d = Some (if 0 < written then run (Update_state DS_BUSY) []
      (d\<lparr>dc_log := dc_log d @ [Dc_output 0 (take written (commands d))], wait_prompt := 1,
         wait_result := wait_result d + of_nat (newlines (take written (commands d))), commands := drop written (commands d)\<rparr>) else d)"
proof (cases "0 < written")
  case True
  then have ne: "commands d \<noteq> []" using assms(2) by auto
  have "count_written (cstr (commands d)) 0 written (wait_result d) = Some (wait_result d + of_nat (newlines (take written (commands d))))"
    using count_written_ok[of 0 "cstr (commands d)" "commands d" written "wait_result d"] assms(1) ne by (simp add: queue_ok_def cstr_def)
  then show ?thesis using True by (simp add: send_commands_cb_def dc_def Let_def)
qed (simp add: send_commands_cb_def)

text \<open>The commands sent or to be sent whose result has not come.\<close>

definition outstanding :: "debug \<Rightarrow> 32 word" where
  "outstanding d = wait_result d + of_nat (newlines (commands d))"

lemma queue_ok_drop: "queue_ok d \<Longrightarrow> drop n (commands d) = [] \<or> last (drop n (commands d)) = LF"
  by (cases "n < length (commands d)") (auto simp: queue_ok_def last_drop)

text \<open>A chunk of the queue is written, with the calls leaving the debugger alone.\<close>

lemma send_commands_outstanding:
  assumes "queue_ok d" "written \<le> length (commands d)" "send_commands_cb (\<lambda>c m d. d) written d = Some d'"
  shows "queue_ok d' \<and> outstanding d' = outstanding d"
proof -
  have d: "newlines (take written (commands d)) + newlines (drop written (commands d)) = newlines (commands d)" by (rule newlines_take_drop)
  have "outstanding d' = outstanding d"
  proof (cases "0 < written")
    case True
    then have "outstanding d' = wait_result d + of_nat (newlines (take written (commands d)) + newlines (drop written (commands d)))"
      using send_commands_ok[OF assms(1,2), of "\<lambda>c m d. d"] assms(3) by (auto simp: outstanding_def)
    then show ?thesis unfolding d by (simp add: outstanding_def)
  qed (use assms in \<open>simp add: send_commands_cb_def\<close>)
  moreover have "queue_ok d'" using send_commands_ok[OF assms(1,2), of "\<lambda>c m d. d"] assms queue_ok_drop[OF assms(1), of written]
    by (auto simp: queue_ok_def dest: in_set_dropD split: if_splits)
  ultimately show ?thesis by simp
qed

lemma debug_send_command_queue:
  assumes "queue_ok d" "gdb_state d = ACTIVE" "NUL \<notin> set command" "\<forall>s. thread_id d = Some s \<or> frame_id d = Some s \<longrightarrow> NUL \<notin> set s \<and> LF \<notin> set s"
  shows "queue_ok (debug_send_command tf command d) \<and> outstanding (debug_send_command tf command d) = outstanding d + 1 + of_nat (newlines command)"
proof -
  have split: "newlines (takeWhile P command) + newlines (dropWhile P command) = newlines command" for P
    by (metis newlines_simps(3) takeWhile_dropWhile_id)
  have mem: "NUL \<notin> set (takeWhile P command)" "NUL \<notin> set (dropWhile P command)" for P
    using assms(3) by (auto dest: set_takeWhileD set_dropWhileD)
  have tail: "LF \<notin> set (thread_args tf d)" "NUL \<notin> set (thread_args tf d)"
    using assms(4) by (auto simp: thread_args_def split: option.splits)
  have "commands (debug_send_command tf command d) = commands d @ takeWhile (\<lambda>c. \<not> is_cspace c) command @ thread_args tf d @ dropWhile (\<lambda>c. \<not> is_cspace c) command @ [LF]"
    "wait_result (debug_send_command tf command d) = wait_result d"
    using assms(2) by (simp_all add: debug_send_command_def Let_def)
  then show ?thesis using mem tail newlines_0[OF tail(1)] assms(1) split[of "\<lambda>c. \<not> is_cspace c"]
    by (auto simp: queue_ok_def outstanding_def simp flip: of_nat_add)
qed

subsection \<open>Strings of a block\<close>

lemma NUL_unread: "NUL \<in> set (drop i m) \<Longrightarrow> \<exists>s z. unread m i s z"
  using split_list_first[of NUL "drop i m"] by (auto simp: unread_def)

lemma c_string_unread: "c_string m i = Some s \<Longrightarrow> \<exists>t z. unread m i t z"
  by (auto simp: c_string_def intro: NUL_unread split: if_splits)

lemma NUL_drop: "NUL \<in> set (drop i m) \<Longrightarrow> NUL \<in> set m"
  by (rule in_set_dropD)

subsection \<open>Streams\<close>

lemma parse_stream_total:
  assumes "unread m 0 (c # s) z"
  shows "\<exists>r. parse_stream run m err d = Some r"
proof -
  have u: "unread m 1 s z" using unread_Cons[OF assms] by simp
  have rd: "rd m 1 = Some (if s = [] then NUL else hd s)" by (rule unread_rd[OF u])
  have zero: "c_string m 0 = Some (c # s)" by (rule unread_c_string[OF assms])
  have pre: "\<exists>b. has_prefix m' 0 ''~^(Scope)#07'' = Some b" if "c_string m' 1 = Some t" for m' t
  proof -
    have "NUL \<in> set (drop 0 m')" using that NUL_drop by (auto simp: c_string_def split: if_splits)
    then obtain t z where "unread m' 0 t z" using NUL_unread by blast
    then show ?thesis using has_prefix_ok[of m' 0 t z "''~^(Scope)#07''"] by simp
  qed
  show ?thesis
  proof (cases "s \<noteq> [] \<and> hd s = DQ")
    case True
    then obtain s1 where s: "s = DQ # s1" by (cases s) auto
    obtain m' r where p: "scope_parse_string m 1 LF = Some (m', r)" "str_at m' (reach m' r) 1 (fst (p_string LF s1))"
      using parse_string_ok[of m 1 s1 z LF] u s by auto
    have cs: "c_string m' 1 = Some (fst (p_string LF s1))" by (rule str_at_c_string[OF p(2)])
    obtain b where "has_prefix m' 0 ''~^(Scope)#07'' = Some b" using pre[OF cs] by blast
    then show ?thesis using rd s p(1) cs by (cases err) (auto simp: parse_stream_def)
  next
    case False
    then show ?thesis using rd zero by (cases err) (auto simp: parse_stream_def)
  qed
qed

subsection \<open>Records\<close>

text \<open>A record without its number, and the token, which is the number without a leading zero.\<close>

definition line_message :: "string \<Rightarrow> string" where
  "line_message s = dropWhile is_digit s"

definition line_token :: "string \<Rightarrow> string option" where
  "line_token s = (let ds = takeWhile is_digit s in if 1 < length ds \<and> hd ds = CHR ''0'' then Some (tl ds) else None)"

definition library_record :: "string \<Rightarrow> bool" where
  "library_record s \<longleftrightarrow> take (length ''=library-'') s = ''=library-''"

text \<open>What is done with a record before it is parsed: the echo and the count of results.\<close>

definition noted :: "bool \<Rightarrow> string option \<Rightarrow> string \<Rightarrow> debug \<Rightarrow> debug" where
  "noted lib err s d =
     note_record (err \<noteq> None \<or> lib \<or> \<not> library_record (line_message s)) s (if line_message s = [] then NUL else hd (line_message s)) d"

lemma token_move:
  assumes "m = c # ds @ r"
  shows "put_byte (memmove m 0 1 (length ds)) (length ds) NUL = Some (ds @ NUL # r)"
proof -
  obtain x xs where x: "drop (length ds) (c # ds @ r) = x # xs" by (cases "drop (length ds) (c # ds @ r)") auto
  then have "xs = r" using drop_Suc_rest[OF x] by simp
  then show ?thesis using x assms by (simp add: put_byte_def memmove_def)
qed

lemma record_split: "s = takeWhile is_digit s @ line_message s"
  by (simp add: line_message_def)

lemma digit_not_NUL: "\<not> is_digit NUL"
  by (simp add: is_digit_def cc_def)

lemma skip_digits:
  assumes "unread m 0 s z"
  shows "skip_while is_digit m 0 = Some (length (takeWhile is_digit s)) \<and> unread m (length (takeWhile is_digit s)) (line_message s) z"
proof -
  let ?ds = "takeWhile is_digit s"
  have u: "unread m (0 + length ?ds) (drop (length ?ds) s) z" by (rule unread_drop[OF assms length_takeWhile_le])
  have m: "drop (length ?ds) s = line_message s" by (simp add: line_message_def dropWhile_eq_drop)
  have d: "drop 0 m = ?ds @ (line_message s @ NUL # z)" using assms record_split[of s] by (metis append.assoc unread_def)
  have "\<not> is_digit (hd (line_message s @ NUL # z))"
    using hd_dropWhile[of is_digit s] digit_not_NUL by (auto simp: line_message_def hd_append)
  then obtain c r where c: "line_message s @ NUL # z = c # r" "\<not> is_digit c" by (cases "line_message s") auto
  have "skip_while is_digit m 0 = Some (0 + length ?ds)"
    using skip_while_rest[of 0 m ?ds c r is_digit] d c by (auto dest: set_takeWhileD)
  then show ?thesis using u m by simp
qed

lemma library_ok:
  assumes "unread m 0 s z"
  shows "has_prefix m (length (takeWhile is_digit s)) ''=library-'' = Some (library_record (line_message s))"
  unfolding library_record_def using skip_digits[OF assms] by (intro has_prefix_ok) auto

text \<open>The token of a record, when it is moved in front of the message.\<close>

lemma move_token:
  assumes "unread m 0 s z"
  shows "\<exists>m' token. (do { c \<leftarrow> rd m 0;
       if c = CHR ''0'' \<and> 1 < length (takeWhile is_digit s) then do {
         m \<leftarrow> put_byte (memmove m 0 1 (length (takeWhile is_digit s) - 1)) (length (takeWhile is_digit s) - 1) NUL;
         Some (m, Some (0::nat)) }
       else Some (m, None) }) = Some (m', token) \<and>
     unread m' (length (takeWhile is_digit s)) (line_message s) z \<and> token_at m' (length (takeWhile is_digit s)) token (line_token s)"
proof (cases "rd m 0 = Some (CHR ''0'') \<and> 1 < length (takeWhile is_digit s)")
  case True
  then obtain c ds where ds: "takeWhile is_digit s = c # ds" "ds \<noteq> []" by (cases "takeWhile is_digit s") auto
  let ?r = "line_message s @ NUL # z"
  have s: "s = c # ds @ line_message s" using record_split[of s] ds(1) by simp
  then have m: "m = c # ds @ ?r" using assms by (metis append_Cons append_assoc unread_0)
  then have c: "c = CHR ''0''" using True by (simp add: rd_def)
  have n: "NUL \<notin> set ds" "NUL \<notin> set (line_message s)"
    using assms s unfolding unread_0 by (metis list.set_intros(2) Un_iff set_append)+
  have "unread (ds @ NUL # ?r) (length (c # ds)) (line_message s) z" using n by (simp add: unread_def)
  moreover have "str_at (ds @ NUL # ?r) (length (c # ds)) 0 ds" using n by (simp add: str_at_def)
  moreover have "line_token s = Some ds" using ds c by (cases ds) (auto simp: line_token_def)
  ultimately show ?thesis using True ds token_move[OF m]
    by (intro exI[of _ "ds @ NUL # ?r"] exI[of _ "Some 0"]) (simp add: token_at_def)
next
  case False
  obtain c where c: "rd m 0 = Some c" using unread_rd[OF assms] by simp
  have "line_token s = None"
  proof (cases "takeWhile is_digit s")
    case (Cons d ds)
    then have "s \<noteq> [] \<and> hd s = d" by (cases s) (auto split: if_splits)
    then show ?thesis using False Cons unread_rd[OF assms] by (auto simp: line_token_def)
  qed (simp add: line_token_def)
  then show ?thesis using False c skip_digits[OF assms] by (auto simp: token_at_def)
qed

theorem parse_record_refines:
  assumes "unread m 0 s z"
  shows "\<exists>m' called errs. parse_record run lib m None d = Some (m',
      (let d' = fold (\<lambda>e. dc (Dc_error e)) errs (noted lib None s d) in
       case called of None \<Rightarrow> d' | Some (cb, nodes) \<Rightarrow> run (Callback cb nodes) m' d')) \<and>
    (case called of
       None \<Rightarrow> p_message (line_message s) (line_token s) = (None, errs)
     | Some (cb, nodes) \<Rightarrow> \<exists>gs. resolve_all m' nodes = Some gs \<and> p_message (line_message s) (line_token s) = (Some (cb, gs), errs))"
proof -
  let ?n = "length (takeWhile is_digit s)" and ?s = "line_message s"
  note sd = skip_digits[OF assms]
  note pre = library_ok[OF assms]
  have cs: "c_string m 0 = Some s" by (rule unread_c_string[OF assms])
  have rd: "rd m ?n = Some (if ?s = [] then NUL else hd ?s)" using unread_rd sd by blast
  obtain m1 token where t: "(do { c \<leftarrow> rd m 0;
       if c = CHR ''0'' \<and> 1 < ?n then do {
         m \<leftarrow> put_byte (memmove m 0 1 (?n - 1)) (?n - 1) NUL;
         Some (m, Some (0::nat)) }
       else Some (m, None) }) = Some (m1, token)"
    "unread m1 ?n ?s z" "token_at m1 ?n token (line_token s)" using move_token[OF assms] by blast
  obtain m' res errs where p: "parse_message m1 ?n token = Some (m', res, errs)"
    "case res of
       None \<Rightarrow> p_message ?s (line_token s) = (None, errs)
     | Some (cb, nodes) \<Rightarrow> (\<exists>gs. resolve_all m' nodes = Some gs \<and> p_message ?s (line_token s) = (Some (cb, gs), errs))"
    using parse_message_refines[OF t(2,3)] by blast
  obtain c where c: "rd m 0 = Some c" using unread_rd[OF assms] by blast
  have "parse_record run lib m None d = Some (m',
      (let d' = fold (\<lambda>e. dc (Dc_error e)) errs (noted lib None s d) in
       case res of None \<Rightarrow> d' | Some (cb, nodes) \<Rightarrow> run (Callback cb nodes) m' d'))"
    using sd pre cs rd t(1) p(1) c by (simp add: parse_record_def noted_def Let_def del: has_prefix.simps)
  then show ?thesis using p(2) by blast
qed

lemma parse_record_total: "unread m 0 s z \<Longrightarrow> \<exists>r. parse_record run lib m err d = Some r"
proof (cases err)
  case None
  assume "unread m 0 s z"
  then show ?thesis using parse_record_refines[of m s z run lib d] None by auto
next
  case (Some e)
  assume u: "unread m 0 s z"
  let ?n = "length (takeWhile is_digit s)"
  note sd = skip_digits[OF u]
  note pre = library_ok[OF u]
  obtain x where x: "rd m ?n = Some x" using unread_rd sd by blast
  obtain c where c: "rd m 0 = Some c" using unread_rd[OF u] by blast
  obtain m1 token where t: "(do { c \<leftarrow> rd m 0;
       if c = CHR ''0'' \<and> 1 < ?n then do {
         m \<leftarrow> put_byte (memmove m 0 1 (?n - 1)) (?n - 1) NUL;
         Some (m, Some (0::nat)) }
       else Some (m, None) }) = Some (m1, token)" using move_token[OF u] by blast
  show ?thesis using Some sd pre x c t unread_c_string[OF u]
    by (simp add: parse_record_def Let_def del: has_prefix.simps)
qed

lemma debug_parse_total: "unread m 0 s z \<Longrightarrow> \<exists>r. debug_parse run lib m err d = Some r"
proof -
  assume u: "unread m 0 s z"
  have "\<exists>r. parse_stream run m err d = Some r" if c: "rd m 0 = Some c" "c \<noteq> NUL" for c
  proof -
    obtain t where "s = c # t" using unread_rd[OF u] c by (cases s) auto
    then show ?thesis using parse_stream_total[of m c t z run err d] u by simp
  qed
  then show ?thesis using unread_rd[OF u] unread_c_string[OF u] parse_record_total[OF u, of run lib err d]
    by (auto simp: debug_parse_def)
qed

lemma chunk_end_ok: "str \<noteq> [] \<Longrightarrow> \<exists>m err s z. chunk_end str = Some (m, err) \<and> unread m 0 s z"
proof -
  assume ne: "str \<noteq> []"
  then obtain m err where m: "chunk_end str = Some (m, err)" "m = cstr str \<or> (\<exists>i. m = (cstr str)[i := NUL])"
    by (cases "str ! (length str - 1) = LF"; cases "str ! (length str - 1) = CR"; cases "str ! (length str - 1) = NUL")
      (auto simp: chunk_end_def Let_def)
  have "length m = Suc (length str)" using m(2) by (auto simp: cstr_def)
  then have "m \<noteq> []" by auto
  moreover then have "last m = NUL" using m(2) by (auto simp: cstr_def last_list_update)
  ultimately have "NUL \<in> set (drop 0 m)" using last_in_set[of m] by simp
  then show ?thesis using m(1) NUL_unread by blast
qed

text \<open>C14: Whatever bytes a chunk of GDB's output has, binary zeros and broken lines included, and whatever the callbacks do, the driver reads and
  writes inside the chunk only and returns.\<close>

theorem receive_output_total: "str \<noteq> Some [] \<Longrightarrow> receive_output_cb run lib str d \<noteq> None"
proof (cases str)
  case (Some s)
  assume "str \<noteq> Some []"
  then obtain m err t z where c: "chunk_end s = Some (m, err)" "unread m 0 t z" using Some chunk_end_ok[of s] by auto
  obtain r where "debug_parse run lib m err d = Some r" using debug_parse_total[OF c(2)] by blast
  then show ?thesis using Some c(1) by (auto simp: receive_output_cb_def Let_def)
qed (simp add: receive_output_cb_def Let_def)

subsection \<open>Chunks\<close>

lemma chunk_end_line: "chunk_end (s @ [LF]) = Some (if s \<noteq> [] \<and> last s = CR then butlast s @ [NUL, LF, NUL] else s @ [NUL, NUL], None)"
proof (cases "s \<noteq> [] \<and> last s = CR")
  case True
  then obtain t where s: "s = t @ [CR]" by (metis append_butlast_last_id)
  show ?thesis unfolding s by (simp add: chunk_end_def Let_def cstr_def nth_append list_update_append)
next
  case False
  then have "\<not> (1 \<le> length s \<and> (s @ [LF]) ! (length s - 1) = CR)"
    by (cases s rule: rev_cases) (auto simp: nth_append)
  then show ?thesis using False by (auto simp: chunk_end_def Let_def cstr_def nth_append list_update_append)
qed

text \<open>A line of output, which ends with a newline, or with a carriage return and a newline.\<close>

definition line_of :: "string \<Rightarrow> string" where
  "line_of s = (if s \<noteq> [] \<and> last s = CR then butlast s else s)"

lemma chunk_end_unread: "NUL \<notin> set s \<Longrightarrow> \<exists>m z. chunk_end (s @ [LF]) = Some (m, None) \<and> unread m 0 (line_of s) z"
  unfolding chunk_end_line by (auto simp: unread_0 line_of_def dest: in_set_butlastD)

definition record_line :: "string \<Rightarrow> bool" where
  "record_line s \<longleftrightarrow> s \<noteq> ''(gdb) '' \<and> (s = [] \<or> hd s \<notin> set ''~@&'')"

lemma debug_parse_record:
  assumes "unread m 0 s z" "record_line s"
  shows "debug_parse run lib m err d = parse_record run lib m err d"
  using unread_rd[OF assms(1)] unread_c_string[OF assms(1)] assms(2) by (cases s) (auto simp: debug_parse_def record_line_def)

text \<open>What follows the parser: the callback, the views and the state of the user interface.\<close>

definition deliver :: "calls \<Rightarrow> block \<Rightarrow> (string \<times> parse_node list) option \<Rightarrow> debug \<Rightarrow> debug" where
  "deliver run m called d =
     (let d = (case called of None \<Rightarrow> d | Some (cb, nodes) \<Rightarrow> run (Callback cb nodes) m d)\<lparr>leading_receive := True\<rparr>;
          d = (if commands d = [] then run (Views_update (debug_state d)) [] d else d) in
      run (Update_state (debug_state d)) [] d)"

text \<open>A whole record: what the driver does with it is what \<open>p_message\<close> says of its text.\<close>

theorem receive_record:
  assumes "NUL \<notin> set s" "record_line (line_of s)" "leading_receive d"
  shows "\<exists>m called errs. receive_output_cb run lib (Some (s @ [LF])) d =
      Some (deliver run m called (fold (\<lambda>e. dc (Dc_error e)) errs (noted lib None (line_of s) d))) \<and>
    (case called of
       None \<Rightarrow> p_message (line_message (line_of s)) (line_token (line_of s)) = (None, errs)
     | Some (cb, nodes) \<Rightarrow> \<exists>gs. resolve_all m nodes = Some gs \<and>
         p_message (line_message (line_of s)) (line_token (line_of s)) = (Some (cb, gs), errs))"
proof -
  obtain m0 z where c: "chunk_end (s @ [LF]) = Some (m0, None)" "unread m0 0 (line_of s) z" using chunk_end_unread[OF assms(1)] by blast
  obtain m called errs where p: "parse_record run lib m0 None d = Some (m,
      (let d' = fold (\<lambda>e. dc (Dc_error e)) errs (noted lib None (line_of s) d) in
       case called of None \<Rightarrow> d' | Some (cb, nodes) \<Rightarrow> run (Callback cb nodes) m d'))"
    "case called of
       None \<Rightarrow> p_message (line_message (line_of s)) (line_token (line_of s)) = (None, errs)
     | Some (cb, nodes) \<Rightarrow> \<exists>gs. resolve_all m nodes = Some gs \<and>
         p_message (line_message (line_of s)) (line_token (line_of s)) = (Some (cb, gs), errs)"
    using parse_record_refines[OF c(2), of run lib d] by blast
  show ?thesis
    using c(1) p assms(3) debug_parse_record[OF c(2) assms(2), of run lib None d]
    by (intro exI[of _ m] exI[of _ called] exI[of _ errs]) (simp add: receive_output_cb_def deliver_def Let_def)
qed

lemma print_trees_last: "ts \<noteq> [] \<Longrightarrow> print_trees ts \<noteq> [] \<and> last (print_trees ts) \<in> {DQ, CHR ''}'', CHR '']''}"
proof (induction ts)
  case (Cons t ts)
  have t: "print_tree t \<noteq> [] \<and> last (print_tree t) \<in> {DQ, CHR ''}'', CHR '']''}" by (cases t) auto
  show ?case
  proof (cases "ts = []")
    case True
    then show ?thesis using t by simp
  next
    case False
    then show ?thesis using Cons.IH by (simp only: print_trees.simps if_False append_is_Nil_conv last_append last_ConsR) auto
  qed
qed simp

text \<open>The answer to a command with a token: a number with a leading zero, a result class, and results.\<close>

definition answer :: "string \<Rightarrow> string \<Rightarrow> gdb_tree list \<Rightarrow> string" where
  "answer tk cls ts = CHR ''0'' # tk @ CHR ''^'' # cls @ CHR '','' # print_trees ts"

lemma answer_parts:
  assumes "list_all is_digit tk" "tk \<noteq> []" "ts \<noteq> []"
  shows "line_of (answer tk cls ts) = answer tk cls ts" "record_line (answer tk cls ts)"
    "line_message (answer tk cls ts) = CHR ''^'' # cls @ CHR '','' # print_trees ts" "line_token (answer tk cls ts) = Some tk"
proof -
  have d: "is_digit (CHR ''0'')" "\<not> is_digit (CHR ''^'')" by (simp_all add: is_digit_def cc_def)
  have l: "last (answer tk cls ts) = last (print_trees ts)" using print_trees_last[OF assms(3)] by (simp add: answer_def)
  show "line_of (answer tk cls ts) = answer tk cls ts" using l print_trees_last[OF assms(3)] by (auto simp: line_of_def)
  show "record_line (answer tk cls ts)" by (simp add: record_line_def answer_def)
  show "line_message (answer tk cls ts) = CHR ''^'' # cls @ CHR '','' # print_trees ts"
    using assms(1) d by (simp add: line_message_def answer_def list_all_iff dropWhile_append2)
  have "takeWhile is_digit (answer tk cls ts) = CHR ''0'' # tk"
    using assms(1) d by (simp add: answer_def list_all_iff takeWhile_append2)
  then show "line_token (answer tk cls ts) = Some tk" using assms(2) by (cases tk) (simp_all add: line_token_def)
qed

lemma digits_NUL: "list_all is_digit tk \<Longrightarrow> NUL \<notin> set tk"
  using digit_not_NUL by (auto simp: list_all_iff)

text \<open>C17: The answer to a command with a token, read as one line, reaches the callback of its route with the printed nodes and the rest of the
  token, after one outstanding result has been counted; then the views and the state are updated.\<close>

theorem receive_answer:
  assumes "list_all valid_tree ts" "ts \<noteq> []" "list_all is_digit tk" "tk \<noteq> []" "NUL \<notin> set cls" "leading_receive d" "wait_result d \<noteq> 0"
    and "p_route (CHR ''^'' # cls @ CHR '','' # print_trees ts) (Some tk) = Some r" "callback r = Some cb"
    "comma_of (route_prefix r) = Some (Suc (length cls))" "args r \<le> length (filter (kept_node NUL) ts)"
  shows "\<exists>m nodes. receive_output_cb run lib (Some (answer tk cls ts @ [LF])) d =
      Some (deliver run m (Some (cb, nodes)) ((dc (Dc_output_nl 1 (answer tk cls ts)) d)\<lparr>wait_result := wait_result d - 1\<rparr>)) \<and>
    resolve_all m nodes = Some (map node_of (filter (kept_node NUL) ts) @ [GValue ''=token'' (tl tk)])"
proof -
  let ?a = "answer tk cls ts"
  note parts = answer_parts[OF assms(3,4,2), of cls]
  have n: "NUL \<notin> set ?a" using assms(5) digits_NUL[OF assms(3)] tree_NUL(2)[OF assms(1)] by (auto simp: answer_def)
  have pm: "p_message (line_message ?a) (line_token ?a) = (Some (cb, map node_of (filter (kept_node NUL) ts) @ [GValue ''=token'' (tl tk)]), [])"
    using p_message_print[of ts "CHR ''^'' # cls" "Some tk" r cb] assms parts by simp
  have cnt: "noted lib None ?a d = (dc (Dc_output_nl 1 ?a) d)\<lparr>wait_result := wait_result d - 1\<rparr>"
    using assms(7) parts(3) by (simp add: noted_def note_record_def library_record_def dc_def)
  obtain m called errs where r: "receive_output_cb run lib (Some (?a @ [LF])) d =
      Some (deliver run m called (fold (\<lambda>e. dc (Dc_error e)) errs (noted lib None ?a d)))"
    "case called of
       None \<Rightarrow> p_message (line_message ?a) (line_token ?a) = (None, errs)
     | Some (cb, nodes) \<Rightarrow> \<exists>gs. resolve_all m nodes = Some gs \<and> p_message (line_message ?a) (line_token ?a) = (Some (cb, gs), errs)"
    using receive_record[OF n _ assms(6), of run lib, unfolded parts(1), OF parts(2)] by blast
  then obtain nodes where "called = Some (cb, nodes)" "errs = []"
    "resolve_all m nodes = Some (map node_of (filter (kept_node NUL) ts) @ [GValue ''=token'' (tl tk)])"
    using pm by (cases called) auto
  then show ?thesis using r(1) cnt by (intro exI[of _ m] exI[of _ nodes]) simp
qed

subsection \<open>Sessions\<close>

text \<open>Calls that leave the debugger alone.\<close>

definition idle :: calls where
  "idle c m d = d"

lemma noted_fields:
  "commands (noted lib e s d) = commands d" "gdb_state (noted lib e s d) = gdb_state d" "leading_receive (noted lib e s d) = leading_receive d"
  "thread_count (noted lib e s d) = thread_count d" "wait_prompt (noted lib e s d) = wait_prompt d"
  by (simp_all add: noted_def note_record_def dc_def)

lemma log_fields:
  "commands (fold (\<lambda>e. dc (Dc_error e)) es d) = commands d" "gdb_state (fold (\<lambda>e. dc (Dc_error e)) es d) = gdb_state d"
  "wait_result (fold (\<lambda>e. dc (Dc_error e)) es d) = wait_result d" "thread_count (fold (\<lambda>e. dc (Dc_error e)) es d) = thread_count d"
  "wait_prompt (fold (\<lambda>e. dc (Dc_error e)) es d) = wait_prompt d"
  by (induction es arbitrary: d) (simp_all add: dc_def)

text \<open>A line that reports the result of a command.\<close>

definition result_line :: "string \<Rightarrow> bool" where
  "result_line s \<longleftrightarrow> NUL \<notin> set s \<and> record_line (line_of s) \<and> line_message (line_of s) \<noteq> [] \<and> hd (line_message (line_of s)) = CHR ''^''"

lemma receive_result:
  assumes "result_line s" "leading_receive d" "wait_result d \<noteq> 0"
  shows "\<exists>d'. receive_output_cb idle lib (Some (s @ [LF])) d = Some d' \<and> wait_result d' = wait_result d - 1 \<and> commands d' = commands d \<and>
    leading_receive d' \<and> gdb_state d' = gdb_state d \<and> thread_count d' = thread_count d"
proof -
  let ?l = "line_of s"
  obtain m called errs where r: "receive_output_cb idle lib (Some (s @ [LF])) d =
      Some (deliver idle m called (fold (\<lambda>e. dc (Dc_error e)) errs (noted lib None ?l d)))"
    using receive_record[of s d idle lib] assms by (auto simp: result_line_def)
  let ?d = "fold (\<lambda>e. dc (Dc_error e)) errs (noted lib None ?l d)"
  have e: "receive_output_cb idle lib (Some (s @ [LF])) d = Some (?d\<lparr>leading_receive := True\<rparr>)"
    unfolding r by (cases called) (auto simp: deliver_def Let_def idle_def)
  have "wait_result (noted lib None ?l d) = wait_result d - 1"
    using assms by (simp add: noted_def note_record_def dc_def result_line_def)
  then show ?thesis unfolding e by (simp add: noted_fields log_fields)
qed

definition receive_lines :: "calls \<Rightarrow> bool \<Rightarrow> string list \<Rightarrow> debug \<Rightarrow> debug option" where
  "receive_lines run lib lines = foldM (\<lambda>s. receive_output_cb run lib (Some (s @ [LF]))) lines"

lemma receive_results:
  "list_all result_line rs \<Longrightarrow> leading_receive d \<Longrightarrow> unat (wait_result d) = length rs \<Longrightarrow>
   \<exists>d'. receive_lines idle lib rs d = Some d' \<and> wait_result d' = 0 \<and> commands d' = commands d \<and>
     leading_receive d' \<and> gdb_state d' = gdb_state d \<and> thread_count d' = thread_count d"
proof (induction rs arbitrary: d)
  case Nil
  then show ?case by (simp add: receive_lines_def unat_eq_zero)
next
  case (Cons s rs)
  have "wait_result d \<noteq> 0" using Cons.prems(3) by auto
  then obtain d1 where d1: "receive_output_cb idle lib (Some (s @ [LF])) d = Some d1" "wait_result d1 = wait_result d - 1"
    "commands d1 = commands d" "leading_receive d1" "gdb_state d1 = gdb_state d" "thread_count d1 = thread_count d"
    using receive_result[of s d lib] Cons.prems by auto
  have "unat (wait_result d1) = length rs" using d1(2) Cons.prems(3) \<open>wait_result d \<noteq> 0\<close> by (simp add: unat_minus_one)
  then obtain d' where "receive_lines idle lib rs d1 = Some d'" "wait_result d' = 0" "commands d' = commands d1"
     "leading_receive d'" "gdb_state d' = gdb_state d1" "thread_count d' = thread_count d1"
    using Cons.IH[of d1] Cons.prems(1) d1(4) by auto
  then show ?case using d1 by (simp add: receive_lines_def)
qed

lemma receive_prompt:
  assumes "leading_receive d"
  shows "receive_output_cb idle lib (Some (''(gdb) '' @ [LF])) d = Some (d\<lparr>dc_log := dc_log d @ [Dc_output 3 ''(gdb) ''], wait_prompt := wait_result d\<rparr>)"
proof -
  have "c_string (''(gdb) '' @ [NUL, NUL]) 0 = Some ''(gdb) ''" "rd (''(gdb) '' @ [NUL, NUL]) 0 = Some (CHR ''('')"
    by (simp_all add: c_string_def rd_def)
  then have "debug_parse idle lib (''(gdb) '' @ [NUL, NUL]) None d = Some (''(gdb) '' @ [NUL, NUL], (dc (Dc_output 3 ''(gdb) '') d)\<lparr>wait_prompt := wait_result d\<rparr>)"
    by (simp add: debug_parse_def)
  moreover have "chunk_end (''(gdb) '' @ [LF]) = Some (''(gdb) '' @ [NUL, NUL], None)" unfolding chunk_end_line by simp
  ultimately show ?thesis using assms by (simp add: receive_output_cb_def Let_def idle_def dc_def)
qed


subsection \<open>What the driver asks of the functions it calls\<close>

text \<open>The strings of the state are C strings, and the queue is made of whole commands.\<close>

definition driver_ok :: "debug \<Rightarrow> bool" where
  "driver_ok d \<longleftrightarrow> queue_ok d \<and> (\<forall>s. thread_id d = Some s \<or> frame_id d = Some s \<longrightarrow> NUL \<notin> set s)"

lemma driver_ok_updates [simp]:
  "driver_ok (dc e d) = driver_ok d" "driver_ok (d\<lparr>wait_prompt := w\<rparr>) = driver_ok d" "driver_ok (d\<lparr>wait_result := w\<rparr>) = driver_ok d"
  "driver_ok (d\<lparr>leading_receive := b\<rparr>) = driver_ok d" "driver_ok (d\<lparr>gdb_state := g\<rparr>) = driver_ok d"
  "driver_ok (d\<lparr>send_source_id := b\<rparr>) = driver_ok d" "driver_ok (d\<lparr>send_channel := b\<rparr>) = driver_ok d"
  "driver_ok (d\<lparr>debug_auto_run := b\<rparr>) = driver_ok d" "driver_ok (d\<lparr>debug_auto_exit := b\<rparr>) = driver_ok d"
  "driver_ok (d\<lparr>debug_load_error := b\<rparr>) = driver_ok d" "driver_ok (d\<lparr>dc_log := l\<rparr>) = driver_ok d" "driver_ok (d\<lparr>break_async := i\<rparr>) = driver_ok d"
  by (simp_all add: driver_ok_def queue_ok_def dc_def)

lemma driver_ok_noted [simp]: "driver_ok (note_record shown s c d) = driver_ok d"
  by (simp add: note_record_def Let_def)

lemma driver_ok_errors [simp]: "driver_ok (fold (\<lambda>e. dc (Dc_error e)) es d) = driver_ok d"
  by (induction es arbitrary: d) simp_all

lemma driver_ok_line: "driver_ok d \<Longrightarrow> NUL \<notin> set x \<Longrightarrow> driver_ok (d\<lparr>commands := commands d @ x @ [LF]\<rparr>)"
  by (auto simp: driver_ok_def queue_ok_def)

lemma driver_ok_empty: "driver_ok d \<Longrightarrow> driver_ok (d\<lparr>commands := []\<rparr>)"
  by (simp add: driver_ok_def queue_ok_def)

lemma debug_send_command_ok: "driver_ok d \<Longrightarrow> NUL \<notin> set command \<Longrightarrow> driver_ok (debug_send_command tf command d)"
proof -
  assume d: "driver_ok d" and c: "NUL \<notin> set command"
  have mem: "NUL \<notin> set (takeWhile P command)" "NUL \<notin> set (dropWhile P command)" for P
    using c by (auto dest: set_takeWhileD set_dropWhileD)
  show ?thesis
  proof (cases "gdb_state d = ACTIVE")
    case True
    have "NUL \<notin> set (thread_args tf d)" using d by (auto simp: driver_ok_def thread_args_def split: option.splits)
    then have "driver_ok (d\<lparr>commands := commands d @ (takeWhile (\<lambda>c. \<not> is_cspace c) command @ thread_args tf d @ dropWhile (\<lambda>c. \<not> is_cspace c) command) @ [LF]\<rparr>)"
      using driver_ok_line[OF d, of "takeWhile (\<lambda>c. \<not> is_cspace c) command @ thread_args tf d @ dropWhile (\<lambda>c. \<not> is_cspace c) command"] mem by simp
    then show ?thesis using True by (simp add: debug_send_command_def Let_def driver_ok_def queue_ok_def)
  qed (use d in \<open>simp add: debug_send_command_def\<close>)
qed

text \<open>The contract of the functions that the driver calls: they keep the queue as it should be.\<close>

locale debug_calls =
  fixes run :: calls
  assumes keeps: "driver_ok d \<Longrightarrow> driver_ok (run c m d)"
begin

lemma parse_stream_keeps: "parse_stream run m err d = Some (m', d') \<Longrightarrow> driver_ok d \<Longrightarrow> driver_ok d'"
  unfolding parse_stream_def ignoring_def
  by (auto simp: keeps simp del: has_prefix.simps split: Option.bind_splits if_splits option.splits sum.splits)

lemma parse_record_keeps: "parse_record run lib m err d = Some (m', d') \<Longrightarrow> driver_ok d \<Longrightarrow> driver_ok d'"
  unfolding parse_record_def ignoring_def Let_def
  by (auto simp: keeps simp del: has_prefix.simps split: Option.bind_splits option.splits)

lemma debug_parse_keeps: "debug_parse run lib m err d = Some (m', d') \<Longrightarrow> driver_ok d \<Longrightarrow> driver_ok d'"
  unfolding debug_parse_def
  using parse_stream_keeps parse_record_keeps by (auto split: Option.bind_splits if_splits)

lemma receive_keeps: "receive_output_cb run lib str d = Some d' \<Longrightarrow> driver_ok d \<Longrightarrow> driver_ok d'"
  unfolding receive_output_cb_def Let_def
  using debug_parse_keeps by (auto simp: keeps split: Option.bind_splits if_splits option.splits)

lemma send_keeps:
  assumes "driver_ok d" "written \<le> length (commands d)"
  shows "\<exists>d'. send_commands_cb run written d = Some d' \<and> driver_ok d'"
proof -
  have q: "queue_ok d" using assms(1) by (simp add: driver_ok_def)
  have "NUL \<notin> set (drop written (commands d))" using q in_set_dropD[of NUL written "commands d"] by (auto simp: queue_ok_def)
  then have "driver_ok (d\<lparr>commands := drop written (commands d)\<rparr>)"
    using assms(1) queue_ok_drop[OF q, of written] by (auto simp: driver_ok_def queue_ok_def)
  then have "driver_ok (d\<lparr>dc_log := l, wait_prompt := p, wait_result := w, commands := drop written (commands d)\<rparr>)" for l p w
    by (simp add: driver_ok_def queue_ok_def)
  then show ?thesis using send_commands_ok[OF q assms(2), of run] assms(1) keeps by simp
qed

lemma startup_keeps:
  assumes "\<forall>s. NUL \<notin> set (locale_of s)" "driver_ok d" "NUL \<notin> set command"
  shows "driver_ok (append_startup locale_of command v d)"
  using assms driver_ok_line[of d "command @ '' '' @ locale_of (the v)"] by (cases v) (auto simp: append_startup_def)

lemma append_if_keeps: "driver_ok d \<Longrightarrow> NUL \<notin> set command \<Longrightarrow> driver_ok (append_if b command d)"
  using driver_ok_line by (simp add: append_if_def)

lemma environment_keeps:
  assumes "\<forall>s. NUL \<notin> set (locale_of s)"
  shows "driver_ok d \<Longrightarrow> driver_ok (fold (\<lambda>envar. append_startup locale_of ''-gdb-set environment'' (Some envar)) es d)"
  by (induction es arbitrary: d) (simp_all add: startup_keeps[OF assms])

lemma breaks_query_async_keeps: "driver_ok d \<Longrightarrow> driver_ok (breaks_query_async d)"
  using driver_ok_line[of "d\<lparr>break_async := 0\<rparr>" "''05-list-features''"] by (simp add: breaks_query_async_def)

lemma load_program_keeps: "\<forall>s. NUL \<notin> set (locale_of s) \<Longrightarrow> driver_ok d \<Longrightarrow> driver_ok (load_program run locale_of p failure d)"
  unfolding load_program_def Let_def
  by (cases failure) (auto intro!: keeps startup_keeps append_if_keeps environment_keeps breaks_query_async_keeps driver_ok_empty)

lemma run_continue_keeps:
  "\<forall>s. NUL \<notin> set (locale_of s) \<Longrightarrow> driver_ok d \<Longrightarrow> driver_ok (on_debug_run_continue run locale_of p check failure d)"
  unfolding on_debug_run_continue_def
  by (auto intro!: keeps load_program_keeps debug_send_command_ok split: option.splits)

lemma gdb_exit_keeps: "driver_ok d \<Longrightarrow> driver_ok (gdb_exit_cb run status d)"
  unfolding gdb_exit_cb_def gdb_finalize_def send_source_destroy_cb_def Let_def by (auto intro!: keeps)

end

text \<open>The callbacks of \<open>debug.c\<close> as the functions called; the callbacks of the other files leave the driver alone.\<close>

definition debug_callback :: "program \<Rightarrow> bool \<Rightarrow> block \<Rightarrow> string \<Rightarrow> parse_node list \<Rightarrow> debug \<Rightarrow> debug option" where
  "debug_callback p breaks_active m cb nodes d =
     (if cb = ''on_debug_loaded'' then on_debug_loaded (\<lambda>c m d. d) p m nodes d
      else if cb = ''on_debug_load_error'' then Some (on_debug_load_error (\<lambda>c m d. d) m nodes d)
      else if cb = ''on_debug_error'' then Some (on_debug_error (\<lambda>c m d. d) m nodes d)
      else if cb = ''on_debug_exit'' then Some (on_debug_exit d)
      else if cb = ''on_debug_auto_run'' then Some (on_debug_auto_run breaks_active d)
      else Some d)"

fun debug_callbacks :: "program \<Rightarrow> bool \<Rightarrow> calls" where
  "debug_callbacks p breaks_active (Callback cb nodes) m d = (case debug_callback p breaks_active m cb nodes d of None \<Rightarrow> d | Some d' \<Rightarrow> d')"
| "debug_callbacks p breaks_active c m d = d"

definition program_ok :: "program \<Rightarrow> bool" where
  "program_ok p \<longleftrightarrow> NUL \<notin> set (program_temp_break_location p)"

lemma on_debug_loaded_keeps: "program_ok p \<Longrightarrow> driver_ok d \<Longrightarrow> on_debug_loaded (\<lambda>c m d. d) p m nodes d = Some d' \<Longrightarrow> driver_ok d'"
  unfolding on_debug_loaded_def Let_def program_ok_def
  by (auto intro!: debug_send_command_ok split: Option.bind_splits if_splits)

lemma on_debug_auto_run_keeps: "driver_ok d \<Longrightarrow> driver_ok (on_debug_auto_run b d)"
  by (simp add: on_debug_auto_run_def debug_send_command_ok)

lemma debug_callback_keeps:
  assumes "program_ok p" "driver_ok d" "debug_callback p b m cb nodes d = Some d'"
  shows "driver_ok d'"
  using assms on_debug_loaded_keeps on_debug_auto_run_keeps
  by (auto simp: debug_callback_def on_debug_load_error_def on_debug_error_def on_debug_exit_def split: if_splits)

lemma debug_callbacks_ok: "program_ok p \<Longrightarrow> debug_calls (debug_callbacks p b)"
proof
  fix d c m assume "program_ok p" "driver_ok d"
  then show "driver_ok (debug_callbacks p b c m d)" using debug_callback_keeps by (cases c) (auto split: option.splits)
qed

text \<open>A program without a temporary breakpoint.\<close>

definition plain_program :: program where
  "plain_program = \<lparr>program_executable = ''a.out'', program_arguments = [], program_environment = [], program_working_dir = ''/'',
     program_load_script = [], program_auto_run_exit = False, program_non_stop_mode = False, program_temp_breakpoint = False,
     program_temp_break_location = [], slave_pty_name = None, option_open_panel_on_load = False\<rparr>"

interpretation own_calls: debug_calls "debug_callbacks plain_program breaks_active"
  by (rule debug_callbacks_ok) (simp add: program_ok_def plain_program_def)

subsection \<open>Steps\<close>

text \<open>
  What happens to the driver, in any order: commands from other parts of the plugin, whose threads and frames change; the queue is written, in
  pieces of any size; output arrives, in chunks of any content; the debugger is started and ends; the menu.
\<close>

inductive debug_step :: "debug \<Rightarrow> debug \<Rightarrow> bool" where
  send: "NUL \<notin> set command \<Longrightarrow> debug_step d (debug_send_command tf command d)"
| select: "(\<forall>s. tid = Some s \<or> fid = Some s \<longrightarrow> NUL \<notin> set s) \<Longrightarrow>
    debug_step d (d\<lparr>thread_id := tid, frame_id := fid, thread_state := ts, thread_count := tc, thread_prompt := tp\<rparr>)"
| channel: "debug_step d (obtain_send_channel_cb failure d)"
| destroy: "debug_step d (send_source_destroy_cb d)"
| written: "debug_calls run \<Longrightarrow> written \<le> length (commands d) \<Longrightarrow> send_commands_cb run written d = Some d' \<Longrightarrow> debug_step d d'"
| receive: "debug_calls run \<Longrightarrow> receive_output_cb run lib str d = Some d' \<Longrightarrow> debug_step d d'"
| continue: "debug_calls run \<Longrightarrow> \<forall>s. NUL \<notin> set (locale_of s) \<Longrightarrow> debug_step d (on_debug_run_continue run locale_of p check failure d)"
| exits: "debug_calls run \<Longrightarrow> debug_step d (gdb_exit_cb run status d)"
| auto_exit: "debug_step d (on_debug_auto_exit d)"
| step_into: "debug_step d (on_debug_step_into d)"
| step_over: "debug_step d (on_debug_step_over d)"
| step_out: "debug_step d (on_debug_step_out d)"
| goto_source: "debug_step d (on_debug_goto_source d)"
| goto_cursor: "NUL \<notin> set path \<Longrightarrow> NUL \<notin> set line \<Longrightarrow> debug_step d (on_debug_goto_cursor pref path line d)"
| errors: "debug_step d (receive_errors_cb str d)"
| finalize: "debug_step d (debug_finalize d)"
| terminate: "debug_step d (on_debug_terminate menu_item failure d)"

lemmas menu_defs = on_debug_auto_exit_def on_debug_step_into_def on_debug_step_over_def on_debug_step_out_def on_debug_goto_source_def
  on_debug_terminate_def on_debug_goto_cursor_def receive_errors_cb_def debug_finalize_def gdb_finalize_def send_source_destroy_cb_def

lemma debug_step_ok: "debug_step d d' \<Longrightarrow> driver_ok d \<Longrightarrow> driver_ok d'"
proof (induction rule: debug_step.induct)
  case (send command d tf)
  then show ?case using debug_send_command_ok by blast
next
  case (select tid fid d ts tc tp)
  then show ?case by (simp add: driver_ok_def queue_ok_def)
next
  case (channel d failure)
  then show ?case by (simp add: obtain_send_channel_cb_def)
next
  case (destroy d)
  then show ?case by (simp add: send_source_destroy_cb_def)
next
  case (written run written d d')
  then show ?case using debug_calls.send_keeps[OF written(1) written(4) written(2)] by auto
next
  case (receive run lib str d d')
  then show ?case using debug_calls.receive_keeps by blast
next
  case (continue run locale_of d p check failure)
  then show ?case using debug_calls.run_continue_keeps by blast
next
  case (exits run d status)
  then show ?case using debug_calls.gdb_exit_keeps by blast
qed (auto simp: menu_defs Let_def intro!: debug_send_command_ok split: option.splits)

text \<open>The state before the debugger is first started.\<close>

definition debug_init :: "bool \<Rightarrow> debug" where
  "debug_init async = \<lparr>gdb_state = INACTIVE, wait_prompt = 0, wait_result = 0, commands = [], send_channel = False, send_source_id = False,
     leading_receive = False, debug_auto_run = False, debug_auto_exit = False, debug_load_error = False, thread_count = 0,
     thread_prompt = 0, thread_state = THREAD_BLANK, thread_id = None, frame_id = None, pref_gdb_async_mode = async, break_async = -1, dc_log = []\<rparr>"

text \<open>C4: In every state the driver can reach, by commands, writes of any size, output in chunks of any content, callbacks that keep their
  contract, starts and ends of the debugger and the menu, the queue consists of whole commands; writing any part of it does not run off the
  queue, and the sum of results awaited and commands queued stays the same.\<close>

theorem debug_reachable_ok:
  assumes "debug_step\<^sup>*\<^sup>* (debug_init async) d"
  shows "driver_ok d \<and> (\<forall>written \<le> length (commands d). \<exists>d'. send_commands_cb idle written d = Some d' \<and>
    commands d' = drop written (commands d) \<and> outstanding d' = outstanding d)"
proof -
  have ok: "driver_ok d"
    using assms
  proof (induction rule: rtranclp_induct)
    case base
    then show ?case by (simp add: debug_init_def driver_ok_def queue_ok_def)
  qed (rule debug_step_ok)
  then have q: "queue_ok d" by (simp add: driver_ok_def)
  have "\<exists>d'. send_commands_cb idle written d = Some d' \<and> commands d' = drop written (commands d) \<and> outstanding d' = outstanding d"
    if w: "written \<le> length (commands d)" for written
  proof -
    obtain d' where d': "send_commands_cb idle written d = Some d'" "commands d' = drop written (commands d)"
      using send_commands_ok[OF q w, of idle] by (auto simp: idle_def)
    have "idle = (\<lambda>c m d. d)" by (intro ext) (simp add: idle_def)
    then show ?thesis using d' send_commands_outstanding[OF q w, of d'] by auto
  qed
  then show ?thesis using ok by blast
qed

subsection \<open>The callbacks of the driver\<close>

lemma loaded_marked: "list_all (\<lambda>r. callback r = Some ''on_debug_loaded'' \<longrightarrow> mark r \<noteq> NUL) parse_routes"
  by code_simp

text \<open>C22: The callbacks of the driver itself, called with what \<open>parse_message\<close> makes of any message, never follow a NULL token.\<close>

theorem debug_callback_total:
  assumes "unread m i s z" "token_at m i token tk" "parse_message m i token = Some (m', Some (cb, nodes), errs)"
  shows "debug_callback p b m' cb nodes d \<noteq> None"
proof (cases "cb = ''on_debug_loaded''")
  case True
  obtain r where r: "p_route s tk = Some r" "callback r = Some cb" "mark r \<noteq> NUL \<longrightarrow> tk \<noteq> None"
    "case tk of
       None \<Rightarrow> parse_grab_token m' nodes = Some (None, nodes) \<and> resolve_all m' nodes = Some (fst (p_nodes s r))
     | Some t \<Rightarrow> \<exists>v ns. parse_grab_token m' nodes = Some (Some v, ns) \<and> pointed m' v = Some (tl t) \<and>
         resolve_all m' ns = Some (fst (p_nodes s r))" using parse_message_token[OF assms] by blast
  have "r \<in> set parse_routes" using r(1) find_Some_mem by (fastforce simp: p_route_def)
  then have "mark r \<noteq> NUL" using loaded_marked r(2) True by (auto simp: list_all_iff)
  then obtain v ns t where "parse_grab_token m' nodes = Some (Some v, ns)" "pointed m' v = Some t" using r(3,4) by auto
  then show ?thesis using True by (auto simp: debug_callback_def on_debug_loaded_def Let_def)
qed (auto simp: debug_callback_def)

theorem receive_output_total_witness: "receive_output_cb idle False (Some [NUL]) (debug_init False) \<noteq> None"
  by (rule receive_output_total) simp

definition demo_session :: debug where
  "demo_session = (debug_init False)\<lparr>gdb_state := ACTIVE, commands := ''010-gdb-version'' @ [LF] @ ''07-list-target-features'' @ [LF],
     leading_receive := True\<rparr>"


theorem receive_answer_witness:
  "\<exists>m nodes. receive_output_cb idle False (Some (answer ''71'' ''done'' [TValue ''value'' ''5''] @ [LF])) (demo_session\<lparr>wait_result := 2\<rparr>) =
      Some (deliver idle m (Some (''on_inspect_assign'', nodes))
        ((dc (Dc_output_nl 1 (answer ''71'' ''done'' [TValue ''value'' ''5''])) (demo_session\<lparr>wait_result := 2\<rparr>))\<lparr>wait_result := 1\<rparr>)) \<and>
    resolve_all m nodes = Some [GValue ''value'' ''5'', GValue ''=token'' ''1'']"
proof -
  let ?ts = "[TValue ''value'' ''5'']"
  have v: "list_all valid_tree ?ts" by (simp add: valid_name_def node_char_def char_class_defs)
  have d: "list_all is_digit ''71''" by code_simp
  have r: "p_route (CHR ''^'' # ''done'' @ CHR '','' # print_trees ?ts) (Some ''71'') = Some (Route ''^done,value=\"'' (Some ''on_inspect_assign'') (CHR ''7'') NUL 1)"
    by code_simp
  show ?thesis
    using receive_answer[OF v _ d _ _ _ _ r, of "demo_session\<lparr>wait_result := 2\<rparr>" "''on_inspect_assign''" idle False]
    by (simp add: demo_session_def kept_node_def comma_of_def)
qed

lemma idle_calls: "debug_calls idle"
  by unfold_locales (simp add: idle_def)

theorem debug_reachable_ok_witness:
  "\<exists>d'. send_commands_cb idle 5 (on_debug_run_continue idle c_content plain_program (\<lambda>_. None) None (debug_init False)) = Some d' \<and>
    commands d' = drop 5 (commands (on_debug_run_continue idle c_content plain_program (\<lambda>_. None) None (debug_init False)))"
proof -
  let ?d = "on_debug_run_continue idle c_content plain_program (\<lambda>_. None) None (debug_init False)"
  have "\<forall>s. NUL \<notin> set (c_content s)" by (auto simp: c_content_def dest: set_takeWhileD)
  then have "debug_step (debug_init False) ?d" using idle_calls by (intro debug_step.continue)
  then have "debug_step\<^sup>*\<^sup>* (debug_init False) ?d" by blast
  from debug_reachable_ok[OF this] show ?thesis
  proof -
    have "5 \<le> length (commands ?d)" by code_simp
    then show ?thesis using debug_reachable_ok[OF \<open>debug_step\<^sup>*\<^sup>* (debug_init False) ?d\<close>] by blast
  qed
qed

theorem debug_callback_total_witness:
  "debug_callback plain_program True (''10'' @ NUL # ''^done'' @ [NUL]) ''on_debug_loaded'' [PT_VALUE (Constant ''=token'') (At 1)] demo_session \<noteq> None"
proof -
  have u: "unread (''10'' @ NUL # ''^done'' @ [NUL]) 3 ''^done'' []" by (simp add: unread_def)
  have t: "token_at (''10'' @ NUL # ''^done'' @ [NUL]) 3 (Some 0) (Some ''10'')" by (simp add: token_at_def str_at_def)
  have p: "parse_message (''10'' @ NUL # ''^done'' @ [NUL]) 3 (Some 0) =
      Some (''10'' @ NUL # ''^done'' @ [NUL], Some (''on_debug_loaded'', [PT_VALUE (Constant ''=token'') (At 1)]), [])" by code_simp
  show ?thesis by (rule debug_callback_total[OF u t p])
qed

end
