(* ===== verification/ScpValue.thy ===== *)
theory ScpValue
  imports ScpParseRef
begin

text \<open>
  \<open>parse_value\<close> of \<open>scope/src/parse.c\<close>: the text of a value as it is displayed or offered for change.
\<close>

subsection \<open>Buffers\<close>

text \<open>
  A \<open>GString\<close>: its content and the bytes allocated. \<open>alloc n\<close> is the size GLib allocates for \<open>n\<close> bytes. A pointer into
  the string is lost when an append reallocates it.
\<close>

datatype vptr = Into nat | Arg nat | Stale

record gbuf =
  str :: string
  allocated :: nat
  start :: vptr

type_synonym alloc = "nat \<Rightarrow> nat"

definition append_str :: "alloc \<Rightarrow> string \<Rightarrow> gbuf \<Rightarrow> gbuf" where
  "append_str alloc x b =
     (let n = length (str b) + length x + 1 in
      if n \<le> allocated b then b\<lparr>str := str b @ x\<rparr>
      else b\<lparr>str := str b @ x, allocated := alloc n, start := (case start b of Into _ \<Rightarrow> Stale | p \<Rightarrow> p)\<rparr>)"

text \<open>\<open>g_string_truncate (t, start - t->str)\<close>: a fault for a pointer that is not into \<open>t->str\<close>.\<close>

definition truncate_start :: "gbuf \<Rightarrow> gbuf option" where
  "truncate_start b = (case start b of Into n \<Rightarrow> Some (b\<lparr>str := take n (str b)\<rparr>) | _ \<Rightarrow> None)"

text \<open>\<open>strtol (start, &end, 0), end > start\<close>: spaces, a sign and a digit.\<close>

definition strtol_moves :: "string \<Rightarrow> bool" where
  "strtol_moves s =
     (let s = dropWhile is_cspace s; s = (if s \<noteq> [] \<and> hd s \<in> {CHR ''+'', CHR ''-''} then tl s else s) in s \<noteq> [] \<and> is_digit (hd s))"

definition start_string :: "block \<Rightarrow> gbuf \<Rightarrow> string option" where
  "start_string m b = (case start b of
      Into n \<Rightarrow> if n \<le> length (str b) then Some (drop n (str b)) else None
    | Arg i \<Rightarrow> c_string m i
    | Stale \<Rightarrow> None)"

subsection \<open>\<open>parse_value\<close>\<close>

datatype mr_mode = MR_COMPACT | MR_NEUTRAL | MR_DEFAULT | MR_MODIFY | MR_MODSTR | MR_EDITVC

definition modifies :: "mr_mode \<Rightarrow> bool" where
  "modifies mr \<longleftrightarrow> mr \<in> {MR_MODIFY, MR_MODSTR, MR_EDITVC}"

text \<open>The end of the literal whose quote \<open>q\<close> is at \<open>s\<close>.\<close>

function quote_end :: "block \<Rightarrow> char \<Rightarrow> nat \<Rightarrow> nat option" where
  "quote_end m q s = do {
     let s = s + 1;
     c \<leftarrow> rd m s;
     if c = NUL \<or> c = q then Some s
     else do {
       d \<leftarrow> (if c = BSL then rd m (s + 1) else Some NUL);
       quote_end m q (if d \<noteq> NUL then s + 1 else s) } }"
  by pat_completeness auto
termination
  by (relation "measure (\<lambda>(m, q, s). length m - s)") (auto simp: Let_def dest!: rd_Some_less split: if_splits)

declare quote_end.simps [simp del]

lemma quote_end_less: "quote_end m q s = Some e \<Longrightarrow> s < e \<and> e < length m"
proof (induction m q s rule: quote_end.induct)
  case (1 m q s)
  obtain c where c: "rd m (s + 1) = Some c" using 1(2) by (auto simp: quote_end.simps[of m q s] Let_def split: Option.bind_splits)
  show ?case
  proof (cases "c = NUL \<or> c = q")
    case True
    then show ?thesis using 1(2) c by (auto simp: quote_end.simps[of m q s] Let_def dest: rd_Some_less)
  next
    case False
    then obtain d where d: "(if c = BSL then rd m (Suc s + 1) else Some NUL) = Some d"
      "quote_end m q (if d \<noteq> NUL then Suc s + 1 else Suc s) = Some e"
      using 1(2) c by (simp add: quote_end.simps[of m q s] Let_def) (auto split: Option.bind_splits)
    then show ?thesis using 1(1)[OF refl c False, of d] by (auto split: if_splits)
  qed
qed

text \<open>An escaped character of a string literal: the backslash is copied already, and up to three more are.\<close>

definition copy_escape :: "alloc \<Rightarrow> block \<Rightarrow> nat \<Rightarrow> gbuf \<Rightarrow> (nat \<times> gbuf) option" where
  "copy_escape alloc m q b = do {
     c1 \<leftarrow> rd m (q + 1);
     let b = append_str alloc [c1] b;
     if \<not> is_digit c1 then Some (q + 1, b)
     else do {
       c2 \<leftarrow> rd m (q + 2);
       let b = append_str alloc [c2] b;
       if \<not> is_digit c2 then Some (q + 2, b)
       else do { c3 \<leftarrow> rd m (q + 3); Some (q + 3, append_str alloc [c3] b) } } }"

text \<open>A string literal as an array of characters; \<open>s\<close> is the index of its second quote.\<close>

function spell_string :: "alloc \<Rightarrow> block \<Rightarrow> nat \<Rightarrow> nat \<Rightarrow> nat \<Rightarrow> gbuf \<Rightarrow> gbuf option" where
  "spell_string alloc m begin q s b = (let q = q + 1 in
     if q = s then Some b
     else do {
       let b = (if begin < q then append_str alloc '', '' b else b);
       c \<leftarrow> rd m q;
       let b = append_str alloc [c] (append_str alloc [SQ] b);
       (q, b) \<leftarrow> (if c = BSL then copy_escape alloc m q b else Some (q, b));
       spell_string alloc m begin q s (append_str alloc [SQ] b) })"
  by pat_completeness auto
termination
  by (relation "measure (\<lambda>(alloc, m, begin, q, s, b). length m - q)")
    (auto simp: Let_def copy_escape_def dest!: rd_Some_less split: if_splits Option.bind_splits)

declare spell_string.simps [simp del]

definition drop_space :: "gbuf \<Rightarrow> gbuf" where
  "drop_space b = (if str b \<noteq> [] \<and> is_cspace (last (str b)) then b\<lparr>str := butlast (str b)\<rparr> else b)"

text \<open>What a turn of the loop does: go on at an index, or return, with a string or \<open>NULL\<close> and the errors logged.\<close>

datatype turn = Next nat gbuf | Return "string option" "string list"

text \<open>A literal that starts at \<open>s\<close>.\<close>

definition value_quote :: "alloc \<Rightarrow> mr_mode \<Rightarrow> block \<Rightarrow> nat \<Rightarrow> char \<Rightarrow> gbuf \<Rightarrow> turn option" where
  "value_quote alloc mr m q c b = do {
     s \<leftarrow> quote_end m c q;
     e \<leftarrow> rd m s;
     number \<leftarrow> (if e \<noteq> NUL \<and> modifies mr then map_option strtol_moves (start_string m b) else Some False);
     if number \<and> mr \<noteq> MR_MODSTR then Some (Next s (drop_space b))
     else if \<not> number \<and> e \<noteq> NUL \<and> modifies mr \<and> c = DQ then do {
       b \<leftarrow> spell_string alloc m (q + 1) q s ((append_str alloc ''{ '' b)\<lparr>start := Arg (q + 1)\<rparr>);
       Some (Next s (append_str alloc '' }'' b)) }
     else do {
       b \<leftarrow> (if number then truncate_start b else Some b);
       let b = append_str alloc (slice m q s) b;
       if e = NUL then Some (Return (if mr = MR_EDITVC then None else Some (str b)) [[c] @ '' expected''])
       else Some (Next s (append_str alloc [e] b)) } }"

definition value_turn :: "alloc \<Rightarrow> mr_mode \<Rightarrow> block \<Rightarrow> nat \<Rightarrow> gbuf \<Rightarrow> turn option" where
  "value_turn alloc mr m s b = do {
     c \<leftarrow> rd m s;
     if c = DQ \<or> c = SQ then value_quote alloc mr m s c b
     else if c = CHR ''{'' \<or> c = CHR '','' then do {
       d \<leftarrow> rd m (s + 1);
       Some (Next s (append_str alloc [c] (b\<lparr>start := Into (length (str b) + 1 + of_bool (is_cspace d))\<rparr>))) }
     else if c = CHR ''='' then do {
       d \<leftarrow> rd m (s + 1);
       let s = (if is_cspace d then s + 1 else s);
       b \<leftarrow> (if mr \<noteq> MR_NEUTRAL then truncate_start b
            else if str b \<noteq> [] \<and> is_cspace (last (str b)) then Some (b\<lparr>str := butlast (str b) @ ''=''\<rparr>)
            else Some (append_str alloc ''='' b));
       Some (Next s b) }
     else do {
       stop \<leftarrow> (if c = CHR ''.'' then do { a \<leftarrow> rd m (s + 1); if a \<noteq> CHR ''.'' then Some False else do { b \<leftarrow> rd m (s + 2); Some (b = CHR ''.'') } } else Some (c = CHR ''<''));
       if stop \<and> mr = MR_EDITVC then Some (Return None []) else Some (Next s (append_str alloc [c] b)) } }"

lemma value_turn_next: "value_turn alloc mr m s b = Some (Next s' b') \<Longrightarrow> s \<le> s' \<and> s < length m"
  by (auto simp: value_turn_def value_quote_def Let_def dest: quote_end_less rd_Some_less split: if_splits Option.bind_splits)

function value_loop :: "alloc \<Rightarrow> mr_mode \<Rightarrow> block \<Rightarrow> nat \<Rightarrow> gbuf \<Rightarrow> (string option \<times> string list) option" where
  "value_loop alloc mr m s b = do {
     c \<leftarrow> rd m s;
     if c = NUL then Some (Some (str b), [])
     else do {
       t \<leftarrow> value_turn alloc mr m s b;
       (case t of
          Next s b \<Rightarrow> value_loop alloc mr m (s + 1) b
        | Return r errs \<Rightarrow> Some (r, errs)) } }"
  by pat_completeness auto
termination
  by (relation "measure (\<lambda>(alloc, mr, m, s, b). length m - s)") (auto dest!: value_turn_next)

declare value_loop.simps [simp del]

definition scope_parse_value :: "alloc \<Rightarrow> block \<Rightarrow> mr_mode \<Rightarrow> (string option \<times> string list) option" where
  "scope_parse_value alloc m mr = do {
     s \<leftarrow> c_string m 0;
     value_loop alloc mr m 0 \<lparr>str = [], allocated = alloc (length s + 1), start = Into 0\<rparr> }"

subsection \<open>The display modes stay inside the buffer\<close>

text \<open>The buffer at index \<open>s\<close> of the text: no longer than what has been read, not reallocated, and its start is a place in it.\<close>

definition buf_ok :: "block \<Rightarrow> nat \<Rightarrow> gbuf \<Rightarrow> bool" where
  "buf_ok m s b \<longleftrightarrow> length (str b) \<le> s \<and> length m \<le> allocated b \<and> (\<exists>n. start b = Into n)"

lemma append_ok: "buf_ok m s b \<Longrightarrow> s + length x < length m \<Longrightarrow> append_str alloc x b = b\<lparr>str := str b @ x\<rparr>"
  by (auto simp: append_str_def buf_ok_def Let_def)

lemma buf_ok_append: "buf_ok m s b \<Longrightarrow> s + length x \<le> t \<Longrightarrow> buf_ok m t (b\<lparr>str := str b @ x\<rparr>)"
  by (auto simp: buf_ok_def)

lemma buf_ok_le: "buf_ok m s b \<Longrightarrow> length x \<le> length (str b) \<Longrightarrow> s \<le> t \<Longrightarrow> buf_ok m t (b\<lparr>str := x\<rparr>)"
  by (auto simp: buf_ok_def)

lemma truncate_ok: "buf_ok m s b \<Longrightarrow> \<exists>b'. truncate_start b = Some b' \<and> buf_ok m s b'"
  by (auto simp: buf_ok_def truncate_start_def)

lemma unread_next: "unread m s (c # t) z \<Longrightarrow> \<exists>d. rd m (Suc s) = Some d \<and> (d \<noteq> NUL \<longrightarrow> t \<noteq> [] \<and> d = hd t)"
  using unread_Cons[of m s c t z] unread_rd[of m "Suc s" t z] by auto

text \<open>The end of a literal is in the text, or the \<open>NUL\<close> behind it.\<close>

lemma quote_end_ok: "unread m (Suc s) t z \<Longrightarrow> \<exists>k. quote_end m q s = Some (Suc s + k) \<and> k \<le> length t"
proof (induction "length t" arbitrary: s t rule: less_induct)
  case less
  show ?case
  proof (cases t)
    case Nil
    then have "rd m (Suc s) = Some NUL" using unread_rd[OF less.prems] by simp
    then show ?thesis by (intro exI[of _ 0]) (simp add: quote_end.simps[of m q s])
  next
    case (Cons c t')
    have u: "unread m (Suc (Suc s)) t' z" "rd m (Suc s) = Some c" "c \<noteq> NUL" using less.prems Cons unread_Cons by blast+
    obtain d where d: "rd m (Suc (Suc s)) = Some d" "d \<noteq> NUL \<longrightarrow> t' \<noteq> []" using unread_rd[OF u(1)] by auto
    have one: "\<exists>k. quote_end m q (Suc s) = Some (Suc (Suc s) + k) \<and> k \<le> length t'" using less.hyps[OF _ u(1)] Cons by simp
    have two: "\<exists>k. quote_end m q (Suc (Suc s)) = Some (Suc (Suc (Suc s)) + k) \<and> k < length t'" if ne: "t' \<noteq> []"
    proof -
      obtain e t'' where t': "t' = e # t''" using ne by (cases t') auto
      then have "unread m (Suc (Suc (Suc s))) t'' z" using u(1) unread_Cons by blast
      then show ?thesis using less.hyps[of t'' "Suc (Suc s)"] Cons t' by auto
    qed
    show ?thesis
    proof (cases "c = q")
      case True
      then show ?thesis using u by (intro exI[of _ 0]) (simp add: quote_end.simps[of m q s])
    next
      case False
      have "quote_end m q s = quote_end m q (if c = BSL \<and> d \<noteq> NUL then Suc (Suc s) else Suc s)"
        using u d False by (subst quote_end.simps) simp
      then show ?thesis using one two d(2) Cons by (cases "c = BSL \<and> d \<noteq> NUL") force+
    qed
  qed
qed

lemma quote_turn:
  assumes "unread m s (c # t) z" "buf_ok m s b" "\<not> modifies mr"
  shows "\<exists>k. k \<le> length t \<and> (\<exists>b'. value_quote alloc mr m s c b = Some (Next (Suc s + k) b') \<and> buf_ok m (Suc (Suc s + k)) b' \<and> k < length t \<or>
    value_quote alloc mr m s c b = Some (Return (Some (str b @ slice m s (Suc s + k))) [[c] @ '' expected'']))"
proof -
  have u: "unread m (Suc s) t z" using unread_Cons[OF assms(1)] by simp
  obtain k where k: "quote_end m c s = Some (Suc s + k)" "k \<le> length t" using quote_end_ok[OF u] by blast
  have e: "rd m (Suc s + k) = Some (if drop k t = [] then NUL else hd (drop k t))"
    using unread_rd[OF unread_drop[OF u k(2)]] .
  have l: "length (slice m s (Suc s + k)) = Suc k" "Suc s + k < length m"
    using unread_less[OF u] k(2) by (simp_all add: slice_def)
  have mr: "mr \<noteq> MR_EDITVC" using assms(3) by (auto simp: modifies_def)
  let ?e = "if drop k t = [] then NUL else hd (drop k t)"
  have a: "append_str alloc (slice m s (Suc s + k)) b = b\<lparr>str := str b @ slice m s (Suc s + k)\<rparr>" using append_ok[OF assms(2)] l by simp
  have b1: "buf_ok m (Suc s + k) (b\<lparr>str := str b @ slice m s (Suc s + k)\<rparr>)" using buf_ok_append[OF assms(2)] l by simp
  show ?thesis
  proof (cases "?e = NUL")
    case True
    then show ?thesis using k e a mr assms(3) by (intro exI[of _ k]) (simp add: value_quote_def Let_def)
  next
    case False
    then have kt: "k < length t" by (cases "k < length t") auto
    then have "Suc (Suc s + k) < length m" using unread_less[OF u] by simp
    then have "append_str alloc [?e] (b\<lparr>str := str b @ slice m s (Suc s + k)\<rparr>) = b\<lparr>str := (str b @ slice m s (Suc s + k)) @ [?e]\<rparr>"
      using append_ok[OF b1, of "[?e]" alloc] by simp
    moreover have "buf_ok m (Suc (Suc s + k)) (b\<lparr>str := (str b @ slice m s (Suc s + k)) @ [?e]\<rparr>)"
      using buf_ok_append[OF b1, of "[?e]"] by simp
    ultimately show ?thesis using False k e a assms(3) kt
      by (intro exI[of _ k] conjI exI[of _ "b\<lparr>str := (str b @ slice m s (Suc s + k)) @ [?e]\<rparr>"] disjI1)
        (simp_all add: value_quote_def Let_def)
  qed
qed

text \<open>Turns on the other characters.\<close>

lemma turn_open:
  assumes "unread m s (c # t) z" "c = CHR ''{'' \<or> c = CHR '',''" "buf_ok m s b"
  shows "value_turn alloc mr m s b = Some (Next s (b\<lparr>start := Into (length (str b) + 1 + of_bool (t \<noteq> [] \<and> is_cspace (hd t))), str := str b @ [c]\<rparr>))"
proof -
  obtain d where d: "rd m (Suc s) = Some d" "d = (if t = [] then NUL else hd t)"
    using unread_rd[of m "Suc s" t z] unread_Cons[OF assms(1)] by blast
  have "is_cspace d = (t \<noteq> [] \<and> is_cspace (hd t))" using d(2) by (simp add: is_cspace_def cc_def)
  moreover have "append_str alloc [c] (b\<lparr>start := Into n\<rparr>) = b\<lparr>start := Into n, str := str b @ [c]\<rparr>" for n
    using append_ok[of m s "b\<lparr>start := Into n\<rparr>" "[c]" alloc] assms(3) unread_less[OF assms(1)] by (simp add: buf_ok_def)
  ultimately show ?thesis using assms(2) unread_Cons[OF assms(1)] d by (auto simp: value_turn_def)
qed

lemma turn_equal:
  assumes "unread m s (CHR ''='' # t) z" "buf_ok m s b"
  shows "\<exists>b'. value_turn alloc mr m s b = Some (Next (s + of_bool (t \<noteq> [] \<and> is_cspace (hd t))) b') \<and> buf_ok m (Suc s) b' \<and>
    (if mr = MR_NEUTRAL then b' = b\<lparr>str := (if str b \<noteq> [] \<and> is_cspace (last (str b)) then butlast (str b) else str b) @ ''=''\<rparr>
     else truncate_start b = Some b')"
proof -
  obtain d where d: "rd m (Suc s) = Some d" "d = (if t = [] then NUL else hd t)"
    using unread_rd[of m "Suc s" t z] unread_Cons[OF assms(1)] by blast
  have sp: "is_cspace d = (t \<noteq> [] \<and> is_cspace (hd t))" using d(2) by (simp add: is_cspace_def cc_def)
  obtain bt where bt: "truncate_start b = Some bt" "buf_ok m s bt" using truncate_ok[OF assms(2)] by blast
  have a: "append_str alloc ''='' b = b\<lparr>str := str b @ ''=''\<rparr>" using append_ok[OF assms(2)] unread_less[OF assms(1)] by simp
  have ok: "buf_ok m (Suc s) (b\<lparr>str := str b @ ''=''\<rparr>)" "buf_ok m (Suc s) (b\<lparr>str := butlast (str b) @ ''=''\<rparr>)" "buf_ok m (Suc s) bt"
    using assms(2) bt(2) by (auto simp: buf_ok_def)
  show ?thesis using unread_Cons[OF assms(1)] d(1) sp bt a ok
    by (cases "mr = MR_NEUTRAL"; cases "str b \<noteq> [] \<and> is_cspace (last (str b))") (auto simp: value_turn_def Let_def)
qed

definition special :: "char \<Rightarrow> bool" where
  "special c \<longleftrightarrow> c \<in> {DQ, SQ, CHR ''{'', CHR '','', CHR ''='', NUL}"

lemma turn_plain:
  assumes "unread m s (c # t) z" "\<not> special c" "buf_ok m s b" "\<not> modifies mr"
  shows "value_turn alloc mr m s b = Some (Next s (b\<lparr>str := str b @ [c]\<rparr>))"
proof -
  have mr: "mr \<noteq> MR_EDITVC" using assms(4) by (auto simp: modifies_def)
  have u: "unread m (Suc s) t z" using unread_Cons[OF assms(1)] by simp
  have "\<exists>r. do { a \<leftarrow> rd m (s + 1); if a \<noteq> CHR ''.'' then Some False else do { b \<leftarrow> rd m (s + 2); Some (b = CHR ''.'') } } = Some r"
  proof (cases t)
    case Nil
    then show ?thesis using unread_rd[OF u] by (intro exI[of _ False]) simp
  next
    case (Cons a t')
    then have "unread m (Suc (Suc s)) t' z" "rd m (Suc s) = Some a" using u unread_Cons by blast+
    then show ?thesis using unread_rd by fastforce
  qed
  then obtain r where r: "do { a \<leftarrow> rd m (s + 1); if a \<noteq> CHR ''.'' then Some False else do { b \<leftarrow> rd m (s + 2); Some (b = CHR ''.'') } } = Some r"
    by blast
  have a: "append_str alloc [c] b = b\<lparr>str := str b @ [c]\<rparr>" using append_ok[OF assms(3)] unread_less[OF assms(1)] by simp
  have c: "rd m s = Some c" "\<not> (c = DQ \<or> c = SQ)" "\<not> (c = CHR ''{'' \<or> c = CHR '','')" "c \<noteq> CHR ''=''"
    using unread_Cons[OF assms(1)] assms(2) by (auto simp: special_def)
  show ?thesis unfolding value_turn_def c(1) bind.bind_lunit if_not_P[OF c(2)] if_not_P[OF c(3)] if_not_P[OF c(4)] r a
    using mr by (cases "c = CHR ''.''") (simp_all only: if_True if_False bind.bind_lunit r a simp_thms)
qed

lemma value_turn_ok:
  assumes "unread m s (c # t) z" "buf_ok m s b" "\<not> modifies mr"
  shows "(\<exists>k b'. value_turn alloc mr m s b = Some (Next (s + k) b') \<and> k \<le> length t \<and> buf_ok m (Suc (s + k)) b') \<or>
    (\<exists>r errs. value_turn alloc mr m s b = Some (Return (Some r) errs) \<and> length r \<le> s + Suc (length t))"
proof -
  consider (quote) "c = DQ \<or> c = SQ" | (opens) "c = CHR ''{'' \<or> c = CHR '',''" | (equal) "c = CHR ''=''" | (plain_text) "\<not> special c"
    using unread_Cons[OF assms(1)] by (auto simp: special_def)
  then show ?thesis
  proof cases
    case quote
    then have v: "value_turn alloc mr m s b = value_quote alloc mr m s c b"
      using unread_Cons[OF assms(1)] by (auto simp: value_turn_def)
    obtain k where k: "k \<le> length t" "(\<exists>b'. value_quote alloc mr m s c b = Some (Next (Suc s + k) b') \<and> buf_ok m (Suc (Suc s + k)) b' \<and> k < length t) \<or>
      value_quote alloc mr m s c b = Some (Return (Some (str b @ slice m s (Suc s + k))) [[c] @ '' expected''])"
      using quote_turn[OF assms, of alloc] by blast
    from k(2) show ?thesis
    proof (elim disjE exE conjE)
      fix b' assume "value_quote alloc mr m s c b = Some (Next (Suc s + k) b')" "buf_ok m (Suc (Suc s + k)) b'" "k < length t"
      then show ?thesis using v by (intro disjI1 exI[of _ "Suc k"] exI[of _ b']) simp
    next
      assume "value_quote alloc mr m s c b = Some (Return (Some (str b @ slice m s (Suc s + k))) [[c] @ '' expected''])"
      moreover have "length (str b @ slice m s (Suc s + k)) \<le> s + Suc (length t)"
        using assms(2) k(1) by (auto simp: buf_ok_def slice_def)
      ultimately show ?thesis using v by metis
    qed
  next
    case opens
    have "buf_ok m (Suc s) (b\<lparr>start := Into n, str := str b @ [c]\<rparr>)" for n using assms(2) by (auto simp: buf_ok_def)
    then show ?thesis using turn_open[OF assms(1) opens assms(2), of alloc mr] by (intro disjI1 exI[of _ 0]) auto
  next
    case equal
    then obtain b' where "value_turn alloc mr m s b = Some (Next (s + of_bool (t \<noteq> [] \<and> is_cspace (hd t))) b')" "buf_ok m (Suc s) b'"
      using turn_equal[of m s t z b alloc mr] assms(1,2) by blast
    moreover then have "buf_ok m (Suc (s + of_bool (t \<noteq> [] \<and> is_cspace (hd t)))) b'" by (auto simp: buf_ok_def)
    moreover have "of_bool (t \<noteq> [] \<and> is_cspace (hd t)) \<le> length t" by (cases t) auto
    ultimately show ?thesis by blast
  next
    case plain_text
    have "buf_ok m (Suc s) (b\<lparr>str := str b @ [c]\<rparr>)" using assms(2) by (auto simp: buf_ok_def)
    then show ?thesis using turn_plain[OF assms(1) plain_text assms(2,3), of alloc] by (intro disjI1 exI[of _ 0]) auto
  qed
qed

lemma value_loop_ok:
  "unread m s t z \<Longrightarrow> buf_ok m s b \<Longrightarrow> \<not> modifies mr \<Longrightarrow>
   \<exists>r errs. value_loop alloc mr m s b = Some (Some r, errs) \<and> length r \<le> s + length t"
proof (induction "length t" arbitrary: s t b rule: less_induct)
  case less
  show ?case
  proof (cases t)
    case Nil
    then show ?thesis using less.prems unread_rd[OF less.prems(1)] by (simp add: value_loop.simps buf_ok_def)
  next
    case (Cons c u)
    have c: "rd m s = Some c" "c \<noteq> NUL" "unread m (Suc s) u z" using less.prems(1) unread_Cons Cons by blast+
    from value_turn_ok[OF less.prems(1)[unfolded Cons] less.prems(2,3), of alloc] show ?thesis
    proof (elim disjE exE conjE)
      fix k b' assume k: "value_turn alloc mr m s b = Some (Next (s + k) b')" "k \<le> length u" "buf_ok m (Suc (s + k)) b'"
      have "unread m (Suc (s + k)) (drop k u) z" using unread_drop[OF c(3) k(2)] by simp
      moreover have "length (drop k u) < length t" using Cons by simp
      ultimately obtain r errs where "value_loop alloc mr m (Suc (s + k)) b' = Some (Some r, errs)" "length r \<le> Suc (s + k) + length (drop k u)"
        using less.hyps[of "drop k u" "Suc (s + k)" b'] k(3) less.prems(3) by blast
      then show ?thesis using c k Cons by (simp add: value_loop.simps[of alloc mr m s])
    next
      fix r errs assume "value_turn alloc mr m s b = Some (Return (Some r) errs)" "length r \<le> s + Suc (length u)"
      then show ?thesis using c Cons by (simp add: value_loop.simps[of alloc mr m s])
    qed
  qed
qed

text \<open>C21: In the display modes, \<open>parse_value\<close> returns a string no longer than its argument, whatever the argument, and never leaves the text or its buffer.\<close>

theorem scope_parse_value_display:
  assumes "unread m 0 s []" "\<not> modifies mr" "\<forall>n. n \<le> alloc n"
  shows "\<exists>r errs. scope_parse_value alloc m mr = Some (Some r, errs) \<and> length r \<le> length s"
proof -
  have "length m \<le> alloc (length s + 1)" using assms(1,3) by (simp add: unread_0)
  then have "buf_ok m 0 \<lparr>str = [], allocated = alloc (length s + 1), start = Into 0\<rparr>" by (simp add: buf_ok_def)
  from value_loop_ok[OF assms(1) this assms(2), of alloc] show ?thesis
    using unread_c_string[OF assms(1)] by (simp add: scope_parse_value_def)
qed

subsection \<open>Structured values\<close>

text \<open>
  Values as GDB prints them: scalars, literals, addresses and codes with a literal behind them, and structures and arrays, whose members may
  have names.
\<close>

datatype gdb_value = Scalar string | Literal char string | Address string char string | Struct "gdb_member list"
  and gdb_member = Member "string option" gdb_value

fun print_gdb_value :: "gdb_value \<Rightarrow> string" and print_member :: "gdb_member \<Rightarrow> string" and print_members :: "gdb_member list \<Rightarrow> string" where
  "print_gdb_value (Scalar s) = s"
| "print_gdb_value (Literal q s) = q # s @ [q]"
| "print_gdb_value (Address a q s) = a @ q # s @ [q]"
| "print_gdb_value (Struct ms) = CHR ''{'' # print_members ms @ ''}''"
| "print_member (Member None v) = print_gdb_value v"
| "print_member (Member (Some nm) v) = nm @ '' = '' @ print_gdb_value v"
| "print_members [] = []"
| "print_members (m # ms) = print_member m @ (if ms = [] then [] else CHR '','' # CHR '' '' # print_members ms)"

text \<open>What is shown: the values without the names, or with the names and no space at the equals sign.\<close>

fun show_value :: "bool \<Rightarrow> gdb_value \<Rightarrow> string" and show_member :: "bool \<Rightarrow> gdb_member \<Rightarrow> string"
  and show_members :: "bool \<Rightarrow> gdb_member list \<Rightarrow> string" where
  "show_value names (Scalar s) = s"
| "show_value names (Literal q s) = q # s @ [q]"
| "show_value names (Address a q s) = a @ q # s @ [q]"
| "show_value names (Struct ms) = CHR ''{'' # show_members names ms @ ''}''"
| "show_member names (Member None v) = show_value names v"
| "show_member names (Member (Some nm) v) = (if names then nm @ ''='' else []) @ show_value names v"
| "show_members names [] = []"
| "show_members names (m # ms) = show_member names m @ (if ms = [] then [] else CHR '','' # CHR '' '' # show_members names ms)"

definition plain_text :: "string \<Rightarrow> bool" where
  "plain_text s \<longleftrightarrow> s \<noteq> [] \<and> \<not> is_cspace (hd s) \<and> list_all (\<lambda>c. \<not> special c) s"

text \<open>The inside of a literal: a backslash is followed by a character, and the quote stands only behind one.\<close>

fun literal_ok :: "char \<Rightarrow> string \<Rightarrow> bool" where
  "literal_ok q [] \<longleftrightarrow> True"
| "literal_ok q (c # s) \<longleftrightarrow> c \<noteq> NUL \<and> c \<noteq> q \<and> (c = BSL \<longrightarrow> (case s of [] \<Rightarrow> False | d # s' \<Rightarrow> d \<noteq> NUL \<and> literal_ok q s')) \<and> (c \<noteq> BSL \<longrightarrow> literal_ok q s)"

fun value_ok :: "gdb_value \<Rightarrow> bool" and member_ok :: "gdb_member \<Rightarrow> bool" where
  "value_ok (Scalar s) \<longleftrightarrow> plain_text s"
| "value_ok (Literal q s) \<longleftrightarrow> (q = DQ \<or> q = SQ) \<and> literal_ok q s"
| "value_ok (Address a q s) \<longleftrightarrow> plain_text a \<and> (q = DQ \<or> q = SQ) \<and> literal_ok q s"
| "value_ok (Struct ms) \<longleftrightarrow> list_all member_ok ms"
| "member_ok (Member nm v) \<longleftrightarrow> (case nm of None \<Rightarrow> True | Some n \<Rightarrow> plain_text n) \<and> value_ok v"

lemma print_start:
  "value_ok v \<Longrightarrow> print_gdb_value v \<noteq> [] \<and> \<not> is_cspace (hd (print_gdb_value v))"
  "member_ok x \<Longrightarrow> print_member x \<noteq> [] \<and> \<not> is_cspace (hd (print_member x))"
proof -
  show v: "value_ok v \<Longrightarrow> print_gdb_value v \<noteq> [] \<and> \<not> is_cspace (hd (print_gdb_value v))" for v
    by (cases v) (auto simp: plain_text_def is_cspace_def cc_def)
  show "member_ok x \<Longrightarrow> print_member x \<noteq> [] \<and> \<not> is_cspace (hd (print_member x))"
    using v by (cases x; cases "case x of Member nm _ \<Rightarrow> nm") (auto simp: plain_text_def)
qed

text \<open>A run of turns: the text \<open>u\<close> is read and \<open>out\<close> appended.\<close>

definition reads :: "alloc \<Rightarrow> mr_mode \<Rightarrow> block \<Rightarrow> nat \<Rightarrow> gbuf \<Rightarrow> string \<Rightarrow> string \<Rightarrow> bool" where
  "reads alloc mr m s b u out \<longleftrightarrow> (\<exists>b'. value_loop alloc mr m s b = value_loop alloc mr m (s + length u) b' \<and>
     str b' = str b @ out \<and> buf_ok m (s + length u) b')"

lemma loop_turn:
  assumes "unread m s (c # t) z" "value_turn alloc mr m s b = Some (Next s' b')"
  shows "value_loop alloc mr m s b = value_loop alloc mr m (Suc s') b'"
  using unread_Cons[OF assms(1)] assms(2) by (simp add: value_loop.simps[of alloc mr m s])

lemma reads_trans:
  assumes "reads alloc mr m s b u1 o1" "\<And>b'. str b' = str b @ o1 \<Longrightarrow> buf_ok m (s + length u1) b' \<Longrightarrow> reads alloc mr m (s + length u1) b' u2 o2"
  shows "reads alloc mr m s b (u1 @ u2) (o1 @ o2)"
proof -
  obtain b' where b: "value_loop alloc mr m s b = value_loop alloc mr m (s + length u1) b'" "str b' = str b @ o1" "buf_ok m (s + length u1) b'"
    using assms(1) by (auto simp: reads_def)
  then obtain b'' where "value_loop alloc mr m (s + length u1) b' = value_loop alloc mr m (s + length u1 + length u2) b''"
    "str b'' = str b' @ o2" "buf_ok m (s + length u1 + length u2) b''" using assms(2)[OF b(2,3)] by (auto simp: reads_def)
  then show ?thesis using b by (auto simp: reads_def add.assoc)
qed

lemma plain_loop:
  "unread m s (u @ t) z \<Longrightarrow> list_all (\<lambda>c. \<not> special c) u \<Longrightarrow> buf_ok m s b \<Longrightarrow> \<not> modifies mr \<Longrightarrow>
   value_loop alloc mr m s b = value_loop alloc mr m (s + length u) (b\<lparr>str := str b @ u\<rparr>) \<and> buf_ok m (s + length u) (b\<lparr>str := str b @ u\<rparr>)"
proof (induction u arbitrary: s b)
  case (Cons c u)
  have n: "unread m (Suc s) (u @ t) z" using unread_Cons[of m s c "u @ t" z] Cons.prems(1) by simp
  have turn: "value_turn alloc mr m s b = Some (Next s (b\<lparr>str := str b @ [c]\<rparr>))"
    using turn_plain[of m s c "u @ t" z b mr alloc] Cons.prems by simp
  have ok: "buf_ok m (Suc s) (b\<lparr>str := str b @ [c]\<rparr>)" using Cons.prems(3) by (auto simp: buf_ok_def)
  have "value_loop alloc mr m s b = value_loop alloc mr m (Suc s) (b\<lparr>str := str b @ [c]\<rparr>)"
    using loop_turn[OF _ turn] Cons.prems(1) by simp
  moreover from Cons.IH[OF n _ ok Cons.prems(4)] Cons.prems(2)
  have "value_loop alloc mr m (Suc s) (b\<lparr>str := str b @ [c]\<rparr>) = value_loop alloc mr m (Suc s + length u) (b\<lparr>str := str b @ c # u\<rparr>) \<and>
    buf_ok m (Suc s + length u) (b\<lparr>str := str b @ c # u\<rparr>)" by simp
  ultimately show ?case by simp
qed simp

lemma reads_plain:
  assumes "unread m s (u @ t) z" "list_all (\<lambda>c. \<not> special c) u" "buf_ok m s b" "\<not> modifies mr"
  shows "reads alloc mr m s b u u"
  using plain_loop[OF assms, of alloc] unfolding reads_def by (intro exI[of _ "b\<lparr>str := str b @ u\<rparr>"]) simp

lemma quote_end_literal:
  "unread m (Suc s) (v @ q # t) z \<Longrightarrow> literal_ok q v \<Longrightarrow> q \<noteq> NUL \<Longrightarrow> quote_end m q s = Some (Suc s + length v)"
proof (induction v arbitrary: s rule: literal_ok.induct)
  case (1 q)
  then have "rd m (Suc s) = Some q" using unread_Cons[of m "Suc s" q t z] by simp
  then show ?case by (simp add: quote_end.simps[of m q s])
next
  case (2 q c v)
  have u: "rd m (Suc s) = Some c" "c \<noteq> NUL" "unread m (Suc (Suc s)) (v @ q # t) z" using 2(3) unread_Cons[of m "Suc s" c "v @ q # t" z] by auto
  have cq: "c \<noteq> q" using 2(4) by simp
  show ?case
  proof (cases "c = BSL")
    case True
    then obtain d v' where v: "v = d # v'" "d \<noteq> NUL" "literal_ok q v'" using 2(4) by (auto split: list.splits)
    then have d: "rd m (Suc (Suc s)) = Some d" "unread m (Suc (Suc (Suc s))) (v' @ q # t) z" using u(3) unread_Cons[of m "Suc (Suc s)" d "v' @ q # t" z] by auto
    have "quote_end m q (Suc (Suc s)) = Some (Suc (Suc (Suc s)) + length v')" using 2(1)[OF True v(1) d(2) v(3) 2(5)] .
    then show ?thesis using u cq True d v by (simp add: quote_end.simps[of m q s])
  next
    case False
    then have "quote_end m q (Suc s) = Some (Suc (Suc s) + length v)" using 2(2)[OF False u(3)] 2(4,5) by simp
    then show ?thesis using u cq False by (simp add: quote_end.simps[of m q s])
  qed
qed

lemma reads_literal:
  assumes "unread m s (q # v @ q # t) z" "q = DQ \<or> q = SQ" "literal_ok q v" "buf_ok m s b" "\<not> modifies mr"
  shows "reads alloc mr m s b (q # v @ [q]) (q # v @ [q])"
proof -
  have u: "rd m s = Some q" "unread m (Suc s) (v @ q # t) z" using unread_Cons[OF assms(1)] by auto
  have q: "q \<noteq> NUL" using assms(2) by auto
  have e: "quote_end m q s = Some (Suc s + length v)" by (rule quote_end_literal[OF u(2) assms(3) q])
  have rq: "rd m (Suc s + length v) = Some q" using unread_rd[OF unread_drop[OF u(2), of "length v"]] by simp
  have d: "drop s m = (q # v) @ (q # t @ NUL # z)" using assms(1) by (simp add: unread_def)
  have sl: "slice m s (Suc s + length v) = q # v" using slice_drop[OF d] by simp
  have l: "s + length (q # v @ [q]) < length m" using unread_less[OF assms(1)] by simp
  let ?b1 = "b\<lparr>str := str b @ (q # v)\<rparr>" and ?b = "b\<lparr>str := str b @ (q # v @ [q])\<rparr>"
  have a1: "append_str alloc (q # v) b = ?b1" using append_ok[OF assms(4)] l by simp
  have ok1: "buf_ok m (s + length (q # v)) ?b1" using buf_ok_append[OF assms(4)] by simp
  have a2: "append_str alloc [q] ?b1 = ?b" using append_ok[OF ok1, of "[q]" alloc] l by simp
  have "value_turn alloc mr m s b = value_quote alloc mr m s q b" using u(1) assms(2) by (simp add: value_turn_def)
  also have "\<dots> = Some (Next (Suc s + length v) ?b)"
    using e rq sl a1 a2 q assms(5) by (simp add: value_quote_def Let_def)
  finally have "value_loop alloc mr m s b = value_loop alloc mr m (s + length (q # v @ [q])) ?b"
    using loop_turn[OF assms(1)] by simp
  moreover have "buf_ok m (s + length (q # v @ [q])) ?b" using buf_ok_append[OF assms(4)] by simp
  ultimately show ?thesis unfolding reads_def by (intro exI[of _ ?b]) simp
qed

text \<open>A brace or a comma, and the space behind a comma, set the start to the end of the buffer.\<close>

lemma open_loop:
  assumes "unread m s (CHR ''{'' # t) z" "t \<noteq> [] \<Longrightarrow> \<not> is_cspace (hd t)" "buf_ok m s b"
  shows "\<exists>b'. value_loop alloc mr m s b = value_loop alloc mr m (Suc s) b' \<and> str b' = str b @ ''{'' \<and> buf_ok m (Suc s) b' \<and>
    start b' = Into (length (str b'))"
  using loop_turn[OF assms(1) turn_open[OF assms(1) _ assms(3), of alloc mr]] assms(2,3) by (auto simp: buf_ok_def)

lemma comma_loop:
  assumes "unread m s (CHR '','' # CHR '' '' # t) z" "buf_ok m s b" "\<not> modifies mr"
  shows "\<exists>b'. value_loop alloc mr m s b = value_loop alloc mr m (s + 2) b' \<and> str b' = str b @ '', '' \<and> buf_ok m (s + 2) b' \<and>
    start b' = Into (length (str b'))"
proof -
  have sp: "is_cspace (CHR '' '')" by (simp add: is_cspace_def cc_def)
  let ?b = "b\<lparr>start := Into (length (str b) + 2), str := str b @ '',''\<rparr>"
  have l: "value_loop alloc mr m s b = value_loop alloc mr m (Suc s) ?b"
    using loop_turn[OF assms(1) turn_open[OF assms(1) _ assms(2), of alloc mr]] sp by simp
  have u: "unread m (Suc s) (CHR '' '' # t) z" using unread_Cons[OF assms(1)] by simp
  have ok: "buf_ok m (Suc s) ?b" using assms(2) by (auto simp: buf_ok_def)
  have "value_loop alloc mr m (Suc s) ?b = value_loop alloc mr m (Suc (Suc s)) (?b\<lparr>str := str ?b @ '' ''\<rparr>)"
    using loop_turn[OF u turn_plain[OF u _ ok assms(3), of alloc]] by (simp add: special_def)
  moreover have "buf_ok m (Suc (Suc s)) (?b\<lparr>str := str ?b @ '' ''\<rparr>)" using ok by (auto simp: buf_ok_def)
  ultimately show ?thesis using l by (intro exI[of _ "?b\<lparr>str := str ?b @ '' ''\<rparr>"]) simp
qed

text \<open>A name and its equals sign.\<close>

lemma name_loop:
  assumes "unread m s (nm @ '' = '' @ t) z" "plain_text nm" "buf_ok m s b" "\<not> modifies mr" "start b = Into (length (str b))"
  shows "reads alloc mr m s b (nm @ '' = '') (if mr = MR_NEUTRAL then nm @ ''='' else [])"
proof -
  let ?u = "nm @ '' ''"
  have sp: "is_cspace (CHR '' '')" by (simp add: is_cspace_def cc_def)
  have u: "unread m s (?u @ CHR ''='' # CHR '' '' # t) z" using assms(1) by simp
  let ?b = "b\<lparr>str := str b @ ?u\<rparr>"
  have p: "value_loop alloc mr m s b = value_loop alloc mr m (s + length ?u) ?b" "buf_ok m (s + length ?u) ?b"
    using plain_loop[OF u _ assms(3,4), of alloc] assms(2) by (simp_all add: plain_text_def special_def)
  have ue: "unread m (s + length ?u) (CHR ''='' # CHR '' '' # t) z" using unread_drop[OF u, of "length ?u"] by simp
  obtain b' where b': "value_turn alloc mr m (s + length ?u) ?b = Some (Next (s + length ?u + 1) b')" "buf_ok m (Suc (s + length ?u)) b'"
    "if mr = MR_NEUTRAL then b' = ?b\<lparr>str := str b @ nm @ ''=''\<rparr> else truncate_start ?b = Some b'"
    using turn_equal[OF ue p(2), of alloc mr] sp by (auto simp: butlast_append)
  have "value_loop alloc mr m s b = value_loop alloc mr m (s + length (nm @ '' = '')) b'"
    using p(1) loop_turn[OF ue b'(1)] by simp
  moreover have "str b' = str b @ (if mr = MR_NEUTRAL then nm @ ''='' else [])"
    using b'(3) assms(5) by (auto simp: truncate_start_def split: if_splits)
  moreover have "buf_ok m (s + length (nm @ '' = '')) b'" using b'(2) by (auto simp: buf_ok_def)
  ultimately show ?thesis unfolding reads_def by blast
qed

lemma read_value:
  "unread m s (print_gdb_value v @ t) z \<Longrightarrow> value_ok v \<Longrightarrow> buf_ok m s b \<Longrightarrow> \<not> modifies mr \<Longrightarrow>
   reads alloc mr m s b (print_gdb_value v) (show_value (mr = MR_NEUTRAL) v)"
  "unread m s (print_member x @ t) z \<Longrightarrow> member_ok x \<Longrightarrow> buf_ok m s b \<Longrightarrow> \<not> modifies mr \<Longrightarrow> start b = Into (length (str b)) \<Longrightarrow>
   reads alloc mr m s b (print_member x) (show_member (mr = MR_NEUTRAL) x)"
  "unread m s (print_members ms @ t) z \<Longrightarrow> list_all member_ok ms \<Longrightarrow> buf_ok m s b \<Longrightarrow> \<not> modifies mr \<Longrightarrow> start b = Into (length (str b)) \<Longrightarrow>
   reads alloc mr m s b (print_members ms) (show_members (mr = MR_NEUTRAL) ms)"
proof (induction v and x and ms arbitrary: s t b and s t b and s t b rule: print_gdb_value_print_member_print_members.induct)
  case (1 a)
  then show ?case using reads_plain[of m s a t z b mr alloc] by (simp add: plain_text_def)
next
  case (2 q v)
  then show ?case using reads_literal[of m s q v t z b mr alloc] by simp
next
  case (3 a q v)
  have "reads alloc mr m s b (a @ q # v @ [q]) (a @ q # v @ [q])"
  proof (rule reads_trans)
    show "reads alloc mr m s b a a" using reads_plain[of m s a "q # v @ q # t" z b mr alloc] 3 by (simp add: plain_text_def)
    fix b' assume "buf_ok m (s + length a) b'"
    then show "reads alloc mr m (s + length a) b' (q # v @ [q]) (q # v @ [q])"
      using reads_literal[of m "s + length a" q v t z b' mr alloc] unread_drop[OF 3(1), of "length a"] 3 by simp
  qed
  then show ?case by simp
next
  case (4 ms)
  let ?t = "print_members ms @ CHR ''}'' # t"
  have u: "unread m s (CHR ''{'' # ?t) z" using 4(2) by simp
  have "\<not> is_cspace (hd ?t)"
    using print_start(2)[of "hd ms"] 4(3) by (cases ms) (auto simp: is_cspace_def cc_def)
  then obtain b1 where b1: "value_loop alloc mr m s b = value_loop alloc mr m (Suc s) b1" "str b1 = str b @ ''{''" "buf_ok m (Suc s) b1"
    "start b1 = Into (length (str b1))" using open_loop[OF u _ 4(4), of alloc mr] by blast
  have u1: "unread m (Suc s) ?t z" using unread_Cons[OF u] by simp
  have "reads alloc mr m (Suc s) b1 (print_members ms @ ''}'') (show_members (mr = MR_NEUTRAL) ms @ ''}'')"
  proof (rule reads_trans)
    show "reads alloc mr m (Suc s) b1 (print_members ms) (show_members (mr = MR_NEUTRAL) ms)"
      using 4(1)[OF u1 _ b1(3) 4(5) b1(4)] 4(3) by simp
    fix b' assume "buf_ok m (Suc s + length (print_members ms)) b'"
    then show "reads alloc mr m (Suc s + length (print_members ms)) b' ''}'' ''}''"
      using reads_plain[of m "Suc s + length (print_members ms)" "''}''" t z b' mr alloc] unread_drop[OF u1, of "length (print_members ms)"] 4(5)
      by (simp add: special_def)
  qed
  then show ?case using b1 by (simp add: reads_def)
next
  case (5 v)
  then show ?case by simp
next
  case (6 nm v)
  have "reads alloc mr m s b ((nm @ '' = '') @ print_gdb_value v) ((if mr = MR_NEUTRAL then nm @ ''='' else []) @ show_value (mr = MR_NEUTRAL) v)"
  proof (rule reads_trans)
    show "reads alloc mr m s b (nm @ '' = '') (if mr = MR_NEUTRAL then nm @ ''='' else [])"
      using name_loop[of m s nm "print_gdb_value v @ t" z b mr alloc] 6 by simp
    fix b' assume "buf_ok m (s + length (nm @ '' = '')) b'"
    then show "reads alloc mr m (s + length (nm @ '' = '')) b' (print_gdb_value v) (show_value (mr = MR_NEUTRAL) v)"
      using 6(1)[of "s + length (nm @ '' = '')" t b'] unread_drop[OF 6(2), of "length (nm @ '' = '')"] 6 by simp
  qed
  then show ?case by simp
next
  case 7
  then show ?case by (simp add: reads_def) blast
next
  case (8 x ms)
  show ?case
  proof (cases "ms = []")
    case True
    then show ?thesis using 8 by simp
  next
    case False
    let ?x = "print_member x" and ?n = "mr = MR_NEUTRAL"
    have u: "unread m s (?x @ CHR '','' # CHR '' '' # print_members ms @ t) z" using 8(3) False by simp
    have "reads alloc mr m s b (?x @ '', '' @ print_members ms) (show_member ?n x @ '', '' @ show_members ?n ms)"
    proof (rule reads_trans)
      show "reads alloc mr m s b ?x (show_member ?n x)" using 8(1)[OF u] 8(4-7) by simp
      fix b' assume ok: "buf_ok m (s + length ?x) b'"
      have u': "unread m (s + length ?x) (CHR '','' # CHR '' '' # print_members ms @ t) z" using unread_drop[OF u, of "length ?x"] by simp
      obtain b2 where b2: "value_loop alloc mr m (s + length ?x) b' = value_loop alloc mr m (s + length ?x + 2) b2" "str b2 = str b' @ '', ''"
        "buf_ok m (s + length ?x + 2) b2" "start b2 = Into (length (str b2))" using comma_loop[OF u' ok 8(6), of alloc] by blast
      have "unread m (s + length ?x + 2) (print_members ms @ t) z" using unread_drop[OF u', of 2] by simp
      from 8(2)[OF False this _ b2(3) 8(6) b2(4)] 8(4) False
      show "reads alloc mr m (s + length ?x) b' ('', '' @ print_members ms) ('', '' @ show_members ?n ms)"
        using b2 by (simp add: reads_def)
    qed
    then show ?thesis using False by simp
  qed
qed

lemma literal_NUL: "literal_ok q s \<Longrightarrow> NUL \<notin> set s"
proof (induction q s rule: literal_ok.induct)
  case (2 q c s)
  then show ?case by (cases "c = BSL"; cases s) (simp_all, auto)
qed simp

lemma plain_NUL: "plain_text s \<Longrightarrow> NUL \<notin> set s"
  by (auto simp: plain_text_def list_all_iff special_def)

lemma value_NUL:
  "value_ok v \<Longrightarrow> NUL \<notin> set (print_gdb_value v)"
  "member_ok x \<Longrightarrow> NUL \<notin> set (print_member x)"
  "list_all member_ok ms \<Longrightarrow> NUL \<notin> set (print_members ms)"
  by (induction v and x and ms rule: print_gdb_value_print_member_print_members.induct) (auto simp: plain_NUL literal_NUL)

text \<open>C13: For structured values as GDB prints them, display removes the names of the members at every depth, or in neutral mode the spaces at
  the equals sign, and keeps everything else, literals with braces, commas and equals signs in them included.\<close>

theorem scope_parse_value_struct:
  assumes "value_ok v" "\<not> modifies mr" "\<forall>n. n \<le> alloc n"
  shows "scope_parse_value alloc (cstr (print_gdb_value v)) mr = Some (Some (show_value (mr = MR_NEUTRAL) v), [])"
proof -
  let ?m = "cstr (print_gdb_value v)" and ?b = "\<lparr>str = [], allocated = alloc (length (print_gdb_value v) + 1), start = Into 0\<rparr>"
  have u: "unread ?m 0 (print_gdb_value v @ []) []" using value_NUL(1)[OF assms(1)] by (simp add: unread_def cstr_def)
  have "length ?m \<le> alloc (length (print_gdb_value v) + 1)" using assms(3) by (simp add: cstr_def)
  then have "buf_ok ?m 0 ?b" by (simp add: buf_ok_def)
  from read_value(1)[OF u assms(1) this assms(2), of alloc] obtain b' where b': "value_loop alloc mr ?m 0 ?b = value_loop alloc mr ?m (length (print_gdb_value v)) b'"
    "str b' = show_value (mr = MR_NEUTRAL) v" by (auto simp: reads_def)
  have "rd ?m (length (print_gdb_value v)) = Some NUL" by (simp add: rd_def cstr_def)
  then have "value_loop alloc mr ?m (length (print_gdb_value v)) b' = Some (Some (str b'), [])" by (simp add: value_loop.simps)
  then show ?thesis using b' unread_c_string[OF u] by (simp add: scope_parse_value_def)
qed

theorem scope_parse_value_display_witness:
  "\<exists>r errs. scope_parse_value (\<lambda>n. 2 * n) (''{a = 1, b = \"x'' @ [NUL]) MR_DEFAULT = Some (Some r, errs) \<and> length r \<le> length ''{a = 1, b = \"x''"
proof -
  have "unread (''{a = 1, b = \"x'' @ [NUL]) 0 ''{a = 1, b = \"x'' []" by (simp add: unread_def)
  from scope_parse_value_display[OF this, of MR_DEFAULT "\<lambda>n. 2 * n"] show ?thesis by (simp add: modifies_def)
qed

theorem scope_parse_value_struct_witness:
  "scope_parse_value (\<lambda>n. 2 * n) (cstr (print_gdb_value (Struct [Member (Some ''a'') (Scalar ''1''), Member (Some ''s'') (Address ''0x7f '' DQ ''x, {y''),
      Member None (Struct [Member (Some ''c'') (Literal SQ ''='')])]))) MR_DEFAULT =
    Some (Some (''{1, 0x7f \"x, {y\", {'' @ [SQ, CHR ''='', SQ] @ ''}}''), [])"
proof -
  have "value_ok (Struct [Member (Some ''a'') (Scalar ''1''), Member (Some ''s'') (Address ''0x7f '' DQ ''x, {y''),
      Member None (Struct [Member (Some ''c'') (Literal SQ ''='')])])" by code_simp
  from scope_parse_value_struct[OF this, of MR_DEFAULT "\<lambda>n. 2 * n"] show ?thesis by (simp add: modifies_def)
qed


end
