(* ===== verification/PpModel.thy ===== *)
theory PpModel
  imports Prelude
begin

text \<open>
  The pretty printer of XML (\<open>pretty-printer/src/PrettyPrinter.c\<close>). Its static variables are one
  record. The output buffer is the list of the bytes below \<open>xmlPrettyPrintedIndex\<close>: the code moves the
  index back and overwrites, and it never reads at or above the index, so nothing else of the buffer
  can be observed. The size of the allocation and \<open>xmlPrettyPrintedLength\<close> are kept apart from it,
  because a failed reallocation leaves them different. Every read of the input or the output outside
  its block and every write outside the allocation is the fault \<^term>\<open>None\<close>; moving the index of the
  output below the start, or forward over bytes that were never written, is a fault too, as the next
  byte is then written there.

  The loops over the input are recursions with a measure: each turn reads a byte, and reading ends
  with the block. The recursion of elements in elements carries fuel.
\<close>

subsection \<open>State\<close>

datatype pp_code = PRETTY_PRINTING_SUCCESS | PRETTY_PRINTING_INVALID_CHAR_ERROR
  | PRETTY_PRINTING_EMPTY_XML | PRETTY_PRINTING_NOT_SUPPORTED_YET | PRETTY_PRINTING_SYSTEM_ERROR

record pp_options =
  newLineChars :: string
  indentChar :: char
  indentLength :: int
  oneLineText :: bool
  inlineText :: bool
  oneLineComment :: bool
  inlineComment :: bool
  oneLineCdata :: bool
  inlineCdata :: bool
  emptyNodeStripping :: bool
  emptyNodeStrippingSpace :: bool
  forceEmptyNodeSplit :: bool
  trimLeadingWhites :: bool
  trimTrailingWhites :: bool
  alignComment :: bool
  alignText :: bool
  alignCdata :: bool

definition createDefaultPrettyPrintingOptions :: pp_options where
  "createDefaultPrettyPrintingOptions = \<lparr>newLineChars = [CR, LF], indentChar = CHR '' '', indentLength = 2,
     oneLineText = False, inlineText = True, oneLineComment = False, inlineComment = True,
     oneLineCdata = False, inlineCdata = True, emptyNodeStripping = True,
     emptyNodeStrippingSpace = True, forceEmptyNodeSplit = False, trimLeadingWhites = True,
     trimTrailingWhites = True, alignComment = True, alignText = True, alignCdata = True\<rparr>"

text \<open>
  \<open>can_alloc\<close> says for which sizes \<open>g_try_malloc\<close> and \<open>g_try_realloc\<close> return memory, \<open>out_alloc\<close> is the
  size of the block \<open>xmlPrettyPrinted\<close> points to.
\<close>

record pp =
  result :: pp_code
  out :: string
  out_alloc :: nat
  xmlPrettyPrintedLength :: nat
  inputBuffer :: block
  inputBufferLength :: nat
  ini :: nat
  currentDepth :: int
  currentNodeName :: "string option"
  appendIndentation :: bool
  lastNodeOpen :: bool
  options :: pp_options
  can_alloc :: "nat \<Rightarrow> bool"

subsection \<open>Characters\<close>

definition isSpace :: "char \<Rightarrow> bool" where
  "isSpace c \<longleftrightarrow> c = CHR '' '' \<or> c = TAB"

definition isLineBreak :: "char \<Rightarrow> bool" where
  "isLineBreak c \<longleftrightarrow> c = LF \<or> c = CR"

definition isWhite :: "char \<Rightarrow> bool" where
  "isWhite c \<longleftrightarrow> isSpace c \<or> isLineBreak c"

definition isQuote :: "char \<Rightarrow> bool" where
  "isQuote c \<longleftrightarrow> c = SQ \<or> c = DQ"

subsection \<open>The output buffer\<close>

definition putCharInBuffer :: "char \<Rightarrow> pp \<Rightarrow> pp option" where
  "putCharInBuffer c s =
     (let full = xmlPrettyPrintedLength s \<le> length (out s);
          len = (if \<not> full then xmlPrettyPrintedLength s
                 else if c = NUL then xmlPrettyPrintedLength s + 1
                 else xmlPrettyPrintedLength s + inputBufferLength s);
          s = s\<lparr>xmlPrettyPrintedLength := len\<rparr>
      in if full \<and> \<not> can_alloc s len then Some s
         else
           let s = (if full then s\<lparr>out_alloc := len\<rparr> else s)
           in if length (out s) < out_alloc s then Some (s\<lparr>out := out s @ [c]\<rparr>) else None)"

definition putCharsInBuffer :: "string \<Rightarrow> pp \<Rightarrow> pp option" where
  "putCharsInBuffer cs s = foldM putCharInBuffer (takeWhile (\<lambda>c. c \<noteq> NUL) cs) s"

text \<open>\<open>xmlPrettyPrinted[xmlPrettyPrintedIndex - k]\<close>\<close>

definition put_back :: "nat \<Rightarrow> pp \<Rightarrow> char option" where
  "put_back k s = (if 0 < k \<and> k \<le> length (out s) then Some (out s ! (length (out s) - k)) else None)"

definition getPreviousInsertedChar :: "pp \<Rightarrow> char option" where
  "getPreviousInsertedChar s = put_back 1 s"

text \<open>\<open>xmlPrettyPrintedIndex -= n\<close>\<close>

definition rewind :: "int \<Rightarrow> pp \<Rightarrow> pp option" where
  "rewind n s = (if 0 \<le> n \<and> n \<le> int (length (out s))
     then Some (s\<lparr>out := take (length (out s) - nat n) (out s)\<rparr>) else None)"

text \<open>\<open>while (P (xmlPrettyPrinted[xmlPrettyPrintedIndex - 1])) --xmlPrettyPrintedIndex\<close>\<close>

definition trim_out :: "(char \<Rightarrow> bool) \<Rightarrow> pp \<Rightarrow> pp option" where
  "trim_out P s = (let kept = dropWhile P (rev (out s)) in
     if kept = [] then None else Some (s\<lparr>out := rev kept\<rparr>))"

definition putNewLine :: "pp \<Rightarrow> pp option" where
  "putNewLine s = do {
     s \<leftarrow> putCharsInBuffer (newLineChars (options s)) s;
     foldM putCharInBuffer
       (replicate (nat (currentDepth s * indentLength (options s))) (indentChar (options s))) s }"

definition resetBackwardIndentation :: "bool \<Rightarrow> pp \<Rightarrow> pp option" where
  "resetBackwardIndentation resetLineBreak s = do {
     s \<leftarrow> rewind (currentDepth s * indentLength (options s)) s;
     if resetLineBreak
     then rewind (int (length (takeWhile (\<lambda>c. c \<noteq> NUL) (newLineChars (options s))))) s
     else Some s }"

subsection \<open>The input buffer\<close>

definition peek :: "nat \<Rightarrow> pp \<Rightarrow> char option" where
  "peek k s = rd (inputBuffer s) (ini s + k)"

definition getNextChar :: "pp \<Rightarrow> char option" where
  "getNextChar s = rd (inputBuffer s) (ini s)"

definition readNextChar :: "pp \<Rightarrow> (char \<times> pp) option" where
  "readNextChar s = do { c \<leftarrow> rd (inputBuffer s) (ini s); Some (c, s\<lparr>ini := Suc (ini s)\<rparr>) }"

definition putNextChar :: "pp \<Rightarrow> pp option" where
  "putNextChar s = do { (c, s) \<leftarrow> readNextChar s; putCharInBuffer c s }"

primrec putNextCharsInBuffer :: "nat \<Rightarrow> pp \<Rightarrow> pp option" where
  "putNextCharsInBuffer 0 s = Some s"
| "putNextCharsInBuffer (Suc n) s = do { s \<leftarrow> putNextChar s; putNextCharsInBuffer n s }"

definition skip_input :: "(char \<Rightarrow> bool) \<Rightarrow> pp \<Rightarrow> (nat \<times> pp) option" where
  "skip_input P s = do {
     j \<leftarrow> skip_while P (inputBuffer s) (ini s);
     Some (j - ini s, s\<lparr>ini := j\<rparr>) }"

definition readWhites :: "bool \<Rightarrow> pp \<Rightarrow> (nat \<times> pp) option" where
  "readWhites considerLineBreakAsWhite s =
     skip_input (\<lambda>c. isWhite c \<and> (\<not> isLineBreak c \<or> considerLineBreakAsWhite)) s"

subsection \<open>Looking ahead\<close>

text \<open>The loop to the second of two closing characters; the index behind it.\<close>

function closing_from :: "char \<Rightarrow> block \<Rightarrow> char \<Rightarrow> nat \<Rightarrow> nat option" where
  "closing_from cl s old i = do {
     c \<leftarrow> rd s i;
     if c = cl \<and> old = cl then Some (Suc i) else closing_from cl s c (Suc i) }"
  by pat_completeness auto
termination
  by (relation "measure (\<lambda>(cl, s, old, i). length s - i)") (auto dest: rd_Some_less)

definition isInlineNodeAllowed :: "pp \<Rightarrow> bool option" where
  "isInlineNodeAllowed s =
     (if \<not> lastNodeOpen s then Some False
      else do {
        firstChar \<leftarrow> getNextChar s;
        secondChar \<leftarrow> peek 1 s;
        thirdChar \<leftarrow> peek 2 s;
        if firstChar = CHR ''<'' \<and> secondChar \<noteq> CHR ''!'' then Some False
        else do {
          i \<leftarrow> (if firstChar = CHR ''<''
             then do {
               i \<leftarrow> closing_from (if thirdChar = CHR ''['' then CHR '']'' else CHR ''-'') (inputBuffer s)
                 (CHR '' '') (ini s + 4);
               skip_while isWhite (inputBuffer s) (Suc i) }
             else skip_while (\<lambda>c. c \<noteq> CHR ''<'') (inputBuffer s) (ini s + 1));
          c \<leftarrow> rd (inputBuffer s) i;
          if c = CHR ''<'' then do { c \<leftarrow> rd (inputBuffer s) (Suc i); Some (c = CHR ''/'') }
          else Some False } })"

text \<open>The inner loop of \<open>isOnSingleLine\<close>: are there only whites up to the end?\<close>

function only_whites :: "char \<Rightarrow> char \<Rightarrow> block \<Rightarrow> nat \<Rightarrow> bool option" where
  "only_whites stop1 stop2 s i = do {
     old \<leftarrow> rd s i;
     cur \<leftarrow> rd s (Suc i);
     if old \<noteq> stop1 \<and> cur \<noteq> stop2
     then (if \<not> isWhite old then Some False else only_whites stop1 stop2 s (Suc i))
     else Some True }"
  by pat_completeness auto
termination
  by (relation "measure (\<lambda>(a, b, s, i). length s - i)") (auto dest: rd_Some_less)

function single_line :: "char \<Rightarrow> char \<Rightarrow> block \<Rightarrow> nat \<Rightarrow> bool option" where
  "single_line stop1 stop2 s i = do {
     old \<leftarrow> rd s i;
     cur \<leftarrow> rd s (Suc i);
     if old \<noteq> stop1 \<and> cur \<noteq> stop2
     then (if isLineBreak old then only_whites stop1 stop2 s (Suc i)
           else single_line stop1 stop2 s (Suc i))
     else Some True }"
  by pat_completeness auto
termination
  by (relation "measure (\<lambda>(a, b, s, i). length s - i)") (auto dest: rd_Some_less)

definition isOnSingleLine :: "nat \<Rightarrow> char \<Rightarrow> char \<Rightarrow> pp \<Rightarrow> bool option" where
  "isOnSingleLine skip stop1 stop2 s = single_line stop1 stop2 (inputBuffer s) (ini s + skip)"

declare closing_from.simps [simp del] only_whites.simps [simp del] single_line.simps [simp del]

subsection \<open>Progress\<close>

text \<open>
  Every operation leaves the input alone and moves its index forward, if at all; none loses the room
  in the output.
\<close>

named_theorems adv "operations that only move forward in the input"

text \<open>Memory never runs out, and the index is inside the allocation.\<close>

definition ready :: "pp \<Rightarrow> bool" where
  "ready s \<longleftrightarrow> (\<forall>n. can_alloc s n) \<and> 0 < inputBufferLength s \<and>
     out_alloc s = xmlPrettyPrintedLength s \<and> length (out s) \<le> out_alloc s"

lemma ready_fields [simp]:
  "ready (s\<lparr>currentNodeName := x\<rparr>) = ready s" "ready (s\<lparr>lastNodeOpen := b\<rparr>) = ready s"
  "ready (s\<lparr>appendIndentation := b\<rparr>) = ready s" "ready (s\<lparr>currentDepth := d\<rparr>) = ready s"
  "ready (s\<lparr>ini := i\<rparr>) = ready s" "ready (s\<lparr>result := c\<rparr>) = ready s"
  by (simp_all add: ready_def)

definition forward :: "pp \<Rightarrow> pp \<Rightarrow> bool" where
  "forward s t \<longleftrightarrow> inputBuffer t = inputBuffer s \<and> ini s \<le> ini t \<and> options t = options s \<and>
     can_alloc t = can_alloc s \<and> inputBufferLength t = inputBufferLength s \<and> (ready s \<longrightarrow> ready t)"

lemma forward_refl [simp]: "forward s s"
  by (simp add: forward_def)

lemma forward_trans [trans]: "forward s t \<Longrightarrow> forward t u \<Longrightarrow> forward s u"
  by (auto simp: forward_def)

lemma foldM_forward: "(\<And>x s t. f x s = Some t \<Longrightarrow> forward s t) \<Longrightarrow> foldM f xs s = Some t \<Longrightarrow> forward s t"
  using foldM_inv[where P = "forward s" and s = s] forward_trans forward_refl by metis

lemma putCharInBuffer_forward [adv]: "putCharInBuffer c s = Some t \<Longrightarrow> forward s t"
  by (auto simp: putCharInBuffer_def Let_def forward_def ready_def split: if_splits)

lemma putCharsInBuffer_forward [adv]: "putCharsInBuffer cs s = Some t \<Longrightarrow> forward s t"
  unfolding putCharsInBuffer_def by (rule foldM_forward[OF putCharInBuffer_forward])

lemma rewind_forward [adv]: "rewind n s = Some t \<Longrightarrow> forward s t"
  by (auto simp: rewind_def forward_def ready_def split: if_splits)

lemma trim_out_forward [adv]: "trim_out P s = Some t \<Longrightarrow> forward s t"
  using length_dropWhile_le[of P "rev (out s)"]
  by (auto simp: trim_out_def Let_def forward_def ready_def split: if_splits)

lemma foldM_put_forward [adv]: "foldM putCharInBuffer cs s = Some t \<Longrightarrow> forward s t"
  by (rule foldM_forward[OF putCharInBuffer_forward])

lemma putNewLine_forward [adv]: "putNewLine s = Some t \<Longrightarrow> forward s t"
  by (auto simp: putNewLine_def bind_eq_Some_conv dest!: adv intro: forward_trans)

lemma resetBackwardIndentation_forward [adv]: "resetBackwardIndentation b s = Some t \<Longrightarrow> forward s t"
  by (auto simp: resetBackwardIndentation_def bind_eq_Some_conv dest!: adv intro: forward_trans split: if_splits)

text \<open>Reading a byte is progress, and it happens inside the block.\<close>

definition forward_less :: "pp \<Rightarrow> pp \<Rightarrow> bool" where
  "forward_less s t \<longleftrightarrow> forward s t \<and> ini s < ini t \<and> ini s < length (inputBuffer s)"

lemma forward_less_forward: "forward_less s t \<Longrightarrow> forward s t"
  by (simp add: forward_less_def)

lemma forward_less_trans [trans]:
  "forward_less s t \<Longrightarrow> forward t u \<Longrightarrow> forward_less s u" "forward s t \<Longrightarrow> forward_less t u \<Longrightarrow> forward_less s u"
  by (auto simp: forward_less_def forward_def)

lemma forward_less_measure [simp]:
  "forward_less s t \<Longrightarrow> length (inputBuffer t) - ini t < length (inputBuffer s) - ini s"
  by (auto simp: forward_less_def forward_def)

lemma readNextChar_less [adv]: "readNextChar s = Some (c, t) \<Longrightarrow> forward_less s t"
  by (auto simp: readNextChar_def bind_eq_Some_conv forward_less_def forward_def dest: rd_Some_less)

lemma putNextChar_less [adv]: "putNextChar s = Some t \<Longrightarrow> forward_less s t"
  by (auto simp: putNextChar_def bind_eq_Some_conv dest!: adv intro: forward_less_trans)

lemma putNextCharsInBuffer_forward [adv]: "putNextCharsInBuffer n s = Some t \<Longrightarrow> forward s t"
  by (induction n arbitrary: s)
    (auto simp: bind_eq_Some_conv dest!: adv intro: forward_trans forward_less_forward)

lemma skip_input_forward [adv]: "skip_input P s = Some (n, t) \<Longrightarrow> forward s t"
  by (auto simp: skip_input_def bind_eq_Some_conv forward_def dest!: skip_while_ge)

lemma readWhites_forward [adv]: "readWhites b s = Some (n, t) \<Longrightarrow> forward s t"
  unfolding readWhites_def by (rule adv)

lemma skip_input_less: "skip_input P s = Some (n, t) \<Longrightarrow> getNextChar s = Some c \<Longrightarrow> P c \<Longrightarrow> forward_less s t"
proof -
  assume s: "skip_input P s = Some (n, t)" and c: "getNextChar s = Some c" "P c"
  then obtain j where j: "skip_while P (inputBuffer s) (Suc (ini s)) = Some j" "t = s\<lparr>ini := j\<rparr>"
    by (auto simp: skip_input_def getNextChar_def bind_eq_Some_conv skip_while.simps[of P _ "ini s"])
  then show ?thesis
    using skip_while_ge[OF j(1)] by (auto simp: forward_less_def forward_def)
qed

subsection \<open>Attributes and headers\<close>

text \<open>\<open>while (!P (c = readNextChar ())) putCharInBuffer (c)\<close>: the byte that ended the loop.\<close>

function copy_until :: "(char \<Rightarrow> bool) \<Rightarrow> pp \<Rightarrow> (char \<times> pp) option" where
  "copy_until P s = do {
     (c, s) \<leftarrow> readNextChar s;
     if P c then Some (c, s) else do { s \<leftarrow> putCharInBuffer c s; copy_until P s } }"
  by pat_completeness auto
termination
  by (relation "measure (\<lambda>(P, s). length (inputBuffer s) - ini s)")
    (auto dest!: adv intro: forward_less_measure forward_less_trans)

text \<open>\<open>while (P (getNextChar ())) putNextCharsInBuffer (1)\<close>\<close>

function copy_while :: "(char \<Rightarrow> bool) \<Rightarrow> pp \<Rightarrow> pp option" where
  "copy_while P s = do {
     c \<leftarrow> getNextChar s;
     if P c then do { s \<leftarrow> putNextChar s; copy_while P s } else Some s }"
  by pat_completeness auto
termination
  by (relation "measure (\<lambda>(P, s). length (inputBuffer s) - ini s)") (auto dest!: adv)

text \<open>\<open>do { c = readNextChar (); putCharInBuffer (c); } while (c != stop)\<close>\<close>

function copy_through :: "char \<Rightarrow> pp \<Rightarrow> pp option" where
  "copy_through stop s = do {
     (c, s) \<leftarrow> readNextChar s;
     s \<leftarrow> putCharInBuffer c s;
     if c = stop then Some s else copy_through stop s }"
  by pat_completeness auto
termination
  by (relation "measure (\<lambda>(P, s). length (inputBuffer s) - ini s)")
    (auto dest!: adv intro: forward_less_measure forward_less_trans)

declare copy_until.simps [simp del] copy_while.simps [simp del] copy_through.simps [simp del]

lemma copy_until_less [adv]: "copy_until P s = Some (c, t) \<Longrightarrow> forward_less s t"
proof (induction P s rule: copy_until.induct)
  case (1 P s)
  then obtain d u where d: "readNextChar s = Some (d, u)"
    by (auto simp: copy_until.simps[of P s] bind_eq_Some_conv)
  note u = readNextChar_less[OF d]
  show ?case
  proof (cases "P d")
    case True
    then show ?thesis using "1.prems" d u by (simp add: copy_until.simps[of P s])
  next
    case False
    then obtain v where v: "putCharInBuffer d u = Some v" "copy_until P v = Some (c, t)"
      using "1.prems" d by (auto simp: copy_until.simps[of P s] bind_eq_Some_conv)
    have "forward_less v t" using "1.IH"[OF d refl False v(1,2)] .
    with u putCharInBuffer_forward[OF v(1)] show ?thesis
      by (meson forward_less_trans forward_less_forward)
  qed
qed

lemma copy_while_forward [adv]: "copy_while P s = Some t \<Longrightarrow> forward s t"
proof (induction P s rule: copy_while.induct)
  case (1 P s)
  then obtain c where c: "getNextChar s = Some c" by (auto simp: copy_while.simps[of P s] bind_eq_Some_conv)
  show ?case
  proof (cases "P c")
    case True
    then obtain u where u: "putNextChar s = Some u" "copy_while P u = Some t"
      using "1.prems" c by (auto simp: copy_while.simps[of P s] bind_eq_Some_conv)
    show ?thesis
      using "1.IH"[OF c True u] putNextChar_less[OF u(1)] by (meson forward_less_forward forward_trans)
  next
    case False
    then show ?thesis using "1.prems" c by (simp add: copy_while.simps[of P s])
  qed
qed

lemma copy_through_less [adv]: "copy_through stop s = Some t \<Longrightarrow> forward_less s t"
proof (induction stop s rule: copy_through.induct)
  case (1 stop s)
  then obtain c u v where u: "readNextChar s = Some (c, u)" "putCharInBuffer c u = Some v"
    by (auto simp: copy_through.simps[of stop s] bind_eq_Some_conv)
  have sv: "forward_less s v"
    using readNextChar_less[OF u(1)] putCharInBuffer_forward[OF u(2)] by (rule forward_less_trans)
  show ?case
  proof (cases "c = stop")
    case True
    then show ?thesis using "1.prems" u sv by (simp add: copy_through.simps[of stop s])
  next
    case False
    then have "copy_through stop v = Some t"
      using "1.prems" u by (simp add: copy_through.simps[of stop s])
    then have "forward_less v t" using "1.IH"[OF u(1) refl u(2) False] by blast
    then show ?thesis using sv by (meson forward_less_forward forward_less_trans)
  qed
qed

definition processElementAttribute :: "pp \<Rightarrow> pp option" where
  "processElementAttribute s = do {
     (c, s) \<leftarrow> copy_until (\<lambda>c. c = CHR ''='') s;
     s \<leftarrow> putCharInBuffer c s;
     (quote, s) \<leftarrow> readNextChar s;
     s \<leftarrow> putCharInBuffer quote s;
     (_, s) \<leftarrow> copy_until (\<lambda>c. c = quote) s;
     putCharInBuffer quote s }"

lemma processElementAttribute_less [adv]: "processElementAttribute s = Some t \<Longrightarrow> forward_less s t"
  by (auto simp: processElementAttribute_def bind_eq_Some_conv dest!: adv)
    (meson forward_less_forward forward_less_trans)

function attributes_loop :: "pp \<Rightarrow> pp option" where
  "attributes_loop s = do {
     (_, s) \<leftarrow> readWhites True s;
     c \<leftarrow> getNextChar s;
     if c = CHR ''/'' \<or> c = CHR ''>'' \<or> c = CHR ''?'' then Some s
     else do {
       s \<leftarrow> putCharInBuffer (CHR '' '') s;
       s \<leftarrow> processElementAttribute s;
       attributes_loop s } }"
  by pat_completeness auto
termination
  by (relation "measure (\<lambda>s. length (inputBuffer s) - ini s)")
    (auto dest!: adv, meson forward_less_measure forward_less_trans)

declare attributes_loop.simps [simp del]

lemma attributes_loop_forward [adv]: "attributes_loop s = Some t \<Longrightarrow> forward s t"
proof (induction s rule: attributes_loop.induct)
  case (1 s)
  then obtain n u c where u: "readWhites True s = Some (n, u)" "getNextChar u = Some c"
    by (auto simp: attributes_loop.simps[of s] bind_eq_Some_conv)
  note su = readWhites_forward[OF u(1)]
  show ?case
  proof (cases "c = CHR ''/'' \<or> c = CHR ''>'' \<or> c = CHR ''?''")
    case True
    then show ?thesis using "1.prems" u su by (auto simp: attributes_loop.simps[of s])
  next
    case False
    then obtain v w where w: "putCharInBuffer (CHR '' '') u = Some v" "processElementAttribute v = Some w"
      "attributes_loop w = Some t"
      using "1.prems" u by (auto simp: attributes_loop.simps[of s] bind_eq_Some_conv)
    show ?thesis
      using "1.IH"[OF u(1) refl u(2) False w] su putCharInBuffer_forward[OF w(1)] processElementAttribute_less[OF w(2)]
      by (meson forward_less_forward forward_trans)
  qed
qed

definition fail :: "pp_code \<Rightarrow> pp \<Rightarrow> pp" where
  "fail code s = s\<lparr>result := code\<rparr>"

definition processElementAttributes :: "pp \<Rightarrow> pp option" where
  "processElementAttributes s = do {
     current \<leftarrow> getNextChar s;
     if isWhite current then Some (fail PRETTY_PRINTING_INVALID_CHAR_ERROR s) else attributes_loop s }"

definition processHeader :: "pp \<Rightarrow> pp option" where
  "processHeader s = do {
     firstChar \<leftarrow> getNextChar s;
     secondChar \<leftarrow> peek 1 s;
     if firstChar \<noteq> CHR ''<'' then Some (fail PRETTY_PRINTING_INVALID_CHAR_ERROR s)
     else if secondChar = CHR ''?'' then do {
       s \<leftarrow> putNextCharsInBuffer 2 s;
       s \<leftarrow> copy_while (\<lambda>c. \<not> isWhite c) s;
       (_, s) \<leftarrow> readWhites True s;
       s \<leftarrow> processElementAttributes s;
       putNextCharsInBuffer 2 s }
     else Some s }"

lemma fail_forward [simp]: "forward s (fail code s)"
  by (simp add: fail_def forward_def)

lemma processElementAttributes_forward [adv]: "processElementAttributes s = Some t \<Longrightarrow> forward s t"
  by (auto simp: processElementAttributes_def bind_eq_Some_conv dest!: adv split: if_splits)

lemma processHeader_forward [adv]: "processHeader s = Some t \<Longrightarrow> forward s t"
  by (auto simp: processHeader_def bind_eq_Some_conv dest!: adv split: if_splits)
    (meson forward_trans)

subsection \<open>Line breaks\<close>

text \<open>The whites behind a line break, and the second half of a \<open>CR LF\<close>.\<close>

definition skip_break :: "char \<Rightarrow> pp \<Rightarrow> pp option" where
  "skip_break c s = do {
     (read, s) \<leftarrow> readWhites False s;
     if c = CR \<and> read = 0 then do {
       n \<leftarrow> getNextChar s;
       if n = LF then do {
         (_, s) \<leftarrow> readNextChar s;
         (_, s) \<leftarrow> readWhites False s;
         Some s }
       else Some s }
     else Some s }"

lemma skip_break_forward [adv]: "skip_break c s = Some t \<Longrightarrow> forward s t"
  by (auto simp: skip_break_def bind_eq_Some_conv dest!: adv split: if_splits)
    (meson forward_less_forward forward_trans)

text \<open>\<open>strncmp (xmlPrettyPrinted + xmlPrettyPrintedIndex - n, tag, n) == 0\<close>\<close>

definition tail_is :: "string \<Rightarrow> pp \<Rightarrow> bool option" where
  "tail_is tag s = (if length tag \<le> length (out s)
     then Some (drop (length (out s) - length tag) (out s) = tag) else None)"

text \<open>A line break in a comment or a character-data section that is put on one line.\<close>

definition inline_break :: "string \<Rightarrow> char \<Rightarrow> pp \<Rightarrow> (pp \<times> char) option" where
  "inline_break tag old s = do {
     (_, s) \<leftarrow> readWhites True s;
     p \<leftarrow> getPreviousInsertedChar s;
     if p \<noteq> CHR '' '' then do {
       opened \<leftarrow> tail_is tag s;
       if \<not> opened then do { s \<leftarrow> putCharInBuffer (CHR '' '') s; Some (s, CHR '' '') }
       else Some (s, old) }
     else Some (s, old) }"

text \<open>\<open>onlySpaces\<close>: the bytes at these distances, up to the first that is no space.\<close>

fun only_spaces :: "nat list \<Rightarrow> pp \<Rightarrow> bool option" where
  "only_spaces [] s = Some True"
| "only_spaces (k # ks) s = do {
     c \<leftarrow> put_back k s;
     if c = CHR '' '' then only_spaces ks s else Some False }"

definition align_end :: "nat \<Rightarrow> string \<Rightarrow> pp \<Rightarrow> pp option" where
  "align_end n close s = do {
     spaces \<leftarrow> only_spaces [3..<Suc n] s;
     if spaces then do { s \<leftarrow> rewind (int n) s; putCharsInBuffer close s } else Some s }"

lemma inline_break_forward [adv]: "inline_break tag old s = Some (t, c) \<Longrightarrow> forward s t"
  by (auto simp: inline_break_def bind_eq_Some_conv dest!: adv split: if_splits)
    (meson forward_trans)+

lemma align_end_forward [adv]: "align_end n close s = Some t \<Longrightarrow> forward s t"
  by (auto simp: align_end_def bind_eq_Some_conv simp del: upt_Suc dest!: adv split: if_splits)
    (meson forward_trans)

text \<open>\<open>inlineAllowed\<close> of comments and character data, and \<open>inlineTextAllowed\<close>.\<close>

definition inline_allowed :: "bool \<Rightarrow> bool \<Rightarrow> nat \<Rightarrow> char \<Rightarrow> char \<Rightarrow> pp \<Rightarrow> bool option" where
  "inline_allowed inline one_line skip stop1 stop2 s = do {
     allowed \<leftarrow> (if inline then isInlineNodeAllowed s else Some False);
     if allowed \<and> \<not> one_line then isOnSingleLine skip stop1 stop2 s else Some allowed }"

subsection \<open>Comments\<close>

text \<open>The byte itself, or one space for a run of them.\<close>

definition put_or_space :: "bool \<Rightarrow> char \<Rightarrow> pp \<Rightarrow> (pp \<times> char) option" where
  "put_or_space one_line c s =
     (if one_line \<and> isSpace c
      then do {
        (_, s) \<leftarrow> skip_input isSpace s;
        s \<leftarrow> putCharInBuffer (CHR '' '') s;
        Some (s, CHR '' '') }
      else do { s \<leftarrow> putCharInBuffer c s; Some (s, c) })"

lemma put_or_space_forward [adv]: "put_or_space b c s = Some (t, d) \<Longrightarrow> forward s t"
  by (auto simp: put_or_space_def bind_eq_Some_conv dest!: adv split: if_splits) (meson forward_trans)

text \<open>A line break that stays: a new line of the output, with \<open>pad\<close> when the lines are aligned.\<close>

definition kept_break :: "bool \<Rightarrow> string \<Rightarrow> char \<Rightarrow> pp \<Rightarrow> (pp \<times> char) option" where
  "kept_break align pad c s =
     (if align then do {
        s \<leftarrow> skip_break c s;
        s \<leftarrow> putNewLine s;
        s \<leftarrow> putCharsInBuffer pad s;
        Some (s, CHR '' '') }
      else do { s \<leftarrow> putCharInBuffer c s; Some (s, c) })"

lemma kept_break_forward [adv]: "kept_break b pad c s = Some (t, d) \<Longrightarrow> forward s t"
  by (auto simp: kept_break_def bind_eq_Some_conv dest!: adv split: if_splits) (meson forward_trans)

text \<open>One turn of the loop of \<open>processComment\<close>: the state, \<open>oldChar\<close>, and whether the comment is closed.\<close>

definition comment_step :: "bool \<Rightarrow> char \<Rightarrow> pp \<Rightarrow> (pp \<times> char \<times> bool) option" where
  "comment_step inlineAllowed old s = do {
     (c, s) \<leftarrow> readNextChar s;
     let closed = (old = CHR ''-'' \<and> c = CHR ''-'');
     if \<not> isLineBreak c then do {
       (s, old) \<leftarrow> put_or_space (oneLineComment (options s)) c s;
       s \<leftarrow> (if closed \<and> alignComment (options s) then align_end 7 ''--'' s else Some s);
       Some (s, old, closed) }
     else do {
       (s, old) \<leftarrow> (if \<not> oneLineComment (options s) \<and> \<not> inlineAllowed
          then kept_break (alignComment (options s)) ''     '' c s
          else inline_break ''<!--'' old s);
       Some (s, old, closed) } }"

lemma comment_step_less [adv]:
  assumes "comment_step inlineAllowed old s = Some (t, r)"
  shows "forward_less s t"
proof -
  obtain c u where u: "readNextChar s = Some (c, u)"
    using assms by (auto simp: comment_step_def bind_eq_Some_conv)
  have "forward u t"
  proof (cases "isLineBreak c")
    case False
    obtain v d where v: "put_or_space (oneLineComment (options u)) c u = Some (v, d)"
      using assms u False by (auto simp: comment_step_def bind_eq_Some_conv)
    have "(\<exists>n close. align_end n close v = Some t) \<or> v = t"
      using assms unfolding comment_step_def by (simp add: u False v Let_def bind_eq_Some_conv split: if_splits) blast+
    then show ?thesis
      using put_or_space_forward[OF v] align_end_forward by (auto intro: forward_trans)
  next
    case True
    have "(\<exists>d. kept_break (alignComment (options u)) ''     '' c u = Some (t, d)) \<or> (\<exists>d. inline_break ''<!--'' old u = Some (t, d))"
      using assms unfolding comment_step_def by (simp add: u True Let_def bind_eq_Some_conv split: if_splits) blast+
    then show ?thesis by (auto dest: adv)
  qed
  with readNextChar_less[OF u] show ?thesis by (rule forward_less_trans)
qed

function comment_loop :: "bool \<Rightarrow> char \<Rightarrow> pp \<Rightarrow> pp option" where
  "comment_loop inlineAllowed old s = do {
     (s, old, closed) \<leftarrow> comment_step inlineAllowed old s;
     if closed then Some s else comment_loop inlineAllowed old s }"
  by pat_completeness auto
termination
  by (relation "measure (\<lambda>(b, c, s). length (inputBuffer s) - ini s)") (auto dest!: comment_step_less)

declare comment_loop.simps [simp del]

lemma comment_loop_forward [adv]: "comment_loop inlineAllowed old s = Some t \<Longrightarrow> forward s t"
proof (induction inlineAllowed old s rule: comment_loop.induct)
  case (1 b old s)
  then obtain u c closed where u: "comment_step b old s = Some (u, c, closed)"
    by (auto simp: comment_loop.simps[of b old s] bind_eq_Some_conv)
  then have "u = t \<or> (\<not> closed \<and> comment_loop b c u = Some t)"
    using "1.prems" by (auto simp: comment_loop.simps[of b old s] split: if_splits)
  then show ?case
    using "1.IH"[OF u refl refl] comment_step_less[OF u] forward_less_forward forward_trans by blast
qed

text \<open>The byte that has to end a comment or a character-data section.\<close>

definition finish_markup :: "bool \<Rightarrow> pp \<Rightarrow> pp option" where
  "finish_markup inlineAllowed s = do {
     (c, s) \<leftarrow> readNextChar s;
     if c \<noteq> CHR ''>'' then Some (fail PRETTY_PRINTING_INVALID_CHAR_ERROR s)
     else do {
       s \<leftarrow> putCharInBuffer c s;
       Some (s\<lparr>appendIndentation := appendIndentation s \<and> \<not> inlineAllowed, lastNodeOpen := False\<rparr>) } }"

subsection \<open>Text\<close>

definition text_step :: "pp \<Rightarrow> pp option" where
  "text_step s = do {
     (c, s) \<leftarrow> readNextChar s;
     if isLineBreak c then
       (if oneLineText (options s) then do {
          (_, s) \<leftarrow> readWhites True s;
          p \<leftarrow> getPreviousInsertedChar s;
          if p \<noteq> CHR '' '' then putCharInBuffer (CHR '' '') s else Some s }
        else if alignText (options s) then do {
          s \<leftarrow> skip_break c s;
          n \<leftarrow> getNextChar s;
          if n \<noteq> CHR ''<'' then putNewLine s else Some s }
        else putCharInBuffer c s)
     else putCharInBuffer c s }"

lemma text_step_less [adv]:
  assumes "text_step s = Some t"
  shows "forward_less s t"
proof -
  obtain c u where u: "readNextChar s = Some (c, u)"
    using assms by (auto simp: text_step_def bind_eq_Some_conv)
  with assms have "forward u t"
    by (auto simp: text_step_def bind_eq_Some_conv dest!: adv split: if_splits intro: forward_trans)
  with readNextChar_less[OF u] show ?thesis by (rule forward_less_trans)
qed

function text_loop :: "pp \<Rightarrow> pp option" where
  "text_loop s = do {
     c \<leftarrow> getNextChar s;
     if c \<noteq> CHR ''<'' then do { s \<leftarrow> text_step s; text_loop s } else Some s }"
  by pat_completeness auto
termination
  by (relation "measure (\<lambda>s. length (inputBuffer s) - ini s)") (auto dest!: adv)

declare text_loop.simps [simp del]

lemma text_loop_forward [adv]: "text_loop s = Some t \<Longrightarrow> forward s t"
proof (induction s rule: text_loop.induct)
  case (1 s)
  then obtain c where c: "getNextChar s = Some c" by (auto simp: text_loop.simps[of s] bind_eq_Some_conv)
  show ?case
  proof (cases "c = CHR ''<''")
    case True
    then show ?thesis using "1.prems" c by (simp add: text_loop.simps[of s])
  next
    case False
    then obtain u where u: "text_step s = Some u" "text_loop u = Some t"
      using "1.prems" c by (auto simp: text_loop.simps[of s] bind_eq_Some_conv)
    show ?thesis
      using "1.IH"[OF c False u] text_step_less[OF u(1)] by (meson forward_less_forward forward_trans)
  qed
qed

text \<open>
  The loop back over the spaces in front of the text: how many there are. Reading in front of the
  input is a fault.
\<close>

fun spaces_before :: "block \<Rightarrow> nat \<Rightarrow> nat option" where
  "spaces_before s 0 = None"
| "spaces_before s (Suc i) = do {
     c \<leftarrow> rd s i;
     if isSpace c then map_option Suc (spaces_before s i) else Some 0 }"

definition processTextNode :: "pp \<Rightarrow> pp option" where
  "processTextNode s = do {
     inlineTextAllowed \<leftarrow> inline_allowed (inlineText (options s)) (oneLineText (options s))
       0 (CHR ''<'') (CHR ''/'') s;
     s \<leftarrow> (if inlineTextAllowed \<or> \<not> alignText (options s) then do {
         s \<leftarrow> resetBackwardIndentation True s;
         if \<not> inlineTextAllowed then putNewLine s else Some s }
       else Some s);
     s \<leftarrow> (if \<not> trimLeadingWhites (options s) then do {
         n \<leftarrow> spaces_before (inputBuffer s) (ini s);
         foldM putCharInBuffer (slice (inputBuffer s) (ini s - n) (ini s)) s }
       else Some s);
     s \<leftarrow> text_loop s;
     s \<leftarrow> (if trimTrailingWhites (options s) then trim_out isSpace s else Some s);
     Some (s\<lparr>appendIndentation := appendIndentation s \<and> \<not> inlineTextAllowed, lastNodeOpen := False\<rparr>) }"

lemma processTextNode_forward [adv]: "processTextNode s = Some t \<Longrightarrow> forward s t"
proof -
  assume p: "processTextNode s = Some t"
  then obtain b u v w x where u: "(if b \<or> \<not> alignText (options s) then do {
         s \<leftarrow> resetBackwardIndentation True s;
         if \<not> b then putNewLine s else Some s } else Some s) = Some u"
    and v: "(if \<not> trimLeadingWhites (options u) then do {
         n \<leftarrow> spaces_before (inputBuffer u) (ini u);
         foldM putCharInBuffer (slice (inputBuffer u) (ini u - n) (ini u)) u } else Some u) = Some v"
    and w: "text_loop v = Some w"
    and x: "(if trimTrailingWhites (options w) then trim_out isSpace w else Some w) = Some x"
    and t: "t = x\<lparr>appendIndentation := appendIndentation x \<and> \<not> b, lastNodeOpen := False\<rparr>"
    unfolding processTextNode_def by (clarsimp simp only: bind_eq_Some_conv option.inject)
  have "forward s u"
    using u by (auto simp: bind_eq_Some_conv dest!: adv split: if_splits intro: forward_trans)
  moreover have "forward u v" using v by (auto simp: bind_eq_Some_conv dest!: foldM_put_forward split: if_splits)
  moreover have "forward v w" using w by (rule adv)
  moreover have "forward w x" using x by (auto dest!: trim_out_forward split: if_splits)
  moreover have "forward x t" by (simp add: t forward_def)
  ultimately show ?thesis by (meson forward_trans)
qed

lemma finish_markup_less [adv]: "finish_markup b s = Some t \<Longrightarrow> forward_less s t"
proof -
  assume f: "finish_markup b s = Some t"
  then obtain c u where u: "readNextChar s = Some (c, u)" by (auto simp: finish_markup_def bind_eq_Some_conv)
  have "forward u t"
  proof (cases "c = CHR ''>''")
    case True
    then obtain v where v: "putCharInBuffer c u = Some v"
      "t = v\<lparr>appendIndentation := appendIndentation v \<and> \<not> b, lastNodeOpen := False\<rparr>"
      using f unfolding finish_markup_def by (auto simp: u bind_eq_Some_conv)
    have "forward v t" by (simp add: v(2) forward_def)
    with putCharInBuffer_forward[OF v(1)] show ?thesis by (rule forward_trans)
  next
    case False
    then have "t = fail PRETTY_PRINTING_INVALID_CHAR_ERROR u"
      using f unfolding finish_markup_def by (simp add: u)
    then show ?thesis by simp
  qed
  with readNextChar_less[OF u] show ?thesis by (rule forward_less_trans)
qed

text \<open>The start of a comment or a character-data section: the indentation goes when it is put inline.\<close>

definition open_markup :: "bool \<Rightarrow> nat \<Rightarrow> pp \<Rightarrow> pp option" where
  "open_markup inlineAllowed n s = do {
     s \<leftarrow> (if inlineAllowed then resetBackwardIndentation True s else Some s);
     putNextCharsInBuffer n s }"

lemma open_markup_forward [adv]: "open_markup b n s = Some t \<Longrightarrow> forward s t"
  by (cases b) (auto simp: open_markup_def bind_eq_Some_conv dest!: adv intro: forward_trans)

definition processComment :: "pp \<Rightarrow> pp option" where
  "processComment s = do {
     inlineAllowed \<leftarrow> inline_allowed (inlineComment (options s)) (oneLineComment (options s))
       4 (CHR ''-'') (CHR ''-'') s;
     s \<leftarrow> open_markup inlineAllowed 4 s;
     s \<leftarrow> comment_loop inlineAllowed (CHR ''-'') s;
     finish_markup inlineAllowed s }"

lemma processComment_forward [adv]: "processComment s = Some t \<Longrightarrow> forward s t"
proof -
  assume "processComment s = Some t"
  then obtain b u v where "open_markup b 4 s = Some u" "comment_loop b (CHR ''-'') u = Some v" "finish_markup b v = Some t"
    unfolding processComment_def by (clarsimp simp only: bind_eq_Some_conv)
  then show ?thesis by (meson adv forward_trans forward_less_forward)
qed

subsection \<open>Character data\<close>

text \<open>One turn of the loop of \<open>processCDATA\<close>; \<open>nextChar2\<close> is the byte behind the current one.\<close>

definition cdata_step :: "bool \<Rightarrow> char \<Rightarrow> pp \<Rightarrow> (pp \<times> char \<times> bool) option" where
  "cdata_step inlineAllowed old s = do {
     (c, s) \<leftarrow> readNextChar s;
     c2 \<leftarrow> getNextChar s;
     let closed = (old = CHR '']'' \<and> c = CHR '']'' \<and> c2 = CHR ''>'');
     if \<not> isLineBreak c then do {
       (s, old) \<leftarrow> put_or_space (oneLineCdata (options s)) c s;
       s \<leftarrow> (if closed \<and> alignCdata (options s) then align_end 11 '']]'' s else Some s);
       Some (s, old, closed) }
     else do {
       (s, old) \<leftarrow> (if \<not> oneLineCdata (options s) \<and> \<not> inlineAllowed
          then kept_break (alignCdata (options s)) ''         '' c s
          else inline_break ''<![CDATA['' old s);
       Some (s, old, closed) } }"

lemma cdata_step_less [adv]:
  assumes "cdata_step inlineAllowed old s = Some (t, r)"
  shows "forward_less s t"
proof -
  obtain c u c2 where u: "readNextChar s = Some (c, u)" "getNextChar u = Some c2"
    using assms by (auto simp: cdata_step_def bind_eq_Some_conv)
  have "forward u t"
  proof (cases "isLineBreak c")
    case False
    obtain v d where v: "put_or_space (oneLineCdata (options u)) c u = Some (v, d)"
      using assms u False by (auto simp: cdata_step_def bind_eq_Some_conv)
    have "(\<exists>n close. align_end n close v = Some t) \<or> v = t"
      using assms unfolding cdata_step_def by (simp add: u False v Let_def bind_eq_Some_conv split: if_splits) blast+
    then show ?thesis
      using put_or_space_forward[OF v] align_end_forward by (auto intro: forward_trans)
  next
    case True
    have "(\<exists>d. kept_break (alignCdata (options u)) ''         '' c u = Some (t, d)) \<or> (\<exists>d. inline_break ''<![CDATA['' old u = Some (t, d))"
      using assms unfolding cdata_step_def by (simp add: u True Let_def bind_eq_Some_conv split: if_splits) blast+
    then show ?thesis by (auto dest: adv)
  qed
  with readNextChar_less[OF u(1)] show ?thesis by (rule forward_less_trans)
qed

function cdata_loop :: "bool \<Rightarrow> char \<Rightarrow> pp \<Rightarrow> pp option" where
  "cdata_loop inlineAllowed old s = do {
     (s, old, closed) \<leftarrow> cdata_step inlineAllowed old s;
     if closed then Some s else cdata_loop inlineAllowed old s }"
  by pat_completeness auto
termination
  by (relation "measure (\<lambda>(b, c, s). length (inputBuffer s) - ini s)") (auto dest!: cdata_step_less)

declare cdata_loop.simps [simp del]

lemma cdata_loop_forward [adv]: "cdata_loop inlineAllowed old s = Some t \<Longrightarrow> forward s t"
proof (induction inlineAllowed old s rule: cdata_loop.induct)
  case (1 b old s)
  then obtain u c closed where u: "cdata_step b old s = Some (u, c, closed)"
    by (auto simp: cdata_loop.simps[of b old s] bind_eq_Some_conv)
  then have "u = t \<or> (\<not> closed \<and> cdata_loop b c u = Some t)"
    using "1.prems" by (auto simp: cdata_loop.simps[of b old s] split: if_splits)
  then show ?case
    using "1.IH"[OF u refl refl] cdata_step_less[OF u] forward_less_forward forward_trans by blast
qed

definition processCDATA :: "pp \<Rightarrow> pp option" where
  "processCDATA s = do {
     inlineAllowed \<leftarrow> inline_allowed (inlineCdata (options s)) (oneLineCdata (options s))
       9 (CHR '']'') (CHR '']'') s;
     s \<leftarrow> open_markup inlineAllowed 9 s;
     s \<leftarrow> cdata_loop inlineAllowed (CHR ''['') s;
     s \<leftarrow> (if oneLineCdata (options s) then do {
         s \<leftarrow> rewind 2 s;
         s \<leftarrow> trim_out isWhite s;
         putCharsInBuffer '']]'' s }
       else Some s);
     finish_markup inlineAllowed s }"

lemma processCDATA_forward [adv]: "processCDATA s = Some t \<Longrightarrow> forward s t"
proof -
  assume "processCDATA s = Some t"
  then obtain b u v w where *: "open_markup b 9 s = Some u" "cdata_loop b (CHR ''['') u = Some v" "finish_markup b w = Some t"
    and w: "(if oneLineCdata (options v) then do {
         s \<leftarrow> rewind 2 v;
         s \<leftarrow> trim_out isWhite s;
         putCharsInBuffer '']]'' s } else Some v) = Some w"
    unfolding processCDATA_def by (clarsimp simp only: bind_eq_Some_conv)
  have "forward v w"
    using w by (auto simp: bind_eq_Some_conv dest!: adv split: if_splits intro: forward_trans)
  with * show ?thesis by (meson adv forward_trans forward_less_forward)
qed

subsection \<open>Document types\<close>

definition put_quoted :: "char \<Rightarrow> pp \<Rightarrow> pp option" where
  "put_quoted quote s = do {
     s \<leftarrow> putCharInBuffer quote s;
     (_, s) \<leftarrow> copy_until (\<lambda>c. c = quote) s;
     putCharInBuffer quote s }"

definition doctype_stop :: "char \<Rightarrow> bool" where
  "doctype_stop c \<longleftrightarrow> isWhite c \<or> isQuote c \<or> c = CHR ''='' \<or> c = CHR ''>'' \<or> c = CHR ''[''"

text \<open>One turn of the loop of \<open>processDoctype\<close>, and whether the loop goes on.\<close>

definition doctype_step :: "pp \<Rightarrow> (pp \<times> bool) option" where
  "doctype_step s = do {
     (_, s) \<leftarrow> readWhites True s;
     s \<leftarrow> putCharInBuffer (CHR '' '') s;
     (c, s) \<leftarrow> copy_until doctype_stop s;
     if isWhite c then Some (s, True)
     else if isQuote c then do { s \<leftarrow> put_quoted c s; Some (s, True) }
     else if c = CHR ''='' then do {
       s \<leftarrow> putCharInBuffer c s;
       (c, s) \<leftarrow> readNextChar s;
       if \<not> isQuote c then Some (fail PRETTY_PRINTING_INVALID_CHAR_ERROR s, False)
       else do { s \<leftarrow> put_quoted c s; Some (s, True) } }
     else if c = CHR ''>'' then do { s \<leftarrow> putCharInBuffer c s; Some (s, False) }
     else Some (fail PRETTY_PRINTING_NOT_SUPPORTED_YET s, False) }"

lemma put_quoted_forward [adv]: "put_quoted q s = Some t \<Longrightarrow> forward s t"
  by (auto simp: put_quoted_def bind_eq_Some_conv dest!: adv)
    (meson forward_less_forward forward_trans)

lemma doctype_step_less [adv]:
  assumes "doctype_step s = Some (t, b)"
  shows "forward_less s t"
proof -
  obtain n u v c w where *: "readWhites True s = Some (n, u)" "putCharInBuffer (CHR '' '') u = Some v"
    "copy_until doctype_stop v = Some (c, w)"
    using assms by (auto simp: doctype_step_def bind_eq_Some_conv)
  have sw: "forward_less s w"
    using readWhites_forward[OF *(1)] putCharInBuffer_forward[OF *(2)] copy_until_less[OF *(3)]
    by (meson forward_less_trans(2) forward_trans)
  have "forward w t"
  proof (cases "c = CHR ''='' \<and> \<not> isWhite c \<and> \<not> isQuote c")
    case True
    obtain x d y where x: "putCharInBuffer c w = Some x" "readNextChar x = Some (d, y)"
      using assms True unfolding doctype_step_def by (auto simp: * bind_eq_Some_conv split: if_splits)
    have "forward w y"
      using putCharInBuffer_forward[OF x(1)] readNextChar_less[OF x(2)] forward_less_forward forward_trans by blast
    moreover have "forward y t"
      using assms True x unfolding doctype_step_def
      by (auto simp: * bind_eq_Some_conv split: if_splits dest: put_quoted_forward)
    ultimately show ?thesis by (rule forward_trans)
  next
    case False
    then show ?thesis
      using assms unfolding doctype_step_def
      by (auto simp: * bind_eq_Some_conv split: if_splits dest: put_quoted_forward putCharInBuffer_forward)
  qed
  with sw show ?thesis by (rule forward_less_trans)
qed

function doctype_loop :: "pp \<Rightarrow> pp option" where
  "doctype_loop s = do {
     (s, more) \<leftarrow> doctype_step s;
     if more then doctype_loop s else Some s }"
  by pat_completeness auto
termination
  by (relation "measure (\<lambda>s. length (inputBuffer s) - ini s)") (auto dest!: doctype_step_less)

declare doctype_loop.simps [simp del]

lemma doctype_loop_forward [adv]: "doctype_loop s = Some t \<Longrightarrow> forward s t"
proof (induction s rule: doctype_loop.induct)
  case (1 s)
  then obtain u more where u: "doctype_step s = Some (u, more)"
    by (auto simp: doctype_loop.simps[of s] bind_eq_Some_conv)
  then have "u = t \<or> (more \<and> doctype_loop u = Some t)"
    using "1.prems" by (auto simp: doctype_loop.simps[of s] split: if_splits)
  then show ?case
    using "1.IH"[OF u refl] doctype_step_less[OF u] forward_less_forward forward_trans by blast
qed

definition processDoctype :: "pp \<Rightarrow> pp option" where
  "processDoctype s = do { s \<leftarrow> putNextCharsInBuffer 9 s; doctype_loop s }"

definition processDoctypeElement :: "pp \<Rightarrow> pp option" where
  "processDoctypeElement s = Some (fail PRETTY_PRINTING_NOT_SUPPORTED_YET s)"

lemma processDoctype_forward [adv]: "processDoctype s = Some t \<Longrightarrow> forward s t"
  by (auto simp: processDoctype_def bind_eq_Some_conv dest!: adv intro: forward_trans)

lemma processDoctypeElement_forward [adv]: "processDoctypeElement s = Some t \<Longrightarrow> forward s t"
  by (auto simp: processDoctypeElement_def)

subsection \<open>Nodes\<close>

definition tag_name_char :: "char \<Rightarrow> bool" where
  "tag_name_char c \<longleftrightarrow> \<not> isWhite c \<and> c \<noteq> CHR ''>'' \<and> c \<noteq> CHR ''/''"

definition putNodeName :: "pp \<Rightarrow> pp option" where
  "putNodeName s = do { name \<leftarrow> currentNodeName s; putCharsInBuffer name s }"

text \<open>\<open><name ... />\<close>\<close>

definition close_directly :: "pp \<Rightarrow> pp option" where
  "close_directly s = do {
     s \<leftarrow> (if emptyNodeStripping (options s) \<or> \<not> forceEmptyNodeSplit (options s)
       then do {
         s \<leftarrow> (if emptyNodeStrippingSpace (options s) then putCharInBuffer (CHR '' '') s else Some s);
         putNextCharsInBuffer 2 s }
       else do {
         (_, s) \<leftarrow> readNextChar s;
         (_, s) \<leftarrow> readNextChar s;
         s \<leftarrow> putCharInBuffer (CHR ''>'') s;
         s \<leftarrow> (if \<not> inlineText (options s) then putNewLine s else Some s);
         s \<leftarrow> putCharsInBuffer ''</'' s;
         s \<leftarrow> putNodeName s;
         putCharInBuffer (CHR ''>'') s });
     Some (s\<lparr>lastNodeOpen := False\<rparr>) }"

text \<open>A node without content: the closing tag that has just been copied is taken back.\<close>

definition strip_empty :: "nat \<Rightarrow> pp \<Rightarrow> pp option" where
  "strip_empty nodeNameLength s =
     (if emptyNodeStripping (options s) then do {
        s \<leftarrow> rewind (int nodeNameLength + 4) s;
        s \<leftarrow> resetBackwardIndentation True s;
        s \<leftarrow> (if emptyNodeStrippingSpace (options s) then putCharInBuffer (CHR '' '') s else Some s);
        putCharsInBuffer ''/>'' s }
      else if inlineText (options s) then do {
        s \<leftarrow> rewind (int nodeNameLength + 3) s;
        s \<leftarrow> resetBackwardIndentation True s;
        s \<leftarrow> putCharsInBuffer ''</'' s;
        s \<leftarrow> putNodeName s;
        putCharInBuffer (CHR ''>'') s }
      else Some s)"

text \<open>The tag of a node up to its end: the length of the name, \<^term>\<open>None\<close> when there is no memory for it.\<close>

definition open_tag :: "pp \<Rightarrow> (nat option \<times> pp) option" where
  "open_tag s = do {
     s \<leftarrow> putCharInBuffer (CHR ''<'') s;
     let start = ini s;
     s \<leftarrow> copy_while tag_name_char s;
     let n = ini s - start;
     if \<not> can_alloc s (n + 1) then Some (None, s)
     else if length (out s) < n then None
     else do {
       let s = s\<lparr>currentNodeName := Some (drop (length (out s) - n) (out s)), lastNodeOpen := True\<rparr>;
       (_, s) \<leftarrow> readWhites True s;
       s \<leftarrow> processElementAttributes s;
       Some (Some n, s) } }"

text \<open>What \<open>processElements\<close> does with a \<open><!\<close>, and whether it counts as an element.\<close>

definition processMarkup :: "pp \<Rightarrow> (bool \<times> pp) option" where
  "processMarkup s = do {
     oneMore \<leftarrow> peek 2 s;
     if oneMore = CHR ''-'' then map_option (Pair True) (processComment s)
     else if oneMore = CHR ''['' then map_option (Pair True) (processCDATA s)
     else if oneMore = CHR ''D'' then map_option (Pair True) (processDoctype s)
     else if oneMore = CHR ''E'' then map_option (Pair True) (processDoctypeElement s)
     else Some (False, fail PRETTY_PRINTING_INVALID_CHAR_ERROR s) }"

text \<open>
  The part of a turn of the loop of \<open>processElements\<close> that finds out what comes next: the new line, and
  \<open>indentBackward\<close>.
\<close>

datatype element = No_More_Data | Text_Node | Markup | Closing_Tag | Header | Node

definition next_element :: "pp \<Rightarrow> (element \<times> bool \<times> pp) option" where
  "next_element s = do {
     (_, s) \<leftarrow> readWhites True s;
     c \<leftarrow> getNextChar s;
     if c = NUL then Some (No_More_Data, False, s)
     else do {
       s \<leftarrow> (if appendIndentation s then putNewLine s else Some s);
       let indentBackward = appendIndentation s;
       let s = s\<lparr>appendIndentation := True\<rparr>;
       if c \<noteq> CHR ''<'' then Some (Text_Node, indentBackward, s)
       else do {
         c \<leftarrow> peek 1 s;
         Some (if c = CHR ''!'' then Markup else if c = CHR ''/'' then Closing_Tag
           else if c = CHR ''?'' then Header else Node, indentBackward, s) } } }"

text \<open>
  \<open>processElements\<close>, its loop and \<open>processNode\<close>. A \<open>NUL\<close> ends the loop without restoring the depth.
\<close>

fun processElements :: "nat \<Rightarrow> pp \<Rightarrow> (nat \<times> pp) option"
and elements_loop :: "nat \<Rightarrow> nat \<Rightarrow> pp \<Rightarrow> (nat \<times> pp) option"
and processNode :: "nat \<Rightarrow> pp \<Rightarrow> pp option" where
  "processElements 0 s = None"
| "processElements (Suc f) s = elements_loop f 0 (s\<lparr>currentDepth := currentDepth s + 1\<rparr>)"
| "elements_loop 0 counter s = None"
| "elements_loop (Suc f) counter s =
     (if result s \<noteq> PRETTY_PRINTING_SUCCESS then Some (counter, s\<lparr>currentDepth := currentDepth s - 1\<rparr>)
      else do {
        (e, indentBackward, s) \<leftarrow> next_element s;
        (case e of
           No_More_Data \<Rightarrow> Some (0, s)
         | Text_Node \<Rightarrow> do { s \<leftarrow> processTextNode s; elements_loop f (Suc counter) s }
         | Markup \<Rightarrow> do {
             (counts, s) \<leftarrow> processMarkup s;
             elements_loop f (if counts then Suc counter else counter) s }
         | Closing_Tag \<Rightarrow> do {
             s \<leftarrow> (if indentBackward then rewind (indentLength (options s)) s else Some s);
             Some (counter, s\<lparr>currentDepth := currentDepth s - 1\<rparr>) }
         | Header \<Rightarrow> do { s \<leftarrow> processHeader s; elements_loop f counter s }
         | Node \<Rightarrow> do { s \<leftarrow> processNode f s; elements_loop f (Suc counter) s }) })"
| "processNode 0 s = None"
| "processNode (Suc f) s = do {
     (opening, s) \<leftarrow> readNextChar s;
     if opening \<noteq> CHR ''<'' then Some (fail PRETTY_PRINTING_INVALID_CHAR_ERROR s)
     else do {
       (name, s) \<leftarrow> open_tag s;
       (case name of
          None \<Rightarrow> Some s
        | Some nodeNameLength \<Rightarrow> do {
            c \<leftarrow> getNextChar s;
            if c = CHR ''/'' then close_directly s
            else if c = CHR ''>'' then do {
              s \<leftarrow> putNextCharsInBuffer 1 s;
              (subElementsProcessed, s) \<leftarrow> processElements f s;
              c \<leftarrow> getNextChar s;
              if c \<noteq> CHR ''<'' then Some (fail PRETTY_PRINTING_INVALID_CHAR_ERROR s)
              else do {
                s \<leftarrow> copy_through (CHR ''>'') s;
                s \<leftarrow> (if subElementsProcessed = 0 then strip_empty nodeNameLength s else Some s);
                Some (s\<lparr>lastNodeOpen := False, currentNodeName := None\<rparr>) } }
            else Some (fail PRETTY_PRINTING_INVALID_CHAR_ERROR s) }) } }"

subsection \<open>The entry point\<close>

definition pp_start :: "(nat \<Rightarrow> bool) \<Rightarrow> block \<Rightarrow> nat \<Rightarrow> pp_options \<Rightarrow> pp" where
  "pp_start alloc xml xml_length opts =
     \<lparr>result = PRETTY_PRINTING_SUCCESS, out = [], out_alloc = xml_length,
      xmlPrettyPrintedLength = xml_length, inputBuffer = xml, inputBufferLength = xml_length, ini = 0,
      currentDepth = -1, currentNodeName = None, appendIndentation = False, lastNodeOpen = False,
      options = opts, can_alloc = alloc\<rparr>"

text \<open>Twice the length of the input is more than the recursion needs.\<close>

definition pp_fuel :: "block \<Rightarrow> nat" where
  "pp_fuel xml = 2 * length xml + 4"

definition processXMLPrettyPrinting ::
  "(nat \<Rightarrow> bool) \<Rightarrow> block option \<Rightarrow> nat \<Rightarrow> pp_options option \<Rightarrow> (pp_code \<times> (block \<times> int) option) option" where
  "processXMLPrettyPrinting alloc xml xml_length ppOptions =
     (case xml of
        None \<Rightarrow> Some (PRETTY_PRINTING_EMPTY_XML, None)
      | Some xml \<Rightarrow>
          if xml_length = 0 then Some (PRETTY_PRINTING_EMPTY_XML, None)
          else if \<not> alloc xml_length then Some (PRETTY_PRINTING_SYSTEM_ERROR, None)
          else do {
            let opts = (case ppOptions of Some ppOptions \<Rightarrow> ppOptions
              | None \<Rightarrow> createDefaultPrettyPrintingOptions);
            (_, s) \<leftarrow> readWhites True (pp_start alloc xml xml_length opts);
            (_, s) \<leftarrow> processElements (pp_fuel xml) s;
            s \<leftarrow> putCharInBuffer NUL s;
            if out s = [] then None
            else if \<not> alloc (length (out s)) then Some (PRETTY_PRINTING_SYSTEM_ERROR, None)
            else if result s = PRETTY_PRINTING_SUCCESS
            then Some (PRETTY_PRINTING_SUCCESS, Some (out s, int (length (out s)) - 2))
            else Some (result s, None) })"

end
