(* ===== verification/PpLayout.thy ===== *)
theory PpLayout
  imports PpModel
begin

text \<open>
  What the pretty printer does with documents of nested elements, whatever whites they were written
  with: it prints the layout of the document.
\<close>

subsection \<open>Running on memory that never runs out\<close>

text \<open>The input that is left.\<close>

definition rest :: "pp \<Rightarrow> string" where
  "rest s = drop (ini s) (inputBuffer s)"

text \<open>From \<open>s\<close> to \<open>t\<close> the bytes \<open>xs\<close> are written and \<open>n\<close> bytes are read; nothing else changes.\<close>

definition ran :: "pp \<Rightarrow> string \<Rightarrow> nat \<Rightarrow> pp \<Rightarrow> bool" where
  "ran s xs n t \<longleftrightarrow> ready t \<and> out t = out s @ xs \<and> ini t = ini s + n \<and>
     inputBuffer t = inputBuffer s \<and> options t = options s \<and>
     result t = result s \<and> currentDepth t = currentDepth s \<and> appendIndentation t = appendIndentation s \<and>
     lastNodeOpen t = lastNodeOpen s"

definition goes :: "pp \<Rightarrow> string \<Rightarrow> nat \<Rightarrow> pp option \<Rightarrow> bool" where
  "goes s xs n m \<longleftrightarrow> (\<exists>t. m = Some t \<and> ran s xs n t)"

lemma ranD:
  assumes "ran s xs n t"
  shows "ready t" "out t = out s @ xs" "rest t = drop n (rest s)" "options t = options s"
    "result t = result s" "currentDepth t = currentDepth s" "appendIndentation t = appendIndentation s"
    "lastNodeOpen t = lastNodeOpen s" "inputBuffer t = inputBuffer s" "ini t = ini s + n"
  using assms by (simp_all add: ran_def rest_def add.commute)

lemma ran_refl: "ready s \<Longrightarrow> ran s [] 0 s"
  by (simp add: ran_def)

lemma ran_trans: "ran s xs n t \<Longrightarrow> ran t ys k u \<Longrightarrow> ran s (xs @ ys) (n + k) u"
  by (simp add: ran_def)

lemma rest_fields [simp]:
  "rest (s\<lparr>currentNodeName := x\<rparr>) = rest s" "rest (s\<lparr>lastNodeOpen := b\<rparr>) = rest s"
  "rest (s\<lparr>appendIndentation := b\<rparr>) = rest s" "rest (s\<lparr>currentDepth := d\<rparr>) = rest s"
  "rest (s\<lparr>out := o'\<rparr>) = rest s"
  by (simp_all add: rest_def)

lemma goes_Some: "ran s xs n t \<Longrightarrow> goes s xs n (Some t)"
  by (simp add: goes_def)

lemma goes_bind:
  assumes "goes s xs n m" "\<And>t. ran s xs n t \<Longrightarrow> goes t ys k (f t)"
  shows "goes s (xs @ ys) (n + k) (Option.bind m f)"
  using assms ran_trans unfolding goes_def by fastforce

lemma goes_after: "ran s xs n t \<Longrightarrow> goes t ys k m \<Longrightarrow> goes s (xs @ ys) (n + k) m"
  using ran_trans unfolding goes_def by blast

lemma goes_put: "ready s \<Longrightarrow> goes s [c] 0 (putCharInBuffer c s)"
  by (auto simp: goes_def ran_def ready_def putCharInBuffer_def Let_def)

lemma goes_foldM_put: "ready s \<Longrightarrow> goes s cs 0 (foldM putCharInBuffer cs s)"
proof (induction cs arbitrary: s)
  case Nil
  then show ?case by (simp add: goes_Some ran_refl)
next
  case (Cons c cs)
  have "goes s ([c] @ cs) (0 + 0) (Option.bind (putCharInBuffer c s) (foldM putCharInBuffer cs))"
    by (rule goes_bind[OF goes_put[OF Cons.prems]]) (rule Cons.IH[OF ranD(1)])
  then show ?case by simp
qed

lemma goes_puts: "ready s \<Longrightarrow> NUL \<notin> set cs \<Longrightarrow> goes s cs 0 (putCharsInBuffer cs s)"
proof -
  assume "ready s" "NUL \<notin> set cs"
  moreover from this have "takeWhile (\<lambda>c. c \<noteq> NUL) cs = cs" by (auto simp: takeWhile_eq_all_conv)
  ultimately show ?thesis using goes_foldM_put by (simp only: putCharsInBuffer_def)
qed

definition newline :: "pp_options \<Rightarrow> int \<Rightarrow> string" where
  "newline opts d = newLineChars opts @ replicate (nat (d * indentLength opts)) (indentChar opts)"

definition options_ok :: "pp_options \<Rightarrow> bool" where
  "options_ok opts \<longleftrightarrow> NUL \<notin> set (newLineChars opts) \<and> 0 \<le> indentLength opts"

lemma goes_putNewLine:
  assumes "ready s" "options_ok (options s)"
  shows "goes s (newline (options s) (currentDepth s)) 0 (putNewLine s)"
proof -
  have "goes s (newLineChars (options s) @ replicate (nat (currentDepth s * indentLength (options s)))
      (indentChar (options s))) (0 + 0) (putNewLine s)"
    unfolding putNewLine_def
  proof (rule goes_bind)
    show "goes s (newLineChars (options s)) 0 (putCharsInBuffer (newLineChars (options s)) s)"
      using assms by (intro goes_puts) (auto simp: options_ok_def)
    show "goes t (replicate (nat (currentDepth s * indentLength (options s))) (indentChar (options s))) 0
        (foldM putCharInBuffer (replicate (nat (currentDepth t * indentLength (options t))) (indentChar (options t))) t)"
      if "ran s (newLineChars (options s)) 0 t" for t
      using ranD[OF that] goes_foldM_put by simp
  qed
  then show ?thesis by (simp add: newline_def)
qed

text \<open>Taking back what has been written.\<close>

lemma rewind_out:
  assumes "out s = xs @ ys" "ready s"
  shows "rewind (int (length ys)) s = Some (s\<lparr>out := xs\<rparr>)" "ready (s\<lparr>out := xs\<rparr>)"
  using assms by (simp_all add: rewind_def ready_def)

lemma reset_newline:
  assumes "out s = xs @ newline (options s) (currentDepth s)" "ready s" "options_ok (options s)" "0 \<le> currentDepth s"
  shows "resetBackwardIndentation True s = Some (s\<lparr>out := xs\<rparr>)" "ready (s\<lparr>out := xs\<rparr>)"
proof -
  let ?n = "nat (currentDepth s * indentLength (options s))"
  have n: "int (length (replicate ?n (indentChar (options s)))) = currentDepth s * indentLength (options s)"
    using assms by (simp add: options_ok_def)
  have o: "out s = (xs @ newLineChars (options s)) @ replicate ?n (indentChar (options s))"
    using assms by (simp add: newline_def)
  have t: "takeWhile (\<lambda>c. c \<noteq> NUL) (newLineChars (options s)) = newLineChars (options s)"
    using assms by (auto simp: options_ok_def takeWhile_eq_all_conv)
  let ?t = "s\<lparr>out := xs @ newLineChars (options s)\<rparr>"
  note r = rewind_out[OF o assms(2)]
  have "rewind (currentDepth s * indentLength (options s)) s = Some ?t" using r(1) n by metis
  moreover have "rewind (int (length (newLineChars (options s)))) ?t = Some (?t\<lparr>out := xs\<rparr>)"
    by (rule rewind_out(1)[OF _ r(2)]) simp
  ultimately show "resetBackwardIndentation True s = Some (s\<lparr>out := xs\<rparr>)"
    unfolding resetBackwardIndentation_def by (simp only: Option.bind.simps if_True) (simp add: t del: takeWhile_eq_all_conv)
  show "ready (s\<lparr>out := xs\<rparr>)" using assms(2) o by (simp add: ready_def)
qed

text \<open>Reading.\<close>

lemma getNextChar_rest: "rest s = c # r \<Longrightarrow> getNextChar s = Some c"
  by (simp add: rest_def getNextChar_def blk)

lemma peek_rest: "k < length (rest s) \<Longrightarrow> peek k s = Some (rest s ! k)"
  by (auto simp: peek_def rest_def rd_def)

lemma ran_read: "ready s \<Longrightarrow> ran s [] k (s\<lparr>ini := ini s + k\<rparr>)"
  by (simp add: ran_def ready_def)

lemma readNextChar_rest: "rest s = c # r \<Longrightarrow> readNextChar s = Some (c, s\<lparr>ini := ini s + 1\<rparr>)"
  using getNextChar_rest[of s c r] by (simp add: readNextChar_def getNextChar_def)

lemma goes_putNext: "rest s = c # r \<Longrightarrow> ready s \<Longrightarrow> goes s [c] 1 (putNextChar s)"
  using goes_after[OF ran_read[of s 1] goes_put[of "s\<lparr>ini := ini s + 1\<rparr>" c]]
  by (simp add: putNextChar_def readNextChar_rest ready_def)

lemma goes_putNextChars: "rest s = xs @ r \<Longrightarrow> ready s \<Longrightarrow> goes s xs (length xs) (putNextCharsInBuffer (length xs) s)"
proof (induction xs arbitrary: s)
  case Nil
  then show ?case by (simp add: goes_Some ran_refl)
next
  case (Cons c xs)
  have "goes s ([c] @ xs) (1 + length xs) (Option.bind (putNextChar s) (putNextCharsInBuffer (length xs)))"
  proof (rule goes_bind)
    show "goes s [c] 1 (putNextChar s)" using Cons.prems by (intro goes_putNext) simp_all
    show "goes t xs (length xs) (putNextCharsInBuffer (length xs) t)" if "ran s [c] 1 t" for t
      using Cons.IH[of t] ranD[OF that] Cons.prems by simp
  qed
  then show ?case by simp
qed

lemma skip_input_rest:
  assumes "rest s = xs @ c # r" "\<forall>x\<in>set xs. P x" "\<not> P c"
  shows "skip_input P s = Some (length xs, s\<lparr>ini := ini s + length xs\<rparr>)"
  using skip_while_rest[of "ini s" "inputBuffer s" xs c r P] assms by (simp add: skip_input_def rest_def)

lemma readWhites_rest:
  assumes "rest s = w @ c # r" "\<forall>x\<in>set w. isWhite x" "\<not> isWhite c"
  shows "readWhites True s = Some (length w, s\<lparr>ini := ini s + length w\<rparr>)"
  using skip_input_rest[OF assms(1), of "\<lambda>c. isWhite c \<and> (\<not> isLineBreak c \<or> True)"] assms(2,3)
  by (simp add: readWhites_def)

lemma copy_until_rest:
  assumes "rest s = xs @ c # r" "\<forall>x\<in>set xs. \<not> P x" "P c" "ready s"
  shows "\<exists>t. copy_until P s = Some (c, t) \<and> ran s xs (length xs + 1) t"
  using assms
proof (induction xs arbitrary: s)
  case Nil
  then show ?case
    using ran_read[of s 1] by (simp add: copy_until.simps[of P s] readNextChar_rest[of s c r])
next
  case (Cons x xs)
  then obtain u where u: "putNextChar s = Some u" "ran s [x] 1 u"
    using goes_putNext[of s x] by (auto simp: goes_def)
  then obtain v where "putCharInBuffer x (s\<lparr>ini := ini s + 1\<rparr>) = Some u"
    using Cons.prems by (simp add: putNextChar_def readNextChar_rest[of s x])
  moreover obtain t where "copy_until P u = Some (c, t)" "ran u xs (length xs + 1) t"
    using Cons.IH[of u] Cons.prems ranD[OF u(2)] by auto
  ultimately show ?case
    using ran_trans[OF u(2)] Cons.prems
    by (fastforce simp: copy_until.simps[of P s] readNextChar_rest[of s x])
qed

lemma copy_while_rest:
  assumes "rest s = xs @ c # r" "\<forall>x\<in>set xs. P x" "\<not> P c" "ready s"
  shows "goes s xs (length xs) (copy_while P s)"
  using assms
proof (induction xs arbitrary: s)
  case Nil
  then show ?case by (simp add: copy_while.simps[of P s] getNextChar_rest[of s c r] goes_Some ran_refl)
next
  case (Cons x xs)
  have "goes s ([x] @ xs) (1 + length xs) (Option.bind (putNextChar s) (copy_while P))"
  proof (rule goes_bind)
    show "goes s [x] 1 (putNextChar s)" using Cons.prems by (intro goes_putNext) simp_all
    show "goes t xs (length xs) (copy_while P t)" if "ran s [x] 1 t" for t
      using Cons.IH[of t] ranD[OF that] Cons.prems by simp
  qed
  then show ?case using Cons.prems by (simp add: copy_while.simps[of P s] getNextChar_rest[of s x])
qed

lemma copy_through_rest:
  assumes "rest s = xs @ c # r" "c \<notin> set xs" "ready s"
  shows "goes s (xs @ [c]) (length xs + 1) (copy_through c s)"
  using assms
proof (induction xs arbitrary: s)
  case Nil
  then have "goes s [c] 1 (putNextChar s)" by (intro goes_putNext) simp_all
  then show ?case
    using Nil by (auto simp: copy_through.simps[of c s] putNextChar_def readNextChar_rest[of s c r] goes_def)
next
  case (Cons x xs)
  have "goes s ([x] @ (xs @ [c])) (1 + (length xs + 1)) (Option.bind (putNextChar s) (copy_through c))"
  proof (rule goes_bind)
    show "goes s [x] 1 (putNextChar s)" using Cons.prems by (intro goes_putNext) simp_all
    show "goes t (xs @ [c]) (length xs + 1) (copy_through c t)" if "ran s [x] 1 t" for t
      using Cons.IH[of t] ranD[OF that] Cons.prems by simp
  qed
  moreover have "x \<noteq> c" using Cons.prems by auto
  ultimately show ?case
    using Cons.prems by (simp add: copy_through.simps[of c s] putNextChar_def readNextChar_rest[of s x])
qed

subsection \<open>Documents\<close>

text \<open>
  The documents the layout is stated for: elements with attributes that are empty, hold one line of
  text, or hold elements.
\<close>

type_synonym attr = "string \<times> char \<times> string"

datatype xml = Leaf string "attr list" | Text string "attr list" string | Parent string "attr list" "xml list"

fun attr_text :: "attr \<Rightarrow> string" where
  "attr_text (n, q, v) = n @ CHR ''='' # q # v @ [q]"

fun attr_ok :: "attr \<Rightarrow> bool" where
  "attr_ok (n, q, v) \<longleftrightarrow> n \<noteq> [] \<and> CHR ''='' \<notin> set n \<and> \<not> isWhite (hd n) \<and>
     hd n \<notin> {CHR ''/'', CHR ''>'', CHR ''?''} \<and> q \<notin> set v"

definition attrs_text :: "attr list \<Rightarrow> string" where
  "attrs_text as = concat (map (\<lambda>a. CHR '' '' # attr_text a) as)"

definition white :: "string \<Rightarrow> bool" where
  "white w \<longleftrightarrow> (\<forall>c\<in>set w. isWhite c)"

text \<open>The ways to write a list of attributes: any whites in front of each and behind the last.\<close>

inductive writes_attrs :: "attr list \<Rightarrow> string \<Rightarrow> bool" where
  no_attrs: "white w \<Longrightarrow> writes_attrs [] w"
| more_attrs: "white w \<Longrightarrow> w \<noteq> [] \<Longrightarrow> attr_ok a \<Longrightarrow> writes_attrs as s \<Longrightarrow>
     writes_attrs (a # as) (w @ attr_text a @ s)"

lemma goes_attribute:
  assumes "rest s = attr_text a @ r" "attr_ok a" "ready s"
  shows "goes s (attr_text a) (length (attr_text a)) (processElementAttribute s)"
proof -
  obtain n q v where a: "a = (n, q, v)" by (cases a)
  have r: "rest s = n @ CHR ''='' # q # v @ q # r" using assms(1) a by simp
  have ok: "CHR ''='' \<notin> set n" "q \<notin> set v" using assms(2) a by auto
  obtain t where t: "copy_until (\<lambda>c. c = CHR ''='') s = Some (CHR ''='', t)" "ran s n (length n + 1) t"
    using copy_until_rest[OF r, of "\<lambda>c. c = CHR ''=''"] ok assms(3) by auto
  obtain u where u: "putCharInBuffer (CHR ''='') t = Some u" "ran t [CHR ''=''] 0 u"
    using goes_put[OF ranD(1)[OF t(2)]] by (auto simp: goes_def)
  have su: "ran s (n @ [CHR ''='']) (length n + 1) u" using ran_trans[OF t(2) u(2)] by simp
  have ru: "rest u = q # v @ q # r" using ranD(3)[OF su] r by simp
  obtain w where w: "putNextChar u = Some w" "ran u [q] 1 w"
    using goes_putNext[OF ru ranD(1)[OF su]] by (auto simp: goes_def)
  have sw: "ran s (n @ [CHR ''='', q]) (length n + 2) w" using ran_trans[OF su w(2)] by simp
  have rw: "rest w = v @ q # r" using ranD(3)[OF w(2)] ru by simp
  obtain x where x: "copy_until (\<lambda>c. c = q) w = Some (q, x)" "ran w v (length v + 1) x"
    using copy_until_rest[OF rw, of "\<lambda>c. c = q"] ok ranD(1)[OF sw] by auto
  obtain y where y: "putCharInBuffer q x = Some y" "ran x [q] 0 y"
    using goes_put[OF ranD(1)[OF x(2)]] by (auto simp: goes_def)
  have "ran s (attr_text a) (length (attr_text a)) y"
    using ran_trans[OF sw ran_trans[OF x(2) y(2)]] a by simp
  moreover have "processElementAttribute s = Some y"
    using t(1) u(1) w(1) x(1) y(1) by (simp add: processElementAttribute_def putNextChar_def readNextChar_rest[OF ru])
  ultimately show ?thesis by (simp add: goes_def)
qed

lemma goes_attributes:
  assumes "writes_attrs as w" "rest s = w @ c # r" "c \<in> {CHR ''/'', CHR ''>''}" "ready s"
  shows "goes s (attrs_text as) (length w) (attributes_loop s)"
  using assms
proof (induction as w arbitrary: s rule: writes_attrs.induct)
  case (no_attrs w)
  then have c: "\<not> isWhite c" by (auto simp: isWhite_def isSpace_def isLineBreak_def)
  let ?t = "s\<lparr>ini := ini s + length w\<rparr>"
  have m: "ran s [] (length w) ?t" using no_attrs by (intro ran_read)
  have g: "getNextChar ?t = Some c" by (rule getNextChar_rest) (use ranD(3)[OF m] no_attrs in simp)
  have "attributes_loop s = Some ?t"
    using no_attrs readWhites_rest[of s w c r] c g
    by (auto simp: attributes_loop.simps[of s] white_def)
  then show ?case using m by (simp add: goes_Some attrs_text_def)
next
  case (more_attrs w a as w')
  obtain d n' q v where a: "a = (d # n', q, v)" "\<not> isWhite d" "d \<notin> {CHR ''/'', CHR ''>'', CHR ''?''}"
    using more_attrs(3) by (cases a; cases "fst a") auto
  let ?t = "s\<lparr>ini := ini s + length w\<rparr>"
  have rd: "rest s = w @ d # (n' @ CHR ''='' # q # v @ q # w' @ c # r)" using more_attrs(6) a by simp
  have m: "ran s [] (length w) ?t" using more_attrs(8) by (intro ran_read)
  have rt: "rest ?t = attr_text a @ w' @ c # r" using ranD(3)[OF m] more_attrs(6) by simp
  have g: "getNextChar ?t = Some d" by (rule getNextChar_rest) (use rt a in simp)
  have eq: "attributes_loop s = do { u \<leftarrow> putCharInBuffer (CHR '' '') ?t; u \<leftarrow> processElementAttribute u; attributes_loop u }"
    using readWhites_rest[OF rd _ a(2)] more_attrs(1) g a(3)
    by (auto simp: attributes_loop.simps[of s] white_def)
  have "goes ?t ([CHR '' ''] @ attr_text a @ attrs_text as) (0 + (length (attr_text a) + length w'))
    (do { u \<leftarrow> putCharInBuffer (CHR '' '') ?t; u \<leftarrow> processElementAttribute u; attributes_loop u })"
  proof (intro goes_bind)
    show "goes ?t [CHR '' ''] 0 (putCharInBuffer (CHR '' '') ?t)" by (rule goes_put[OF ranD(1)[OF m]])
    fix u assume u: "ran ?t [CHR '' ''] 0 u"
    show "goes u (attr_text a) (length (attr_text a)) (processElementAttribute u)"
      using ranD[OF u] rt more_attrs(3) by (intro goes_attribute) simp_all
    fix x assume x: "ran u (attr_text a) (length (attr_text a)) x"
    show "goes x (attrs_text as) (length w') (attributes_loop x)"
      using ranD[OF x] ranD[OF u] rt more_attrs(7) by (intro more_attrs.IH) simp_all
  qed
  from goes_after[OF m this] show ?case by (simp add: eq attrs_text_def add.assoc)
qed

lemma attributes_loop_whites:
  assumes "rest s = w @ d # r" "white w" "\<not> isWhite d"
  shows "attributes_loop (s\<lparr>ini := ini s + length w\<rparr>) = attributes_loop s"
proof -
  let ?t = "s\<lparr>ini := ini s + length w\<rparr>"
  have "rest ?t = [] @ d # r" using assms(1) by (simp add: rest_def) (metis append_eq_conv_conj drop_drop add.commute)
  from readWhites_rest[OF this] readWhites_rest[OF assms(1)] assms(2,3)
  show ?thesis by (simp add: attributes_loop.simps[of ?t] attributes_loop.simps[of s] white_def)
qed

definition name_ok :: "string \<Rightarrow> bool" where
  "name_ok n \<longleftrightarrow> n \<noteq> [] \<and> (\<forall>c\<in>set n. tag_name_char c) \<and> hd n \<notin> {CHR ''!'', CHR ''?''}"

definition tag_text :: "string \<Rightarrow> attr list \<Rightarrow> string" where
  "tag_text n as = CHR ''<'' # n @ attrs_text as"

lemma writes_attrs_split:
  fixes r :: string
  assumes "writes_attrs as w" "c \<in> {CHR ''/'', CHR ''>''}"
  obtains w1 d r' where "w @ c # r = w1 @ d # r'" "white w1" "\<not> isWhite d"
    "w1 = [] \<Longrightarrow> w = []"
proof -
  have c: "\<not> isWhite c" using assms(2) by (auto simp: isWhite_def isSpace_def isLineBreak_def)
  let ?w1 = "takeWhile isWhite (w @ [c])" and ?r = "dropWhile isWhite (w @ [c])"
  have r: "?r \<noteq> []" using c by (simp add: dropWhile_append)
  have "w @ c # r = ?w1 @ hd ?r # (tl ?r @ r)"
    using takeWhile_dropWhile_id[of isWhite "w @ [c]"] r by (metis append.assoc append_Cons append_Nil list.collapse)
  moreover have "white ?w1" by (auto simp: white_def dest: set_takeWhileD)
  moreover have "\<not> isWhite (hd ?r)" using hd_dropWhile[OF r] .
  moreover have "w = []" if "?w1 = []"
    using assms(1) that by cases (auto simp: white_def neq_Nil_conv split: if_splits)
  ultimately show ?thesis using that by blast
qed

lemma white_not_name: "isWhite c \<Longrightarrow> \<not> tag_name_char c"
  by (simp add: tag_name_char_def)

lemma goes_open_tag:
  assumes "rest s = n @ w @ c # r" "name_ok n" "writes_attrs as w" "c \<in> {CHR ''/'', CHR ''>''}" "ready s"
  shows "\<exists>t. open_tag s = Some (Some (length n), t) \<and>
    ran (s\<lparr>lastNodeOpen := True\<rparr>) (tag_text n as) (length n + length w) t"
proof -
  obtain w1 d r' where d: "w @ c # r = w1 @ d # r'" "white w1" "\<not> isWhite d" "w1 = [] \<Longrightarrow> w = []"
    using writes_attrs_split[OF assms(3,4), of r] by blast
  obtain e r2 where e: "w @ c # r = e # r2" "\<not> tag_name_char e"
  proof (cases w1)
    case Nil
    then show ?thesis using that[of c r] d assms(4) by (auto simp: tag_name_char_def)
  next
    case (Cons x xs)
    then show ?thesis using that[of x "xs @ d # r'"] d by (simp add: white_not_name white_def)
  qed
  obtain u1 where u1: "putCharInBuffer (CHR ''<'') s = Some u1" "ran s [CHR ''<''] 0 u1"
    using goes_put[OF assms(5)] by (auto simp: goes_def)
  have r1: "rest u1 = n @ e # r2" using ranD(3)[OF u1(2)] assms(1) e(1) by simp
  obtain u2 where u2: "copy_while tag_name_char u1 = Some u2" "ran u1 n (length n) u2"
    using copy_while_rest[OF r1, of tag_name_char] e(2) ranD(1)[OF u1(2)] assms(2) by (auto simp: goes_def name_ok_def)
  note s2 = ran_trans[OF u1(2) u2(2)]
  let ?u3 = "u2\<lparr>currentNodeName := Some n, lastNodeOpen := True\<rparr>"
  have m3: "ran (s\<lparr>lastNodeOpen := True\<rparr>) (CHR ''<'' # n) (length n) ?u3"
    using s2 by (simp add: ran_def)
  have r3: "rest ?u3 = w @ c # r" using ranD(3)[OF m3] assms(1) by simp
  have g: "getNextChar (?u3\<lparr>ini := ini ?u3 + length w1\<rparr>) = Some d"
    by (rule getNextChar_rest[of _ _ r']) (use ranD(3)[OF ran_read[OF ranD(1)[OF m3], of "length w1"]] r3 d in simp)
  have wh: "readWhites True ?u3 = Some (length w1, ?u3\<lparr>ini := ini ?u3 + length w1\<rparr>)"
    by (rule readWhites_rest[OF _ _ d(3)]) (use r3 d in \<open>auto simp: white_def\<close>)
  have at: "processElementAttributes (?u3\<lparr>ini := ini ?u3 + length w1\<rparr>) = attributes_loop ?u3"
    using attributes_loop_whites[of ?u3, OF _ d(2,3)] r3 d g by (simp add: processElementAttributes_def)
  obtain t where t: "attributes_loop ?u3 = Some t" "ran ?u3 (attrs_text as) (length w) t"
    using goes_attributes[OF assms(3) r3 assms(4) ranD(1)[OF m3]] by (auto simp: goes_def)
  have name: "drop (length (out u2) - length n) (out u2) = n" "length n \<le> length (out u2)"
    using ranD(2)[OF s2] by simp_all
  have len: "ini u2 - ini u1 = length n" using ranD(10)[OF u2(2)] by simp
  have alloc: "can_alloc u2 (length n + 1)" using ranD(1)[OF s2] by (simp add: ready_def)
  have "open_tag s = Some (Some (length n), t)"
    unfolding open_tag_def using u1(1) u2(1) name len alloc wh at t(1)
    by (simp add: Let_def not_less)
  moreover have "ran (s\<lparr>lastNodeOpen := True\<rparr>) (tag_text n as) (length n + length w) t"
    using ran_trans[OF m3 t(2)] by (simp add: tag_text_def)
  ultimately show ?thesis by blast
qed

subsection \<open>Text\<close>

definition text_ok :: "string \<Rightarrow> bool" where
  "text_ok t \<longleftrightarrow> t \<noteq> [] \<and> (\<forall>c\<in>set t. c \<noteq> CHR ''<'' \<and> \<not> isLineBreak c) \<and>
     \<not> isWhite (hd t) \<and> hd t \<noteq> NUL \<and> \<not> isSpace (last t)"

lemma goes_text_loop:
  assumes "rest s = xs @ CHR ''<'' # r" "\<forall>c\<in>set xs. c \<noteq> CHR ''<'' \<and> \<not> isLineBreak c" "ready s"
  shows "goes s xs (length xs) (text_loop s)"
  using assms
proof (induction xs arbitrary: s)
  case Nil
  then show ?case by (simp add: text_loop.simps[of s] getNextChar_rest[of s _ r] goes_Some ran_refl)
next
  case (Cons x xs)
  have step: "text_step s = putNextChar s"
    using Cons.prems by (simp add: text_step_def putNextChar_def readNextChar_rest[of s x])
  have "goes s ([x] @ xs) (1 + length xs) (Option.bind (text_step s) text_loop)"
  proof (rule goes_bind)
    show "goes s [x] 1 (text_step s)" unfolding step using Cons.prems by (intro goes_putNext) simp_all
    show "goes t xs (length xs) (text_loop t)" if "ran s [x] 1 t" for t
      using Cons.IH[of t] ranD[OF that] Cons.prems by simp
  qed
  then show ?case using Cons.prems by (simp add: text_loop.simps[of s] getNextChar_rest[of s x])
qed

lemma text_single_line:
  assumes "drop i b = xs @ CHR ''<'' # c # r" "\<forall>c\<in>set xs. c \<noteq> CHR ''<'' \<and> \<not> isLineBreak c"
  shows "single_line (CHR ''<'') (CHR ''/'') b i = Some True"
  using assms
proof (induction xs arbitrary: i)
  case Nil
  then show ?case using drop_Suc_rest[of i b] by (simp add: single_line.simps[of _ _ b i] blk)
next
  case (Cons x xs)
  then have d: "drop (Suc i) b = xs @ CHR ''<'' # c # r" using drop_Suc_rest[of i b] by simp
  then obtain y where y: "rd b (Suc i) = Some y" by (cases xs) (auto dest: rd_drop)
  have "rd b i = Some x" using Cons.prems rd_drop[of i b x] by simp
  then show ?case
    using Cons.IH[OF d] Cons.prems(2) y by (simp add: single_line.simps[of _ _ b i])
qed

lemma text_inline:
  assumes "rest s = xs @ ''</'' @ r" "xs \<noteq> []" "\<forall>c\<in>set xs. c \<noteq> CHR ''<'' \<and> \<not> isLineBreak c" "lastNodeOpen s"
  shows "inline_allowed True b 0 (CHR ''<'') (CHR ''/'') s = Some True"
proof -
  obtain x xs' where xs: "xs = x # xs'" using assms(2) by (cases xs) auto
  have d: "drop (Suc (ini s)) (inputBuffer s) = xs' @ CHR ''<'' # CHR ''/'' # r"
    using assms(1) xs drop_Suc_rest[of "ini s" "inputBuffer s" x] by (simp add: rest_def)
  have sk: "skip_while (\<lambda>c. c \<noteq> CHR ''<'') (inputBuffer s) (Suc (ini s)) = Some (Suc (ini s) + length xs')"
    by (rule skip_while_rest[OF d]) (use assms(3) xs in auto)
  have e: "drop (Suc (ini s) + length xs') (inputBuffer s) = CHR ''<'' # CHR ''/'' # r"
    using drop_rest[OF d refl] .
  have reads: "rd (inputBuffer s) (Suc (ini s) + length xs') = Some (CHR ''<'')"
    "rd (inputBuffer s) (Suc (Suc (ini s) + length xs')) = Some (CHR ''/'')"
    using rd_drop[OF e] rd_drop[OF drop_Suc_rest[OF e]] by auto
  have len: "1 < length (rest s)" "2 < length (rest s)" using assms(1) xs by simp_all
  have x: "getNextChar s = Some x" using getNextChar_rest[of s x] assms(1) xs by simp
  obtain a b where p: "peek 1 s = Some a" "peek 2 s = Some b"
    using peek_rest[OF len(1)] peek_rest[OF len(2)] by blast
  have "isInlineNodeAllowed s = Some True"
    using assms(3,4) xs unfolding isInlineNodeAllowed_def by (simp add: p[simplified] x sk reads[simplified])
  moreover have "isOnSingleLine 0 (CHR ''<'') (CHR ''/'') s = Some True"
    unfolding isOnSingleLine_def by (rule text_single_line) (use assms in \<open>auto simp: rest_def\<close>)
  ultimately show ?thesis by (simp add: inline_allowed_def)
qed

subsection \<open>The layout\<close>

fun layout :: "pp_options \<Rightarrow> int \<Rightarrow> xml \<Rightarrow> string" where
  "layout opts d (Leaf n as) =
     tag_text n as @ (if emptyNodeStrippingSpace opts then '' '' else []) @ ''/>''"
| "layout opts d (Text n as t) = tag_text n as @ ''>'' @ t @ ''</'' @ n @ ''>''"
| "layout opts d (Parent n as ks) = tag_text n as @ ''>'' @
     concat (map (\<lambda>k. newline opts (d + 1) @ layout opts (d + 1) k) ks) @
     newline opts d @ ''</'' @ n @ ''>''"

text \<open>The ways to write a document.\<close>

definition spaces :: "string \<Rightarrow> bool" where
  "spaces w \<longleftrightarrow> (\<forall>c\<in>set w. isSpace c)"

inductive writes :: "xml \<Rightarrow> string \<Rightarrow> bool" and writes_list :: "xml list \<Rightarrow> string \<Rightarrow> bool" where
  leaf_closed: "name_ok n \<Longrightarrow> writes_attrs as w \<Longrightarrow> writes (Leaf n as) (CHR ''<'' # n @ w @ ''/>'')"
| leaf_empty: "name_ok n \<Longrightarrow> writes_attrs as w \<Longrightarrow> white v \<Longrightarrow>
    writes (Leaf n as) (CHR ''<'' # n @ w @ ''>'' @ v @ ''</'' @ n @ ''>'')"
| text_node: "name_ok n \<Longrightarrow> writes_attrs as w \<Longrightarrow> white v \<Longrightarrow> text_ok x \<Longrightarrow> spaces v' \<Longrightarrow>
    writes (Text n as x) (CHR ''<'' # n @ w @ ''>'' @ v @ x @ v' @ ''</'' @ n @ ''>'')"
| parent_node: "name_ok n \<Longrightarrow> writes_attrs as w \<Longrightarrow> writes_list ks k \<Longrightarrow> ks \<noteq> [] \<Longrightarrow> white v \<Longrightarrow>
    writes (Parent n as ks) (CHR ''<'' # n @ w @ ''>'' @ k @ v @ ''</'' @ n @ ''>'')"
| writes_none: "writes_list [] []"
| writes_some: "white v \<Longrightarrow> writes x s \<Longrightarrow> writes_list xs s' \<Longrightarrow> writes_list (x # xs) (v @ s @ s')"

definition layout_options :: "pp_options \<Rightarrow> bool" where
  "layout_options opts \<longleftrightarrow> options_ok opts \<and> emptyNodeStripping opts \<and> inlineText opts \<and>
     trimLeadingWhites opts \<and> trimTrailingWhites opts"

definition in_body :: "pp \<Rightarrow> bool" where
  "in_body s \<longleftrightarrow> ready s \<and> layout_options (options s) \<and> result s = PRETTY_PRINTING_SUCCESS \<and> appendIndentation s"

lemma ran_in_body: "ran s xs n t \<Longrightarrow> in_body s \<Longrightarrow> in_body t"
  by (simp add: in_body_def ran_def)

lemma in_body_flags [simp]:
  "in_body (s\<lparr>currentDepth := d\<rparr>) = in_body s" "in_body (s\<lparr>lastNodeOpen := b\<rparr>) = in_body s"
  by (simp_all add: in_body_def)

lemma newline_outer:
  assumes "0 \<le> d" "0 \<le> indentLength opts"
  shows "newline opts (d + 1) = newline opts d @ replicate (nat (indentLength opts)) (indentChar opts)"
proof -
  have "nat ((d + 1) * indentLength opts) = nat (d * indentLength opts) + nat (indentLength opts)"
    using assms by (simp add: distrib_right nat_add_distrib)
  then show ?thesis by (simp add: newline_def replicate_add)
qed

text \<open>The closing tag seen by the loop over the elements of a node.\<close>

lemma elements_loop_close:
  assumes "rest s = v @ ''</'' @ r" "white v" "in_body s" "currentDepth s = d + 1" "0 \<le> d"
  shows "\<exists>t. elements_loop (Suc f) k s = Some (k, t) \<and>
    ran (s\<lparr>currentDepth := d\<rparr>) (newline (options s) d) (length v) t"
proof -
  let ?s1 = "s\<lparr>ini := ini s + length v\<rparr>"
  have b: "ready s" "options_ok (options s)" "result s = PRETTY_PRINTING_SUCCESS" "appendIndentation s"
    using assms(3) by (auto simp: in_body_def layout_options_def)
  have m1: "ran s [] (length v) ?s1" by (rule ran_read[OF b(1)])
  have r1: "rest ?s1 = ''</'' @ r" using ranD(3)[OF m1] assms(1) by simp
  have wh: "readWhites True s = Some (length v, ?s1)"
    by (rule readWhites_rest[of _ _ "CHR ''<''" "CHR ''/'' # r"])
      (use assms(1,2) in \<open>auto simp: white_def isWhite_def isSpace_def isLineBreak_def\<close>)
  have g: "getNextChar ?s1 = Some (CHR ''<'')" using getNextChar_rest r1 by simp
  obtain s2 where s2: "putNewLine ?s1 = Some s2" "ran ?s1 (newline (options s) (d + 1)) 0 s2"
    using goes_putNewLine[of ?s1] ranD[OF m1] b assms(4) by (auto simp: goes_def)
  have "rest s2 = ''</'' @ r" using ranD(3)[OF s2(2)] r1 by simp
  then have p: "peek 1 (s2\<lparr>appendIndentation := True\<rparr>) = Some (CHR ''/'')"
    using peek_rest[of 1 s2] by (simp add: peek_def)
  have nonneg: "0 \<le> indentLength (options s)" using b(2) by (simp add: options_ok_def)
  let ?pad = "replicate (nat (indentLength (options s))) (indentChar (options s))"
  have o: "out s2 = (out s @ newline (options s) d) @ ?pad"
    using ranD(2)[OF s2(2)] newline_outer[OF assms(5) nonneg] by simp
  have rw: "rewind (indentLength (options s2)) (s2\<lparr>appendIndentation := True\<rparr>) =
      Some (s2\<lparr>appendIndentation := True, out := out s @ newline (options s) d\<rparr>)"
    using o nonneg ranD(4)[OF s2(2)] by (simp add: rewind_def)
  let ?t = "s2\<lparr>appendIndentation := True, out := out s @ newline (options s) d, currentDepth := d\<rparr>"
  have "elements_loop (Suc f) k s = Some (k, ?t)"
    using b(3,4) wh g s2(1) p rw ranD(6,7)[OF s2(2)] assms(4) by (simp add: next_element_def)
  moreover have "ran (s\<lparr>currentDepth := d\<rparr>) (newline (options s) d) (length v) ?t"
    using s2(2) b o by (auto simp: ran_def ready_def)
  ultimately show ?thesis by blast
qed

lemma isSpace_inside: "isSpace c \<Longrightarrow> c \<noteq> CHR ''<'' \<and> \<not> isLineBreak c"
  by (auto simp: isSpace_def isLineBreak_def)

lemma trim_out_spaces:
  assumes "out s = o' @ x @ v" "x \<noteq> []" "\<not> isSpace (last x)" "spaces v"
  shows "trim_out isSpace s = Some (s\<lparr>out := o' @ x\<rparr>)"
proof -
  have "dropWhile isSpace (rev v @ rev x @ rev o') = rev x @ rev o'"
    using assms(2-4) by (cases x rule: rev_cases) (simp_all add: spaces_def dropWhile_append)
  then show ?thesis using assms(1,2) by (simp add: trim_out_def)
qed

lemma text_in_body:
  assumes "rest s = x @ v' @ ''</'' @ r" "text_ok x" "spaces v'" "in_body s" "lastNodeOpen s" "0 \<le> currentDepth s"
    "out s = o' @ newline (options s) (currentDepth s)"
  shows "\<exists>t. processTextNode s = Some t \<and>
    ran (s\<lparr>out := o', appendIndentation := False, lastNodeOpen := False\<rparr>) x (length x + length v') t"
proof -
  have b: "ready s" "options_ok (options s)" "inlineText (options s)" "trimLeadingWhites (options s)"
    "trimTrailingWhites (options s)" "appendIndentation s"
    using assms(4) by (auto simp: in_body_def layout_options_def)
  have "\<forall>c\<in>set v'. c \<noteq> CHR ''<'' \<and> \<not> isLineBreak c"
    using assms(3) isSpace_inside by (simp add: spaces_def)
  then have x: "x \<noteq> []" "\<forall>c\<in>set (x @ v'). c \<noteq> CHR ''<'' \<and> \<not> isLineBreak c" "\<not> isSpace (last x)"
    using assms(2) unfolding text_ok_def by (simp_all add: ball_Un)
  have inl: "inline_allowed True (oneLineText (options s)) 0 (CHR ''<'') (CHR ''/'') s = Some True"
    by (rule text_inline[of s "x @ v'" r]) (use assms(1,5) x in simp_all)
  note res = reset_newline[OF assms(7) b(1,2) assms(6)]
  let ?s3 = "s\<lparr>out := o'\<rparr>"
  obtain s4 where s4: "text_loop ?s3 = Some s4" "ran ?s3 (x @ v') (length x + length v') s4"
    using goes_text_loop[of ?s3 "x @ v'" "CHR ''/'' # r"] assms(1) x(2) res(2) by (auto simp: goes_def)
  have tr: "trim_out isSpace s4 = Some (s4\<lparr>out := o' @ x\<rparr>)"
    using ranD(2)[OF s4(2)] x assms(3) by (intro trim_out_spaces) simp_all
  let ?t = "s4\<lparr>out := o' @ x, appendIndentation := False, lastNodeOpen := False\<rparr>"
  have "processTextNode s = Some ?t"
    using inl res(1) b(3-5) s4(1) tr ranD(4)[OF s4(2)] by (simp add: processTextNode_def)
  moreover have "ran (s\<lparr>out := o', appendIndentation := False, lastNodeOpen := False\<rparr>) x (length x + length v') ?t"
    using s4(2) by (auto simp: ran_def ready_def)
  ultimately show ?thesis by blast
qed

lemma elements_loop_text:
  assumes "rest s = v @ x @ v' @ ''</'' @ r" "white v" "text_ok x" "spaces v'" "in_body s" "lastNodeOpen s"
    "currentDepth s = d + 1" "0 \<le> d"
  shows "\<exists>t. elements_loop (Suc (Suc f)) k s = Some (Suc k, t) \<and>
    ran (s\<lparr>currentDepth := d, lastNodeOpen := False\<rparr>) x (length v + (length x + length v')) t"
proof -
  let ?s1 = "s\<lparr>ini := ini s + length v\<rparr>"
  have b: "ready s" "options_ok (options s)" "result s = PRETTY_PRINTING_SUCCESS" "appendIndentation s"
    using assms(5) by (auto simp: in_body_def layout_options_def)
  obtain c xs where c: "x = c # xs" "\<not> isWhite c" "c \<noteq> CHR ''<''" "c \<noteq> NUL"
    using assms(3) by (cases x) (auto simp: text_ok_def)
  have m1: "ran s [] (length v) ?s1" by (rule ran_read[OF b(1)])
  have r1: "rest ?s1 = x @ v' @ ''</'' @ r" using ranD(3)[OF m1] assms(1) by simp
  have wh: "readWhites True s = Some (length v, ?s1)"
    by (rule readWhites_rest[OF _ _ c(2)]) (use assms(1,2) c in \<open>auto simp: white_def\<close>)
  have g: "getNextChar ?s1 = Some c" using getNextChar_rest r1 c by simp
  obtain s2 where s2: "putNewLine ?s1 = Some s2" "ran ?s1 (newline (options s) (d + 1)) 0 s2"
    using goes_putNewLine[of ?s1] ranD[OF m1] b assms(7) by (auto simp: goes_def)
  let ?s2 = "s2\<lparr>appendIndentation := True\<rparr>"
  have ap: "appendIndentation s2" using ranD(7)[OF s2(2)] b(4) by simp
  have "\<exists>t. processTextNode ?s2 = Some t \<and>
    ran (?s2\<lparr>out := out s, appendIndentation := False, lastNodeOpen := False\<rparr>) x (length x + length v') t"
  proof (rule text_in_body)
    show "rest ?s2 = x @ v' @ ''</'' @ r" using ranD(3)[OF s2(2)] r1 by simp
    show "in_body ?s2" using ran_in_body[OF s2(2)] ran_in_body[OF m1 assms(5)] by (simp add: in_body_def)
    show "lastNodeOpen ?s2" "0 \<le> currentDepth ?s2" using ranD[OF s2(2)] assms(6-8) by simp_all
    show "out ?s2 = out s @ newline (options ?s2) (currentDepth ?s2)" using ranD[OF s2(2)] assms(7) by simp
  qed fact+
  then obtain t where t: "processTextNode ?s2 = Some t"
    "ran (?s2\<lparr>out := out s, appendIndentation := False, lastNodeOpen := False\<rparr>) x (length x + length v') t"
    by blast
  have rt: "rest t = ''</'' @ r" using ranD(3)[OF t(2)] ranD(3)[OF s2(2)] r1 by simp
  have wt: "readWhites True t = Some (0, t)"
    using readWhites_rest[of t "[]" "CHR ''<''" "CHR ''/'' # r"] rt
    by (simp add: isWhite_def isSpace_def isLineBreak_def)
  have gt: "getNextChar t = Some (CHR ''<'')" using getNextChar_rest rt by simp
  have pt: "peek 1 (t\<lparr>appendIndentation := True\<rparr>) = Some (CHR ''/'')"
    using peek_rest[of 1 t] rt by (simp add: peek_def)
  have ft: "result t = PRETTY_PRINTING_SUCCESS" "\<not> appendIndentation t" "currentDepth t = d + 1"
    using ranD[OF t(2)] ranD[OF s2(2)] b(3) assms(7) by simp_all
  let ?u = "t\<lparr>appendIndentation := True, currentDepth := d\<rparr>"
  have "elements_loop (Suc (Suc f)) k s = Some (Suc k, ?u)"
    using b(3,4) wh g c(3,4) s2(1) ap t(1) ft wt gt pt by (simp add: next_element_def)
  moreover have "ran (s\<lparr>currentDepth := d, lastNodeOpen := False\<rparr>) x (length v + (length x + length v')) ?u"
    using t(2) s2(2) b(4) by (auto simp: ran_def)
  ultimately show ?thesis by blast
qed

text \<open>What \<open>processNode\<close> does with a node that is written in any of the ways.\<close>

definition node_done :: "pp \<Rightarrow> xml \<Rightarrow> nat \<Rightarrow> pp option \<Rightarrow> bool" where
  "node_done s x n m \<longleftrightarrow>
     goes (s\<lparr>lastNodeOpen := False\<rparr>) (layout (options s) (currentDepth s) x) n m"

definition formats :: "xml \<Rightarrow> string \<Rightarrow> bool" where
  "formats x w \<longleftrightarrow> (\<forall>s f r. rest s = w @ r \<longrightarrow> in_body s \<longrightarrow> 0 \<le> currentDepth s \<longrightarrow> 2 * length w \<le> f \<longrightarrow>
     node_done s x (length w) (processNode f s))"

lemma formatsD:
  "formats x w \<Longrightarrow> rest s = w @ r \<Longrightarrow> in_body s \<Longrightarrow> 0 \<le> currentDepth s \<Longrightarrow> 2 * length w \<le> f \<Longrightarrow>
   node_done s x (length w) (processNode f s)"
  by (auto simp: formats_def)

text \<open>The tag of a node, up to the byte behind its attributes.\<close>

lemma node_tag:
  assumes "rest s = CHR ''<'' # n @ w @ c # r" "name_ok n" "writes_attrs as w" "c \<in> {CHR ''/'', CHR ''>''}" "ready s"
  shows "\<exists>t u. readNextChar s = Some (CHR ''<'', t) \<and> open_tag t = Some (Some (length n), u) \<and>
    getNextChar u = Some c \<and> ran (s\<lparr>lastNodeOpen := True\<rparr>) (tag_text n as) (Suc (length n + length w)) u"
proof -
  let ?t = "s\<lparr>ini := ini s + 1\<rparr>"
  have m: "ran s [] 1 ?t" by (rule ran_read[OF assms(5)])
  have r: "rest ?t = n @ w @ c # r" using ranD(3)[OF m] assms(1) by simp
  obtain u where u: "open_tag ?t = Some (Some (length n), u)"
    "ran (?t\<lparr>lastNodeOpen := True\<rparr>) (tag_text n as) (length n + length w) u"
    using goes_open_tag[OF r assms(2-4) ranD(1)[OF m]] by blast
  have "ran (s\<lparr>lastNodeOpen := True\<rparr>) (tag_text n as) (Suc (length n + length w)) u"
    using m u(2) by (simp add: ran_def)
  moreover have "getNextChar u = Some c"
    using getNextChar_rest[of u c r] ranD(3)[OF u(2)] r by simp
  ultimately show ?thesis using readNextChar_rest[OF assms(1)] u(1) by auto
qed

lemma formats_leaf_closed:
  assumes "name_ok n" "writes_attrs as w"
  shows "formats (Leaf n as) (CHR ''<'' # n @ w @ ''/>'')"
  unfolding formats_def
proof (intro allI impI)
  fix s f r
  assume a: "rest s = (CHR ''<'' # n @ w @ ''/>'') @ r" "in_body s" "0 \<le> currentDepth s"
    "2 * length (CHR ''<'' # n @ w @ ''/>'') \<le> f"
  have b: "ready s" "emptyNodeStripping (options s)" using a(2) by (auto simp: in_body_def layout_options_def)
  obtain g where f: "f = Suc g" using a(4) by (cases f) auto
  obtain t u where u: "readNextChar s = Some (CHR ''<'', t)" "open_tag t = Some (Some (length n), u)"
    "getNextChar u = Some (CHR ''/'')" "ran (s\<lparr>lastNodeOpen := True\<rparr>) (tag_text n as) (Suc (length n + length w)) u"
    using node_tag[of s n w "CHR ''/''" "CHR ''>'' # r", OF _ assms _ b(1)] a(1) by auto
  have ru: "rest u = ''/>'' @ r" using ranD(3)[OF u(4)] a(1) by simp
  let ?sp = "if emptyNodeStrippingSpace (options s) then '' '' else []"
  have "goes u (?sp @ ''/>'') (0 + length ''/>'') (do {
      v \<leftarrow> (if emptyNodeStrippingSpace (options u) then putCharInBuffer (CHR '' '') u else Some u);
      putNextCharsInBuffer (length ''/>'') v })"
  proof (rule goes_bind)
    show "goes u ?sp 0 (if emptyNodeStrippingSpace (options u) then putCharInBuffer (CHR '' '') u else Some u)"
      using ranD[OF u(4)] goes_put ran_refl by (auto intro: goes_Some)
    show "goes v ''/>'' (length ''/>'') (putNextCharsInBuffer (length ''/>'') v)" if "ran u ?sp 0 v" for v
      using goes_putNextChars[of v "''/>''" r] ranD[OF that] ru by simp
  qed
  then obtain v where v: "do {
      v \<leftarrow> (if emptyNodeStrippingSpace (options u) then putCharInBuffer (CHR '' '') u else Some u);
      putNextCharsInBuffer 2 v } = Some v" "ran u (?sp @ ''/>'') 2 v"
    by (auto simp: goes_def numeral_2_eq_2)
  have "processNode f s = Some (v\<lparr>lastNodeOpen := False\<rparr>)"
    using u v(1) b ranD(4)[OF u(4)] by (simp add: f close_directly_def)
  moreover have "ran (s\<lparr>lastNodeOpen := False\<rparr>) (layout (options s) (currentDepth s) (Leaf n as))
      (length (CHR ''<'' # n @ w @ ''/>'')) (v\<lparr>lastNodeOpen := False\<rparr>)"
    using ran_trans[OF u(4) v(2)] by (simp add: ran_def)
  ultimately show "node_done s (Leaf n as) (length (CHR ''<'' # n @ w @ ''/>'')) (processNode f s)"
    by (simp add: node_done_def goes_def)
qed

text \<open>A node with content, given what the loop over its elements does.\<close>

lemma node_content:
  assumes a: "rest s = CHR ''<'' # n @ w @ ''>'' @ body @ ''</'' @ n @ ''>'' @ r" "in_body s"
    "name_ok n" "writes_attrs as w"
    and loop: "\<And>u. rest u = body @ ''</'' @ n @ ''>'' @ r \<Longrightarrow> in_body u \<Longrightarrow> lastNodeOpen u \<Longrightarrow>
      currentDepth u = currentDepth s + 1 \<Longrightarrow> options u = options s \<Longrightarrow>
      \<exists>k t b. elements_loop f 0 u = Some (k, t) \<and> (k = 0 \<longleftrightarrow> none) \<and>
        ran (u\<lparr>currentDepth := currentDepth s, lastNodeOpen := b\<rparr>) content (length body) t"
  shows "\<exists>t. processNode (Suc (Suc f)) s =
      map_option (\<lambda>v. v\<lparr>lastNodeOpen := False, currentNodeName := None\<rparr>)
        (if none then strip_empty (length n) t else Some t) \<and>
    (\<exists>b. ran (s\<lparr>lastNodeOpen := b\<rparr>) (tag_text n as @ ''>'' @ content @ ''</'' @ n @ ''>'')
      (length (CHR ''<'' # n @ w @ ''>'' @ body @ ''</'' @ n @ ''>'')) t)"
proof -
  have b: "ready s" using a(2) by (simp add: in_body_def)
  obtain t0 u where u: "readNextChar s = Some (CHR ''<'', t0)" "open_tag t0 = Some (Some (length n), u)"
    "getNextChar u = Some (CHR ''>'')" "ran (s\<lparr>lastNodeOpen := True\<rparr>) (tag_text n as) (Suc (length n + length w)) u"
    using node_tag[of s n w "CHR ''>''" "body @ ''</'' @ n @ ''>'' @ r", OF _ a(3,4) _ b] a(1) by auto
  have ru: "rest u = ''>'' @ body @ ''</'' @ n @ ''>'' @ r" using ranD(3)[OF u(4)] a(1) by simp
  obtain v where v: "putNextCharsInBuffer 1 u = Some v" "ran u ''>'' 1 v"
    using goes_putNextChars[OF ru ranD(1)[OF u(4)]] by (auto simp: goes_def)
  note sv = ran_trans[OF u(4) v(2)]
  let ?v = "v\<lparr>currentDepth := currentDepth v + 1\<rparr>"
  have rv: "rest ?v = body @ ''</'' @ n @ ''>'' @ r" using ranD(3)[OF v(2)] ru by simp
  have "in_body ?v" using ran_in_body[OF sv] a(2) by simp
  then obtain k t1 bb where t1: "elements_loop f 0 ?v = Some (k, t1)" "k = 0 \<longleftrightarrow> none"
    "ran (?v\<lparr>currentDepth := currentDepth s, lastNodeOpen := bb\<rparr>) content (length body) t1"
    using loop[OF rv] ranD[OF sv] by auto
  have s1: "ran (s\<lparr>lastNodeOpen := bb\<rparr>) (tag_text n as @ ''>'' @ content)
      (Suc (length n + length w) + 1 + length body) t1"
    using sv t1(3) by (simp add: ran_def)
  have rt: "rest t1 = (''</'' @ n) @ CHR ''>'' # r" using ranD(3)[OF t1(3)] rv by simp
  have g: "getNextChar t1 = Some (CHR ''<'')" using getNextChar_rest rt by simp
  have "CHR ''>'' \<notin> set (''</'' @ n)" using a(3) by (auto simp: name_ok_def tag_name_char_def)
  from copy_through_rest[OF rt this ranD(1)[OF s1]] obtain t where t: "copy_through (CHR ''>'') t1 = Some t"
    "ran t1 ((''</'' @ n) @ ''>'') (length (''</'' @ n) + 1) t"
    by (auto simp: goes_def)
  have "processNode (Suc (Suc f)) s = map_option (\<lambda>v. v\<lparr>lastNodeOpen := False, currentNodeName := None\<rparr>)
        (if none then strip_empty (length n) t else Some t)"
    using u(1-3) v(1) t1(1,2) g t(1)
    by (cases "strip_empty (length n) t") simp_all
  moreover have "ran (s\<lparr>lastNodeOpen := bb\<rparr>) (tag_text n as @ ''>'' @ content @ ''</'' @ n @ ''>'')
      (length (CHR ''<'' # n @ w @ ''>'' @ body @ ''</'' @ n @ ''>'')) t"
    using ran_trans[OF s1 t(2)] by (simp add: add.commute add.left_commute)
  ultimately show ?thesis by blast
qed

lemma rewind_some: "0 \<le> n \<Longrightarrow> n \<le> int (length (out s)) \<Longrightarrow>
    rewind n s = Some (s\<lparr>out := take (length (out s) - nat n) (out s)\<rparr>)"
  by (simp add: rewind_def)

lemma rewind_rewind: "0 \<le> m \<Longrightarrow> 0 \<le> n \<Longrightarrow> m + n \<le> int (length (out s)) \<Longrightarrow>
    Option.bind (rewind m s) (rewind n) = rewind (m + n) s"
  by (simp add: rewind_some nat_add_distrib min_def algebra_simps)

lemma rewind_reset:
  assumes "out s = xs @ ys" "0 \<le> k" "options_ok (options s)" "0 \<le> currentDepth s"
    "int (length ys) = k + int (length (newline (options s) (currentDepth s)))"
  shows "Option.bind (rewind k s) (resetBackwardIndentation True) = Some (s\<lparr>out := xs\<rparr>)"
proof -
  let ?i = "currentDepth s * indentLength (options s)" and ?n = "int (length (newLineChars (options s)))"
  have t: "takeWhile (\<lambda>c. c \<noteq> NUL) (newLineChars (options s)) = newLineChars (options s)"
    using assms(3) by (auto simp: options_ok_def takeWhile_eq_all_conv)
  have i: "0 \<le> ?i" using assms(3,4) by (simp add: options_ok_def)
  have len: "int (length ys) = k + (?i + ?n)" using assms(5) i by (simp add: newline_def)
  have le: "int (length ys) \<le> int (length (out s))" using assms(1) by simp
  define u where "u = s\<lparr>out := take (length (out s) - nat k) (out s)\<rparr>"
  have k: "nat k \<le> length (out s)" using assms(2) len i le by linarith
  have u: "rewind k s = Some u" "options u = options s" "currentDepth u = currentDepth s"
    "int (length (out u)) = int (length (out s)) - k"
    using rewind_some[of k s] assms(2) k by (simp_all add: u_def min_def) linarith+
  have "resetBackwardIndentation True u = Option.bind (rewind ?i u) (rewind ?n)"
  proof (cases "rewind ?i u")
    case (Some v)
    then have "options v = options s" using rewind_forward u(2) by (simp add: forward_def)
    then show ?thesis using Some u(2,3) t by (simp add: resetBackwardIndentation_def del: takeWhile_eq_all_conv)
  qed (use u(2,3) in \<open>simp add: resetBackwardIndentation_def\<close>)
  also have "\<dots> = rewind (?i + ?n) u" by (rule rewind_rewind) (use i len le u(4) in linarith)+
  finally have "Option.bind (rewind k s) (resetBackwardIndentation True) = Option.bind (rewind k s) (rewind (?i + ?n))"
    using u(1) by simp
  also have "\<dots> = rewind (k + (?i + ?n)) s" by (rule rewind_rewind) (use i len le assms(2) in linarith)+
  also have "\<dots> = rewind (int (length ys)) s" using len by simp
  also have "\<dots> = Some (s\<lparr>out := xs\<rparr>)" using assms(1) by (simp add: rewind_def)
  finally show ?thesis .
qed

lemma strip_empty_node:
  assumes "out s = xs @ ''>'' @ newline (options s) (currentDepth s) @ ''</'' @ n @ ''>''" "ready s"
    "layout_options (options s)" "0 \<le> currentDepth s"
  shows "\<exists>t. strip_empty (length n) s = Some t \<and>
    ran (s\<lparr>out := xs\<rparr>) ((if emptyNodeStrippingSpace (options s) then '' '' else []) @ ''/>'') 0 t"
proof -
  let ?s = "s\<lparr>out := xs\<rparr>"
  have ok: "options_ok (options s)" "emptyNodeStripping (options s)" using assms(3) by (auto simp: layout_options_def)
  have r: "Option.bind (rewind (int (length n) + 4) s) (resetBackwardIndentation True) = Some ?s"
    by (rule rewind_reset[OF _ _ ok(1) assms(4), of _ "''>'' @ newline (options s) (currentDepth s) @ ''</'' @ n @ ''>''"])
      (use assms(1) in simp_all)
  have rd: "ready ?s" using assms(1,2) by (simp add: ready_def)
  have "goes ?s ((if emptyNodeStrippingSpace (options s) then '' '' else []) @ ''/>'') (0 + 0)
    (do { u \<leftarrow> (if emptyNodeStrippingSpace (options ?s) then putCharInBuffer (CHR '' '') ?s else Some ?s);
          putCharsInBuffer ''/>'' u })"
  proof (rule goes_bind)
    show "goes ?s (if emptyNodeStrippingSpace (options s) then '' '' else []) 0
        (if emptyNodeStrippingSpace (options ?s) then putCharInBuffer (CHR '' '') ?s else Some ?s)"
      using goes_put[OF rd] ran_refl[OF rd] by (simp add: goes_Some)
    show "goes u ''/>'' 0 (putCharsInBuffer ''/>'' u)"
      if "ran ?s (if emptyNodeStrippingSpace (options s) then '' '' else []) 0 u" for u
      using ranD(1)[OF that] by (intro goes_puts) auto
  qed
  then obtain t where t: "do { u \<leftarrow> (if emptyNodeStrippingSpace (options ?s) then putCharInBuffer (CHR '' '') ?s else Some ?s);
          putCharsInBuffer ''/>'' u } = Some t"
    "ran ?s ((if emptyNodeStrippingSpace (options s) then '' '' else []) @ ''/>'') 0 t"
    by (auto simp: goes_def)
  obtain u where "rewind (int (length n) + 4) s = Some u" "resetBackwardIndentation True u = Some ?s"
    using r by (auto simp: bind_eq_Some_conv)
  then have "strip_empty (length n) s = Some t"
    using ok t(1) by (simp add: strip_empty_def)
  with t(2) show ?thesis by blast
qed

lemma formats_leaf_empty:
  assumes "name_ok n" "writes_attrs as w" "white v"
  shows "formats (Leaf n as) (CHR ''<'' # n @ w @ ''>'' @ v @ ''</'' @ n @ ''>'')"
  unfolding formats_def
proof (intro allI impI)
  fix s f r
  let ?w = "CHR ''<'' # n @ w @ ''>'' @ v @ ''</'' @ n @ ''>''"
  assume a: "rest s = ?w @ r" "in_body s" "0 \<le> currentDepth s" "2 * length ?w \<le> f"
  obtain g where f: "f = Suc (Suc (Suc g))" using a(4) by (cases f; cases "f - 1"; cases "f - 2") auto
  have loop: "\<exists>k t b. elements_loop (Suc g) 0 u = Some (k, t) \<and> (k = 0 \<longleftrightarrow> True) \<and>
      ran (u\<lparr>currentDepth := currentDepth s, lastNodeOpen := b\<rparr>) (newline (options s) (currentDepth s)) (length v) t"
    if "rest u = v @ ''</'' @ n @ ''>'' @ r" "in_body u" "currentDepth u = currentDepth s + 1" "options u = options s" for u
    using elements_loop_close[of u v "n @ ''>'' @ r" "currentDepth s" g 0] that assms(3) a(3)
    by (intro exI[of _ 0] exI[of _ "lastNodeOpen u"]) (auto simp: ran_def)
  obtain t b where t: "processNode f s =
      map_option (\<lambda>v. v\<lparr>lastNodeOpen := False, currentNodeName := None\<rparr>) (strip_empty (length n) t)"
    "ran (s\<lparr>lastNodeOpen := b\<rparr>) (tag_text n as @ ''>'' @ newline (options s) (currentDepth s) @ ''</'' @ n @ ''>'') (length ?w) t"
    using node_content[of s n w v r as "Suc g" True "newline (options s) (currentDepth s)"] a(1,2) assms loop
    by (auto simp: f)
  have lay: "layout_options (options s)" using a(2) by (simp add: in_body_def)
  have o: "out t = (out s @ tag_text n as) @ ''>'' @ newline (options t) (currentDepth t) @ ''</'' @ n @ ''>''"
    using ranD[OF t(2)] by simp
  let ?sp = "if emptyNodeStrippingSpace (options s) then '' '' else []"
  obtain u where u: "strip_empty (length n) t = Some u" "ran (t\<lparr>out := out s @ tag_text n as\<rparr>) (?sp @ ''/>'') 0 u"
    using strip_empty_node[OF o ranD(1)[OF t(2)]] ranD[OF t(2)] lay a(3) by auto
  have "ran (s\<lparr>lastNodeOpen := False\<rparr>) (layout (options s) (currentDepth s) (Leaf n as)) (length ?w)
      (u\<lparr>lastNodeOpen := False, currentNodeName := None\<rparr>)"
    using t(2) u(2) by (simp add: ran_def)
  with t(1) u(1) show "node_done s (Leaf n as) (length ?w) (processNode f s)"
    by (simp add: node_done_def goes_def)
qed

lemma formats_text:
  assumes "name_ok n" "writes_attrs as w" "white v" "text_ok x" "spaces v'"
  shows "formats (Text n as x) (CHR ''<'' # n @ w @ ''>'' @ v @ x @ v' @ ''</'' @ n @ ''>'')"
  unfolding formats_def
proof (intro allI impI)
  fix s f r
  let ?w = "CHR ''<'' # n @ w @ ''>'' @ v @ x @ v' @ ''</'' @ n @ ''>''"
  assume a: "rest s = ?w @ r" "in_body s" "0 \<le> currentDepth s" "2 * length ?w \<le> f"
  obtain g where f: "f = Suc (Suc (Suc (Suc g)))"
    using a(4) by (cases f; cases "f - 1"; cases "f - 2"; cases "f - 3") auto
  have loop: "\<exists>k t b. elements_loop (Suc (Suc g)) 0 u = Some (k, t) \<and> (k = 0 \<longleftrightarrow> False) \<and>
      ran (u\<lparr>currentDepth := currentDepth s, lastNodeOpen := b\<rparr>) x (length (v @ x @ v')) t"
    if "rest u = (v @ x @ v') @ ''</'' @ n @ ''>'' @ r" "in_body u" "lastNodeOpen u" "currentDepth u = currentDepth s + 1" for u
    using elements_loop_text[of u v x v' "n @ ''>'' @ r" "currentDepth s" g 0] that assms(3-5) a(3)
    by (intro exI[of _ 1] exI[of _ False]) (auto simp del: elements_loop.simps)
  obtain t b where t: "processNode f s = Some (t\<lparr>lastNodeOpen := False, currentNodeName := None\<rparr>)"
    "ran (s\<lparr>lastNodeOpen := b\<rparr>) (tag_text n as @ ''>'' @ x @ ''</'' @ n @ ''>'') (length ?w) t"
    using node_content[of s n w "v @ x @ v'" r as "Suc (Suc g)" False x] a(1,2) assms(1,2) loop
    by (auto simp: f)
  have "ran (s\<lparr>lastNodeOpen := False\<rparr>) (layout (options s) (currentDepth s) (Text n as x)) (length ?w)
      (t\<lparr>lastNodeOpen := False, currentNodeName := None\<rparr>)"
    using t(2) by (simp add: ran_def)
  with t(1) show "node_done s (Text n as x) (length ?w) (processNode f s)"
    by (simp add: node_done_def goes_def)
qed

definition children_layout :: "pp_options \<Rightarrow> int \<Rightarrow> xml list \<Rightarrow> string" where
  "children_layout opts d ks = concat (map (\<lambda>k. newline opts (d + 1) @ layout opts (d + 1) k) ks) @ newline opts d"

definition formats_list :: "xml list \<Rightarrow> string \<Rightarrow> bool" where
  "formats_list ks w \<longleftrightarrow> (\<forall>s v f r d k. rest s = w @ v @ ''</'' @ r \<longrightarrow> white v \<longrightarrow> in_body s \<longrightarrow>
     currentDepth s = d + 1 \<longrightarrow> 0 \<le> d \<longrightarrow> 2 * length w + 1 \<le> f \<longrightarrow>
     (\<exists>t b. elements_loop f k s = Some (k + length ks, t) \<and>
       ran (s\<lparr>currentDepth := d, lastNodeOpen := b\<rparr>) (children_layout (options s) d ks) (length w + length v) t))"

lemma formats_listD:
  assumes "formats_list ks w" "rest s = w @ v @ ''</'' @ r" "white v" "in_body s" "currentDepth s = d + 1" "0 \<le> d"
    "2 * length w + 1 \<le> f"
  shows "\<exists>t b. elements_loop f k s = Some (k + length ks, t) \<and>
     ran (s\<lparr>currentDepth := d, lastNodeOpen := b\<rparr>) (children_layout (options s) d ks) (length w + length v) t"
  using assms unfolding formats_list_def by blast

lemma writes_start: "writes x s \<Longrightarrow> \<exists>c r. s = CHR ''<'' # c # r \<and> c \<notin> {CHR ''!'', CHR ''/'', CHR ''?''} \<and> s \<noteq> []"
proof -
  have n: "\<exists>c r. n @ ys = c # r \<and> c \<notin> {CHR ''!'', CHR ''/'', CHR ''?''}" if "name_ok n" for n ys
    using that by (cases n) (auto simp: name_ok_def tag_name_char_def)
  assume "writes x s"
  then show ?thesis by (cases rule: writes.cases) (use n in fastforce)+
qed

lemma formats_none: "formats_list [] []"
  unfolding formats_list_def
proof (intro allI impI)
  fix s v f r d k
  assume a: "rest s = [] @ v @ ''</'' @ r" "white v" "in_body s" "currentDepth s = d + 1" "0 \<le> d"
    "2 * length ([] :: string) + 1 \<le> f"
  obtain g where "f = Suc g" using a(6) by (cases f) auto
  then show "\<exists>t b. elements_loop f k s = Some (k + length ([] :: xml list), t) \<and>
      ran (s\<lparr>currentDepth := d, lastNodeOpen := b\<rparr>) (children_layout (options s) d []) (length ([] :: string) + length v) t"
    using elements_loop_close[of s v r d g k] a by (auto simp: children_layout_def ran_def simp del: elements_loop.simps)
qed

lemma formats_some:
  assumes "white v0" "writes x w" "formats x w" "formats_list xs w'"
  shows "formats_list (x # xs) (v0 @ w @ w')"
  unfolding formats_list_def
proof (intro allI impI)
  fix s v f r d k
  assume a: "rest s = (v0 @ w @ w') @ v @ ''</'' @ r" "white v" "in_body s" "currentDepth s = d + 1" "0 \<le> d"
    "2 * length (v0 @ w @ w') + 1 \<le> f"
  obtain c q where c: "w = CHR ''<'' # c # q" "c \<notin> {CHR ''!'', CHR ''/'', CHR ''?''}"
    using writes_start[OF assms(2)] by blast
  obtain g where f: "f = Suc g" using a(6) by (cases f) auto
  have b: "ready s" "options_ok (options s)" "result s = PRETTY_PRINTING_SUCCESS" "appendIndentation s"
    using a(3) by (auto simp: in_body_def layout_options_def)
  let ?s1 = "s\<lparr>ini := ini s + length v0\<rparr>"
  have m1: "ran s [] (length v0) ?s1" by (rule ran_read[OF b(1)])
  have r1: "rest ?s1 = w @ w' @ v @ ''</'' @ r" using ranD(3)[OF m1] a(1) by simp
  have wh: "readWhites True s = Some (length v0, ?s1)"
    by (rule readWhites_rest[of _ _ "CHR ''<''"])
      (use a(1) assms(1) c in \<open>auto simp: white_def isWhite_def isSpace_def isLineBreak_def\<close>)
  have g1: "getNextChar ?s1 = Some (CHR ''<'')" using getNextChar_rest r1 c by simp
  obtain s2 where s2: "putNewLine ?s1 = Some s2" "ran ?s1 (newline (options s) (d + 1)) 0 s2"
    using goes_putNewLine[of ?s1] ranD[OF m1] b a(4) by (auto simp: goes_def)
  let ?s2 = "s2\<lparr>appendIndentation := True\<rparr>"
  have same: "?s2 = s2" using ranD(7)[OF s2(2)] b(4) by simp
  have r2: "rest s2 = w @ w' @ v @ ''</'' @ r" using ranD(3)[OF s2(2)] r1 by simp
  have p: "peek 1 s2 = Some c" using peek_rest[of 1 s2] r2 c by simp
  have body: "in_body s2" using ran_in_body[OF s2(2)] ran_in_body[OF m1 a(3)] by simp
  have d2: "currentDepth s2 = d + 1" "options s2 = options s" using ranD[OF s2(2)] a(4) by simp_all
  have "node_done s2 x (length w) (processNode g s2)"
    by (rule formatsD[OF assms(3) r2 body]) (use a(5,6) f d2 in simp_all)
  then obtain s3 where s3: "processNode g s2 = Some s3"
    "ran (s2\<lparr>lastNodeOpen := False\<rparr>) (layout (options s) (d + 1) x) (length w) s3"
    using d2 by (auto simp: node_done_def goes_def)
  have r3: "rest s3 = w' @ v @ ''</'' @ r" using ranD(3)[OF s3(2)] r2 by simp
  have body3: "in_body s3" using ran_in_body[OF s3(2)] body by simp
  have d3: "currentDepth s3 = d + 1" "options s3 = options s" using ranD[OF s3(2)] d2 by simp_all
  obtain t bb where t: "elements_loop g (Suc k) s3 = Some (Suc k + length xs, t)"
    "ran (s3\<lparr>currentDepth := d, lastNodeOpen := bb\<rparr>) (children_layout (options s) d xs) (length w' + length v) t"
    using formats_listD[OF assms(4) r3 a(2) body3 d3(1) a(5), of g "Suc k"] a(6) f c d3(2) by auto
  have "elements_loop f k s = Some (k + length (x # xs), t)"
    unfolding f using b(3,4) wh g1 s2(1) p c(2) s3(1) t(1) ranD(7)[OF s2(2)] by (simp add: same next_element_def)
  moreover have "ran (s\<lparr>currentDepth := d, lastNodeOpen := bb\<rparr>) (children_layout (options s) d (x # xs))
      (length (v0 @ w @ w') + length v) t"
    using t(2) s3(2) s2(2) by (simp add: ran_def children_layout_def)
  ultimately show "\<exists>t b. elements_loop f k s = Some (k + length (x # xs), t) \<and>
      ran (s\<lparr>currentDepth := d, lastNodeOpen := b\<rparr>) (children_layout (options s) d (x # xs)) (length (v0 @ w @ w') + length v) t"
    by blast
qed

lemma formats_parent:
  assumes "name_ok n" "writes_attrs as w" "formats_list ks k" "ks \<noteq> []" "white v"
  shows "formats (Parent n as ks) (CHR ''<'' # n @ w @ ''>'' @ k @ v @ ''</'' @ n @ ''>'')"
  unfolding formats_def
proof (intro allI impI)
  fix s f r
  let ?w = "CHR ''<'' # n @ w @ ''>'' @ k @ v @ ''</'' @ n @ ''>''"
  assume a: "rest s = ?w @ r" "in_body s" "0 \<le> currentDepth s" "2 * length ?w \<le> f"
  obtain g where f: "f = Suc (Suc g)" using a(4) by (cases f; cases "f - 1") auto
  have loop: "\<exists>j t b. elements_loop g 0 u = Some (j, t) \<and> (j = 0 \<longleftrightarrow> False) \<and>
      ran (u\<lparr>currentDepth := currentDepth s, lastNodeOpen := b\<rparr>) (children_layout (options s) (currentDepth s) ks) (length (k @ v)) t"
    if "rest u = (k @ v) @ ''</'' @ n @ ''>'' @ r" "in_body u" "currentDepth u = currentDepth s + 1" "options u = options s" for u
  proof -
    note u = that
    have "2 * length k + 1 \<le> g" using a(4) f by simp
    then obtain t b where "elements_loop g 0 u = Some (0 + length ks, t)"
      "ran (u\<lparr>currentDepth := currentDepth s, lastNodeOpen := b\<rparr>) (children_layout (options u) (currentDepth s) ks) (length k + length v) t"
      using formats_listD[OF assms(3) _ assms(5) u(2,3) a(3), of "n @ ''>'' @ r" g 0] u(1) by auto
    then show ?thesis using assms(4) u(4) by auto
  qed
  obtain t b where t: "processNode f s = Some (t\<lparr>lastNodeOpen := False, currentNodeName := None\<rparr>)"
    "ran (s\<lparr>lastNodeOpen := b\<rparr>) (tag_text n as @ ''>'' @ children_layout (options s) (currentDepth s) ks @ ''</'' @ n @ ''>'') (length ?w) t"
    using node_content[of s n w "k @ v" r as g False "children_layout (options s) (currentDepth s) ks"] a(1,2) assms(1,2) loop
    by (auto simp: f)
  have "ran (s\<lparr>lastNodeOpen := False\<rparr>) (layout (options s) (currentDepth s) (Parent n as ks)) (length ?w)
      (t\<lparr>lastNodeOpen := False, currentNodeName := None\<rparr>)"
    using t(2) by (simp add: ran_def children_layout_def)
  with t(1) show "node_done s (Parent n as ks) (length ?w) (processNode f s)"
    by (simp add: node_done_def goes_def)
qed

lemma writes_formats: "writes x w \<Longrightarrow> formats x w" and writes_list_formats: "writes_list xs k \<Longrightarrow> formats_list xs k"
proof (induction rule: writes_writes_list.inducts)
  case (leaf_closed n as w)
  then show ?case by (rule formats_leaf_closed)
next
  case (leaf_empty n as w v)
  then show ?case by (rule formats_leaf_empty)
next
  case (text_node n as w v x v')
  then show ?case by (rule formats_text)
next
  case (parent_node n as w ks k v)
  then show ?case by (intro formats_parent)
next
  case writes_none
  show ?case by (rule formats_none)
next
  case (writes_some v x s xs s')
  then show ?case by (intro formats_some)
qed

subsection \<open>The whole document\<close>

lemma layout_run:
  assumes "writes x w" "white v" "white v'" "layout_options opts" "0 < n"
  shows "processXMLPrettyPrinting (\<lambda>_. True) (Some (cstr (v @ w @ v'))) n (Some opts) =
    Some (PRETTY_PRINTING_SUCCESS, Some (cstr (layout opts 0 x), int (length (layout opts 0 x)) - 1))"
proof -
  let ?b = "cstr (v @ w @ v')"
  let ?s = "pp_start (\<lambda>_. True) ?b n opts" and ?a = "\<lambda>_ :: nat. True"
  obtain c q where c: "w = CHR ''<'' # c # q" "c \<notin> {CHR ''!'', CHR ''/'', CHR ''?''}"
    using writes_start[OF assms(1)] by blast
  have lt: "\<not> isWhite (CHR ''<'')" "\<not> isWhite NUL" by (simp_all add: isWhite_def isSpace_def isLineBreak_def)
  have r0: "rest ?s = v @ w @ v' @ [NUL]" by (simp add: rest_def pp_start_def cstr_def)
  have b0: "ready ?s" using assms(5) by (simp add: ready_def pp_start_def)
  let ?s1 = "?s\<lparr>ini := ini ?s + length v\<rparr>"
  have m1: "ran ?s [] (length v) ?s1" by (rule ran_read[OF b0])
  have r1: "rest ?s1 = w @ v' @ [NUL]" using ranD(3)[OF m1] r0 by simp
  have w1: "readWhites True ?s = Some (length v, ?s1)"
    by (rule readWhites_rest[OF _ _ lt(1)]) (use r0 c assms(2) in \<open>auto simp: white_def\<close>)
  let ?s2 = "?s1\<lparr>currentDepth := 0\<rparr>"
  have w2: "readWhites True ?s2 = Some (0, ?s2)"
    using readWhites_rest[of ?s2 "[]", OF _ _ lt(1)] r1 c by simp
  have g2: "getNextChar ?s2 = Some (CHR ''<'')" using getNextChar_rest[of ?s2] r1 c by simp
  let ?s3 = "?s2\<lparr>appendIndentation := True\<rparr>"
  have p3: "peek 1 ?s3 = Some c" using peek_rest[of 1 ?s3] r1 c by simp
  have body: "in_body ?s3" using b0 assms(4) by (simp add: in_body_def pp_start_def ready_def)
  obtain f where f: "pp_fuel ?b = Suc (Suc (Suc f))" "2 * length w \<le> Suc f"
    by (simp add: pp_fuel_def cstr_def numeral_eq_Suc)
  have "node_done ?s3 x (length w) (processNode (Suc f) ?s3)"
    by (rule formatsD[OF writes_formats[OF assms(1)], of _ "v' @ [NUL]"]) (use r1 body f in simp_all)
  then obtain s4 where s4: "processNode (Suc f) ?s3 = Some s4"
    "ran (?s3\<lparr>lastNodeOpen := False\<rparr>) (layout opts 0 x) (length w) s4"
    by (auto simp: node_done_def goes_def pp_start_def)
  have r4: "rest s4 = v' @ NUL # []" using ranD(3)[OF s4(2)] r1 by simp
  let ?s5 = "s4\<lparr>ini := ini s4 + length v'\<rparr>"
  have m5: "ran s4 [] (length v') ?s5" by (rule ran_read[OF ranD(1)[OF s4(2)]])
  have w4: "readWhites True s4 = Some (length v', ?s5)"
    using readWhites_rest[OF r4 _ lt(2)] assms(3) by (simp add: white_def)
  have g5: "getNextChar ?s5 = Some NUL" using getNextChar_rest[of ?s5] ranD(3)[OF m5] r4 by simp
  have st: "result ?s2 = PRETTY_PRINTING_SUCCESS" "\<not> appendIndentation ?s2" "currentDepth ?s1 + 1 = 0"
    "result s4 = PRETTY_PRINTING_SUCCESS"
    using ranD[OF s4(2)] by (simp_all add: pp_start_def)
  have "elements_loop (Suc (Suc f)) 0 ?s2 = Some (0, ?s5)"
    using w2 g2 p3 c(2) s4(1) w4 g5 st by (simp add: Let_def next_element_def del: processNode.simps)
  then have el: "processElements (pp_fuel ?b) ?s1 = Some (0, ?s5)" using f st(3) by simp
  obtain s6 where s6: "putCharInBuffer NUL ?s5 = Some s6" "ran ?s5 [NUL] 0 s6"
    using goes_put[OF ranD(1)[OF m5]] by (auto simp: goes_def)
  have o6: "out s6 = cstr (layout opts 0 x)" "result s6 = PRETTY_PRINTING_SUCCESS"
    using ranD[OF s6(2)] ranD[OF s4(2)] by (simp_all add: cstr_def pp_start_def)
  show ?thesis
    using assms(5) w1 el s6(1) o6 by (simp add: processXMLPrettyPrinting_def cstr_def del: processElements.simps)
qed

text \<open>The layout is one of the ways to write the document.\<close>

fun xml_ok :: "xml \<Rightarrow> bool" where
  "xml_ok (Leaf n as) \<longleftrightarrow> name_ok n \<and> (\<forall>a\<in>set as. attr_ok a)"
| "xml_ok (Text n as x) \<longleftrightarrow> name_ok n \<and> (\<forall>a\<in>set as. attr_ok a) \<and> text_ok x"
| "xml_ok (Parent n as ks) \<longleftrightarrow> name_ok n \<and> (\<forall>a\<in>set as. attr_ok a) \<and> ks \<noteq> [] \<and> (\<forall>k\<in>set ks. xml_ok k)"

definition white_options :: "pp_options \<Rightarrow> bool" where
  "white_options opts \<longleftrightarrow> white (newLineChars opts) \<and> isWhite (indentChar opts)"

lemma white_newline: "white_options opts \<Longrightarrow> white (newline opts d)"
  by (auto simp: white_options_def white_def newline_def)

lemma writes_attrs_text: "\<forall>a\<in>set as. attr_ok a \<Longrightarrow> white v \<Longrightarrow> writes_attrs as (attrs_text as @ v)"
proof (induction as)
  case Nil
  then show ?case by (simp add: attrs_text_def no_attrs)
next
  case (Cons a as)
  then have "writes_attrs (a # as) ('' '' @ attr_text a @ (attrs_text as @ v))"
    by (intro more_attrs) (auto simp: white_def isWhite_def isSpace_def)
  then show ?case by (simp add: attrs_text_def)
qed

lemma writes_layout:
  assumes "white_options opts"
  shows "xml_ok x \<Longrightarrow> writes x (layout opts d x)"
proof (induction x arbitrary: d)
  case (Leaf n as)
  let ?sp = "if emptyNodeStrippingSpace opts then '' '' else []"
  have "white ?sp" by (auto simp: white_def isWhite_def isSpace_def)
  with Leaf have "writes (Leaf n as) (CHR ''<'' # n @ (attrs_text as @ ?sp) @ ''/>'')"
    by (intro leaf_closed writes_attrs_text) auto
  then show ?case by (simp add: tag_text_def)
next
  case (Text n as x)
  then have "writes (Text n as x) (CHR ''<'' # n @ (attrs_text as @ []) @ ''>'' @ [] @ x @ [] @ ''</'' @ n @ ''>'')"
    by (intro text_node writes_attrs_text) (auto simp: white_def spaces_def)
  then show ?case by (simp add: tag_text_def)
next
  case (Parent n as ks)
  have "writes_list xs (concat (map (\<lambda>k. newline opts (d + 1) @ layout opts (d + 1) k) xs))" if "set xs \<subseteq> set ks" for xs
    using that
  proof (induction xs)
    case Nil
    then show ?case by (simp add: writes_none)
  next
    case (Cons y ys)
    then have "writes_list (y # ys) (newline opts (d + 1) @ layout opts (d + 1) y @
        concat (map (\<lambda>k. newline opts (d + 1) @ layout opts (d + 1) k) ys))"
      using Parent white_newline[OF assms] by (intro writes_some) auto
    then show ?case by simp
  qed
  then have "writes (Parent n as ks) (CHR ''<'' # n @ (attrs_text as @ []) @ ''>'' @
      concat (map (\<lambda>k. newline opts (d + 1) @ layout opts (d + 1) k) ks) @ newline opts d @ ''</'' @ n @ ''>'')"
    using Parent.prems white_newline[OF assms] by (intro parent_node writes_attrs_text) (auto simp: white_def)
  then show ?case by (simp add: tag_text_def)
qed

lemma writes_attrs_ok: "writes_attrs as w \<Longrightarrow> \<forall>a\<in>set as. attr_ok a"
  by (induction rule: writes_attrs.induct) auto

lemma writes_ok: "writes x w \<Longrightarrow> xml_ok x" and writes_list_ok: "writes_list xs k \<Longrightarrow> \<forall>x\<in>set xs. xml_ok x"
  by (induction rule: writes_writes_list.inducts) (auto dest: writes_attrs_ok)

end
