(* ===== verification/PpSafety.thy ===== *)
theory PpSafety
  imports PpLayout
begin

text \<open>
  The pretty printer always gets on: each turn of its loops takes a byte of the input, so the fuel is
  enough, and it never loses the room in the output. Then the properties of the whole printer, and
  documents it does not get right.
\<close>

subsection \<open>Progress and fuel of the recursion\<close>

lemma close_directly_forward [adv]: "close_directly s = Some t \<Longrightarrow> forward s t"
proof -
  have name: "forward u v" if "putNodeName u = Some v" for u v
    using that by (auto simp: putNodeName_def bind_eq_Some_conv dest: putCharsInBuffer_forward)
  assume a: "close_directly s = Some t"
  show ?thesis
  proof (cases "emptyNodeStripping (options s) \<or> \<not> forceEmptyNodeSplit (options s)")
    case True
    then obtain u v where "(if emptyNodeStrippingSpace (options s) then putCharInBuffer (CHR '' '') s else Some s) = Some u"
      "putNextCharsInBuffer 2 u = Some v" "t = v\<lparr>lastNodeOpen := False\<rparr>"
      using a unfolding close_directly_def by (simp add: bind_eq_Some_conv del: putNextCharsInBuffer.simps) blast
    then have "forward s u" "forward u v" "forward v t"
      using putCharInBuffer_forward[of "CHR '' ''" s u] putNextCharsInBuffer_forward[of 2 u v]
      by (auto simp: forward_def split: if_splits)
    then show ?thesis by (meson forward_trans)
  next
    case False
    then obtain c1 u1 c2 u2 u3 u4 u5 u6 u7 where *: "readNextChar s = Some (c1, u1)" "readNextChar u1 = Some (c2, u2)"
      "putCharInBuffer (CHR ''>'') u2 = Some u3" "(if \<not> inlineText (options u3) then putNewLine u3 else Some u3) = Some u4"
      "putCharsInBuffer ''</'' u4 = Some u5" "putNodeName u5 = Some u6" "putCharInBuffer (CHR ''>'') u6 = Some u7"
      "t = u7\<lparr>lastNodeOpen := False\<rparr>"
      using a unfolding close_directly_def by (simp add: bind_eq_Some_conv) blast
    have "forward s u1" "forward u1 u2" using *(1,2) readNextChar_less forward_less_forward by blast+
    moreover have "forward u2 u3" "forward u3 u4" "forward u4 u5" "forward u5 u6" "forward u6 u7"
      using * putNewLine_forward[of u3 u4] putCharInBuffer_forward putCharsInBuffer_forward name
      by (auto split: if_splits)
    moreover have "forward u7 t" by (simp add: *(8) forward_def)
    ultimately show ?thesis by (meson forward_trans)
  qed
qed

lemma strip_empty_forward [adv]: "strip_empty n s = Some t \<Longrightarrow> forward s t"
proof -
  have name: "forward u v" if "putNodeName u = Some v" for u v
    using that by (auto simp: putNodeName_def bind_eq_Some_conv dest: putCharsInBuffer_forward)
  assume a: "strip_empty n s = Some t"
  consider (strip) "emptyNodeStripping (options s)" | (inl) "\<not> emptyNodeStripping (options s)" "inlineText (options s)"
    | (keep) "\<not> emptyNodeStripping (options s)" "\<not> inlineText (options s)" by blast
  then show ?thesis
  proof cases
    case strip
    then obtain u v w where "rewind (int n + 4) s = Some u" "resetBackwardIndentation True u = Some v"
      "(if emptyNodeStrippingSpace (options v) then putCharInBuffer (CHR '' '') v else Some v) = Some w"
      "putCharsInBuffer ''/>'' w = Some t"
      using a unfolding strip_empty_def by (simp add: bind_eq_Some_conv) blast
    then show ?thesis
      by (auto dest!: adv split: if_splits intro: forward_trans)
  next
    case inl
    then obtain u v w x where "rewind (int n + 3) s = Some u" "resetBackwardIndentation True u = Some v"
      "putCharsInBuffer ''</'' v = Some w" "putNodeName w = Some x" "putCharInBuffer (CHR ''>'') x = Some t"
      using a unfolding strip_empty_def by (simp add: bind_eq_Some_conv) blast
    then show ?thesis by (meson adv name forward_trans)
  next
    case keep
    then show ?thesis using a by (simp add: strip_empty_def)
  qed
qed

lemma open_tag_forward [adv]: "open_tag s = Some (n, t) \<Longrightarrow> forward s t"
proof -
  assume a: "open_tag s = Some (n, t)"
  then obtain u v where u: "putCharInBuffer (CHR ''<'') s = Some u" "copy_while tag_name_char u = Some v"
    by (auto simp: open_tag_def bind_eq_Some_conv Let_def split: if_splits)
  have sv: "forward s v" using u by (meson adv forward_trans)
  let ?k = "ini v - ini u"
  show ?thesis
  proof (cases "can_alloc v (?k + 1)")
    case False
    then show ?thesis using a u sv by (simp add: open_tag_def Let_def)
  next
    case True
    let ?w = "v\<lparr>currentNodeName := Some (drop (length (out v) - ?k) (out v)), lastNodeOpen := True\<rparr>"
    obtain m x where x: "readWhites True ?w = Some (m, x)" "processElementAttributes x = Some t"
      using a u True by (auto simp: open_tag_def Let_def bind_eq_Some_conv split: if_splits)
    have "forward v ?w" by (simp add: forward_def)
    then show ?thesis using sv x by (meson adv forward_trans)
  qed
qed

lemma processMarkup_forward [adv]: "processMarkup s = Some (b, t) \<Longrightarrow> forward s t"
  by (auto simp: processMarkup_def bind_eq_Some_conv split: if_splits
      dest: processComment_forward processCDATA_forward processDoctype_forward processDoctypeElement_forward)

text \<open>A turn of the loop over elements reads something or ends with an error.\<close>

definition progress :: "pp \<Rightarrow> pp \<Rightarrow> bool" where
  "progress s t \<longleftrightarrow> forward s t \<and> (forward_less s t \<or> result t \<noteq> PRETTY_PRINTING_SUCCESS)"

lemma progressI: "forward_less s t \<Longrightarrow> progress s t"
  by (simp add: progress_def forward_less_forward)

lemma progress_after: "forward s t \<Longrightarrow> progress t u \<Longrightarrow> progress s u"
  unfolding progress_def by (meson forward_less_trans forward_trans)

lemma comment_loop_less: "comment_loop b c s = Some t \<Longrightarrow> forward_less s t"
proof -
  assume a: "comment_loop b c s = Some t"
  then obtain u d cl where u: "comment_step b c s = Some (u, d, cl)"
    by (auto simp: comment_loop.simps[of b c s] bind_eq_Some_conv)
  then have "u = t \<or> comment_loop b d u = Some t"
    using a by (auto simp: comment_loop.simps[of b c s] split: if_splits)
  then show ?thesis using comment_step_less[OF u] comment_loop_forward by (meson forward_less_trans)
qed

lemma cdata_loop_less: "cdata_loop b c s = Some t \<Longrightarrow> forward_less s t"
proof -
  assume a: "cdata_loop b c s = Some t"
  then obtain u d cl where u: "cdata_step b c s = Some (u, d, cl)"
    by (auto simp: cdata_loop.simps[of b c s] bind_eq_Some_conv)
  then have "u = t \<or> cdata_loop b d u = Some t"
    using a by (auto simp: cdata_loop.simps[of b c s] split: if_splits)
  then show ?thesis using cdata_step_less[OF u] cdata_loop_forward by (meson forward_less_trans)
qed

lemma doctype_loop_less: "doctype_loop s = Some t \<Longrightarrow> forward_less s t"
proof -
  assume a: "doctype_loop s = Some t"
  then obtain u m where u: "doctype_step s = Some (u, m)"
    by (auto simp: doctype_loop.simps[of s] bind_eq_Some_conv)
  then have "u = t \<or> doctype_loop u = Some t"
    using a by (auto simp: doctype_loop.simps[of s] split: if_splits)
  then show ?thesis using doctype_step_less[OF u] doctype_loop_forward by (meson forward_less_trans)
qed

lemma processComment_less: "processComment s = Some t \<Longrightarrow> forward_less s t"
proof -
  assume "processComment s = Some t"
  then obtain b u v where "open_markup b 4 s = Some u" "comment_loop b (CHR ''-'') u = Some v" "finish_markup b v = Some t"
    unfolding processComment_def by (clarsimp simp only: bind_eq_Some_conv)
  then show ?thesis by (meson open_markup_forward comment_loop_less finish_markup_less forward_less_forward forward_less_trans)
qed

lemma processCDATA_less: "processCDATA s = Some t \<Longrightarrow> forward_less s t"
proof -
  assume "processCDATA s = Some t"
  then obtain b u v w where *: "open_markup b 9 s = Some u" "cdata_loop b (CHR ''['') u = Some v" "finish_markup b w = Some t"
    and w: "(if oneLineCdata (options v) then do {
         s \<leftarrow> rewind 2 v;
         s \<leftarrow> trim_out isWhite s;
         putCharsInBuffer '']]'' s } else Some v) = Some w"
    unfolding processCDATA_def by (clarsimp simp only: bind_eq_Some_conv)
  have "forward v w"
    using w by (auto simp: bind_eq_Some_conv dest!: adv split: if_splits intro: forward_trans)
  with * show ?thesis
    by (meson open_markup_forward cdata_loop_less finish_markup_less forward_less_forward forward_less_trans)
qed

lemma processMarkup_progress: "processMarkup s = Some (b, t) \<Longrightarrow> progress s t"
proof -
  have e: "progress s (fail code s)" if "code \<noteq> PRETTY_PRINTING_SUCCESS" for code
    using that by (simp add: progress_def fail_def forward_def)
  have d: "progress s t" if "processDoctype s = Some t" for t
    using that by (auto simp: processDoctype_def bind_eq_Some_conv simp del: putNextCharsInBuffer.simps)
      (meson doctype_loop_less progressI progress_after putNextCharsInBuffer_forward)
  show "processMarkup s = Some (b, t) \<Longrightarrow> progress s t"
    by (auto simp: processMarkup_def bind_eq_Some_conv processDoctypeElement_def e d split: if_splits
        intro: progressI processComment_less processCDATA_less)
qed

lemma processHeader_progress:
  assumes "processHeader s = Some t" "getNextChar s = Some (CHR ''<'')" "peek 1 s = Some (CHR ''?'')"
  shows "forward_less s t"
proof -
  obtain u v n w x where *: "putNextCharsInBuffer 2 s = Some u" "copy_while (\<lambda>c. \<not> isWhite c) u = Some v"
    "readWhites True v = Some (n, w)" "processElementAttributes w = Some x" "putNextCharsInBuffer 2 x = Some t"
    using assms unfolding processHeader_def by (auto simp: bind_eq_Some_conv simp del: putNextCharsInBuffer.simps)
  have "forward_less s u"
    using *(1) by (auto simp: numeral_2_eq_2 bind_eq_Some_conv dest!: putNextChar_less)
      (meson forward_less_forward forward_less_trans)
  moreover have "forward u t" using *(2-5) by (meson adv forward_trans)
  ultimately show ?thesis by (rule forward_less_trans)
qed

lemma processTextNode_progress:
  assumes "processTextNode s = Some t" "getNextChar s = Some c" "c \<noteq> CHR ''<''"
  shows "forward_less s t"
proof -
  obtain b u v w x where u: "(if b \<or> \<not> alignText (options s) then do {
         s \<leftarrow> resetBackwardIndentation True s;
         if \<not> b then putNewLine s else Some s } else Some s) = Some u"
    and v: "(if \<not> trimLeadingWhites (options u) then do {
         n \<leftarrow> spaces_before (inputBuffer u) (ini u);
         foldM putCharInBuffer (slice (inputBuffer u) (ini u - n) (ini u)) u } else Some u) = Some v"
    and w: "text_loop v = Some w"
    and x: "(if trimTrailingWhites (options w) then trim_out isSpace w else Some w) = Some x"
    and t: "t = x\<lparr>appendIndentation := appendIndentation x \<and> \<not> b, lastNodeOpen := False\<rparr>"
    using assms(1) unfolding processTextNode_def by (clarsimp simp only: bind_eq_Some_conv option.inject)
  have "forward s u"
    using u by (auto simp: bind_eq_Some_conv dest!: adv split: if_splits intro: forward_trans)
  moreover have "forward u v" using v by (auto simp: bind_eq_Some_conv dest!: foldM_put_forward split: if_splits)
  ultimately have sv: "forward s v" by (rule forward_trans)
  have wx: "forward w x" using x by (auto dest!: trim_out_forward split: if_splits)
  have xt: "forward x t" by (simp add: t forward_def)
  have "forward_less s w"
  proof (cases "ini v = ini s")
    case True
    then have "getNextChar v = Some c" using sv assms(2) by (simp add: forward_def getNextChar_def)
    then obtain y where "text_step v = Some y" "text_loop y = Some w"
      using w assms(3) by (auto simp: text_loop.simps[of v] bind_eq_Some_conv)
    then show ?thesis using sv by (meson text_step_less text_loop_forward forward_less_trans)
  next
    case False
    have "ini s < length (inputBuffer s)" using assms(2) by (auto simp: getNextChar_def dest: rd_Some_less)
    with False sv have "forward_less s v" by (simp add: forward_less_def forward_def)
    then show ?thesis using text_loop_forward[OF w] by (rule forward_less_trans)
  qed
  then show ?thesis using wx xt by (meson forward_trans forward_less_trans)
qed

lemma forward_field [simp]:
  "forward s (s\<lparr>currentDepth := d\<rparr>)" "forward s (s\<lparr>appendIndentation := b\<rparr>)"
  "forward s (s\<lparr>lastNodeOpen := b, currentNodeName := n\<rparr>)" "forward s (fail c s)"
  by (simp_all add: forward_def fail_def)

lemma foldM_put_input: "foldM putCharInBuffer cs s = Some t \<Longrightarrow> ini t = ini s \<and> inputBuffer t = inputBuffer s"
  by (rule foldM_inv[where P = "\<lambda>t. ini t = ini s \<and> inputBuffer t = inputBuffer s"])
    (auto simp: putCharInBuffer_def Let_def split: if_splits)

lemma putNewLine_input: "putNewLine s = Some t \<Longrightarrow> ini t = ini s \<and> inputBuffer t = inputBuffer s"
  by (auto simp: putNewLine_def putCharsInBuffer_def bind_eq_Some_conv dest!: foldM_put_input)

text \<open>What \<open>next_element\<close> has found out.\<close>

lemma next_element_found:
  assumes "next_element s = Some (e, b, t)"
  shows "forward s t" "e = Text_Node \<Longrightarrow> \<exists>c. getNextChar t = Some c \<and> c \<noteq> CHR ''<''"
    "e = Header \<Longrightarrow> getNextChar t = Some (CHR ''<'') \<and> peek 1 t = Some (CHR ''?'')"
proof -
  obtain n u c where u: "readWhites True s = Some (n, u)" "getNextChar u = Some c"
    using assms by (auto simp: next_element_def bind_eq_Some_conv)
  have su: "forward s u" using readWhites_forward[OF u(1)] .
  have "forward s t \<and> (e = Text_Node \<longrightarrow> (\<exists>c. getNextChar t = Some c \<and> c \<noteq> CHR ''<'')) \<and>
    (e = Header \<longrightarrow> getNextChar t = Some (CHR ''<'') \<and> peek 1 t = Some (CHR ''?''))"
  proof (cases "c = NUL")
    case True
    then show ?thesis using assms u su by (simp add: next_element_def)
  next
    case False
    then obtain v where v: "(if appendIndentation u then putNewLine u else Some u) = Some v"
      using assms u by (auto simp: next_element_def bind_eq_Some_conv)
    let ?v = "v\<lparr>appendIndentation := True\<rparr>"
    have uv: "forward u v" "ini v = ini u" "inputBuffer v = inputBuffer u"
      using v by (auto dest: putNewLine_forward putNewLine_input split: if_splits)
    have sv: "forward s ?v" using su uv(1) forward_field(2) by (meson forward_trans)
    have c: "getNextChar ?v = Some c" using u(2) uv by (simp add: getNextChar_def)
    show ?thesis
      using assms u v False sv c
      by (auto simp: next_element_def bind_eq_Some_conv Let_def split: if_splits)
  qed
  then show "forward s t" "e = Text_Node \<Longrightarrow> \<exists>c. getNextChar t = Some c \<and> c \<noteq> CHR ''<''"
    "e = Header \<Longrightarrow> getNextChar t = Some (CHR ''<'') \<and> peek 1 t = Some (CHR ''?'')" by auto
qed

text \<open>What \<open>processNode\<close> does before it comes to the content.\<close>

lemma processNode_enter:
  assumes "readNextChar s = Some (c, u)" "open_tag u = Some (n, v)" "getNextChar v = Some d" "putNextCharsInBuffer 1 v = Some w"
  shows "forward_less s w" "length (inputBuffer w) - ini w + 2 \<le> length (inputBuffer s) - ini s"
proof -
  have 1: "forward_less s u" "forward u v" using assms readNextChar_less open_tag_forward by blast+
  have 2: "forward_less v w" using assms(4) by (auto simp: bind_eq_Some_conv dest: putNextChar_less)
  show "forward_less s w" using 1 2 by (meson forward_less_forward forward_less_trans)
  show "length (inputBuffer w) - ini w + 2 \<le> length (inputBuffer s) - ini s"
    using 1 2 by (auto simp: forward_less_def forward_def)
qed

text \<open>One turn of each of the three mutually recursive routines, from what the others do with less fuel.\<close>

lemma elements_loop_turn:
  assumes run: "elements_loop (Suc f) k s = Some (j, t)"
    and again: "\<And>k s j t. elements_loop f k s = Some (j, t) \<Longrightarrow> forward s t"
    and node: "\<And>s t. processNode f s = Some t \<Longrightarrow> forward_less s t"
  shows "forward s t"
proof (cases "result s = PRETTY_PRINTING_SUCCESS")
  case False
  then show ?thesis using run by auto
next
  case True
  then obtain e b u where u: "next_element s = Some (e, b, u)" using run by (auto simp: bind_eq_Some_conv)
  note facts = run True u
  have "forward u t"
  proof (cases e)
    case No_More_Data
    then show ?thesis using facts by simp
  next
    case Text_Node
    then show ?thesis using facts
      by (auto simp: bind_eq_Some_conv intro: forward_trans[OF processTextNode_forward again])
  next
    case Markup
    then show ?thesis using facts
      by (auto simp: bind_eq_Some_conv intro: forward_trans[OF processMarkup_forward again])
  next
    case Closing_Tag
    then show ?thesis using facts
      by (auto simp: bind_eq_Some_conv dest!: rewind_forward split: if_splits intro: forward_trans)
  next
    case Header
    then show ?thesis using facts
      by (auto simp: bind_eq_Some_conv intro: forward_trans[OF processHeader_forward again])
  next
    case Node
    then show ?thesis using facts
      by (auto simp: bind_eq_Some_conv intro: forward_trans[OF forward_less_forward[OF node] again])
  qed
  then show ?thesis using next_element_found(1)[OF u] by (rule forward_trans[rotated])
qed

lemma processNode_leave:
  assumes "copy_through (CHR ''>'') x = Some y" "(if l = 0 then strip_empty m y else Some y) = Some z"
  shows "forward x (z\<lparr>lastNodeOpen := False, currentNodeName := None\<rparr>)"
proof -
  have "forward x y" using copy_through_less[OF assms(1)] by (rule forward_less_forward)
  moreover have "forward y z" using assms(2) by (auto dest: strip_empty_forward split: if_splits)
  moreover have "forward z (z\<lparr>lastNodeOpen := False, currentNodeName := None\<rparr>)" by simp
  ultimately show ?thesis by (meson forward_trans)
qed

lemma processNode_turn:
  assumes run: "processNode (Suc f) s = Some t"
    and content: "\<And>s j t. processElements f s = Some (j, t) \<Longrightarrow> forward s t"
  shows "forward_less s t"
proof -
  obtain c u where u: "readNextChar s = Some (c, u)" using run by (auto simp: bind_eq_Some_conv)
  note su = readNextChar_less[OF u]
  show ?thesis
  proof (cases "c = CHR ''<''")
    case False
    then show ?thesis using run u su by (auto intro: forward_less_trans(1))
  next
    case c: True
    then obtain n v where v: "open_tag u = Some (n, v)" using run u by (auto simp: bind_eq_Some_conv)
    have sv: "forward_less s v" using su open_tag_forward[OF v] by (rule forward_less_trans)
    note facts = run u v c
    consider "n = None" | m where "n = Some m" "getNextChar v = Some (CHR ''/'')"
      | m where "n = Some m" "getNextChar v = Some (CHR ''>'')"
      | m d where "n = Some m" "getNextChar v = Some d" "d \<noteq> CHR ''/''" "d \<noteq> CHR ''>''"
      using facts by (cases n) (auto simp: bind_eq_Some_conv)
    then show ?thesis
    proof cases
      case 1
      then show ?thesis using facts sv by simp
    next
      case 2
      then have "close_directly v = Some t" using facts by simp
      then show ?thesis using sv close_directly_forward forward_less_trans by blast
    next
      case 3
      obtain w l x g where w: "putNextCharsInBuffer 1 v = Some w" "processElements f w = Some (l, x)" "getNextChar x = Some g"
        using facts 3 by (auto simp: bind_eq_Some_conv simp del: putNextCharsInBuffer.simps)
      have sx: "forward_less s x"
        using processNode_enter(1)[OF u v 3(2) w(1)] content[OF w(2)] by (rule forward_less_trans)
      have "forward x t" using facts 3 w
        by (auto simp: bind_eq_Some_conv intro: processNode_leave simp del: putNextCharsInBuffer.simps split: if_split_asm)
      with sx show ?thesis by (rule forward_less_trans)
    next
      case 4
      then show ?thesis using facts sv by (auto intro: forward_less_trans(1))
    qed
  qed
qed

lemma recursion_forward:
  shows processElements_forward: "processElements f s = Some (j, t) \<Longrightarrow> forward s t"
    and elements_loop_forward: "elements_loop f k s = Some (j, t) \<Longrightarrow> forward s t"
    and processNode_less: "processNode f s = Some t \<Longrightarrow> forward_less s t"
proof (induction f arbitrary: s j t k)
  case (Suc f)
  {
    case 1
    then show ?case using Suc(2)[of 0 "s\<lparr>currentDepth := currentDepth s + 1\<rparr>" j t]
      by (auto intro: forward_trans[OF forward_field(1)])
  next
    case 2
    then show ?case using Suc(2,3) by (rule elements_loop_turn)
  next
    case 3
    then show ?case using Suc(1) by (rule processNode_turn)
  }
qed simp_all

text \<open>
  Each turn of the loop takes a byte or ends it, and a node takes two bytes before it looks at its
  content, so that twice the rest of the input is enough fuel: more makes no difference.
\<close>

definition remaining :: "pp \<Rightarrow> nat" where
  "remaining s = length (inputBuffer s) - ini s"

lemma remaining_simps [simp]: "remaining (s\<lparr>currentDepth := d\<rparr>) = remaining s"
  by (simp add: remaining_def)

lemma remaining_less: "forward_less s t \<Longrightarrow> remaining t + 1 \<le> remaining s"
  by (auto simp: remaining_def forward_less_def forward_def)

lemma remaining_le: "forward s t \<Longrightarrow> remaining t \<le> remaining s"
  by (auto simp: remaining_def forward_def)

lemma elements_loop_done: "result s \<noteq> PRETTY_PRINTING_SUCCESS \<Longrightarrow> 0 < f \<Longrightarrow> 0 < g \<Longrightarrow>
  elements_loop f k s = elements_loop g k s"
  by (cases f; cases g) auto

lemma bind_cong_Some: "(\<And>x. a = Some x \<Longrightarrow> f x = g x) \<Longrightarrow> Option.bind a f = Option.bind a g"
  by (cases a) auto

text \<open>One turn of the loop and of a node with either fuel, when the calls they make agree.\<close>

lemma elements_loop_fuel_turn:
  assumes again: "\<And>l t. progress s t \<Longrightarrow> elements_loop f l t = elements_loop h l t"
    and node: "\<And>u. forward s u \<Longrightarrow> processNode f u = processNode h u"
  shows "elements_loop (Suc f) k s = elements_loop (Suc h) k s"
proof (cases "result s = PRETTY_PRINTING_SUCCESS")
  case True
  have "(case e of
       No_More_Data \<Rightarrow> Some (0, u)
     | Text_Node \<Rightarrow> do { s \<leftarrow> processTextNode u; elements_loop f (Suc k) s }
     | Markup \<Rightarrow> do {
         (counts, s) \<leftarrow> processMarkup u;
         elements_loop f (if counts then Suc k else k) s }
     | Closing_Tag \<Rightarrow> do {
         s \<leftarrow> (if b then rewind (indentLength (options u)) u else Some u);
         Some (k, s\<lparr>currentDepth := currentDepth s - 1\<rparr>) }
     | Header \<Rightarrow> do { s \<leftarrow> processHeader u; elements_loop f k s }
     | Node \<Rightarrow> do { s \<leftarrow> processNode f u; elements_loop f (Suc k) s }) =
     (case e of
       No_More_Data \<Rightarrow> Some (0, u)
     | Text_Node \<Rightarrow> do { s \<leftarrow> processTextNode u; elements_loop h (Suc k) s }
     | Markup \<Rightarrow> do {
         (counts, s) \<leftarrow> processMarkup u;
         elements_loop h (if counts then Suc k else k) s }
     | Closing_Tag \<Rightarrow> do {
         s \<leftarrow> (if b then rewind (indentLength (options u)) u else Some u);
         Some (k, s\<lparr>currentDepth := currentDepth s - 1\<rparr>) }
     | Header \<Rightarrow> do { s \<leftarrow> processHeader u; elements_loop h k s }
     | Node \<Rightarrow> do { s \<leftarrow> processNode h u; elements_loop h (Suc k) s })"
    if u: "next_element s = Some (e, b, u)" for e b u
  proof -
    note su = next_element_found(1)[OF u]
    have "progress s v" if "e = Text_Node" "processTextNode u = Some v" for v
      using processTextNode_progress[OF that(2)] next_element_found(2)[OF u that(1)] su
      by (auto intro: progress_after progressI)
    moreover have "progress s v" if "processMarkup u = Some (c, v)" for c v
      using processMarkup_progress[OF that] su by (rule progress_after[rotated])
    moreover have "progress s v" if "e = Header" "processHeader u = Some v" for v
      using processHeader_progress[OF that(2)] next_element_found(3)[OF u that(1)] su
      by (auto intro: progress_after progressI)
    moreover have "progress s v" if "processNode h u = Some v" for v
      using processNode_less[OF that] su by (auto intro: progress_after progressI)
    ultimately show ?thesis by (cases e) (auto simp: node[OF su] intro!: bind_cong_Some again)
  qed
  then show ?thesis unfolding elements_loop.simps using True by (auto intro!: bind_cong_Some)
qed simp

lemma processNode_fuel_turn:
  assumes "\<And>w. remaining w + 2 \<le> remaining s \<Longrightarrow> processElements f w = processElements h w"
  shows "processNode (Suc f) s = processNode (Suc h) s"
proof -
  have "processElements f w = processElements h w"
    if "readNextChar s = Some (c, u)" "open_tag u = Some (n, v)" "getNextChar v = Some d" "putNextCharsInBuffer 1 v = Some w"
    for c u n v d w
    using processNode_enter(2)[OF that] by (intro assms) (simp add: remaining_def)
  then show ?thesis
    unfolding processNode.simps
    by (intro bind_cong_Some) (auto intro!: bind_cong_Some split: option.split simp del: putNextCharsInBuffer.simps)
qed

lemma fuel_enough:
  shows elements_fuel: "2 * remaining s + 3 \<le> f \<Longrightarrow> 2 * remaining s + 3 \<le> g \<Longrightarrow> processElements f s = processElements g s"
    and loop_fuel: "2 * remaining s + 2 \<le> f \<Longrightarrow> 2 * remaining s + 2 \<le> g \<Longrightarrow> elements_loop f k s = elements_loop g k s"
    and node_fuel: "2 * remaining s + 1 \<le> f \<Longrightarrow> 2 * remaining s + 1 \<le> g \<Longrightarrow> processNode f s = processNode g s"
proof (induction f arbitrary: s g k)
  case (Suc f)
  {
    case 1
    then obtain h where g: "g = Suc h" by (cases g) auto
    show ?case unfolding g processElements.simps by (rule Suc(2)) (use 1 g in auto)
  next
    case 2
    then obtain h where g: "g = Suc h" by (cases g) auto
    have "elements_loop f l t = elements_loop h l t" if "progress s t" for l t
    proof (cases "result t = PRETTY_PRINTING_SUCCESS")
      case True
      then have "remaining t + 1 \<le> remaining s" using that remaining_less by (auto simp: progress_def)
      then show ?thesis using 2 g by (intro Suc(2)) auto
    next
      case False
      then show ?thesis using 2 g by (intro elements_loop_done) auto
    qed
    moreover have "processNode f u = processNode h u" if "forward s u" for u
      by (rule Suc(3)) (use 2 g remaining_le[OF that] in auto)
    ultimately show ?case unfolding g by (rule elements_loop_fuel_turn)
  next
    case 3
    then obtain h where g: "g = Suc h" by (cases g) auto
    show ?case unfolding g by (rule processNode_fuel_turn, rule Suc(1)) (use 3 g in auto)
  }
qed simp_all

subsection \<open>Room in the output\<close>

lemma putCharInBuffer_ready: "ready s \<Longrightarrow> \<exists>t. putCharInBuffer c s = Some t \<and> out t = out s @ [c] \<and> ready t"
  by (auto simp: putCharInBuffer_def ready_def Let_def)

lemma pp_start_ready: "0 < n \<Longrightarrow> (\<And>k. alloc k) \<Longrightarrow> ready (pp_start alloc xml n opts)"
  by (simp add: ready_def pp_start_def)

lemma pp_start_remaining: "remaining (pp_start alloc xml n opts) = length xml"
  by (simp add: remaining_def pp_start_def)

subsection \<open>Properties\<close>

definition demo_xml :: xml where
  "demo_xml = Parent ''a'' [(''x'', DQ, ''1 2''), (''y'', SQ, [])]
     [Leaf ''b'' [], Text ''c'' [] ''hi there'', Parent ''d'' [] [Leaf ''e'' [(''z'', SQ, ''3'')]]]"

definition demo_text :: string where
  "demo_text = ''<a   x='' @ [DQ] @ ''1 2'' @ [DQ] @ '' y='' @ [SQ, SQ] @ ''><b></b> <c> hi there  </c>'' @
     [LF] @ ''<d><e  z='' @ [SQ] @ ''3'' @ [SQ] @ ''/> </d></a>''"

lemma white_simps [simp]: "white []" "white (c # w) \<longleftrightarrow> isWhite c \<and> white w"
  by (simp_all add: white_def)

lemma white_chars [simp]: "isWhite (CHR '' '')" "isWhite LF" "isSpace (CHR '' '')"
  by (simp_all add: isWhite_def isSpace_def isLineBreak_def)

lemma demo_writes: "writes demo_xml demo_text"
proof -
  note no = no_attrs[of "[]", simplified]
  have b: "writes (Leaf ''b'' []) ''<b></b>''"
    using leaf_empty[of "''b''" "[]" "[]" "[]"] no by (simp add: name_ok_def tag_name_char_def isWhite_def isSpace_def isLineBreak_def)
  have c: "writes (Text ''c'' [] ''hi there'') ''<c> hi there  </c>''"
    using text_node[of "''c''" "[]" "[]" "'' ''" "''hi there''" "''  ''"] no
    by (simp add: name_ok_def tag_name_char_def text_ok_def spaces_def isWhite_def isSpace_def isLineBreak_def)
  have z: "writes_attrs [(''z'', SQ, ''3'')] (''  z='' @ [SQ] @ ''3'' @ [SQ])"
    using more_attrs[of "''  ''" "(''z'', SQ, ''3'')" "[]" "[]"] no
    by (simp add: isWhite_def isSpace_def isLineBreak_def)
  have e: "writes (Leaf ''e'' [(''z'', SQ, ''3'')]) (''<e  z='' @ [SQ] @ ''3'' @ [SQ] @ ''/>'')"
    using leaf_closed[OF _ z, of "''e''"] by (simp add: name_ok_def tag_name_char_def isWhite_def isSpace_def isLineBreak_def)
  have d: "writes (Parent ''d'' [] [Leaf ''e'' [(''z'', SQ, ''3'')]]) (''<d><e  z='' @ [SQ] @ ''3'' @ [SQ] @ ''/> </d>'')"
    using parent_node[OF _ no writes_some[OF _ e writes_none], of "''d''" "[]" "'' ''"]
    by (simp add: name_ok_def tag_name_char_def isWhite_def isSpace_def isLineBreak_def)
  have x: "writes_attrs [(''x'', DQ, ''1 2''), (''y'', SQ, [])] (''   x='' @ [DQ] @ ''1 2'' @ [DQ] @ '' y='' @ [SQ, SQ])"
    using more_attrs[OF _ _ _ more_attrs[OF _ _ _ no], of "''   ''" "(''x'', DQ, ''1 2'')" "'' ''" "(''y'', SQ, [])"]
    by (simp add: isWhite_def isSpace_def isLineBreak_def)
  have k: "writes_list [Leaf ''b'' [], Text ''c'' [] ''hi there'', Parent ''d'' [] [Leaf ''e'' [(''z'', SQ, ''3'')]]]
     (''<b></b> <c> hi there  </c>'' @ [LF] @ ''<d><e  z='' @ [SQ] @ ''3'' @ [SQ] @ ''/> </d>'')"
    using writes_some[OF _ b writes_some[OF _ c writes_some[OF _ d writes_none]], of "[]" "'' ''" "[LF]"] by simp
  show ?thesis
    using parent_node[OF _ x k, of "''a''" "[]"]
    by (simp add: demo_xml_def demo_text_def name_ok_def tag_name_char_def isWhite_def isSpace_def isLineBreak_def)
qed

lemma default_options: "layout_options createDefaultPrettyPrintingOptions" "white_options createDefaultPrettyPrintingOptions"
  by (simp_all add: layout_options_def white_options_def options_ok_def createDefaultPrettyPrintingOptions_def
      isWhite_def isSpace_def isLineBreak_def)

text \<open>
  C9: The pretty printer of a document of nested elements, whatever whites it was written with, is the
  layout of the document.
\<close>

theorem pp_layout:
  assumes "writes x w" "white v" "white v'" "layout_options opts" "0 < n"
  shows "processXMLPrettyPrinting (\<lambda>_. True) (Some (cstr (v @ w @ v'))) n (Some opts) =
    Some (PRETTY_PRINTING_SUCCESS, Some (cstr (layout opts 0 x), int (length (layout opts 0 x)) - 1))"
  using assms by (rule layout_run)

theorem pp_layout_witness:
  "processXMLPrettyPrinting (\<lambda>_. True) (Some (cstr ([LF] @ demo_text @ '' ''))) 90 (Some createDefaultPrettyPrintingOptions) =
    Some (PRETTY_PRINTING_SUCCESS, Some (cstr (''<a x='' @ [DQ] @ ''1 2'' @ [DQ] @ '' y='' @ [SQ, SQ] @ ''>'' @
     [CR, LF] @ ''  <b />'' @ [CR, LF] @ ''  <c>hi there</c>'' @ [CR, LF] @ ''  <d>'' @ [CR, LF] @ ''    <e z='' @ [SQ] @ ''3'' @ [SQ] @ '' />'' @
     [CR, LF] @ ''  </d>'' @ [CR, LF] @ ''</a>''), 81))"
  using pp_layout[OF demo_writes, of "[LF]" "'' ''" createDefaultPrettyPrintingOptions 90] default_options
  by (simp add: demo_xml_def newline_def attrs_text_def tag_text_def createDefaultPrettyPrintingOptions_def numeral_eq_Suc)

text \<open>
  C32: Pretty printing is idempotent: the output for a document of nested elements, printed again with
  the same options, is unchanged.
\<close>

theorem pp_idempotent:
  assumes "writes x w" "white v" "white v'" "layout_options opts" "white_options opts" "0 < n" "0 < m"
    "processXMLPrettyPrinting (\<lambda>_. True) (Some (cstr (v @ w @ v'))) n (Some opts) = Some (code, Some (b, l))"
  shows "processXMLPrettyPrinting (\<lambda>_. True) (Some b) m (Some opts) = Some (code, Some (b, l))"
proof -
  have "writes x (layout opts 0 x)" by (rule writes_layout[OF assms(5) writes_ok[OF assms(1)]])
  from layout_run[OF this, of "[]" "[]" opts m] show ?thesis
    using assms(8) layout_run[OF assms(1-4,6)] assms(4,7) by simp
qed

theorem pp_idempotent_witness:
  "processXMLPrettyPrinting (\<lambda>_. True) (Some (cstr (layout createDefaultPrettyPrintingOptions 0 demo_xml))) 82
     (Some createDefaultPrettyPrintingOptions) =
   Some (PRETTY_PRINTING_SUCCESS, Some (cstr (layout createDefaultPrettyPrintingOptions 0 demo_xml),
     int (length (layout createDefaultPrettyPrintingOptions 0 demo_xml)) - 1))"
  using layout_run[OF demo_writes, of "[LF]" "'' ''" createDefaultPrettyPrintingOptions 90] default_options
  by (intro pp_idempotent[OF demo_writes, of "[LF]" "'' ''" _ 90]) auto



text \<open>While memory lasts, the output never outgrows its allocation: after every run of
  \<open>processElements\<close> the index is inside it, and the next byte is put behind the others.
\<close>

theorem pp_room:
  assumes "0 < n" "readWhites True (pp_start (\<lambda>_. True) xml n opts) = Some (k, s)" "processElements f s = Some (j, t)"
  shows "length (out t) \<le> out_alloc t \<and> out_alloc t = xmlPrettyPrintedLength t \<and>
    (\<exists>u. putCharInBuffer c t = Some u \<and> out u = out t @ [c] \<and> length (out u) \<le> out_alloc u)"
proof -
  have "ready t"
    using pp_start_ready[OF assms(1)] readWhites_forward[OF assms(2)] processElements_forward[OF assms(3)]
    by (simp add: forward_def)
  then show ?thesis using putCharInBuffer_ready[of t c] by (auto simp: ready_def)
qed

theorem pp_room_witness:
  "\<exists>t. map_option snd (processElements 9 (pp_start (\<lambda>_. True) (cstr ''<b/>'') 1 createDefaultPrettyPrintingOptions)) = Some t \<and>
     out t = ''<b />'' \<and> length (out t) \<le> out_alloc t \<and> (\<exists>u. putCharInBuffer NUL t = Some u)"
proof -
  let ?s = "pp_start (\<lambda>_. True) (cstr ''<b/>'') 1 createDefaultPrettyPrintingOptions"
  have 1: "readWhites True ?s = Some (0, ?s)"
    by (simp add: readWhites_def skip_input_def skip_while.simps rd_def cstr_def pp_start_def isWhite_def isSpace_def isLineBreak_def)
  have "map_option (\<lambda>(j, t). out t) (processElements 9 ?s) = Some ''<b />''" by code_simp
  then obtain j t where t: "processElements 9 ?s = Some (j, t)" "out t = ''<b />''" by auto
  show ?thesis using pp_room[OF _ 1 t(1), of NUL] t by auto
qed

text \<open>
  The outcome and the output go together: success comes with a block, whose reported length is that
  of the block less two, and any other outcome comes with none.
\<close>

theorem pp_outcome:
  assumes "processXMLPrettyPrinting alloc xml n opts = Some (code, r)"
  shows "case r of None \<Rightarrow> code \<noteq> PRETTY_PRINTING_SUCCESS
    | Some (b, l) \<Rightarrow> code = PRETTY_PRINTING_SUCCESS \<and> b \<noteq> [] \<and> l = int (length b) - 2 \<and> alloc (length b)"
  using assms by (auto simp: processXMLPrettyPrinting_def Let_def bind_eq_Some_conv split: option.splits if_splits)

theorem pp_outcome_witness:
  "\<exists>b l. processXMLPrettyPrinting (\<lambda>_. True) (Some (cstr ''<a/>'')) 4 None = Some (PRETTY_PRINTING_SUCCESS, Some (b, l)) \<and>
     b \<noteq> [] \<and> l = int (length b) - 2"
proof -
  have r: "processXMLPrettyPrinting (\<lambda>_. True) (Some (cstr ''<a/>'')) 4 None =
    Some (PRETTY_PRINTING_SUCCESS, Some (cstr ''<a />'', 4))" by code_simp
  show ?thesis using r pp_outcome[OF r] by simp
qed

text \<open>When the output is full and it cannot be enlarged, the byte is dropped without an error, and the
  code then believes in room that is not there: the next byte is written behind the allocation.
\<close>

theorem pp_realloc_failure:
  assumes "length (out s) = xmlPrettyPrintedLength s" "out_alloc s = xmlPrettyPrintedLength s" "0 < inputBufferLength s" "c \<noteq> NUL"
    "\<not> can_alloc s (xmlPrettyPrintedLength s + inputBufferLength s)"
  shows "\<exists>t. putCharInBuffer c s = Some t \<and> out t = out s \<and> result t = result s \<and> (\<forall>d. putCharInBuffer d t = None)"
  using assms by (auto simp: putCharInBuffer_def Let_def)

theorem pp_realloc_failure_witness:
  "\<exists>t. putCharInBuffer (CHR ''b'') ((pp_start (\<lambda>k. k \<le> 1) (cstr ''a'') 1 createDefaultPrettyPrintingOptions)\<lparr>out := ''a''\<rparr>) = Some t \<and>
     out t = ''a'' \<and> putCharInBuffer (CHR ''c'') t = None"
  using pp_realloc_failure[of "(pp_start (\<lambda>k. k \<le> 1) (cstr ''a'') 1 createDefaultPrettyPrintingOptions)\<lparr>out := ''a''\<rparr>" "CHR ''b''"]
  by (auto simp: pp_start_def)

text \<open>A processing instruction with no white in the rest of the input.\<close>

lemma copy_while_overreads: "\<forall>c\<in>set (rest s). P c \<Longrightarrow> copy_while P s = None"
proof (induction P s rule: copy_while.induct)
  case (1 P s)
  show ?case
  proof (cases "getNextChar s")
    case None
    then show ?thesis by (simp add: copy_while.simps[of P s])
  next
    case (Some c)
    then have r: "rest s = c # drop (Suc (ini s)) (inputBuffer s)"
      by (auto simp: getNextChar_def rest_def rd_def Cons_nth_drop_Suc split: if_splits)
    then have c: "P c" using "1.prems" by simp
    have "copy_while P t = None" if t: "putNextChar s = Some t" for t
    proof -
      have "inputBuffer t = inputBuffer s" "ini t = Suc (ini s)"
        using t by (auto simp: putNextChar_def readNextChar_def putCharInBuffer_def Let_def bind_eq_Some_conv split: if_splits)
      then show ?thesis using "1.IH"[OF Some c t] "1.prems" r by (simp add: rest_def)
    qed
    then show ?thesis using Some c by (cases "putNextChar s") (simp_all add: copy_while.simps[of P s])
  qed
qed

text \<open>A document that starts with a processing instruction and has no white in it is read past its end:
  the loop over the name of the instruction stops at whites only.
\<close>

theorem pp_header_overread:
  assumes "\<forall>c\<in>set w. \<not> isWhite c" "0 < n"
  shows "processXMLPrettyPrinting (\<lambda>_. True) (Some (cstr (''<?'' @ w))) n opts = None"
proof -
  let ?o = "case opts of Some ppOptions \<Rightarrow> ppOptions | None \<Rightarrow> createDefaultPrettyPrintingOptions"
  let ?b = "cstr (''<?'' @ w)" let ?s = "pp_start (\<lambda>_. True) ?b n ?o"
  have lt: "\<not> isWhite (CHR ''<'')" "\<not> isWhite (CHR ''?'')" "\<not> isWhite NUL" by (simp_all add: isWhite_def isSpace_def isLineBreak_def)
  have r: "rest ?s = CHR ''<'' # CHR ''?'' # w @ [NUL]" by (simp add: rest_def pp_start_def cstr_def)
  have ws: "readWhites True s = Some (0, s)" if "rest s = rest ?s" for s
    using readWhites_rest[of s "[]", OF _ _ lt(1)] that r by simp
  let ?s2 = "?s\<lparr>currentDepth := 0\<rparr>" let ?s3 = "?s2\<lparr>appendIndentation := True\<rparr>"
  have r3: "rest ?s2 = rest ?s" "rest ?s3 = rest ?s" by (simp_all add: rest_def)
  have "processHeader ?s3 = None"
  proof -
    have "copy_while (\<lambda>c. \<not> isWhite c) u = None" if "putNextCharsInBuffer 2 ?s3 = Some u" for u
    proof (rule copy_while_overreads)
      have "rest u = w @ [NUL]"
        using that by (auto simp: numeral_2_eq_2 putNextChar_def readNextChar_def putCharInBuffer_def Let_def rest_def
            pp_start_def cstr_def bind_eq_Some_conv split: if_splits)
      then show "\<forall>c\<in>set (rest u). \<not> isWhite c" using assms(1) lt(3) by auto
    qed
    then show ?thesis
      using getNextChar_rest[of ?s3] peek_rest[of 1 ?s3] r3 r unfolding processHeader_def
      by (cases "putNextCharsInBuffer 2 ?s3") (simp_all add: Let_def del: putNextCharsInBuffer.simps)
  qed
  moreover have "next_element ?s2 = Some (Header, False, ?s3)"
    using ws[OF r3(1)] getNextChar_rest[of ?s2] peek_rest[of 1 ?s3] r3 r
    by (simp add: next_element_def Let_def pp_start_def)
  ultimately have "processElements (pp_fuel ?b) ?s = None"
    by (simp add: pp_fuel_def cstr_def numeral_eq_Suc pp_start_def)
  then show ?thesis
    using ws[of ?s] assms(2) by (simp add: processXMLPrettyPrinting_def Let_def)
qed

theorem pp_header_overread_witness:
  "processXMLPrettyPrinting (\<lambda>_. True) (Some (cstr ''<?p?><a/>'')) 9 None = None"
  using pp_header_overread[of "''p?><a/>''" 9 None] by (simp add: isWhite_def isSpace_def isLineBreak_def)


end
