(* ===== verification/LineFns.thy ===== *)
theory LineFns
  imports ScpData CSort
begin

text \<open>
  The functions of the line operations plugin that work on an array of lines
  (\<open>lineoperations/src/lo_fns.c\<close>): removing duplicate lines, unique lines and repeated lines, sorting. The
  pointers of \<open>lines\<close> are the lines themselves; \<open>new_file\<close> is what has been written to it, and writing past the block is the
  fault \<^term>\<open>None\<close>.
\<close>

subsection \<open>Comparing and copying lines\<close>

text \<open>
  The preference \<open>use_collation_compare\<close> of \<open>LineOpsInfo\<close>, and the comparison it selects.
  \<open>g_utf8_collate\<close> belongs to GLib and is an argument. A line is the content of its C string.
\<close>

type_synonym lo_strcmpfns = "string \<Rightarrow> string \<Rightarrow> int"

record LineOpsInfo =
  config_file :: string
  use_collation_compare :: bool

definition getcmpfns :: "LineOpsInfo \<Rightarrow> lo_strcmpfns \<Rightarrow> lo_strcmpfns" where
  "getcmpfns lo_info collate =
     (if use_collation_compare lo_info then collate else (\<lambda>a b. g_strcmp0 (Some a) (Some b)))"

definition compare_asc :: "LineOpsInfo \<Rightarrow> lo_strcmpfns \<Rightarrow> lo_strcmpfns" where
  "compare_asc lo_info collate = (\<lambda>a b. getcmpfns lo_info collate a b)"

definition compare_desc :: "LineOpsInfo \<Rightarrow> lo_strcmpfns \<Rightarrow> lo_strcmpfns" where
  "compare_desc lo_info collate = (\<lambda>a b. getcmpfns lo_info collate b a)"

text \<open>
  \<open>g_stpcpy\<close> at the end of \<open>new_file\<close>, a block of \<open>room\<close> bytes of which \<open>nf\<close> is used: the line and its
  terminating \<open>NUL\<close> must fit.
\<close>

definition g_stpcpy :: "nat \<Rightarrow> string \<Rightarrow> string \<Rightarrow> string option" where
  "g_stpcpy room nf line = (if length nf + length line < room then Some (nf @ line) else None)"

subsection \<open>Functions on the array of lines\<close>

text \<open>
  Each returns what it leaves in \<open>new_file\<close> and its result. The loops over \<open>to_remove\<close> run over the
  indices of the array, as in the code.
\<close>

fun rmdupst_loop :: "lo_strcmpfns \<Rightarrow> nat \<Rightarrow> string list \<Rightarrow> string \<Rightarrow> string \<Rightarrow> int \<Rightarrow> (string \<times> int) option" where
  "rmdupst_loop lo_strcmp room [] lineptr nf changed = Some (nf, changed)"
| "rmdupst_loop lo_strcmp room (line # lines) lineptr nf changed =
     (if lo_strcmp line lineptr \<noteq> 0 then do {
        nf \<leftarrow> g_stpcpy room nf line;
        rmdupst_loop lo_strcmp room lines line nf (changed + 1) }
      else rmdupst_loop lo_strcmp room lines lineptr nf changed)"

type_synonym qsort = "lo_strcmpfns \<Rightarrow> string list \<Rightarrow> string list"

text \<open>What the functions are given besides the lines: preferences, collation and \<open>qsort\<close>.\<close>

record lo_env =
  lo_info :: LineOpsInfo
  collate :: lo_strcmpfns
  c_qsort :: qsort

definition rmdupst :: "lo_env \<Rightarrow> string list \<Rightarrow> nat \<Rightarrow> (string \<times> int) option" where
  "rmdupst env lines room = do {
     let lo_strcmp = getcmpfns (lo_info env) (collate env);
     let lines = c_qsort env (compare_asc (lo_info env) (collate env)) lines;
     (nf, changed) \<leftarrow> rmdupst_loop lo_strcmp room lines '' '' [] 0;
     Some (nf, - (int (length lines) - changed)) }"

text \<open>The last loop of the functions that mark lines: the lines that are not marked are joined.\<close>

fun join_unmarked :: "nat \<Rightarrow> string list \<Rightarrow> bool list \<Rightarrow> string \<Rightarrow> int \<Rightarrow> (string \<times> int) option" where
  "join_unmarked room (line # lines) (r # to_remove) nf changed =
     (if \<not> r then do {
        nf \<leftarrow> g_stpcpy room nf line;
        join_unmarked room lines to_remove nf (changed + 1) }
      else join_unmarked room lines to_remove nf changed)"
| "join_unmarked room _ _ nf changed = Some (nf, changed)"

definition rmdupln_mark :: "lo_strcmpfns \<Rightarrow> string list \<Rightarrow> nat \<Rightarrow> bool list \<Rightarrow> bool list" where
  "rmdupln_mark lo_strcmp lines i to_remove =
     (if \<not> to_remove ! i
      then fold (\<lambda>j tr. if \<not> tr ! j \<and> lo_strcmp (lines ! i) (lines ! j) = 0 then tr[j := True] else tr)
        [i + 1..<length lines] to_remove
      else to_remove)"

definition rmdupln :: "lo_env \<Rightarrow> string list \<Rightarrow> nat \<Rightarrow> (string \<times> int) option" where
  "rmdupln env lines room = do {
     let n = length lines;
     let lo_strcmp = getcmpfns (lo_info env) (collate env);
     let to_remove = fold (rmdupln_mark lo_strcmp lines) [0..<n] (replicate n False);
     (nf, changed) \<leftarrow> join_unmarked room lines to_remove [] 0;
     Some (nf, - (int n - changed)) }"

definition rmunqln_mark :: "lo_strcmpfns \<Rightarrow> string list \<Rightarrow> nat \<Rightarrow> bool list \<Rightarrow> bool list" where
  "rmunqln_mark lo_strcmp lines i to_remove =
     (if to_remove ! i
      then fold (\<lambda>j tr. if tr ! j \<and> lo_strcmp (lines ! i) (lines ! j) = 0 then tr[i := False, j := False] else tr)
        [i + 1..<length lines] to_remove
      else to_remove)"

definition rmunqln :: "lo_env \<Rightarrow> string list \<Rightarrow> nat \<Rightarrow> (string \<times> int) option" where
  "rmunqln env lines room = do {
     let n = length lines;
     let lo_strcmp = getcmpfns (lo_info env) (collate env);
     let to_remove = fold (rmunqln_mark lo_strcmp lines) [0..<n] (replicate n True);
     (nf, changed) \<leftarrow> join_unmarked room lines to_remove [] 0;
     Some (nf, - (int n - changed)) }"

definition kpunqln_mark :: "lo_strcmpfns \<Rightarrow> string list \<Rightarrow> nat \<Rightarrow> bool list \<Rightarrow> bool list" where
  "kpunqln_mark lo_strcmp lines i to_remove =
     (if \<not> to_remove ! i
      then fold (\<lambda>j tr. if \<not> tr ! j \<and> lo_strcmp (lines ! i) (lines ! j) = 0 then tr[i := True, j := True] else tr)
        [i + 1..<length lines] to_remove
      else to_remove)"

definition kpunqln :: "lo_env \<Rightarrow> string list \<Rightarrow> nat \<Rightarrow> (string \<times> int) option" where
  "kpunqln env lines room = do {
     let n = length lines;
     let lo_strcmp = getcmpfns (lo_info env) (collate env);
     let to_remove = fold (kpunqln_mark lo_strcmp lines) [0..<n] (replicate n False);
     (nf, changed) \<leftarrow> join_unmarked room lines to_remove [] 0;
     Some (nf, - (int n - changed)) }"

text \<open>The sorting functions join all lines.\<close>

definition sortlnsasc :: "lo_env \<Rightarrow> string list \<Rightarrow> nat \<Rightarrow> (string \<times> int) option" where
  "sortlnsasc env lines room = do {
     let lines = c_qsort env (compare_asc (lo_info env) (collate env)) lines;
     nf \<leftarrow> foldM (\<lambda>line nf. g_stpcpy room nf line) lines [];
     Some (nf, int (length lines)) }"

definition sortlndesc :: "lo_env \<Rightarrow> string list \<Rightarrow> nat \<Rightarrow> (string \<times> int) option" where
  "sortlndesc env lines room = do {
     let lines = c_qsort env (compare_desc (lo_info env) (collate env)) lines;
     nf \<leftarrow> foldM (\<lambda>line nf. g_stpcpy room nf line) lines [];
     Some (nf, int (length lines)) }"

end
