(* ===== verification/LineSpec.thy ===== *)
theory LineSpec
  imports LineFns
begin

text \<open>
  What the functions on the array of lines compute: the first of equal lines, lines that occur once, sorted
  lines without repetitions. A comparison function only has to keep the contract \<open>comparator\<close>, so the results hold for
  byte order and for collation.
\<close>

subsection \<open>What they compute\<close>

text \<open>The lines no earlier line compares equal to; \<open>seen\<close> are the lines before.\<close>

fun keep_first :: "lo_strcmpfns \<Rightarrow> string list \<Rightarrow> string list \<Rightarrow> string list" where
  "keep_first cmp seen [] = []"
| "keep_first cmp seen (x # xs) =
     (if \<exists>y\<in>set seen. cmp y x = 0 then keep_first cmp (x # seen) xs else x # keep_first cmp (x # seen) xs)"

text \<open>The lines that occur once, or more than once.\<close>

definition occurs :: "lo_strcmpfns \<Rightarrow> string list \<Rightarrow> string \<Rightarrow> nat" where
  "occurs cmp lines x = length (filter (\<lambda>y. cmp x y = 0) lines)"

definition unique_lines :: "lo_strcmpfns \<Rightarrow> string list \<Rightarrow> string list" where
  "unique_lines cmp lines = filter (\<lambda>x. occurs cmp lines x = 1) lines"

definition repeated_lines :: "lo_strcmpfns \<Rightarrow> string list \<Rightarrow> string list" where
  "repeated_lines cmp lines = filter (\<lambda>x. occurs cmp lines x \<noteq> 1) lines"

text \<open>What a function leaves for the lines it keeps.\<close>

definition kept :: "string list \<Rightarrow> string list \<Rightarrow> string \<times> int" where
  "kept lines ks = (concat ks, - (int (length lines) - int (length ks)))"

subsection \<open>Joining\<close>

lemma g_stpcpy_fits: "length nf + length line < room \<Longrightarrow> g_stpcpy room nf line = Some (nf @ line)"
  by (simp add: g_stpcpy_def)

lemma join_all: "length nf + length (concat lines) < room \<Longrightarrow> foldM (\<lambda>line nf. g_stpcpy room nf line) lines nf = Some (nf @ concat lines)"
  by (induction lines arbitrary: nf) (simp_all add: g_stpcpy_fits)

lemma join_unmarked_spec:
  "length to_remove = length lines \<Longrightarrow> length nf + length (concat lines) < room \<Longrightarrow>
   join_unmarked room lines to_remove nf changed =
     (let ks = map fst (filter (\<lambda>(l, r). \<not> r) (zip lines to_remove)) in Some (nf @ concat ks, changed + int (length ks)))"
proof (induction lines arbitrary: to_remove nf changed)
  case (Cons line lines)
  then obtain r tr where "to_remove = r # tr" by (cases to_remove) auto
  then show ?case using Cons by (auto simp: g_stpcpy_fits Let_def)
qed simp

lemma unmarked_filter:
  assumes "length to_remove = length lines" "\<And>k. k < length lines \<Longrightarrow> to_remove ! k = (\<not> P k)"
  shows "map fst (filter (\<lambda>(l, r). \<not> r) (zip lines to_remove)) = map ((!) lines) (filter P [0..<length lines])"
  using assms
proof (induction lines arbitrary: to_remove rule: rev_induct)
  case (snoc line lines)
  obtain tr r where tr: "to_remove = tr @ [r]" "length tr = length lines"
    using snoc.prems(1) by (cases to_remove rule: rev_cases) auto
  have "tr ! k = (\<not> P k)" if "k < length lines" for k
    using snoc.prems(2)[of k] that tr by (simp add: nth_append)
  then have "map fst (filter (\<lambda>(l, r). \<not> r) (zip lines tr)) = map ((!) lines) (filter P [0..<length lines])"
    using snoc.IH tr(2) by blast
  moreover have "map ((!) (lines @ [line])) (filter P [0..<length lines]) = map ((!) lines) (filter P [0..<length lines])"
    by (auto simp: nth_append)
  moreover have "r = (\<not> P (length lines))" using snoc.prems(2)[of "length lines"] tr by (simp add: nth_append)
  ultimately show ?case using tr by (simp add: nth_append)
qed simp

lemma keep_first_filter:
  "keep_first cmp seen xs = map ((!) xs) (filter (\<lambda>k. \<forall>y\<in>set seen \<union> set (take k xs). cmp y (xs ! k) \<noteq> 0) [0..<length xs])"
proof (induction xs arbitrary: seen)
  case (Cons x xs)
  have up: "[0..<length (x # xs)] = 0 # map Suc [0..<length xs]" by (simp add: map_Suc_upt upt_conv_Cons del: upt_Suc)
  show ?case
    unfolding up by (simp add: Cons.IH filter_map o_def)
qed simp

text \<open>The loop over the later lines.\<close>

lemma mark_later:
  fixes Q :: "nat \<Rightarrow> bool"
  assumes "set js \<subseteq> {..<length tr}"
  defines "r \<equiv> fold (\<lambda>j tr. if \<not> tr ! j \<and> Q j then tr[j := True] else tr) js tr"
  shows "length r = length tr \<and> (\<forall>k<length tr. r ! k \<longleftrightarrow> tr ! k \<or> k \<in> set js \<and> Q k)"
  unfolding r_def using assms(1)
proof (induction js arbitrary: tr)
  case (Cons j js)
  let ?tr = "if \<not> tr ! j \<and> Q j then tr[j := True] else tr"
  have "set js \<subseteq> {..<length ?tr}" using Cons.prems by auto
  from Cons.IH[OF this] show ?case using Cons.prems by (auto simp: nth_list_update)
qed simp

lemma mark_both:
  fixes Q :: "nat \<Rightarrow> bool"
  assumes "set js \<subseteq> {..<length tr}" "i < length tr" "i \<notin> set js"
  defines "r \<equiv> fold (\<lambda>j tr. if \<not> tr ! j \<and> Q j then tr[i := True, j := True] else tr) js tr"
  shows "length r = length tr \<and> (\<forall>k<length tr. r ! k \<longleftrightarrow> tr ! k \<or> k \<in> set js \<and> Q k \<or> k = i \<and> (\<exists>j\<in>set js. \<not> tr ! j \<and> Q j))"
  unfolding r_def using assms(1-3)
proof (induction js arbitrary: tr)
  case (Cons j js)
  let ?tr = "if \<not> tr ! j \<and> Q j then tr[i := True, j := True] else tr"
  have pre: "set js \<subseteq> {..<length ?tr}" "i < length ?tr" "i \<notin> set js" using Cons.prems by auto
  from Cons.IH[OF pre] show ?case using Cons.prems by (auto simp: nth_list_update)
qed simp

text \<open>The marks after the loops, on lines that a comparison function splits into classes.\<close>

definition classes :: "lo_strcmpfns \<Rightarrow> string list \<Rightarrow> bool" where
  "classes cmp lines \<longleftrightarrow> (\<forall>x\<in>set lines. cmp x x = 0) \<and>
     (\<forall>x\<in>set lines. \<forall>y\<in>set lines. cmp x y = 0 \<longrightarrow> cmp y x = 0) \<and>
     (\<forall>x\<in>set lines. \<forall>y\<in>set lines. \<forall>z\<in>set lines. cmp x y = 0 \<longrightarrow> cmp y z = 0 \<longrightarrow> cmp x z = 0)"

lemma comparator_classes:
  assumes "comparator cmp D" "set lines \<subseteq> D"
  shows "classes cmp lines"
proof -
  have D: "x \<in> D" if "x \<in> set lines" for x using that assms(2) by auto
  show ?thesis
    unfolding classes_def
  proof (intro conjI ballI impI)
    fix x y z assume x: "x \<in> set lines" "y \<in> set lines"
    show "cmp x x = 0" using comparator.refl[OF assms(1) D[OF x(1)]] .
    show "cmp y x = 0" if "cmp x y = 0"
      using comparator.flip[OF assms(1) D[OF x(1)] D[OF x(2)]] that by (simp add: sgn_if split: if_splits)
    assume z: "z \<in> set lines" "cmp x y = 0" "cmp y z = 0"
    have "cmp x z \<le> 0" "cmp z x \<le> 0"
      using comparator.trans[OF assms(1) D[OF x(1)] D[OF x(2)] D[OF z(1)]] comparator.trans[OF assms(1) D[OF z(1)] D[OF x(2)] D[OF x(1)]]
        comparator.le_flip[OF assms(1) D[OF x(2)] D[OF x(1)]] comparator.le_flip[OF assms(1) D[OF z(1)] D[OF x(2)]] z by auto
    then show "cmp x z = 0" using comparator.le_flip[OF assms(1) D[OF z(1)] D[OF x(1)]] by simp
  qed
qed

lemma rmdupln_mark_step:
  assumes "length tr = length lines"
  shows "length (rmdupln_mark cmp lines m tr) = length lines \<and>
    (\<forall>k<length lines. rmdupln_mark cmp lines m tr ! k \<longleftrightarrow> tr ! k \<or> \<not> tr ! m \<and> m < k \<and> cmp (lines ! m) (lines ! k) = 0)"
proof -
  have "set [m + 1..<length lines] \<subseteq> {..<length tr}" using assms by auto
  from mark_later[OF this, of "\<lambda>j. cmp (lines ! m) (lines ! j) = 0"] show ?thesis
    using assms by (auto simp: rmdupln_mark_def Suc_le_eq)
qed

lemma kpunqln_mark_step:
  assumes "length tr = length lines" "m < length lines"
  shows "length (kpunqln_mark cmp lines m tr) = length lines \<and>
    (\<forall>k<length lines. kpunqln_mark cmp lines m tr ! k \<longleftrightarrow> tr ! k \<or> \<not> tr ! m \<and>
      (m < k \<and> cmp (lines ! m) (lines ! k) = 0 \<or>
       k = m \<and> (\<exists>j. m < j \<and> j < length lines \<and> \<not> tr ! j \<and> cmp (lines ! m) (lines ! j) = 0)))"
proof -
  have "set [m + 1..<length lines] \<subseteq> {..<length tr}" "m < length tr" "m \<notin> set [m + 1..<length lines]" using assms by auto
  from mark_both[OF this, of "\<lambda>j. cmp (lines ! m) (lines ! j) = 0"] show ?thesis
    using assms by (auto simp: kpunqln_mark_def Suc_le_eq)
qed

lemma rmdupln_marks:
  assumes "classes cmp lines" "m \<le> length lines"
  defines "tr \<equiv> fold (rmdupln_mark cmp lines) [0..<m] (replicate (length lines) False)"
  shows "length tr = length lines \<and> (\<forall>k<length lines. tr ! k \<longleftrightarrow> (\<exists>i<m. i < k \<and> cmp (lines ! i) (lines ! k) = 0))"
  unfolding tr_def using assms(2)
proof (induction m)
  case (Suc m)
  let ?tr = "fold (rmdupln_mark cmp lines) [0..<m] (replicate (length lines) False)"
  have IH: "length ?tr = length lines" "\<And>k. k < length lines \<Longrightarrow> ?tr ! k \<longleftrightarrow> (\<exists>i<m. i < k \<and> cmp (lines ! i) (lines ! k) = 0)"
    using Suc by auto
  have m: "m < length lines" using Suc.prems by simp
  note step = rmdupln_mark_step[OF IH(1), of cmp m]
  have old: "?tr ! k" if k: "k < length lines" "?tr ! m" "m < k" "cmp (lines ! m) (lines ! k) = 0" for k
  proof -
    obtain i where i: "i < m" "cmp (lines ! i) (lines ! m) = 0" using IH(2)[OF m] k(2) by auto
    then have "cmp (lines ! i) (lines ! k) = 0"
      using assms(1) k m unfolding classes_def by (meson dual_order.strict_trans nth_mem)
    then show ?thesis using IH(2)[OF k(1)] i(1) k(3) by auto
  qed
  have "(\<exists>i<Suc m. i < k \<and> cmp (lines ! i) (lines ! k) = 0) \<longleftrightarrow>
      (\<exists>i<m. i < k \<and> cmp (lines ! i) (lines ! k) = 0) \<or> m < k \<and> cmp (lines ! m) (lines ! k) = 0" for k
    by (auto simp: less_Suc_eq)
  moreover have "rmdupln_mark cmp lines m ?tr ! k \<longleftrightarrow> ?tr ! k \<or> m < k \<and> cmp (lines ! m) (lines ! k) = 0"
    if "k < length lines" for k
    using step that old by blast
  ultimately show ?case using step IH(2) by simp
qed simp

lemma kpunqln_marks:
  assumes "classes cmp lines" "m \<le> length lines"
  defines "tr \<equiv> fold (kpunqln_mark cmp lines) [0..<m] (replicate (length lines) False)"
  shows "length tr = length lines \<and> (\<forall>k<length lines. tr ! k \<longleftrightarrow>
    (\<exists>i j. i < m \<and> i < j \<and> j < length lines \<and> (k = i \<or> k = j) \<and> cmp (lines ! i) (lines ! j) = 0))"
  unfolding tr_def using assms(2)
proof (induction m)
  case (Suc m)
  let ?tr = "fold (kpunqln_mark cmp lines) [0..<m] (replicate (length lines) False)"
  let ?E = "\<lambda>i j. cmp (lines ! i) (lines ! j) = 0"
  let ?M = "\<lambda>m k. \<exists>i j. i < m \<and> i < j \<and> j < length lines \<and> (k = i \<or> k = j) \<and> ?E i j"
  have IH: "length ?tr = length lines" "\<And>k. k < length lines \<Longrightarrow> ?tr ! k \<longleftrightarrow> ?M m k"
    using Suc by auto
  have m: "m < length lines" using Suc.prems by simp
  note step = kpunqln_mark_step[OF IH(1) m, of cmp]
  have sym: "?E j i" if "?E i j" "i < length lines" "j < length lines" for i j
    using that assms(1) unfolding classes_def by (meson nth_mem)
  have tran: "?E i k" if "?E i j" "?E j k" "i < length lines" "j < length lines" "k < length lines" for i j k
    using that assms(1) unfolding classes_def by (meson nth_mem)
  have old: "?tr ! j" if j: "?tr ! m" "m < j" "j < length lines" "?E m j" for j
  proof -
    obtain a b where ab: "a < m" "a < b" "b < length lines" "m = a \<or> m = b" "?E a b" using IH(2)[OF m] j(1) by blast
    then have "?E a j" using tran[of a m j] j m by auto
    moreover have "a < j" using ab(1) j(2) by simp
    ultimately show ?thesis using IH(2)[OF j(3)] ab(1) j(3) by blast
  qed
  have new: "?tr ! m" if j: "?tr ! j" "m < j" "j < length lines" "?E m j" for j
  proof -
    obtain a b where ab: "a < m" "a < b" "b < length lines" "j = a \<or> j = b" "?E a b" using IH(2)[OF j(3)] j(1) by blast
    then have "?E a m" using tran[of a j m] sym[of m j] j m by auto
    then show ?thesis using IH(2)[OF m] ab(1) m by blast
  qed
  have "?M (Suc m) k \<longleftrightarrow> ?M m k \<or> (\<exists>j. m < j \<and> j < length lines \<and> (k = m \<or> k = j) \<and> ?E m j)" for k
    by (auto simp: less_Suc_eq)
  moreover have "kpunqln_mark cmp lines m ?tr ! k \<longleftrightarrow> ?tr ! k \<or> (\<exists>j. m < j \<and> j < length lines \<and> (k = m \<or> k = j) \<and> ?E m j)"
    if "k < length lines" for k
    using step that old new m by blast
  ultimately show ?case using step IH(2) by simp
qed simp

text \<open>The marks of \<open>rmunqln\<close> are the opposite ones.\<close>

lemma rmunqln_mark_not:
  assumes "length tr = length lines" "m < length lines"
  shows "rmunqln_mark cmp lines m (map Not tr) = map Not (kpunqln_mark cmp lines m tr)"
proof -
  have "fold (\<lambda>j tr. if tr ! j \<and> Q j then tr[m := False, j := False] else tr) js (map Not tr) =
      map Not (fold (\<lambda>j tr. if \<not> tr ! j \<and> Q j then tr[m := True, j := True] else tr) js tr)"
    if js: "set js \<subseteq> {..<length tr}" for Q js and tr :: "bool list"
    using js
  proof (induction js arbitrary: tr)
    case (Cons j js)
    let ?tr = "if \<not> tr ! j \<and> Q j then tr[m := True, j := True] else tr"
    have "set js \<subseteq> {..<length ?tr}" using Cons.prems by auto
    from Cons.IH[OF this] show ?case using Cons.prems by (auto simp: map_update split: if_splits)
  qed simp
  moreover have "set [m + 1..<length lines] \<subseteq> {..<length tr}" using assms by auto
  ultimately show ?thesis using assms by (simp add: rmunqln_mark_def kpunqln_mark_def)
qed

lemma rmunqln_marks:
  "m \<le> length lines \<Longrightarrow> fold (rmunqln_mark cmp lines) [0..<m] (replicate (length lines) True) =
     map Not (fold (kpunqln_mark cmp lines) [0..<m] (replicate (length lines) False)) \<and>
   length (fold (kpunqln_mark cmp lines) [0..<m] (replicate (length lines) False)) = length lines"
proof (induction m)
  case (Suc m)
  let ?tr = "fold (kpunqln_mark cmp lines) [0..<m] (replicate (length lines) False)"
  have IH: "length ?tr = length lines"
    "fold (rmunqln_mark cmp lines) [0..<m] (replicate (length lines) True) = map Not ?tr" using Suc by auto
  have m: "m < length lines" using Suc.prems by simp
  show ?case using rmunqln_mark_not[OF IH(1) m, of cmp] kpunqln_mark_step[OF IH(1) m, of cmp] IH(2) by simp
qed simp

lemma filter_by_index: "filter P xs = map ((!) xs) (filter (\<lambda>k. P (xs ! k)) [0..<length xs])"
proof -
  have "filter P (map ((!) xs) [0..<length xs]) = map ((!) xs) (filter (P \<circ> (!) xs) [0..<length xs])" by (rule filter_map)
  then show ?thesis by (simp add: map_nth comp_def)
qed

lemma occurs_once:
  assumes "classes cmp lines" "k < length lines"
  shows "occurs cmp lines (lines ! k) = 1 \<longleftrightarrow> (\<forall>j<length lines. j \<noteq> k \<longrightarrow> cmp (lines ! k) (lines ! j) \<noteq> 0)"
proof -
  define S where "S = {j. j < length lines \<and> cmp (lines ! k) (lines ! j) = 0}"
  have k: "k \<in> S" using assms by (simp add: S_def classes_def)
  have "card S = Suc 0 \<longleftrightarrow> (\<exists>x. S = {x})" by (rule card_1_singleton_iff)
  also have "\<dots> \<longleftrightarrow> S = {k}" using k by blast
  also have "\<dots> \<longleftrightarrow> (\<forall>j<length lines. j \<noteq> k \<longrightarrow> cmp (lines ! k) (lines ! j) \<noteq> 0)" using k by (auto simp: S_def)
  finally show ?thesis by (simp add: occurs_def length_filter_conv_card S_def)
qed

lemma kpunqln_unmarked:
  assumes "classes cmp lines"
  defines "tr \<equiv> fold (kpunqln_mark cmp lines) [0..<length lines] (replicate (length lines) False)"
  shows "length tr = length lines" "k < length lines \<Longrightarrow> tr ! k \<longleftrightarrow> occurs cmp lines (lines ! k) \<noteq> 1"
proof -
  have marks: "length tr = length lines \<and> (\<forall>k<length lines. tr ! k \<longleftrightarrow>
    (\<exists>i j. i < length lines \<and> i < j \<and> j < length lines \<and> (k = i \<or> k = j) \<and> cmp (lines ! i) (lines ! j) = 0))"
    unfolding tr_def by (rule kpunqln_marks[OF assms(1) order_refl])
  then show "length tr = length lines" by simp
  have sym: "cmp (lines ! j) (lines ! i) = 0" if "cmp (lines ! i) (lines ! j) = 0" "i < length lines" "j < length lines" for i j
    using that assms(1) unfolding classes_def by (meson nth_mem)
  show "tr ! k \<longleftrightarrow> occurs cmp lines (lines ! k) \<noteq> 1" if k: "k < length lines"
  proof -
    have "(\<exists>i j. i < length lines \<and> i < j \<and> j < length lines \<and> (k = i \<or> k = j) \<and> cmp (lines ! i) (lines ! j) = 0) \<longleftrightarrow>
      (\<exists>j<length lines. j \<noteq> k \<and> cmp (lines ! k) (lines ! j) = 0)" (is "?A \<longleftrightarrow> ?B")
    proof
      assume ?A
      then obtain i j where ij: "i < length lines" "i < j" "j < length lines" "k = i \<or> k = j" "cmp (lines ! i) (lines ! j) = 0" by blast
      from ij(4) show ?B
      proof
        assume "k = i"
        then show ?B using ij by (intro exI[of _ j]) simp
      next
        assume "k = j"
        then show ?B using ij sym[OF ij(5,1,3)] by (intro exI[of _ i]) simp
      qed
    next
      assume ?B
      then obtain j where j: "j < length lines" "j \<noteq> k" "cmp (lines ! k) (lines ! j) = 0" by blast
      show ?A
      proof (cases "k < j")
        case True
        then show ?thesis using j k by (intro exI[of _ k] exI[of _ j]) simp
      next
        case False
        then show ?thesis using j k sym[OF j(3) k j(1)] by (intro exI[of _ j] exI[of _ k]) simp
      qed
    qed
    then show ?thesis using occurs_once[OF assms(1) k] marks k by simp
  qed
qed

lemma join_kept:
  assumes "length (concat lines) < room" "length tr = length lines" "\<And>k. k < length lines \<Longrightarrow> tr ! k = (\<not> P k)"
  shows "(do { (nf, changed) \<leftarrow> join_unmarked room lines tr [] 0; Some (nf, - (int (length lines) - changed)) }) =
    Some (kept lines (map ((!) lines) (filter P [0..<length lines])))"
  using join_unmarked_spec[of tr lines "[]" room 0] unmarked_filter[of tr lines P] assms
  by (simp add: kept_def Let_def)

abbreviation lo_cmp :: "lo_env \<Rightarrow> lo_strcmpfns" where
  "lo_cmp env \<equiv> getcmpfns (lo_info env) (collate env)"

lemma rmdupln_kept:
  assumes "classes (lo_cmp env) lines" "length (concat lines) < room"
  shows "rmdupln env lines room = Some (kept lines (keep_first (lo_cmp env) [] lines))"
proof -
  let ?tr = "fold (rmdupln_mark (lo_cmp env) lines) [0..<length lines] (replicate (length lines) False)"
  let ?P = "\<lambda>k. \<forall>y\<in>set [] \<union> set (take k lines). lo_cmp env y (lines ! k) \<noteq> 0"
  note m = rmdupln_marks[OF assms(1) order_refl]
  have "?tr ! k = (\<not> ?P k)" if "k < length lines" for k
  proof -
    have "set (take k lines) = (!) lines ` {0..<k}" using that nth_image[of k lines] by simp
    moreover have "?tr ! k \<longleftrightarrow> (\<exists>i<length lines. i < k \<and> lo_cmp env (lines ! i) (lines ! k) = 0)" using m that by blast
    ultimately show ?thesis using that by auto
  qed
  then show ?thesis
    unfolding keep_first_filter using join_kept[OF assms(2), of ?tr ?P] m by (simp add: rmdupln_def Let_def)
qed

lemma kpunqln_kept:
  assumes "classes (lo_cmp env) lines" "length (concat lines) < room"
  shows "kpunqln env lines room = Some (kept lines (unique_lines (lo_cmp env) lines))"
proof -
  note m = kpunqln_unmarked[OF assms(1)]
  show ?thesis
    unfolding unique_lines_def filter_by_index[of _ lines]
    using join_kept[OF assms(2) m(1), of "\<lambda>k. occurs (lo_cmp env) lines (lines ! k) = 1"] m(2)
    by (simp add: kpunqln_def Let_def)
qed

lemma rmunqln_kept:
  assumes "classes (lo_cmp env) lines" "length (concat lines) < room"
  shows "rmunqln env lines room = Some (kept lines (repeated_lines (lo_cmp env) lines))"
proof -
  let ?tr = "fold (rmunqln_mark (lo_cmp env) lines) [0..<length lines] (replicate (length lines) True)"
  note m = kpunqln_unmarked[OF assms(1)]
  have "length ?tr = length lines" "\<And>k. k < length lines \<Longrightarrow> ?tr ! k = (\<not> (occurs (lo_cmp env) lines (lines ! k) \<noteq> 1))"
    using rmunqln_marks[OF order_refl, of "lo_cmp env" lines] m by simp_all
  then show ?thesis
    unfolding repeated_lines_def filter_by_index[of _ lines]
    using join_kept[OF assms(2), of ?tr "\<lambda>k. occurs (lo_cmp env) lines (lines ! k) \<noteq> 1"]
    by (simp add: rmunqln_def Let_def)
qed

text \<open>Lines in order, the repetitions of a line dropped.\<close>

fun drop_repeats :: "lo_strcmpfns \<Rightarrow> string \<Rightarrow> string list \<Rightarrow> string list" where
  "drop_repeats cmp lineptr [] = []"
| "drop_repeats cmp lineptr (x # xs) =
     (if cmp x lineptr \<noteq> 0 then x # drop_repeats cmp x xs else drop_repeats cmp lineptr xs)"

lemma rmdupst_loop_spec:
  "length nf + length (concat lines) < room \<Longrightarrow> rmdupst_loop cmp room lines lineptr nf changed =
     Some (nf @ concat (drop_repeats cmp lineptr lines), changed + int (length (drop_repeats cmp lineptr lines)))"
  by (induction lines arbitrary: lineptr nf changed) (auto simp: g_stpcpy_fits)

lemma drop_repeats_sorted:
  assumes "comparator cmp D" "x \<in> D"
  shows "set xs \<subseteq> D \<Longrightarrow> sorted_wrt (\<lambda>a b. cmp a b \<le> 0) (x # xs) \<Longrightarrow>
    sorted_wrt (\<lambda>a b. cmp a b < 0) (x # drop_repeats cmp x xs) \<and> set (drop_repeats cmp x xs) \<subseteq> set xs \<and>
    (\<forall>y\<in>set xs. \<exists>z\<in>set (x # drop_repeats cmp x xs). cmp y z = 0)"
  using assms(2)
proof (induction xs arbitrary: x)
  case (Cons y ys)
  note D = Cons.prems(1,3)
  have y: "y \<in> D" "set ys \<subseteq> D" using D by auto
  have le: "cmp x y \<le> 0" using Cons.prems(2) by simp
  show ?case
  proof (cases "cmp y x = 0")
    case True
    have "sorted_wrt (\<lambda>a b. cmp a b \<le> 0) (x # ys)" using Cons.prems(2) by simp
    then show ?thesis using Cons.IH[OF y(2) _ D(2)] True by auto
  next
    case False
    then have lt: "cmp x y < 0"
      using le comparator.flip[OF assms(1) y(1) D(2)] by (auto simp: sgn_if split: if_splits)
    have IH: "sorted_wrt (\<lambda>a b. cmp a b < 0) (y # drop_repeats cmp y ys)" "set (drop_repeats cmp y ys) \<subseteq> set ys"
      "\<forall>a\<in>set ys. \<exists>z\<in>set (y # drop_repeats cmp y ys). cmp a z = 0"
      using Cons.IH[OF y(2) _ y(1)] Cons.prems(2) by auto
    have "cmp x z < 0" if "z \<in> set (drop_repeats cmp y ys)" for z
    proof -
      have "cmp y z \<le> 0" "z \<in> D" using that IH(2) y(2) Cons.prems(2) by auto
      then show ?thesis using comparator.less_le_trans[OF assms(1) D(2) y(1) _ lt] by blast
    qed
    moreover have "cmp y y = 0" by (rule comparator.refl[OF assms(1) y(1)])
    ultimately show ?thesis using False lt IH by auto
  qed
qed simp

lemma concat_mset: "mset xs = mset ys \<Longrightarrow> length (concat xs) = length (concat ys)"
  by (simp add: length_concat) (metis mset_map sum_mset_sum_list)

text \<open>
  C10: \<open>rmdupln\<close> leaves exactly the lines that no earlier line compares equal to, in their order, and returns
  the negated number of lines it dropped; a buffer with room for all lines and a \<open>NUL\<close> is never overrun.
\<close>

theorem rmdupln_correct:
  assumes "comparator (getcmpfns (lo_info env) (collate env)) D" and "set lines \<subseteq> D" and "length (concat lines) < room"
  shows "rmdupln env lines room = Some (kept lines (keep_first (getcmpfns (lo_info env) (collate env)) [] lines))"
  by (rule rmdupln_kept[OF comparator_classes[OF assms(1,2)] assms(3)])

text \<open>An environment with byte order, for examples.\<close>

definition byte_env :: lo_env where
  "byte_env = \<lparr>lo_info = \<lparr>config_file = [], use_collation_compare = False\<rparr>, collate = strcmp, c_qsort = insertion_sort\<rparr>"

lemma byte_env_cmp: "getcmpfns (lo_info byte_env) (collate byte_env) = strcmp"
  by (simp add: byte_env_def getcmpfns_def fun_eq_iff)

lemma byte_env_comparator: "comparator (getcmpfns (lo_info byte_env) (collate byte_env)) UNIV"
  by (simp add: byte_env_cmp strcmp_comparator)

lemma byte_env_sorts: "sorts (c_qsort byte_env)"
  by (simp add: byte_env_def insertion_sort_sorts)

theorem rmdupln_correct_witness:
  "rmdupln byte_env [''b'', ''a'', ''b'', ''c'', ''a''] 6 = Some (''bac'', -2)"
  using rmdupln_correct[OF byte_env_comparator, of "[''b'', ''a'', ''b'', ''c'', ''a'']" 6]
  by (simp add: byte_env_cmp kept_def)

text \<open>\<open>kpunqln\<close> leaves the lines that occur once and \<open>rmunqln\<close> the others, both in their order: together they
  share the lines out, and the two results add up to the negated number of lines.
\<close>

theorem unique_lines_split:
  assumes "comparator (getcmpfns (lo_info env) (collate env)) D" and "set lines \<subseteq> D" and "length (concat lines) < room"
  shows "kpunqln env lines room = Some (kept lines (unique_lines (getcmpfns (lo_info env) (collate env)) lines)) \<and>
    rmunqln env lines room = Some (kept lines (repeated_lines (getcmpfns (lo_info env) (collate env)) lines)) \<and>
    snd (the (kpunqln env lines room)) + snd (the (rmunqln env lines room)) = - int (length lines)"
proof -
  let ?P = "\<lambda>x. occurs (getcmpfns (lo_info env) (collate env)) lines x = 1"
  note c = comparator_classes[OF assms(1,2)]
  have "length (filter ?P lines) + length (filter (\<lambda>x. \<not> ?P x) lines) = length lines" by (rule sum_length_filter_compl)
  then show ?thesis
    using kpunqln_kept[OF c assms(3)] rmunqln_kept[OF c assms(3)]
    by (simp add: kept_def unique_lines_def repeated_lines_def flip: of_nat_add)
qed

theorem unique_lines_split_witness:
  "kpunqln byte_env [''b'', ''a'', ''b'', ''c''] 6 = Some (''ac'', -2) \<and>
   rmunqln byte_env [''b'', ''a'', ''b'', ''c''] 6 = Some (''bb'', -2)"
  using unique_lines_split[OF byte_env_comparator, of "[''b'', ''a'', ''b'', ''c'']" 6]
  by (simp add: byte_env_cmp kept_def unique_lines_def repeated_lines_def occurs_def)

text \<open>\<open>rmdupst\<close> leaves lines in strictly ascending order, only lines there were and one for every class of lines
  that compare equal, and returns the negated number of the others, provided no line is a single blank: that is the value the
  loop starts with, and a first line that equals it is dropped as if it were a repetition.
\<close>

theorem rmdupst_correct:
  assumes "comparator (getcmpfns (lo_info env) (collate env)) D" and "set lines \<subseteq> D" and "sorts (c_qsort env)"
    and "\<forall>x\<in>set lines. getcmpfns (lo_info env) (collate env) x '' '' \<noteq> 0" and "length (concat lines) < room"
  shows "\<exists>ks. rmdupst env lines room = Some (kept lines ks) \<and>
    sorted_wrt (\<lambda>a b. getcmpfns (lo_info env) (collate env) a b < 0) ks \<and> set ks \<subseteq> set lines \<and>
    (\<forall>x\<in>set lines. \<exists>y\<in>set ks. getcmpfns (lo_info env) (collate env) x y = 0)"
proof -
  let ?cmp = "getcmpfns (lo_info env) (collate env)"
  define ls where "ls = c_qsort env ?cmp lines"
  have m: "mset ls = mset lines" and asc: "sorted_wrt (\<lambda>a b. ?cmp a b \<le> 0) ls"
    using assms(1-3) unfolding ls_def sorts_def by (blast, metis comparator.ascending_def)
  have set: "set ls = set lines" "length ls = length lines" "length (concat ls) = length (concat lines)"
    using m concat_mset[OF m] by (metis mset_eq_setD, metis mset_eq_length, simp)
  have run: "rmdupst env lines room = Some (kept ls (drop_repeats ?cmp '' '' ls))"
    using rmdupst_loop_spec[of "[]" ls room ?cmp "'' ''" 0] assms(5) set(3)
    by (simp add: rmdupst_def compare_asc_def ls_def kept_def Let_def)
  show ?thesis
  proof (cases ls)
    case Nil
    then show ?thesis using run set by (auto simp: kept_def)
  next
    case (Cons x xs)
    have x: "x \<in> D" "set xs \<subseteq> D" "?cmp x '' '' \<noteq> 0" using Cons set(1) assms(2,4) by auto
    have "sorted_wrt (\<lambda>a b. ?cmp a b < 0) (x # drop_repeats ?cmp x xs)" "set (drop_repeats ?cmp x xs) \<subseteq> set xs"
      "\<forall>y\<in>set xs. \<exists>z\<in>set (x # drop_repeats ?cmp x xs). ?cmp y z = 0"
      using drop_repeats_sorted[OF assms(1) x(1,2)] asc Cons by auto
    moreover have "?cmp x x = 0" by (rule comparator.refl[OF assms(1) x(1)])
    moreover have "drop_repeats ?cmp '' '' ls = x # drop_repeats ?cmp x xs" using Cons x(3) by simp
    moreover have "kept ls = kept lines" using set(2) by (simp add: kept_def fun_eq_iff)
    ultimately show ?thesis using run Cons set(1)
      by (intro exI[of _ "x # drop_repeats ?cmp x xs"]) auto
  qed
qed

theorem rmdupst_correct_witness:
  "\<exists>ks. rmdupst byte_env [''b'', ''a'', ''b''] 4 = Some (kept [''b'', ''a'', ''b''] ks) \<and>
    sorted_wrt (\<lambda>a b. strcmp a b < 0) ks \<and> set ks \<subseteq> {''b'', ''a''} \<and> rmdupst byte_env ['' '', ''a'', '' ''] 4 = Some (''a'', -2)"
proof -
  have "rmdupst byte_env ['' '', ''a'', '' ''] 4 = Some (''a'', -2)"
    by (simp add: rmdupst_def compare_asc_def byte_env_cmp insertion_sort_def g_stpcpy_def Let_def) (simp add: byte_env_def insertion_sort_def g_stpcpy_def cc_def)
  moreover have "\<exists>ks. rmdupst byte_env [''b'', ''a'', ''b''] 4 = Some (kept [''b'', ''a'', ''b''] ks) \<and>
      sorted_wrt (\<lambda>a b. strcmp a b < 0) ks \<and> set ks \<subseteq> {''b'', ''a''}"
    using rmdupst_correct[OF byte_env_comparator _ byte_env_sorts, of "[''b'', ''a'', ''b'']" 4]
    by (simp add: byte_env_cmp cc_def insert_commute) blast
  ultimately show ?thesis by blast
qed

text \<open>The sorting functions join a permutation of the lines, ascending or descending, and return the number of lines.
\<close>

theorem sort_lines_correct:
  assumes "comparator (getcmpfns (lo_info env) (collate env)) D" and "set lines \<subseteq> D" and "sorts (c_qsort env)"
    and "length (concat lines) < room"
  shows "\<exists>ls ms. sortlnsasc env lines room = Some (concat ls, int (length lines)) \<and> mset ls = mset lines \<and>
    sorted_wrt (\<lambda>a b. getcmpfns (lo_info env) (collate env) a b \<le> 0) ls \<and>
    sortlndesc env lines room = Some (concat ms, int (length lines)) \<and> mset ms = mset lines \<and>
    sorted_wrt (\<lambda>a b. getcmpfns (lo_info env) (collate env) b a \<le> 0) ms"
proof -
  let ?cmp = "getcmpfns (lo_info env) (collate env)"
  have sorted: "mset (c_qsort env c lines) = mset lines \<and> sorted_wrt (\<lambda>a b. c a b \<le> 0) (c_qsort env c lines)"
    if "comparator c D" for c
    using assms(2,3) that unfolding sorts_def by (metis comparator.ascending_def)
  note up = sorted[OF assms(1)] and down = sorted[OF comparator.converse[OF assms(1)]]
  have "length (concat (c_qsort env c lines)) < room \<and> length (c_qsort env c lines) = length lines"
    if "mset (c_qsort env c lines) = mset lines" for c
    using concat_mset[OF that] mset_eq_length[OF that] assms(4) by simp
  then show ?thesis
    using up down join_all[of "[]" _ room]
    by (intro exI[of _ "c_qsort env ?cmp lines"] exI[of _ "c_qsort env (\<lambda>x y. ?cmp y x) lines"])
      (simp add: sortlnsasc_def sortlndesc_def compare_asc_def compare_desc_def Let_def)
qed

theorem sort_lines_correct_witness:
  "\<exists>ls. sortlndesc byte_env [''a'', ''c'', ''b''] 4 = Some (concat ls, 3) \<and> mset ls = {#''a'', ''b'', ''c''#} \<and>
    sorted_wrt (\<lambda>a b. strcmp b a \<le> 0) ls"
  using sort_lines_correct[OF byte_env_comparator _ byte_env_sorts, of "[''a'', ''c'', ''b'']" 4]
  by (auto simp: byte_env_cmp add_mset_commute)

end
