(* ===== verification/Editor.thy ===== *)
theory Editor
  imports Prelude
begin

text \<open>
  The editor component. Scintilla and Geany's wrappers of its messages are not part of the repository: they are the fields of a record, the
  locales \<open>editor\<close> and \<open>scintilla\<close> have what their documentation says, and a document that is a text and a selection
  is an interpretation of them. The lines of a text and lemmas about them come first.
\<close>

subsection \<open>Lines of a text\<close>

text \<open>
  The lines of a text as Scintilla counts them: a line ends behind \<open>CR LF\<close>, \<open>CR\<close> or \<open>LF\<close>, which belong to
  it, and the last line has no such end.
\<close>

fun doc_lines :: "string \<Rightarrow> string list" where
  "doc_lines [] = [[]]"
| "doc_lines [c] = (if c = LF \<or> c = CR then [[c], []] else [[c]])"
| "doc_lines (c # c' # cs) =
     (if c = CR \<and> c' = LF then [c, c'] # doc_lines cs
      else if c = LF \<or> c = CR then [c] # doc_lines (c' # cs)
      else (case doc_lines (c' # cs) of [] \<Rightarrow> [[c]] | l # ls \<Rightarrow> (c # l) # ls))"

definition plain :: "string \<Rightarrow> bool" where
  "plain l \<longleftrightarrow> CR \<notin> set l \<and> LF \<notin> set l"

definition line_body :: "string \<Rightarrow> string" where
  "line_body = takeWhile (\<lambda>c. c \<noteq> CR \<and> c \<noteq> LF)"

definition is_space_or_tab :: "char \<Rightarrow> bool" where
  "is_space_or_tab c \<longleftrightarrow> c = CHR '' '' \<or> c = TAB"

lemma doc_lines_neq [simp]: "doc_lines t \<noteq> []"
  by (induction t rule: doc_lines.induct) (auto split: list.splits)

lemma concat_doc_lines [simp]: "concat (doc_lines t) = t"
  by (induction t rule: doc_lines.induct) (auto split: list.splits)

definition eol_mode :: "string \<Rightarrow> bool" where
  "eol_mode eol \<longleftrightarrow> eol = [LF] \<or> eol = [CR] \<or> eol = [CR, LF]"

text \<open>Every line ends with \<open>eol\<close> but the last, which has no end.\<close>

definition eol_lines :: "string \<Rightarrow> string list \<Rightarrow> bool" where
  "eol_lines eol ls \<longleftrightarrow> ls \<noteq> [] \<and> plain (last ls) \<and> (\<forall>x\<in>set (butlast ls). \<exists>y. x = y @ eol \<and> plain y)"

lemma doc_lines_plain: "plain l \<Longrightarrow> doc_lines l = [l]"
  by (induction l rule: doc_lines.induct) (auto simp: plain_def)

lemma doc_lines_eol:
  assumes "eol_mode eol" "eol = [CR] \<Longrightarrow> LF \<notin> set t"
  shows "plain y \<Longrightarrow> doc_lines (y @ eol @ t) = (y @ eol) # doc_lines t"
proof (induction y)
  case Nil
  show ?case using assms by (cases t) (auto simp: eol_mode_def)
next
  case (Cons c y)
  then have IH: "doc_lines (y @ eol @ t) = (y @ eol) # doc_lines t" and c: "c \<noteq> CR" "c \<noteq> LF" by (auto simp: plain_def)
  have "y @ eol @ t \<noteq> []" using assms(1) by (auto simp: eol_mode_def)
  then obtain c' cs where "y @ eol @ t = c' # cs" by (cases "y @ eol @ t") auto
  then show ?case using IH c by simp
qed

lemma eol_lines_Cons: "eol_lines eol (x # ls) \<longleftrightarrow> (if ls = [] then plain x else (\<exists>y. x = y @ eol \<and> plain y) \<and> eol_lines eol ls)"
  by (auto simp: eol_lines_def)

lemma doc_lines_concat: "eol_mode eol \<Longrightarrow> eol_lines eol ls \<Longrightarrow> doc_lines (concat ls) = ls"
proof (induction ls)
  case (Cons x ls)
  show ?case
  proof (cases "ls = []")
    case True
    then show ?thesis using Cons.prems by (simp add: eol_lines_Cons doc_lines_plain)
  next
    case False
    then obtain y where y: "x = y @ eol" "plain y" "eol_lines eol ls" using Cons.prems by (auto simp: eol_lines_Cons)
    have "LF \<notin> set l" if "eol = [CR]" "l \<in> set ls" for l
    proof (cases "l = last ls")
      case True
      then show ?thesis using y(3) by (simp add: eol_lines_def plain_def)
    next
      case nl: False
      have "ls = butlast ls @ [last ls]" using False by simp
      then have "l \<in> set (butlast ls)" using that(2) nl by (metis in_set_conv_decomp set_ConsD rotate1.simps(2) set_rotate1)
      then show ?thesis using y(3) that(1) by (auto simp: eol_lines_def plain_def)
    qed
    then have "doc_lines (y @ eol @ concat ls) = (y @ eol) # doc_lines (concat ls)"
      using doc_lines_eol[OF Cons.prems(1) _ y(2), of "concat ls"] by auto
    then show ?thesis using y Cons by simp
  qed
qed (simp add: eol_lines_def)

lemma eol_lines_delete: "eol_lines eol (pre @ m # ms) \<Longrightarrow> ms \<noteq> [] \<Longrightarrow> eol_lines eol (pre @ ms)"
  by (auto simp: eol_lines_def butlast_append)

lemma doc_lines_bodies: "line_body (y @ eol) = y" if "plain y" "eol_mode eol \<or> eol = []"
  using that unfolding line_body_def plain_def eol_mode_def by (auto simp: takeWhile_append2) (simp_all add: takeWhile_append takeWhile_eq_all_conv, auto)

lemma eol_line_body:
  assumes "eol_lines eol ls" "eol_mode eol" "i < length ls"
  shows "i + 1 < length ls \<Longrightarrow> length (ls ! i) = length (line_body (ls ! i)) + length eol"
    "i + 1 = length ls \<Longrightarrow> line_body (ls ! i) = ls ! i"
proof -
  show "length (ls ! i) = length (line_body (ls ! i)) + length eol" if "i + 1 < length ls"
  proof -
    have "ls ! i \<in> set (butlast ls)" using that by (metis add_less_imp_less_right in_set_conv_nth length_butlast nth_butlast less_diff_conv)
    then obtain y where y: "ls ! i = y @ eol" "plain y" using assms(1) by (auto simp: eol_lines_def)
    then show ?thesis using doc_lines_bodies[of y eol] assms(2) by simp
  qed
  show "line_body (ls ! i) = ls ! i" if "i + 1 = length ls"
  proof -
    have "i = length ls - 1" "ls \<noteq> []" using that by auto
    then have "ls ! i = last ls" by (simp add: last_conv_nth)
    then have "plain (ls ! i)" using assms(1) by (simp add: eol_lines_def)
    then show ?thesis using doc_lines_bodies[of "ls ! i" "[]"] by simp
  qed
qed

lemma concat_take_Suc: "i < length ls \<Longrightarrow> length (concat (take (Suc i) ls)) = length (concat (take i ls)) + length (ls ! i)"
  by (simp add: take_Suc_conv_app_nth)

lemma concat_take_le: "length (concat (take i ls)) \<le> length (concat ls)"
  by (metis append_take_drop_id concat_append length_append le_add1)

lemma concat_take_mono: "i \<le> j \<Longrightarrow> length (concat (take i ls)) \<le> length (concat (take j ls))"
  by (metis concat_take_le min.absorb1 take_take)

lemma take_concat: "take (length (concat (take i ls))) (concat ls) = concat (take i ls)"
  "drop (length (concat (take i ls))) (concat ls) = concat (drop i ls)"
proof -
  have "concat ls = concat (take i ls) @ concat (drop i ls)" by (metis append_take_drop_id concat_append)
  then show "take (length (concat (take i ls))) (concat ls) = concat (take i ls)"
    "drop (length (concat (take i ls))) (concat ls) = concat (drop i ls)" by simp_all
qed

lemma upto_slice: "a + n \<le> length ls \<Longrightarrow> map (\<lambda>i. ls ! nat (i + int a)) [0..int n - 1] = take n (drop a ls)"
  by (rule nth_equalityI) (auto simp: nat_add_distrib add.commute)

lemma sum_lengths: "(\<Sum>x\<leftarrow>ls. int (length x)) = int (length (concat ls))"
  by (induction ls) auto

subsection \<open>The editor component\<close>

text \<open>
  The functions of Scintilla, and Geany's wrappers of them, that the plugin calls. They are not part of the
  repository; \<open>sci_text\<close> is the content of the document, and anchor and caret are the ends of the selection.
\<close>

record 'd sci =
  sci_text :: "'d \<Rightarrow> string"
  sci_anchor :: "'d \<Rightarrow> int"
  sci_caret :: "'d \<Rightarrow> int"
  sci_get_line_count :: "'d \<Rightarrow> int"
  sci_get_position_from_line :: "'d \<Rightarrow> int \<Rightarrow> int"
  sci_get_line_end_position :: "'d \<Rightarrow> int \<Rightarrow> int"
  sci_get_line_length :: "'d \<Rightarrow> int \<Rightarrow> int"
  sci_get_line :: "'d \<Rightarrow> int \<Rightarrow> string"
  SCI_GETLINEINDENTPOSITION :: "'d \<Rightarrow> int \<Rightarrow> int"
  SCI_LINEFROMPOSITION :: "'d \<Rightarrow> int \<Rightarrow> int"
  SCI_DELETERANGE :: "'d \<Rightarrow> int \<Rightarrow> int \<Rightarrow> 'd"
  sci_insert_text :: "'d \<Rightarrow> int \<Rightarrow> string \<Rightarrow> 'd"
  sci_set_selection_start :: "'d \<Rightarrow> int \<Rightarrow> 'd"
  sci_set_selection_end :: "'d \<Rightarrow> int \<Rightarrow> 'd"
  sci_replace_sel :: "'d \<Rightarrow> string \<Rightarrow> 'd"

definition sci_get_selection_start :: "'d sci \<Rightarrow> 'd \<Rightarrow> int" where
  "sci_get_selection_start S d = min (sci_anchor S d) (sci_caret S d)"

definition sci_get_selection_end :: "'d sci \<Rightarrow> 'd \<Rightarrow> int" where
  "sci_get_selection_end S d = max (sci_anchor S d) (sci_caret S d)"

definition sci_has_selection :: "'d sci \<Rightarrow> 'd \<Rightarrow> bool" where
  "sci_has_selection S d \<longleftrightarrow> sci_get_selection_end S d - sci_get_selection_start S d \<noteq> 0"

text \<open>
  What the documentation of Scintilla says of them: the functions every plugin here calls, and in the second locale those
  that depend on the selection being one range of the text.
\<close>

locale editor =
  fixes S :: "'d sci"
  assumes line_count: "sci_get_line_count S d = int (length (doc_lines (sci_text S d)))"
    and position: "0 \<le> l \<Longrightarrow> l \<le> int (length (doc_lines (sci_text S d))) \<Longrightarrow>
      sci_get_position_from_line S d l = int (length (concat (take (nat l) (doc_lines (sci_text S d)))))"
    and line_end: "0 \<le> l \<Longrightarrow> l < int (length (doc_lines (sci_text S d))) \<Longrightarrow>
      sci_get_line_end_position S d l = sci_get_position_from_line S d l + int (length (line_body (doc_lines (sci_text S d) ! nat l)))"
    and line_length: "0 \<le> l \<Longrightarrow> l < int (length (doc_lines (sci_text S d))) \<Longrightarrow>
      sci_get_line_length S d l = int (length (doc_lines (sci_text S d) ! nat l))"
    and line_from: "0 \<le> p \<Longrightarrow> p \<le> int (length (sci_text S d)) \<Longrightarrow>
      0 \<le> SCI_LINEFROMPOSITION S d p \<and> SCI_LINEFROMPOSITION S d p < sci_get_line_count S d \<and>
      sci_get_position_from_line S d (SCI_LINEFROMPOSITION S d p) \<le> p \<and>
      (SCI_LINEFROMPOSITION S d p + 1 < sci_get_line_count S d \<longrightarrow>
        p < sci_get_position_from_line S d (SCI_LINEFROMPOSITION S d p + 1))"
    and insert: "0 \<le> p \<Longrightarrow> p \<le> int (length (sci_text S d)) \<Longrightarrow>
      sci_text S (sci_insert_text S d p s) = take (nat p) (sci_text S d) @ s @ drop (nat p) (sci_text S d)"
    and selection: "0 \<le> sci_anchor S d \<and> sci_anchor S d \<le> int (length (sci_text S d)) \<and>
      0 \<le> sci_caret S d \<and> sci_caret S d \<le> int (length (sci_text S d))"

locale scintilla = editor +
  assumes get_line: "0 \<le> l \<Longrightarrow> l < int (length (doc_lines (sci_text S d))) \<Longrightarrow>
      sci_get_line S d l = doc_lines (sci_text S d) ! nat l"
    and indent: "0 \<le> l \<Longrightarrow> l < int (length (doc_lines (sci_text S d))) \<Longrightarrow>
      SCI_GETLINEINDENTPOSITION S d l = sci_get_position_from_line S d l +
        int (length (takeWhile is_space_or_tab (doc_lines (sci_text S d) ! nat l)))"
    and delete: "0 \<le> p \<Longrightarrow> 0 \<le> n \<Longrightarrow> p + n \<le> int (length (sci_text S d)) \<Longrightarrow>
      sci_text S (SCI_DELETERANGE S d p n) = take (nat p) (sci_text S d) @ drop (nat (p + n)) (sci_text S d)"
    and select_text: "sci_text S (sci_set_selection_start S d p) = sci_text S d" "sci_text S (sci_set_selection_end S d p) = sci_text S d"
    and set_start: "0 \<le> p \<Longrightarrow> p \<le> int (length (sci_text S d)) \<Longrightarrow> sci_anchor S (sci_set_selection_start S d p) = p \<and>
      sci_caret S (sci_set_selection_start S d p) = max (sci_caret S d) p"
    and set_end: "0 \<le> p \<Longrightarrow> sci_caret S (sci_set_selection_end S d p) = min p (int (length (sci_text S d))) \<and>
      sci_anchor S (sci_set_selection_end S d p) = min (sci_anchor S d) p"
    and replace: "sci_text S (sci_replace_sel S d s) =
      take (nat (sci_get_selection_start S d)) (sci_text S d) @ s @ drop (nat (sci_get_selection_end S d)) (sci_text S d)"

lemma replace_fields:
  "sci_text (S\<lparr>sci_replace_sel := f\<rparr>) = sci_text S" "sci_get_line_count (S\<lparr>sci_replace_sel := f\<rparr>) = sci_get_line_count S"
  "sci_get_position_from_line (S\<lparr>sci_replace_sel := f\<rparr>) = sci_get_position_from_line S"
  "sci_get_line_end_position (S\<lparr>sci_replace_sel := f\<rparr>) = sci_get_line_end_position S"
  "sci_get_line_length (S\<lparr>sci_replace_sel := f\<rparr>) = sci_get_line_length S"
  "SCI_LINEFROMPOSITION (S\<lparr>sci_replace_sel := f\<rparr>) = SCI_LINEFROMPOSITION S"
  "sci_insert_text (S\<lparr>sci_replace_sel := f\<rparr>) = sci_insert_text S"
  "sci_anchor (S\<lparr>sci_replace_sel := f\<rparr>) = sci_anchor S" "sci_caret (S\<lparr>sci_replace_sel := f\<rparr>) = sci_caret S"
  by simp_all

context editor
begin

text \<open>The first locale does not ask what replacing the selection does.\<close>

lemma editor_replace: "editor (S\<lparr>sci_replace_sel := f\<rparr>)"
  using editor_axioms unfolding editor_def replace_fields by assumption

text \<open>A line that starts at or before another one has no greater number.\<close>

lemma line_from_mono:
  assumes "0 \<le> p" "p \<le> q" "q \<le> int (length (sci_text S d))"
  shows "SCI_LINEFROMPOSITION S d p \<le> SCI_LINEFROMPOSITION S d q"
proof (rule ccontr)
  assume "\<not> SCI_LINEFROMPOSITION S d p \<le> SCI_LINEFROMPOSITION S d q"
  then have less: "SCI_LINEFROMPOSITION S d q + 1 \<le> SCI_LINEFROMPOSITION S d p" by simp
  note P = line_from[of p d] and Q = line_from[of q d]
  have n: "int (length (doc_lines (sci_text S d))) = sci_get_line_count S d" by (simp add: line_count)
  have "q < sci_get_position_from_line S d (SCI_LINEFROMPOSITION S d q + 1)" using Q P less assms by simp
  also have "\<dots> \<le> sci_get_position_from_line S d (SCI_LINEFROMPOSITION S d p)"
    using position[of "SCI_LINEFROMPOSITION S d q + 1" d] position[of "SCI_LINEFROMPOSITION S d p" d] P Q assms less n
      concat_take_mono[OF nat_mono[OF less], of "doc_lines (sci_text S d)"]
    by simp
  also have "\<dots> \<le> p" using P assms by simp
  finally show False using assms by simp
qed

end

text \<open>A document that is its text and its selection does what the documentation says.\<close>

record buffer =
  b_text :: string
  b_anchor :: nat
  b_caret :: nat

definition line_start :: "string \<Rightarrow> int \<Rightarrow> int" where
  "line_start t l = (if l < 0 \<or> int (length (doc_lines t)) < l then -1 else int (length (concat (take (nat l) (doc_lines t)))))"

text \<open>The line of an offset.\<close>

fun offset_line :: "string list \<Rightarrow> nat \<Rightarrow> nat" where
  "offset_line (l # l' # ls) p = (if p < length l then 0 else Suc (offset_line (l' # ls) (p - length l)))"
| "offset_line ls p = 0"

definition text_at :: "string \<Rightarrow> int \<Rightarrow> string" where
  "text_at t l = (if 0 \<le> l \<and> l < int (length (doc_lines t)) then doc_lines t ! nat l else [])"

definition clip :: "string \<Rightarrow> nat \<Rightarrow> nat" where
  "clip t p = min p (length t)"

definition text_sci :: "'z buffer_scheme sci" where
  "text_sci = \<lparr>sci_text = b_text,
     sci_anchor = (\<lambda>b. int (clip (b_text b) (b_anchor b))), sci_caret = (\<lambda>b. int (clip (b_text b) (b_caret b))),
     sci_get_line_count = (\<lambda>b. int (length (doc_lines (b_text b)))),
     sci_get_position_from_line = (\<lambda>b. line_start (b_text b)),
     sci_get_line_end_position = (\<lambda>b l. line_start (b_text b) l + int (length (line_body (text_at (b_text b) l)))),
     sci_get_line_length = (\<lambda>b l. int (length (text_at (b_text b) l))),
     sci_get_line = (\<lambda>b. text_at (b_text b)),
     SCI_GETLINEINDENTPOSITION = (\<lambda>b l. line_start (b_text b) l + int (length (takeWhile is_space_or_tab (text_at (b_text b) l)))),
     SCI_LINEFROMPOSITION = (\<lambda>b p. int (offset_line (doc_lines (b_text b)) (nat p))),
     SCI_DELETERANGE = (\<lambda>b p n. b\<lparr>b_text := take (nat p) (b_text b) @ drop (nat (p + n)) (b_text b)\<rparr>),
     sci_insert_text = (\<lambda>b p s. b\<lparr>b_text := take (nat p) (b_text b) @ s @ drop (nat p) (b_text b)\<rparr>),
     sci_set_selection_start = (\<lambda>b p. b\<lparr>b_anchor := clip (b_text b) (nat p), b_caret := max (clip (b_text b) (b_caret b)) (clip (b_text b) (nat p))\<rparr>),
     sci_set_selection_end = (\<lambda>b p. b\<lparr>b_anchor := min (clip (b_text b) (b_anchor b)) (clip (b_text b) (nat p)), b_caret := clip (b_text b) (nat p)\<rparr>),
     sci_replace_sel = (\<lambda>b s.
       let f = min (clip (b_text b) (b_anchor b)) (clip (b_text b) (b_caret b)); t = max (clip (b_text b) (b_anchor b)) (clip (b_text b) (b_caret b))
       in b\<lparr>b_text := take f (b_text b) @ s @ drop t (b_text b), b_anchor := f + length s, b_caret := f + length s\<rparr>)\<rparr>"

lemma offset_line_spec:
  "ls \<noteq> [] \<Longrightarrow> p \<le> length (concat ls) \<Longrightarrow>
   offset_line ls p < length ls \<and> length (concat (take (offset_line ls p) ls)) \<le> p \<and>
   (offset_line ls p + 1 < length ls \<longrightarrow> p < length (concat (take (offset_line ls p + 1) ls)))"
proof (induction ls p rule: offset_line.induct)
  case (1 l l' ls p)
  show ?case
  proof (cases "p < length l")
    case False
    then have "p - length l \<le> length (concat (l' # ls))" using 1(3) by auto
    from 1(1)[OF False _ this] show ?thesis using False by auto
  qed simp
qed simp_all

interpretation text_buffer: scintilla text_sci
proof
  fix d :: "'a buffer_scheme" and l p n :: int and s :: string
  let ?L = "doc_lines (sci_text text_sci d)"
  show "sci_get_line_count text_sci d = int (length ?L)" by (simp add: text_sci_def)
  show "0 \<le> l \<Longrightarrow> l \<le> int (length ?L) \<Longrightarrow> sci_get_position_from_line text_sci d l = int (length (concat (take (nat l) ?L)))"
    by (simp add: text_sci_def line_start_def)
  show "0 \<le> l \<Longrightarrow> l < int (length ?L) \<Longrightarrow>
      sci_get_line_end_position text_sci d l = sci_get_position_from_line text_sci d l + int (length (line_body (?L ! nat l)))"
    "0 \<le> l \<Longrightarrow> l < int (length ?L) \<Longrightarrow> sci_get_line_length text_sci d l = int (length (?L ! nat l))"
    "0 \<le> l \<Longrightarrow> l < int (length ?L) \<Longrightarrow> sci_get_line text_sci d l = ?L ! nat l"
    "0 \<le> l \<Longrightarrow> l < int (length ?L) \<Longrightarrow> SCI_GETLINEINDENTPOSITION text_sci d l =
      sci_get_position_from_line text_sci d l + int (length (takeWhile is_space_or_tab (?L ! nat l)))"
    by (simp_all add: text_sci_def text_at_def)
  have "p = int k \<Longrightarrow> k \<le> length (sci_text text_sci d) \<Longrightarrow> SCI_LINEFROMPOSITION text_sci d p < sci_get_line_count text_sci d \<and>
      sci_get_position_from_line text_sci d (SCI_LINEFROMPOSITION text_sci d p) \<le> p \<and>
      (SCI_LINEFROMPOSITION text_sci d p + 1 < sci_get_line_count text_sci d \<longrightarrow>
        p < sci_get_position_from_line text_sci d (SCI_LINEFROMPOSITION text_sci d p + 1))" for k
    using offset_line_spec[of ?L k] by (auto simp: text_sci_def line_start_def nat_add_distrib)
  from this[of "nat p"] show "0 \<le> p \<Longrightarrow> p \<le> int (length (sci_text text_sci d)) \<Longrightarrow>
      0 \<le> SCI_LINEFROMPOSITION text_sci d p \<and> SCI_LINEFROMPOSITION text_sci d p < sci_get_line_count text_sci d \<and>
      sci_get_position_from_line text_sci d (SCI_LINEFROMPOSITION text_sci d p) \<le> p \<and>
      (SCI_LINEFROMPOSITION text_sci d p + 1 < sci_get_line_count text_sci d \<longrightarrow>
        p < sci_get_position_from_line text_sci d (SCI_LINEFROMPOSITION text_sci d p + 1))"
    by (auto simp: text_sci_def)
  show "0 \<le> p \<Longrightarrow> 0 \<le> n \<Longrightarrow> p + n \<le> int (length (sci_text text_sci d)) \<Longrightarrow>
      sci_text text_sci (SCI_DELETERANGE text_sci d p n) = take (nat p) (sci_text text_sci d) @ drop (nat (p + n)) (sci_text text_sci d)"
    "0 \<le> p \<Longrightarrow> p \<le> int (length (sci_text text_sci d)) \<Longrightarrow>
      sci_text text_sci (sci_insert_text text_sci d p s) = take (nat p) (sci_text text_sci d) @ s @ drop (nat p) (sci_text text_sci d)"
    by (simp_all add: text_sci_def)
  show "0 \<le> sci_anchor text_sci d \<and> sci_anchor text_sci d \<le> int (length (sci_text text_sci d)) \<and>
      0 \<le> sci_caret text_sci d \<and> sci_caret text_sci d \<le> int (length (sci_text text_sci d))"
    by (simp add: text_sci_def clip_def)
  show "sci_text text_sci (sci_set_selection_start text_sci d p) = sci_text text_sci d"
    "sci_text text_sci (sci_set_selection_end text_sci d p) = sci_text text_sci d"
    by (simp_all add: text_sci_def)
  show "0 \<le> p \<Longrightarrow> p \<le> int (length (sci_text text_sci d)) \<Longrightarrow>
      sci_anchor text_sci (sci_set_selection_start text_sci d p) = p \<and>
      sci_caret text_sci (sci_set_selection_start text_sci d p) = max (sci_caret text_sci d) p"
    by (auto simp: text_sci_def clip_def min_def max_def)
  show "0 \<le> p \<Longrightarrow> sci_caret text_sci (sci_set_selection_end text_sci d p) = min p (int (length (sci_text text_sci d))) \<and>
      sci_anchor text_sci (sci_set_selection_end text_sci d p) = min (sci_anchor text_sci d) p"
    by (auto simp: text_sci_def clip_def min_def)
  show "sci_text text_sci (sci_replace_sel text_sci d s) =
      take (nat (sci_get_selection_start text_sci d)) (sci_text text_sci d) @ s @ drop (nat (sci_get_selection_end text_sci d)) (sci_text text_sci d)"
    by (auto simp: text_sci_def sci_get_selection_start_def sci_get_selection_end_def Let_def min_def max_def)
qed

end
