(* ===== verification/LineDoc.thy ===== *)
theory LineDoc
  imports LineSpec Editor
begin

text \<open>
  The line operations plugin: the functions that work on the document
  (\<open>lineoperations/src/lo_fns.c\<close>) and the menu actions (\<open>lineoperations/src/lineoperations.c\<close>), over any editor
  component. Undo groups are left out: they do not change the text.
\<close>

subsection \<open>Functions on the document\<close>

text \<open>\<open>SCI_DELETERANGE\<close> on a whole line.\<close>

definition delete_line :: "'d sci \<Rightarrow> 'd \<Rightarrow> int \<Rightarrow> 'd" where
  "delete_line S d line_num = SCI_DELETERANGE S d (sci_get_position_from_line S d line_num) (sci_get_line_length S d line_num)"

function rmemtyln_loop :: "'d sci \<Rightarrow> 'd \<Rightarrow> int \<Rightarrow> int \<Rightarrow> int \<Rightarrow> 'd \<times> int" where
  "rmemtyln_loop S d line_num end_line_num changed =
     (if line_num \<le> end_line_num then
        (let (d, line_num, end_line_num, changed) =
           (if sci_get_position_from_line S d line_num = sci_get_line_end_position S d line_num
            then (delete_line S d line_num, line_num - 1, end_line_num - 1, changed + 1)
            else (d, line_num, end_line_num, changed))
         in rmemtyln_loop S d (line_num + 1) end_line_num changed)
      else (d, changed))"
  by pat_completeness auto
termination by (relation "measure (\<lambda>(S, d, l, e, c). nat (e - l + 1))") (auto simp: Let_def split: if_splits)

definition rmemtyln :: "'d sci \<Rightarrow> 'd \<Rightarrow> int \<Rightarrow> int \<Rightarrow> 'd \<times> int" where
  "rmemtyln S d line_num end_line_num =
     (let (d, changed) = rmemtyln_loop S d line_num end_line_num 0 in (d, - changed))"

function rmwhspln_loop :: "'d sci \<Rightarrow> 'd \<Rightarrow> int \<Rightarrow> int \<Rightarrow> int \<Rightarrow> 'd \<times> int" where
  "rmwhspln_loop S d line_num end_line_num changed =
     (if line_num \<le> end_line_num then
        (let indent = SCI_GETLINEINDENTPOSITION S d line_num;
             (d, line_num, end_line_num, changed) =
           (if indent - sci_get_position_from_line S d line_num =
               sci_get_line_end_position S d line_num - sci_get_position_from_line S d line_num
            then (delete_line S d line_num, line_num - 1, end_line_num - 1, changed + 1)
            else (d, line_num, end_line_num, changed))
         in rmwhspln_loop S d (line_num + 1) end_line_num changed)
      else (d, changed))"
  by pat_completeness auto
termination by (relation "measure (\<lambda>(S, d, l, e, c). nat (e - l + 1))") (auto simp: Let_def split: if_splits)

definition rmwhspln :: "'d sci \<Rightarrow> 'd \<Rightarrow> int \<Rightarrow> int \<Rightarrow> 'd \<times> int" where
  "rmwhspln S d line_num end_line_num =
     (let (d, changed) = rmwhspln_loop S d line_num end_line_num 0 in (d, - changed))"

text \<open>
  \<open>n\<close> is the number the dialog returns, an argument as the user may enter any; \<^term>\<open>None\<close> is a dialog that was
  cancelled. \<open>count = n\<close> cuts off the fraction.
\<close>

function rmnthln_loop :: "'d sci \<Rightarrow> int \<Rightarrow> 'd \<Rightarrow> int \<Rightarrow> int \<Rightarrow> int \<Rightarrow> int \<Rightarrow> 'd \<times> int" where
  "rmnthln_loop S n d line_num end_line_num cnt changed =
     (if line_num \<le> end_line_num then
        (let cnt = cnt - 1;
             (d, line_num, end_line_num, changed, cnt) =
           (if cnt = 0
            then (delete_line S d line_num, line_num - 1, end_line_num - 1, changed + 1, n)
            else (d, line_num, end_line_num, changed, cnt))
         in rmnthln_loop S n d (line_num + 1) end_line_num cnt changed)
      else (d, changed))"
  by pat_completeness auto
termination by (relation "measure (\<lambda>(S, n, d, l, e, c, ch). nat (e - l + 1))") (auto simp: Let_def split: if_splits)

definition rmnthln :: "'d sci \<Rightarrow> real option \<Rightarrow> 'd \<Rightarrow> int \<Rightarrow> int \<Rightarrow> 'd \<times> int" where
  "rmnthln S dialog d line_num end_line_num =
     (case dialog of
        None \<Rightarrow> (d, 0)
      | Some n \<Rightarrow> (let (d, changed) = rmnthln_loop S \<lfloor>n\<rfloor> d line_num end_line_num \<lfloor>n\<rfloor> 0 in (d, - changed)))"

subsection \<open>Menu actions\<close>

record lo_lines =
  is_selection :: bool
  start_line :: int
  end_line :: int

text \<open>\<open>eol\<close> is the end of line of the editor's mode: \<open>editor_get_eol_char\<close>, of length \<open>editor_get_eol_char_len\<close>.\<close>

definition select_lines :: "'d sci \<Rightarrow> string \<Rightarrow> 'd \<Rightarrow> lo_lines \<Rightarrow> 'd" where
  "select_lines S eol d sel =
     (let d = sci_set_selection_start S d (sci_get_position_from_line S d (start_line sel)) in
      sci_set_selection_end S d (sci_get_line_end_position S d (end_line sel) + int (length eol)))"

definition get_current_sel_lines :: "'d sci \<Rightarrow> 'd \<Rightarrow> lo_lines" where
  "get_current_sel_lines S d =
     (if sci_has_selection S d
      then \<lparr>is_selection = True, start_line = SCI_LINEFROMPOSITION S d (sci_get_selection_start S d),
        end_line = SCI_LINEFROMPOSITION S d (sci_get_selection_end S d)\<rparr>
      else \<lparr>is_selection = False, start_line = 0, end_line = sci_get_line_count S d - 1\<rparr>)"

definition ensure_final_newline :: "'d sci \<Rightarrow> string \<Rightarrow> 'd \<Rightarrow> int \<Rightarrow> lo_lines \<Rightarrow> 'd \<times> int \<times> lo_lines" where
  "ensure_final_newline S eol d num_lines sel =
     (let end_document = sci_get_position_from_line S d num_lines;
          append_newline = (end_document > sci_get_position_from_line S d (num_lines - 1)) in
      if append_newline
      then (sci_insert_text S d end_document eol, num_lines + 1, sel\<lparr>end_line := end_line sel + 1\<rparr>)
      else (d, num_lines, sel))"

text \<open>The messages of the status bar.\<close>

datatype lo_message = Lines_Removed int | No_Lines_Removed | Lines_Affected int

definition user_indicate :: "'d sci \<Rightarrow> string \<Rightarrow> 'd \<Rightarrow> int \<Rightarrow> lo_lines \<Rightarrow> 'd \<times> lo_message" where
  "user_indicate S eol d lines_affected sel =
     (if lines_affected < 0 then
        (let sel = sel\<lparr>end_line := end_line sel + lines_affected\<rparr> in
         (if is_selection sel then select_lines S eol d sel else d, Lines_Removed (- lines_affected)))
      else if lines_affected = 0 then
        (if is_selection sel then select_lines S eol d sel else d, No_Lines_Removed)
      else
        (if is_selection sel then select_lines S eol d sel else d, Lines_Affected lines_affected))"

text \<open>
  The actions on the current document, which may be missing. The function of the menu item gets the lines
  and the number of bytes of \<open>new_file\<close>.
\<close>

definition action_indir_manip_item ::
  "'d sci \<Rightarrow> string \<Rightarrow> (string list \<Rightarrow> nat \<Rightarrow> (string \<times> int) option) \<Rightarrow> 'd option \<Rightarrow> ('d \<times> lo_message) option option" where
  "action_indir_manip_item S eol func doc =
     (case doc of
        None \<Rightarrow> Some None
      | Some d \<Rightarrow> do {
          let sel = get_current_sel_lines S d;
          let num_lines = end_line sel - start_line sel + 1;
          let (d, num_lines, sel) =
            (if end_line sel + 1 = sci_get_line_count S d then ensure_final_newline S eol d num_lines sel
             else (d, num_lines, sel));
          let num_chars = (\<Sum>i\<leftarrow>[0..num_lines - 1]. sci_get_line_length S d (i + start_line sel));
          let lines = map (\<lambda>i. c_content (sci_get_line S d (i + start_line sel))) [0..num_lines - 1];
          let d = select_lines S eol d sel;
          (new_file, lines_affected) \<leftarrow> func lines (nat (num_chars + 1));
          let d = sci_replace_sel S d new_file;
          Some (Some (user_indicate S eol d lines_affected sel)) })"

definition action_sci_manip_item ::
  "'d sci \<Rightarrow> string \<Rightarrow> ('d \<Rightarrow> int \<Rightarrow> int \<Rightarrow> 'd \<times> int) \<Rightarrow> 'd option \<Rightarrow> ('d \<times> lo_message) option" where
  "action_sci_manip_item S eol func doc =
     (case doc of
        None \<Rightarrow> None
      | Some d \<Rightarrow>
          (let sel = get_current_sel_lines S d;
               (d, lines_affected) = func d (start_line sel) (end_line sel)
           in Some (user_indicate S eol d lines_affected sel)))"

end
