(* ===== verification/LineActions.thy ===== *)
theory LineActions
  imports LineDoc
begin

text \<open>
  What the functions on the document and the menu actions do to the text, for every editor component that
  keeps its contract, and where they go wrong.
\<close>

subsection \<open>Deleting lines one by one\<close>

text \<open>The loops of the functions on the document differ in what they ask of a line.\<close>

function delete_loop :: "'d sci \<Rightarrow> ('d \<Rightarrow> int \<Rightarrow> 's \<Rightarrow> bool \<times> 's) \<Rightarrow> 's \<Rightarrow> 'd \<Rightarrow> int \<Rightarrow> int \<Rightarrow> int \<Rightarrow> 'd \<times> int" where
  "delete_loop S test st d l e ch =
     (if l \<le> e then
        (let (del, st) = test d l st in
         if del then delete_loop S test st (delete_line S d l) l (e - 1) (ch + 1) else delete_loop S test st d (l + 1) e ch)
      else (d, ch))"
  by pat_completeness auto
termination by (relation "measure (\<lambda>(S, t, s, d, l, e, c). nat (e - l + 1))") auto

declare delete_loop.simps [simp del] rmemtyln_loop.simps [simp del] rmwhspln_loop.simps [simp del] rmnthln_loop.simps [simp del]

lemma rmemtyln_delete: "rmemtyln_loop S d l e ch =
  delete_loop S (\<lambda>d l _. (sci_get_position_from_line S d l = sci_get_line_end_position S d l, ())) () d l e ch"
proof (induction "nat (e - l + 1)" arbitrary: d l e ch rule: less_induct)
  case less
  show ?case by (subst rmemtyln_loop.simps, subst delete_loop.simps) (use less in \<open>simp add: Let_def\<close>)
qed

lemma rmwhspln_delete: "rmwhspln_loop S d l e ch =
  delete_loop S (\<lambda>d l _. (SCI_GETLINEINDENTPOSITION S d l - sci_get_position_from_line S d l =
    sci_get_line_end_position S d l - sci_get_position_from_line S d l, ())) () d l e ch"
proof (induction "nat (e - l + 1)" arbitrary: d l e ch rule: less_induct)
  case less
  show ?case by (subst rmwhspln_loop.simps, subst delete_loop.simps) (use less in \<open>simp add: Let_def\<close>)
qed

lemma rmnthln_delete: "rmnthln_loop S n d l e c ch =
  delete_loop S (\<lambda>d l c. (c - 1 = 0, if c - 1 = 0 then n else c - 1)) c d l e ch"
proof (induction "nat (e - l + 1)" arbitrary: d l e c ch rule: less_induct)
  case less
  show ?case by (subst rmnthln_loop.simps, subst delete_loop.simps) (use less in \<open>simp add: Let_def\<close>)
qed

text \<open>The lines that are left, and the number of lines that were not.\<close>

fun sweep :: "('s \<Rightarrow> string \<Rightarrow> bool \<times> 's) \<Rightarrow> 's \<Rightarrow> string list \<Rightarrow> string list \<times> int" where
  "sweep test st [] = ([], 0)"
| "sweep test st (x # xs) =
     (let (del, st) = test st x; (ks, n) = sweep test st xs in if del then (ks, n + 1) else (x # ks, n))"

lemma sweep_filter: "sweep (\<lambda>st x. (P x, st)) st xs = (filter (\<lambda>x. \<not> P x) xs, int (length (filter P xs)))"
  by (induction xs) auto

context scintilla
begin

lemma delete_line_text:
  assumes "doc_lines (sci_text S d) = pre @ m # ms"
  shows "sci_text S (delete_line S d (int (length pre))) = concat (pre @ ms)"
proof -
  have t: "sci_text S d = concat (pre @ m # ms)" using assms concat_doc_lines by metis
  have "sci_get_position_from_line S d (int (length pre)) = int (length (concat pre))"
    "sci_get_line_length S d (int (length pre)) = int (length m)"
    using position[of "int (length pre)" d] line_length[of "int (length pre)" d] assms by (simp_all add: nth_append)
  then show ?thesis
    using delete[of "int (length (concat pre))" "int (length m)" d] t by (simp add: delete_line_def nat_add_distrib)
qed

lemma delete_loop_sweep:
  assumes eol: "eol_mode eol"
    and test: "\<And>d l st. 0 \<le> l \<Longrightarrow> l < int (length (doc_lines (sci_text S d))) \<Longrightarrow> test d l st = tst st (doc_lines (sci_text S d) ! nat l)"
  shows "doc_lines (sci_text S d) = pre @ mid @ post \<Longrightarrow> eol_lines eol (pre @ mid @ post) \<Longrightarrow>
    \<exists>d'. delete_loop S test st d (int (length pre)) (int (length pre) + int (length mid) - 1) ch = (d', ch + snd (sweep tst st mid)) \<and>
      sci_text S d' = concat (pre @ fst (sweep tst st mid) @ post)"
proof (induction mid arbitrary: pre d st ch)
  case Nil
  then have "sci_text S d = concat (pre @ post)" using concat_doc_lines[of "sci_text S d"] by simp
  then show ?case by (simp add: delete_loop.simps)
next
  case (Cons m ms)
  let ?l = "int (length pre)"
  obtain del st' where del: "tst st m = (del, st')" by fastforce
  have "test d ?l st = (del, st')" using test[of ?l d st] Cons.prems(1) del by (simp add: nth_append)
  then have step: "delete_loop S test st d ?l (?l + int (length (m # ms)) - 1) ch =
      (if del then delete_loop S test st' (delete_line S d ?l) ?l (?l + int (length ms) - 1) (ch + 1)
       else delete_loop S test st' d (?l + 1) (?l + int (length ms)) ch)"
    by (subst delete_loop.simps) simp
  show ?case
  proof (cases del)
    case False
    have "doc_lines (sci_text S d) = (pre @ [m]) @ ms @ post" "eol_lines eol ((pre @ [m]) @ ms @ post)" using Cons.prems by simp_all
    from Cons.IH[OF this, of st' ch] show ?thesis using step False del by (auto simp: algebra_simps split: prod.splits)
  next
    case True
    let ?d = "delete_line S d ?l"
    have t: "sci_text S ?d = concat (pre @ ms @ post)" using delete_line_text[of d pre m "ms @ post"] Cons.prems(1) by simp
    show ?thesis
    proof (cases "ms @ post = []")
      case True
      then show ?thesis using step \<open>del\<close> del t by (simp add: delete_loop.simps)
    next
      case False
      have eol': "eol_lines eol (pre @ ms @ post)" using eol_lines_delete[of eol pre m "ms @ post"] Cons.prems(2) False by simp
      have "doc_lines (sci_text S ?d) = pre @ ms @ post" using t doc_lines_concat[OF eol eol'] by simp
      from Cons.IH[OF this eol', of st' "ch + 1"] show ?thesis using step \<open>del\<close> del by (auto simp: algebra_simps split: prod.splits)
    qed
  qed
qed

end

subsection \<open>The functions on the document\<close>

definition blank_line :: "string \<Rightarrow> bool" where
  "blank_line x \<longleftrightarrow> (\<forall>c\<in>set (line_body x). is_space_or_tab c)"

lemma indent_is_body: "length (takeWhile is_space_or_tab x) = length (line_body x) \<longleftrightarrow> blank_line x"
proof -
  have "takeWhile is_space_or_tab x = takeWhile is_space_or_tab (line_body x)"
    unfolding line_body_def by (induction x) (auto simp: is_space_or_tab_def)
  moreover have "length (takeWhile is_space_or_tab y) = length y \<longleftrightarrow> (\<forall>c\<in>set y. is_space_or_tab c)" for y
    by (metis takeWhile_eq_all_conv takeWhile_eq_take take_all order_refl)
  ultimately show ?thesis by (simp add: blank_line_def)
qed

text \<open>The lines that are left when every \<open>n\<close>-th of them is removed.\<close>

definition without_nth :: "nat \<Rightarrow> string list \<Rightarrow> string list" where
  "without_nth n xs = nths xs {i. \<not> n dvd i + 1}"

lemma sweep_nth:
  assumes "0 < n"
  shows "k < n \<Longrightarrow> sweep (\<lambda>c x. (c - 1 = 0, if c - 1 = 0 then int n else c - 1)) (int n - int k) xs =
    (nths xs {i. \<not> n dvd i + k + 1}, int (length xs) - int (length (nths xs {i. \<not> n dvd i + k + 1})))"
proof (induction xs arbitrary: k)
  case (Cons x xs)
  show ?case
  proof (cases "k + 1 = n")
    case True
    have "n dvd Suc j + k + 1 \<longleftrightarrow> n dvd j + 0 + 1" for j
    proof -
      have "Suc j + k + 1 = (j + 0 + 1) + n" using True by simp
      then show ?thesis by (simp only: dvd_add_triv_right_iff)
    qed
    then have "{j. Suc j \<in> {i. \<not> n dvd i + k + 1}} = {i. \<not> n dvd i + 0 + 1}" by simp
    moreover have "int n - int k - 1 = 0" "n dvd 0 + k + 1" using True by auto
    moreover note Cons.IH[OF assms]
    ultimately show ?thesis by (simp add: nths_Cons)
  next
    case False
    then have k: "Suc k < n" using Cons.prems by simp
    have "{j. Suc j \<in> {i. \<not> n dvd i + k + 1}} = {i. \<not> n dvd i + Suc k + 1}" by simp
    moreover have "int n - int k - 1 \<noteq> 0" "\<not> n dvd 0 + k + 1" using k by (auto dest: dvd_imp_le)
    moreover have "int n - int (Suc k) = int n - int k - 1" by simp
    note Cons.IH[OF k, unfolded this]
    ultimately show ?thesis by (simp add: nths_Cons)
  qed
qed simp

context scintilla
begin

lemma rmemtyln_sweep:
  assumes "eol_mode eol" "doc_lines (sci_text S d) = pre @ mid @ post" "eol_lines eol (pre @ mid @ post)"
  shows "\<exists>d'. rmemtyln S d (int (length pre)) (int (length pre) + int (length mid) - 1) =
      (d', - int (length (filter (\<lambda>x. line_body x = []) mid))) \<and>
    sci_text S d' = concat (pre @ filter (\<lambda>x. line_body x \<noteq> []) mid @ post)"
proof -
  let ?t = "\<lambda>d l _. (sci_get_position_from_line S d l = sci_get_line_end_position S d l, ())"
  have "?t d l u = (line_body (doc_lines (sci_text S d) ! nat l) = [], u)"
    if "0 \<le> l" "l < int (length (doc_lines (sci_text S d)))" for d l u
    using line_end[OF that] by simp
  from delete_loop_sweep[where test = ?t and tst = "\<lambda>u x. (line_body x = [], u)" and st = "()" and ch = 0,
      OF assms(1) this assms(2,3)]
  show ?thesis unfolding rmemtyln_def rmemtyln_delete sweep_filter by auto
qed

lemma rmwhspln_sweep:
  assumes "eol_mode eol" "doc_lines (sci_text S d) = pre @ mid @ post" "eol_lines eol (pre @ mid @ post)"
  shows "\<exists>d'. rmwhspln S d (int (length pre)) (int (length pre) + int (length mid) - 1) =
      (d', - int (length (filter blank_line mid))) \<and>
    sci_text S d' = concat (pre @ filter (\<lambda>x. \<not> blank_line x) mid @ post)"
proof -
  let ?t = "\<lambda>d l _. (SCI_GETLINEINDENTPOSITION S d l - sci_get_position_from_line S d l =
      sci_get_line_end_position S d l - sci_get_position_from_line S d l, ())"
  have "?t d l u = (blank_line (doc_lines (sci_text S d) ! nat l), u)"
    if "0 \<le> l" "l < int (length (doc_lines (sci_text S d)))" for d l u
    using line_end[OF that] indent[OF that] indent_is_body[of "doc_lines (sci_text S d) ! nat l"] by simp
  from delete_loop_sweep[where test = ?t and tst = "\<lambda>u x. (blank_line x, u)" and st = "()" and ch = 0,
      OF assms(1) this assms(2,3)]
  show ?thesis unfolding rmwhspln_def rmwhspln_delete sweep_filter by auto
qed

lemma rmnthln_sweep:
  assumes "eol_mode eol" "doc_lines (sci_text S d) = pre @ mid @ post" "eol_lines eol (pre @ mid @ post)" "1 \<le> r"
  shows "\<exists>d'. rmnthln S (Some r) d (int (length pre)) (int (length pre) + int (length mid) - 1) =
      (d', - (int (length mid) - int (length (without_nth (nat \<lfloor>r\<rfloor>) mid)))) \<and>
    sci_text S d' = concat (pre @ without_nth (nat \<lfloor>r\<rfloor>) mid @ post)"
proof -
  define n where "n = nat \<lfloor>r\<rfloor>"
  have "1 \<le> \<lfloor>r\<rfloor>" using assms(4) by simp
  then have n: "0 < n" "\<lfloor>r\<rfloor> = int n" by (simp_all add: n_def)
  let ?u = "\<lambda>c. (c - 1 = 0, if c - 1 = 0 then int n else c - 1)"
  have "sweep (\<lambda>c x. ?u c) (int n) mid = (without_nth n mid, int (length mid) - int (length (without_nth n mid)))"
    using sweep_nth[OF n(1) n(1), of mid] sweep_nth[OF n(1), of 0 mid] n(1) by (simp add: without_nth_def)
  with delete_loop_sweep[where test = "\<lambda>d l c. ?u c" and tst = "\<lambda>c x. ?u c" and st = "int n" and ch = 0,
      OF assms(1) refl assms(2,3)]
  show ?thesis unfolding rmnthln_def rmnthln_delete option.case n(2) nat_int by auto
qed

end

subsection \<open>The menu actions\<close>

text \<open>The text with an end of line behind the last line, if there is a last line to end.\<close>

definition final_newline :: "string \<Rightarrow> string list \<Rightarrow> string list" where
  "final_newline eol ls = (if last ls = [] then ls else butlast ls @ [last ls @ eol, []])"

text \<open>What is before the selected lines, the lines and what is behind them.\<close>

definition selected :: "string \<Rightarrow> string list \<Rightarrow> nat \<Rightarrow> nat \<Rightarrow> string list \<times> string list \<times> string list" where
  "selected eol ls a b =
     (if b + 1 < length ls then (take a ls, take (b + 1 - a) (drop a ls), drop (b + 1) ls)
      else ([], final_newline eol ls, []))"

lemma eol_lines_final: "eol_lines eol ls \<Longrightarrow> eol_lines eol (final_newline eol ls)"
  by (auto simp: eol_lines_def final_newline_def butlast_append plain_def)

lemma concat_final: "ls \<noteq> [] \<Longrightarrow> concat (final_newline eol ls) = (if last ls = [] then concat ls else concat ls @ eol)"
proof -
  assume "ls \<noteq> []"
  then have "concat ls = concat (butlast ls @ [last ls])" by simp
  then show ?thesis by (simp add: final_newline_def)
qed

context scintilla
begin

lemma select_lines_region:
  assumes "eol_mode eol" "eol_lines eol (doc_lines (sci_text S d))" "a \<le> b" "b < length (doc_lines (sci_text S d))"
    "start_line sel = int a" "end_line sel = int b"
  shows "sci_text S (select_lines S eol d sel) = sci_text S d"
    "sci_get_selection_start S (select_lines S eol d sel) = int (length (concat (take a (doc_lines (sci_text S d)))))"
    "sci_get_selection_end S (select_lines S eol d sel) = int (length (concat (take (b + 1) (doc_lines (sci_text S d)))))"
proof -
  let ?L = "doc_lines (sci_text S d)"
  let ?p = "int (length (concat (take a ?L)))" and ?q = "int (length (concat (take (b + 1) ?L)))"
  let ?r = "sci_get_line_end_position S d (int b) + int (length eol)"
  have p: "sci_get_position_from_line S d (int a) = ?p" using position[of "int a" d] assms(3,4) by simp
  have len: "int (length (sci_text S d)) = int (length (concat ?L))" by simp
  have r: "?r = int (length (concat (take b ?L))) + int (length (line_body (?L ! b))) + int (length eol)"
    using line_end[of "int b" d] position[of "int b" d] assms(4) by simp
  have q: "min ?r (int (length (sci_text S d))) = ?q"
  proof (cases "b + 1 < length ?L")
    case True
    then have "?r = ?q" using r eol_line_body(1)[OF assms(2,1,4)] concat_take_Suc[OF assms(4)] by simp
    moreover have "?q \<le> int (length (sci_text S d))" using concat_take_le[of "b + 1" ?L] by simp
    ultimately show ?thesis by simp
  next
    case False
    then have b: "b + 1 = length ?L" using assms(4) by simp
    then have "?r = ?q + int (length eol)" using r eol_line_body(2)[OF assms(2,1,4)] concat_take_Suc[OF assms(4)] by simp
    moreover have "?q = int (length (sci_text S d))" using b by simp
    ultimately show ?thesis by simp
  qed
  have pq: "?p \<le> ?q" using concat_take_mono[of a "b + 1" ?L] assms(3) by simp
  have pl: "?p \<le> int (length (sci_text S d))" using concat_take_le[of a ?L] by simp
  let ?d = "sci_set_selection_start S d ?p"
  have d: "sci_text S ?d = sci_text S d" "sci_anchor S ?d = ?p" using set_start[of ?p d] select_text pl by simp_all
  have sel: "select_lines S eol d sel = sci_set_selection_end S ?d (sci_get_line_end_position S ?d (int b) + int (length eol))"
    using assms(5,6) p by (simp add: select_lines_def Let_def)
  have r': "sci_get_line_end_position S ?d (int b) + int (length eol) = ?r"
    using line_end[of "int b" d] line_end[of "int b" ?d] position[of "int b" d] position[of "int b" ?d] assms(4) d(1) by simp
  have e: "sci_caret S (sci_set_selection_end S ?d ?r) = ?q" "sci_anchor S (sci_set_selection_end S ?d ?r) = ?p"
  proof -
    have "0 \<le> ?r" using r by simp
    moreover have "?p \<le> ?r" using q pq by linarith
    ultimately show "sci_caret S (sci_set_selection_end S ?d ?r) = ?q" "sci_anchor S (sci_set_selection_end S ?d ?r) = ?p"
      using set_end[of ?r ?d] d q by simp_all
  qed
  show "sci_text S (select_lines S eol d sel) = sci_text S d" using sel d select_text by simp
  show "sci_get_selection_start S (select_lines S eol d sel) = ?p" "sci_get_selection_end S (select_lines S eol d sel) = ?q"
    using sel r' e pq by (simp_all add: sci_get_selection_start_def sci_get_selection_end_def)
qed

lemma current_lines:
  "\<exists>a b. start_line (get_current_sel_lines S d) = int a \<and> end_line (get_current_sel_lines S d) = int b \<and> a \<le> b \<and>
     b < length (doc_lines (sci_text S d))"
proof (cases "sci_has_selection S d")
  case False
  obtain n where "length (doc_lines (sci_text S d)) = Suc n" by (cases "length (doc_lines (sci_text S d))") auto
  then show ?thesis using False line_count[of d]
    by (intro exI[of _ 0] exI[of _ n]) (simp add: get_current_sel_lines_def)
next
  case True
  let ?p = "sci_get_selection_start S d" and ?q = "sci_get_selection_end S d"
  let ?a = "SCI_LINEFROMPOSITION S d ?p" and ?b = "SCI_LINEFROMPOSITION S d ?q"
  have pq: "0 \<le> ?p" "?p \<le> ?q" "?q \<le> int (length (sci_text S d))"
    using selection[of d] by (auto simp: sci_get_selection_start_def sci_get_selection_end_def)
  note a = line_from[of ?p d] and b = line_from[of ?q d]
  have ab: "0 \<le> ?a" "0 \<le> ?b" "?b < int (length (doc_lines (sci_text S d)))" "?a < int (length (doc_lines (sci_text S d)))"
    using a b pq line_count[of d] by auto
  have "?a \<le> ?b"
  proof (rule ccontr)
    assume "\<not> ?a \<le> ?b"
    then have less: "?b + 1 \<le> ?a" by simp
    then have "?b + 1 < sci_get_line_count S d" using a pq by linarith
    then have "?q < sci_get_position_from_line S d (?b + 1)" using b pq by linarith
    moreover have "sci_get_position_from_line S d (?b + 1) \<le> sci_get_position_from_line S d ?a"
      using position[of "?b + 1" d] position[of ?a d] ab less concat_take_mono[of "nat (?b + 1)" "nat ?a" "doc_lines (sci_text S d)"] by simp
    moreover have "sci_get_position_from_line S d ?a \<le> ?p" using a pq by linarith
    ultimately show False using pq(2) by linarith
  qed
  then show ?thesis using ab True
    by - (rule exI[where x = "nat ?a"], rule exI[where x = "nat ?b"], auto simp: get_current_sel_lines_def)
qed

lemma user_indicate_text: "sci_text S (fst (user_indicate S eol d n sel)) = sci_text S d"
  by (simp add: user_indicate_def select_lines_def select_text Let_def)

text \<open>Replacing a range of lines by what the function makes of them.\<close>

lemma replace_lines:
  assumes "eol_mode eol" "eol_lines eol (doc_lines (sci_text S d))" "a \<le> b" "b < length (doc_lines (sci_text S d))"
    "start_line sel = int a" "end_line sel = int b"
  shows "sci_text S (sci_replace_sel S (select_lines S eol d sel) nf) =
    concat (take a (doc_lines (sci_text S d))) @ nf @ concat (drop (b + 1) (doc_lines (sci_text S d)))"
proof -
  note sel = select_lines_region[OF assms]
  have "take (length (concat (take a (doc_lines (sci_text S d))))) (sci_text S d) = concat (take a (doc_lines (sci_text S d)))"
    using take_concat(1)[of a "doc_lines (sci_text S d)"] by simp
  moreover have "drop (length (concat (take (b + 1) (doc_lines (sci_text S d))))) (sci_text S d) = concat (drop (b + 1) (doc_lines (sci_text S d)))"
    using take_concat(2)[of "b + 1" "doc_lines (sci_text S d)"] by simp
  ultimately show ?thesis using replace[of "select_lines S eol d sel" nf] sel by simp
qed

lemma gather_lines:
  assumes "a + n \<le> length (doc_lines (sci_text S d))"
  shows "map (\<lambda>i. c_content (sci_get_line S d (i + int a))) [0..int n - 1] = map c_content (take n (drop a (doc_lines (sci_text S d))))"
    "(\<Sum>i\<leftarrow>[0..int n - 1]. sci_get_line_length S d (i + int a)) = int (length (concat (take n (drop a (doc_lines (sci_text S d))))))"
proof -
  let ?L = "doc_lines (sci_text S d)"
  have l: "sci_get_line S d (i + int a) = ?L ! nat (i + int a)" "sci_get_line_length S d (i + int a) = int (length (?L ! nat (i + int a)))"
    if "i \<in> set [0..int n - 1]" for i
    using get_line[of "i + int a" d] line_length[of "i + int a" d] that assms by auto
  have "map (\<lambda>i. c_content (sci_get_line S d (i + int a))) [0..int n - 1] = map c_content (map (\<lambda>i. ?L ! nat (i + int a)) [0..int n - 1])"
    using l(1) by simp
  then show "map (\<lambda>i. c_content (sci_get_line S d (i + int a))) [0..int n - 1] = map c_content (take n (drop a ?L))"
    using upto_slice[OF assms] by simp
  have "map (\<lambda>i. sci_get_line_length S d (i + int a)) [0..int n - 1] = map (\<lambda>x. int (length x)) (map (\<lambda>i. ?L ! nat (i + int a)) [0..int n - 1])"
    using l(2) by simp
  then show "(\<Sum>i\<leftarrow>[0..int n - 1]. sci_get_line_length S d (i + int a)) = int (length (concat (take n (drop a ?L))))"
    using upto_slice[OF assms] sum_lengths[of "take n (drop a ?L)"] by simp
qed

text \<open>\<open>ensure_final_newline\<close> when the selection starts with the first line.\<close>

lemma ensure_final_newline_all:
  assumes "eol_mode eol" "eol_lines eol (doc_lines (sci_text S d))"
  shows "\<exists>d'. ensure_final_newline S eol d (int (length (doc_lines (sci_text S d)))) sel =
      (d', int (length (final_newline eol (doc_lines (sci_text S d)))),
       sel\<lparr>end_line := end_line sel + (if last (doc_lines (sci_text S d)) = [] then 0 else 1)\<rparr>) \<and>
    doc_lines (sci_text S d') = final_newline eol (doc_lines (sci_text S d))"
proof -
  let ?L = "doc_lines (sci_text S d)" and ?n = "length (doc_lines (sci_text S d))"
  have n: "0 < ?n" by simp
  have L: "?L = butlast ?L @ [last ?L]" by simp
  have "take (?n - 1) ?L = butlast ?L" by (simp add: butlast_conv_take)
  then have 1: "sci_get_position_from_line S d (int ?n - 1) = int (length (concat (butlast ?L)))"
    using position[of "int ?n - 1" d] n by (simp add: nat_diff_distrib)
  have 2: "sci_get_position_from_line S d (int ?n) = int (length (sci_text S d))"
    using position[of "int ?n" d] by simp
  have "length (sci_text S d) = length (concat (butlast ?L @ [last ?L]))" using L concat_doc_lines[of "sci_text S d"] by metis
  then have 3: "length (sci_text S d) = length (concat (butlast ?L)) + length (last ?L)"
    by (simp del: append_butlast_last_id)
  show ?thesis
  proof (cases "last ?L = []")
    case True
    then show ?thesis using 1 2 3 by (intro exI[of _ d]) (simp add: ensure_final_newline_def final_newline_def Let_def)
  next
    case False
    let ?d = "sci_insert_text S d (int (length (sci_text S d))) eol"
    have "sci_text S ?d = sci_text S d @ eol" using insert[of "int (length (sci_text S d))" d eol] by simp
    also have "\<dots> = concat (final_newline eol ?L)" using concat_final[of ?L eol] False by simp
    finally have "doc_lines (sci_text S ?d) = final_newline eol ?L"
      using doc_lines_concat[OF assms(1) eol_lines_final[OF assms(2)]] by simp
    moreover have "length (final_newline eol ?L) = ?n + 1" using False n by (simp add: final_newline_def)
    ultimately show ?thesis using 1 2 3 False
      by (intro exI[of _ ?d]) (simp add: ensure_final_newline_def Let_def)
  qed
qed

lemma action_indir_text:
  assumes eol: "eol_mode eol" "eol_lines eol (doc_lines (sci_text S d))"
    and sel: "start_line (get_current_sel_lines S d) = int a" "end_line (get_current_sel_lines S d) = int b"
      "a = 0 \<or> b + 1 < length (doc_lines (sci_text S d))"
    and lines: "selected eol (doc_lines (sci_text S d)) a b = (pre, mid, post)"
    and func: "func (map c_content mid) (length (concat mid) + 1) = Some (nf, n)"
  shows "\<exists>d' msg. action_indir_manip_item S eol func (Some d) = Some (Some (d', msg)) \<and>
    sci_text S d' = concat pre @ nf @ concat post"
proof -
  let ?L = "doc_lines (sci_text S d)" and ?sel = "get_current_sel_lines S d"
  have ab: "a \<le> b" "b < length ?L" using current_lines[of d] sel(1,2) by auto
  have run: "\<exists>d' msg. action_indir_manip_item S eol func (Some d) = Some (Some (d', msg)) \<and>
      sci_text S d' = concat (take a (doc_lines (sci_text S u))) @ nf @ concat (drop (e + 1) (doc_lines (sci_text S u)))"
    if u: "(if int b + 1 = sci_get_line_count S d then ensure_final_newline S eol d (int b - int a + 1) ?sel else (d, int b - int a + 1, ?sel))
        = (u, int e - int a + 1, ?sel\<lparr>end_line := int e\<rparr>)"
      "eol_lines eol (doc_lines (sci_text S u))" "a \<le> e" "e < length (doc_lines (sci_text S u))"
      "take (e + 1 - a) (drop a (doc_lines (sci_text S u))) = mid" for u e
  proof -
    let ?e = "?sel\<lparr>end_line := int e\<rparr>"
    have k: "a + (e + 1 - a) \<le> length (doc_lines (sci_text S u))" "int e - int a + 1 = int (e + 1 - a)" "start_line ?e = int a" "end_line ?e = int e"
      using u(3,4) sel(1) by auto
    note g = gather_lines[OF k(1)] and r = replace_lines[OF eol(1) u(2-4) k(3,4), of nf]
    have nat: "nat (int (length (concat mid)) + 1) = length (concat mid) + 1" by simp
    have "action_indir_manip_item S eol func (Some d) =
        Some (Some (user_indicate S eol (sci_replace_sel S (select_lines S eol u ?e) nf) n ?e))"
      unfolding action_indir_manip_item_def option.case Let_def sel(1,2) u(1) prod.case k(2,3) g u(5) nat func by simp
    then show ?thesis using r user_indicate_text
      by (cases "user_indicate S eol (sci_replace_sel S (select_lines S eol u ?e) nf) n ?e") (metis fst_conv)
  qed
  show ?thesis
  proof (cases "b + 1 < length ?L")
    case True
    have "?sel = ?sel\<lparr>end_line := int b\<rparr>" using sel(2) by simp
    then show ?thesis
      using run[of d b] True eol(2) ab lines line_count[of d] by (auto simp: selected_def)
  next
    case False
    then have b: "a = 0" "b + 1 = length ?L" using sel(3) ab by auto
    let ?F = "final_newline eol ?L"
    obtain u where u: "ensure_final_newline S eol d (int (length ?L)) ?sel =
        (u, int (length ?F), ?sel\<lparr>end_line := end_line ?sel + (if last ?L = [] then 0 else 1)\<rparr>)" "doc_lines (sci_text S u) = ?F"
      using ensure_final_newline_all[OF eol, of ?sel] by blast
    have F: "length ?F = length ?L + (if last ?L = [] then 0 else 1)" using ab by (simp add: final_newline_def)
    then have e: "int (length ?F) = int (length ?F - 1) - int a + 1" "end_line ?sel + (if last ?L = [] then 0 else 1) = int (length ?F - 1)"
      using b sel(2) by auto
    have "int b + 1 = sci_get_line_count S d" "int b - int a + 1 = int (length ?L)" using b line_count[of d] by auto
    then have "(if int b + 1 = sci_get_line_count S d then ensure_final_newline S eol d (int b - int a + 1) ?sel else (d, int b - int a + 1, ?sel))
        = (u, int (length ?F - 1) - int a + 1, ?sel\<lparr>end_line := int (length ?F - 1)\<rparr>)"
      using u(1) e by simp
    then show ?thesis
      using run[of u "length ?F - 1"] u(2) eol_lines_final[OF eol(2)] b lines F by (auto simp: selected_def)
  qed
qed

end

subsection \<open>Properties\<close>

text \<open>
  C30: The functions that work on the document remove exactly the lines they are there for and keep the rest of
  the text: \<open>rmemtyln\<close> the empty lines, \<open>rmwhspln\<close> the lines of blanks and tabs, \<open>rmnthln\<close> every \<open>n\<close>-th line of the range. The result is the
  negated number of lines they matched. Scintilla is any editor component that does what its documentation
  says, on a document whose lines end in the same way.
\<close>

theorem remove_lines_correct:
  assumes "scintilla S" and "eol_mode eol" and "doc_lines (sci_text S d) = pre @ mid @ post"
    and "eol_lines eol (pre @ mid @ post)" and "1 \<le> r"
  shows "\<exists>d1 d2 d3.
    rmemtyln S d (int (length pre)) (int (length pre) + int (length mid) - 1) = (d1, - int (length (filter (\<lambda>x. line_body x = []) mid))) \<and>
    sci_text S d1 = concat (pre @ filter (\<lambda>x. line_body x \<noteq> []) mid @ post) \<and>
    rmwhspln S d (int (length pre)) (int (length pre) + int (length mid) - 1) = (d2, - int (length (filter blank_line mid))) \<and>
    sci_text S d2 = concat (pre @ filter (\<lambda>x. \<not> blank_line x) mid @ post) \<and>
    rmnthln S (Some r) d (int (length pre)) (int (length pre) + int (length mid) - 1) =
      (d3, - (int (length mid) - int (length (without_nth (nat \<lfloor>r\<rfloor>) mid)))) \<and>
    sci_text S d3 = concat (pre @ without_nth (nat \<lfloor>r\<rfloor>) mid @ post)"
  using scintilla.rmemtyln_sweep[OF assms(1-4)] scintilla.rmwhspln_sweep[OF assms(1-4)] scintilla.rmnthln_sweep[OF assms(1-5)]
  by blast

text \<open>
  C11: An action on the array of lines replaces the selected lines, or all lines when nothing is selected, by what
  the function of the menu item makes of them, and the rest of the text stays as it is. It holds when the selection does not reach
  the last line or starts with the first one; in the latter case the last line is ended first. \<open>new_file\<close> has one byte more than the lines.
\<close>

theorem action_indir_correct:
  assumes "scintilla S" and "eol_mode eol" and "eol_lines eol (doc_lines (sci_text S d))"
    and "start_line (get_current_sel_lines S d) = int a" and "end_line (get_current_sel_lines S d) = int b"
    and "a = 0 \<or> b + 1 < length (doc_lines (sci_text S d))"
    and "selected eol (doc_lines (sci_text S d)) a b = (pre, mid, post)"
    and "func (map c_content mid) (length (concat mid) + 1) = Some (nf, n)"
  shows "\<exists>d' msg. action_indir_manip_item S eol func (Some d) = Some (Some (d', msg)) \<and>
    sci_text S d' = concat pre @ nf @ concat post"
  by (rule scintilla.action_indir_text[where func = func and pre = pre and mid = mid and post = post, OF assms])

text \<open>A small document.\<close>

definition demo_doc :: buffer where
  "demo_doc = \<lparr>b_text = ''b'' @ [LF] @ ''a'' @ [LF] @ ''b'' @ [LF] @ [LF] @ ''c'' @ [LF], b_anchor = 0, b_caret = 5\<rparr>"

lemma demo_doc_lines: "doc_lines (sci_text text_sci demo_doc) = [''b'' @ [LF], ''a'' @ [LF], ''b'' @ [LF], [LF], ''c'' @ [LF], []]"
  by (simp add: demo_doc_def text_sci_def)

lemma demo_doc_eol: "eol_lines [LF] [''b'' @ [LF], ''a'' @ [LF], ''b'' @ [LF], [LF], ''c'' @ [LF], []]"
  by (simp add: eol_lines_def plain_def)

theorem remove_lines_correct_witness:
  "\<exists>d1 d3. rmemtyln text_sci demo_doc 1 4 = (d1, -1) \<and>
    b_text d1 = ''b'' @ [LF] @ ''a'' @ [LF] @ ''b'' @ [LF] @ ''c'' @ [LF] \<and>
    rmnthln text_sci (Some 2) demo_doc 1 4 = (d3, -2) \<and> b_text d3 = ''b'' @ [LF] @ ''a'' @ [LF] @ [LF]"
proof -
  have "sci_text text_sci = (b_text :: buffer \<Rightarrow> string)" by (simp add: text_sci_def)
  then show ?thesis
    using remove_lines_correct[OF text_buffer.scintilla_axioms, of "[LF]" demo_doc "[''b'' @ [LF]]"
      "[''a'' @ [LF], ''b'' @ [LF], [LF], ''c'' @ [LF]]" "[[]]" 2] demo_doc_lines demo_doc_eol
    by (auto simp: eol_mode_def line_body_def without_nth_def nths_Cons)
qed

theorem action_indir_correct_witness:
  "\<exists>d' msg. action_indir_manip_item text_sci [LF] (rmdupln byte_env) (Some demo_doc) = Some (Some (d', msg)) \<and>
    b_text d' = ''b'' @ [LF] @ ''a'' @ [LF] @ [LF] @ ''c'' @ [LF]"
proof -
  have sel: "start_line (get_current_sel_lines text_sci demo_doc) = int 0" "end_line (get_current_sel_lines text_sci demo_doc) = int 2"
    by (simp_all add: get_current_sel_lines_def sci_has_selection_def sci_get_selection_start_def sci_get_selection_end_def
        demo_doc_def text_sci_def clip_def)
  let ?mid = "[''b'' @ [LF], ''a'' @ [LF], ''b'' @ [LF]]"
  have s: "selected [LF] (doc_lines (sci_text text_sci demo_doc)) 0 2 = ([], ?mid, [[LF], ''c'' @ [LF], []])"
    unfolding demo_doc_lines by (simp add: selected_def)
  have "rmdupln byte_env (map c_content ?mid) (length (concat ?mid) + 1) = Some (''b'' @ [LF] @ ''a'' @ [LF], -1)"
    using rmdupln_kept[OF comparator_classes[OF byte_env_comparator], of "map c_content ?mid" "length (concat ?mid) + 1"]
    by (simp add: c_content_def byte_env_cmp kept_def)
  moreover have "eol_lines [LF] (doc_lines (sci_text text_sci demo_doc))" unfolding demo_doc_lines by (rule demo_doc_eol)
  moreover have "sci_text text_sci = (b_text :: buffer \<Rightarrow> string)" by (simp add: text_sci_def)
  ultimately show ?thesis
    using action_indir_correct[where func = "rmdupln byte_env", OF text_buffer.scintilla_axioms _ _ sel _ s] demo_doc_lines
    by (auto simp: eol_mode_def)
qed


end
