(* ===== verification/NumFmt.thy ===== *)
theory NumFmt
  imports Prelude "HOL-Library.Signed_Division" "HOL-Library.Word"
begin

text \<open>
  The insert numbers plugin, the numbers: how \<open>insert_numbers\<close> (\<open>geanyinsertnum/src/insertnum.c\<close>) finds the common length of
  the numbers of all lines and writes one of them into its buffer, the text that is there then, and a reader that
  gets the number back. The buffer is a block, its pointers \<open>beg\<close> and \<open>end\<close> are offsets into it.
\<close>

subsection \<open>Arithmetic of \<open>gint64\<close> and writes to a block\<close>

text \<open>The overflow of a signed integer is undefined in C: \<^term>\<open>None\<close>.\<close>

definition gint64 :: "int \<Rightarrow> int option" where
  "gint64 x = (if - (2 ^ 63) \<le> x \<and> x < 2 ^ 63 then Some x else None)"

definition wr :: "block \<Rightarrow> int \<Rightarrow> char \<Rightarrow> block option" where
  "wr b i c = (if 0 \<le> i \<and> i < int (length b) then Some (b[nat i := c]) else None)"

text \<open>\<open>memcpy\<close> of the first bytes of a constant, and \<open>memset\<close>, whose size is a \<open>size_t\<close>.\<close>

definition memcpy :: "block \<Rightarrow> int \<Rightarrow> block \<Rightarrow> nat \<Rightarrow> block option" where
  "memcpy b i s n = (if 0 \<le> i \<and> i + int n \<le> int (length b) \<and> n \<le> length s
     then Some (take (nat i) b @ take n s @ drop (nat i + n) b) else None)"

definition memset :: "block \<Rightarrow> int \<Rightarrow> char \<Rightarrow> int \<Rightarrow> block option" where
  "memset b i c n = (if 0 \<le> n \<and> 0 \<le> i \<and> i + n \<le> int (length b)
     then Some (take (nat i) b @ replicate (nat n) c @ drop (nat (i + n)) b) else None)"

subsection \<open>The generator of \<open>insert_numbers\<close>\<close>

text \<open>The static variables with the input data of the dialog.\<close>

record num_input =
  start_value :: int
  step_value :: int
  base_value :: int
  lower_case :: bool
  base_prefix :: bool
  pad_zeros :: bool

text \<open>\<open>prefix_len\<close> and \<open>plus\<close>, from the switch on \<open>base_value * base_prefix\<close>.\<close>

definition prefix_len :: "num_input \<Rightarrow> nat" where
  "prefix_len c = (if base_prefix c then (if base_value c = 8 then 1 else if base_value c = 16 then 2 else 0) else 0)"

definition plus_sign :: "num_input \<Rightarrow> bool" where
  "plus_sign c \<longleftrightarrow> base_prefix c \<and> base_value c = 10"

text \<open>
  \<open>while (value /= base_value) lend++\<close>. A division by zero is \<^term>\<open>None\<close>, and so is a loop that does not end.
\<close>

partial_function (option) count_digits :: "int \<Rightarrow> int \<Rightarrow> nat \<Rightarrow> nat option" where
  "count_digits base value lend =
     (if base = 0 then None
      else let value = value sdiv base in
        if value \<noteq> 0 then count_digits base value (lend + 1) else Some lend)"

declare count_digits.simps [code]

text \<open>The value of the last line, \<open>minus\<close>, and the common length of all numbers.\<close>

definition last_value :: "num_input \<Rightarrow> 32 word \<Rightarrow> int option" where
  "last_value c cnt = do {
     p \<leftarrow> gint64 (uint (cnt - 1) * step_value c);
     gint64 (start_value c + p) }"

definition minus_sign :: "num_input \<Rightarrow> int \<Rightarrow> bool" where
  "minus_sign c final \<longleftrightarrow> start_value c < 0 \<or> final < 0"

definition sign_len :: "num_input \<Rightarrow> bool \<Rightarrow> int \<Rightarrow> nat" where
  "sign_len c neg value = of_bool (plus_sign c \<or> (if pad_zeros c then neg else value < 0))"

definition num_length :: "num_input \<Rightarrow> 32 word \<Rightarrow> (bool \<times> nat) option" where
  "num_length c cnt = do {
     value \<leftarrow> last_value c cnt;
     let neg = minus_sign c value;
     lend \<leftarrow> count_digits (base_value c) value (sign_len c neg value);
     len \<leftarrow> count_digits (base_value c) (start_value c) (sign_len c neg (start_value c));
     Some (neg, prefix_len c + (if len > lend then len else lend) + 1) }"

definition digit_char :: "bool \<Rightarrow> int \<Rightarrow> char" where
  "digit_char lower digit =
     char_of (nat (digit + (if digit < 10 then 48 else (if lower then 97 else 65) - 10)))"

text \<open>The loop that writes the digits down from the end.\<close>

function put_digits :: "bool \<Rightarrow> int \<Rightarrow> block \<Rightarrow> int \<Rightarrow> int \<Rightarrow> (block \<times> int) option" where
  "put_digits lower base buffer stop value =
     (if base = 0 then None
      else do {
        let digit = value smod base;
        buffer \<leftarrow> wr buffer (stop - 1) (digit_char lower digit);
        let value = value sdiv base;
        if value \<noteq> 0 then put_digits lower base buffer (stop - 1) value else Some (buffer, stop - 1) })"
  by pat_completeness auto
termination
  by (relation "measure (\<lambda>(lower, base, buffer, e, value). nat e)") (auto simp: wr_def split: if_splits)

text \<open>The sign, before the padding or in front of the digits.\<close>

definition put_sign_beg :: "num_input \<Rightarrow> bool \<Rightarrow> block \<Rightarrow> int \<Rightarrow> int \<Rightarrow> (block \<times> int) option" where
  "put_sign_beg c neg buffer beg start =
     (if start < 0 then do { buffer \<leftarrow> wr buffer beg (CHR ''-''); Some (buffer, beg + 1) }
      else if plus_sign c then do { buffer \<leftarrow> wr buffer beg (CHR ''+''); Some (buffer, beg + 1) }
      else if neg then do { buffer \<leftarrow> wr buffer beg (CHR '' ''); Some (buffer, beg + 1) }
      else Some (buffer, beg))"

definition put_sign_end :: "num_input \<Rightarrow> block \<Rightarrow> int \<Rightarrow> int \<Rightarrow> (block \<times> int) option" where
  "put_sign_end c buffer stop start =
     (if start < 0 then do { buffer \<leftarrow> wr buffer (stop - 1) (CHR ''-''); Some (buffer, stop - 1) }
      else if plus_sign c then do { buffer \<leftarrow> wr buffer (stop - 1) (CHR ''+''); Some (buffer, stop - 1) }
      else Some (buffer, stop))"

text \<open>One number: the buffer after the digits, the sign, the prefix and the padding have been written.\<close>

definition put_number :: "num_input \<Rightarrow> bool \<Rightarrow> nat \<Rightarrow> block \<Rightarrow> int \<Rightarrow> block option" where
  "put_number c neg len buffer start = do {
     let beg = 0;
     value \<leftarrow> gint64 \<bar>start\<bar>;
     (buffer, stop) \<leftarrow> put_digits (lower_case c) (base_value c) buffer (int len) value;
     (buffer, beg, stop) \<leftarrow>
       (if pad_zeros c then do {
          (buffer, beg) \<leftarrow> put_sign_beg c neg buffer beg start;
          buffer \<leftarrow> memcpy buffer beg (cstr ''0x'') (prefix_len c);
          Some (buffer, beg + int (prefix_len c), stop) }
        else do {
          (buffer, stop) \<leftarrow> put_sign_end c buffer stop start;
          let stop = stop - int (prefix_len c);
          buffer \<leftarrow> memcpy buffer stop (cstr ''0x'') (prefix_len c);
          Some (buffer, beg, stop) });
     memset buffer beg (if pad_zeros c then CHR ''0'' else CHR '' '') (stop - beg) }"

subsection \<open>Specification\<close>

function digits :: "nat \<Rightarrow> nat \<Rightarrow> nat list" where
  "digits b n = (if n < b \<or> b < 2 then [n] else digits b (n div b) @ [n mod b])"
  by pat_completeness auto
termination by (relation "measure snd") auto

declare digits.simps [simp del] put_digits.simps [simp del]

definition numeral_text :: "num_input \<Rightarrow> int \<Rightarrow> string" where
  "numeral_text c v = map (\<lambda>d. digit_char (lower_case c) (int d)) (digits (nat (base_value c)) (nat \<bar>v\<bar>))"

definition sign_text :: "num_input \<Rightarrow> bool \<Rightarrow> int \<Rightarrow> string" where
  "sign_text c neg v = (if v < 0 then ''-'' else if plus_sign c then ''+'' else if pad_zeros c \<and> neg then '' '' else [])"

definition prefix_text :: "num_input \<Rightarrow> string" where
  "prefix_text c = take (prefix_len c) ''0x''"

text \<open>The number in a field of \<open>len\<close> characters.\<close>

definition num_text :: "num_input \<Rightarrow> bool \<Rightarrow> nat \<Rightarrow> int \<Rightarrow> string" where
  "num_text c neg len v =
     (let s = sign_text c neg v; p = prefix_text c; n = numeral_text c v;
          fill = len - length s - length p - length n
      in if pad_zeros c then s @ p @ replicate fill (CHR ''0'') @ n
         else replicate fill (CHR '' '') @ p @ s @ n)"

definition num_width :: "num_input \<Rightarrow> bool \<Rightarrow> int \<Rightarrow> nat" where
  "num_width c neg v = length (sign_text c neg v) + length (prefix_text c) + length (numeral_text c v)"

text \<open>What the dialog accepts.\<close>

definition num_range :: "int \<Rightarrow> bool" where
  "num_range x \<longleftrightarrow> -2147483648 \<le> x \<and> x \<le> 2147483647"

definition num_input_ok :: "num_input \<Rightarrow> bool" where
  "num_input_ok c \<longleftrightarrow> num_range (start_value c) \<and> num_range (step_value c) \<and> step_value c \<noteq> 0 \<and>
     2 \<le> base_value c \<and> base_value c \<le> 36"

lemma digits_neq [simp]: "digits b n \<noteq> []"
  by (subst digits.simps) simp

lemma digits_less: "2 \<le> b \<Longrightarrow> d \<in> set (digits b n) \<Longrightarrow> d < b"
proof (induction b n rule: digits.induct)
  case (1 b n)
  then show ?case by (cases "n < b") (auto simp: digits.simps[of b n])
qed

lemma length_digits_mono: "2 \<le> b \<Longrightarrow> m \<le> n \<Longrightarrow> length (digits b m) \<le> length (digits b n)"
proof (induction b m arbitrary: n rule: digits.induct)
  case (1 b m)
  show ?case
  proof (cases "m < b")
    case True
    then show ?thesis by (simp add: digits.simps[of b m] Suc_le_eq)
  next
    case False
    with 1 have "length (digits b (m div b)) \<le> length (digits b (n div b))" by (simp add: div_le_mono)
    then show ?thesis using False 1(2,3) by (simp add: digits.simps[of b m] digits.simps[of b n])
  qed
qed

lemma sdiv_nat: "2 \<le> b \<Longrightarrow> nat \<bar>v sdiv b\<bar> = nat \<bar>v\<bar> div nat b" for v b :: int
  by (simp add: signed_divide_int_def abs_mult nat_div_distrib pos_imp_zdiv_nonneg_iff)

lemma sdiv_zero: "2 \<le> b \<Longrightarrow> v sdiv b = 0 \<longleftrightarrow> nat \<bar>v\<bar> < nat b" for v b :: int
  using sdiv_nat[of b v] by (auto simp: div_eq_0_iff nat_less_iff)

lemma count_digits_eq:
  assumes "2 \<le> b"
  shows "count_digits b v n = Some (n + length (digits (nat b) (nat \<bar>v\<bar>)) - 1)"
proof (induction "nat \<bar>v\<bar>" arbitrary: v n rule: less_induct)
  case less
  show ?case
  proof (cases "v sdiv b = 0")
    case True
    then have "nat \<bar>v\<bar> < nat b" using assms by (simp add: sdiv_zero)
    then show ?thesis using True assms by (subst count_digits.simps, subst digits.simps) simp
  next
    case False
    then have g: "\<not> nat \<bar>v\<bar> < nat b" using assms by (simp add: sdiv_zero)
    then have "nat \<bar>v sdiv b\<bar> < nat \<bar>v\<bar>" using assms by (simp add: sdiv_nat)
    from less[OF this] have "count_digits b (v sdiv b) (n + 1) = Some (n + length (digits (nat b) (nat \<bar>v\<bar> div nat b)))"
      using assms by (simp add: sdiv_nat)
    then show ?thesis using False assms g
      by (subst count_digits.simps, subst digits.simps) (simp add: Let_def)
  qed
qed

lemma put_digits_eq:
  assumes "2 \<le> b" "0 \<le> v" "length (digits (nat b) (nat v)) \<le> stop" "stop \<le> length buf"
  shows "put_digits lower b buf (int stop) v =
    (let ds = digits (nat b) (nat v) in
     Some (take (stop - length ds) buf @ map (\<lambda>d. digit_char lower (int d)) ds @ drop stop buf, int (stop - length ds)))"
  using assms(2-4)
proof (induction "nat v" arbitrary: v stop buf rule: less_induct)
  case less
  let ?c = "digit_char lower (v smod b)"
  have stop: "0 < stop" using less.prems digits_neq[of "nat b" "nat v"] by (cases "digits (nat b) (nat v)") auto
  have wr: "wr buf (int stop - 1) ?c = Some (buf[stop - 1 := ?c])"
    using stop less.prems by (auto simp: wr_def nat_diff_distrib)
  have upd: "take (stop - 1) (buf[stop - 1 := ?c]) = take (stop - 1) buf"
    "drop (stop - 1) (buf[stop - 1 := ?c]) = ?c # drop stop buf"
    using stop less.prems by (simp_all add: drop_update_swap Cons_nth_drop_Suc[symmetric])
  have sm: "v smod b = int (nat v mod nat b)"
    using less.prems assms(1) by (simp add: signed_modulo_int_def sgn_if zmod_int)
  have step: "put_digits lower b buf (int stop) v =
      (if v sdiv b \<noteq> 0 then put_digits lower b (buf[stop - 1 := ?c]) (int (stop - 1)) (v sdiv b)
       else Some (buf[stop - 1 := ?c], int (stop - 1)))"
    using assms(1) stop wr by (cases stop) (simp_all add: put_digits.simps[of lower b buf] Let_def)
  show ?case
  proof (cases "v sdiv b = 0")
    case True
    then have "nat v < nat b" using assms(1) less.prems by (simp add: sdiv_zero)
    then have "digits (nat b) (nat v) = [nat v]" "nat v mod nat b = nat v" by (simp_all add: digits.simps[of "nat b" "nat v"])
    moreover have "buf[stop - 1 := ?c] = take (stop - 1) buf @ ?c # drop stop buf"
      using upd by (metis append_take_drop_id)
    ultimately show ?thesis using True sm by (simp add: step Let_def)
  next
    case False
    then have g: "\<not> nat v < nat b" using assms(1) less.prems by (simp add: sdiv_zero)
    have dv: "nat (v sdiv b) = nat v div nat b" "0 \<le> v sdiv b"
      using less.prems assms(1) by (auto simp: signed_divide_int_def sgn_if nat_div_distrib pos_imp_zdiv_nonneg_iff)
    have ds: "digits (nat b) (nat v) = digits (nat b) (nat v div nat b) @ [nat v mod nat b]"
      using g assms(1) by (simp add: digits.simps[of "nat b" "nat v"])
    have n: "length (digits (nat b) (nat v div nat b)) \<le> stop - 1" using less.prems ds by simp
    have m: "stop - 1 \<le> length buf" using less.prems by simp
    have "put_digits lower b (buf[stop - 1 := ?c]) (int (stop - 1)) (v sdiv b) =
      (let ds = digits (nat b) (nat v div nat b) in
       Some (take (stop - 1 - length ds) (buf[stop - 1 := ?c]) @ map (\<lambda>d. digit_char lower (int d)) ds @
        ?c # drop stop buf, int (stop - 1 - length ds)))"
      using less.hyps[of "v sdiv b" "stop - 1" "buf[stop - 1 := ?c]"] less.prems g assms(1) dv upd n m by simp
    then show ?thesis using False ds sm by (simp add: step Let_def)
  qed
qed

lemma length_prefix_text [simp]: "length (prefix_text c) = prefix_len c"
  by (simp add: prefix_text_def prefix_len_def)

lemma memcpy_prefix:
  "i + prefix_len c \<le> length b \<Longrightarrow>
   memcpy b (int i) (cstr ''0x'') (prefix_len c) = Some (take i b @ prefix_text c @ drop (i + prefix_len c) b)"
  by (auto simp: memcpy_def cstr_def prefix_text_def prefix_len_def)

lemma wr_at: "i < length b \<Longrightarrow> wr b (int i) c = Some (take i b @ c # drop (Suc i) b)"
  by (simp add: wr_def upd_conv_take_nth_drop)

lemma memset_at:
  "i \<le> j \<Longrightarrow> j \<le> length b \<Longrightarrow> memset b (int i) c (int j - int i) = Some (take i b @ replicate (j - i) c @ drop j b)"
  by (simp add: memset_def nat_diff_distrib)

lemma put_sign_beg_eq:
  "pad_zeros c \<Longrightarrow> buf \<noteq> [] \<Longrightarrow>
   put_sign_beg c neg buf 0 v = Some (sign_text c neg v @ drop (length (sign_text c neg v)) buf, int (length (sign_text c neg v)))"
  using wr_at[of 0 buf] by (auto simp: put_sign_beg_def sign_text_def)

lemma put_sign_end_eq:
  assumes "\<not> pad_zeros c" "length (sign_text c neg v) \<le> stop" "stop \<le> length buf"
  shows "put_sign_end c buf (int stop) v = (let s = sign_text c neg v in
    Some (take (stop - length s) buf @ s @ drop stop buf, int (stop - length s)))"
  using assms wr_at[of "stop - 1" buf] by (cases stop) (auto simp: put_sign_end_def sign_text_def Let_def)

lemma put_number_eq:
  assumes "2 \<le> base_value c" "gint64 \<bar>v\<bar> = Some \<bar>v\<bar>" "num_width c neg v \<le> len" "length buf = Suc len"
  shows "put_number c neg len buf v = Some (num_text c neg len v @ drop len buf)"
proof -
  define n s p where "n = length (numeral_text c v)" and "s = length (sign_text c neg v)" and "p = prefix_len c"
  have w: "s + p + n \<le> len" using assms(3) by (simp add: num_width_def n_def s_def p_def)
  have n: "n = length (digits (nat (base_value c)) (nat \<bar>v\<bar>))" by (simp add: n_def numeral_text_def)
  let ?b1 = "take (len - n) buf @ numeral_text c v @ drop len buf"
  have put: "put_digits (lower_case c) (base_value c) buf (int len) \<bar>v\<bar> = Some (?b1, int (len - n))"
    using put_digits_eq[of "base_value c" "\<bar>v\<bar>" len buf "lower_case c"] assms w by (simp add: n numeral_text_def Let_def)
  show ?thesis
  proof (cases "pad_zeros c")
    case True
    let ?b2 = "sign_text c neg v @ drop s ?b1"
    have "memcpy ?b2 (int s) (cstr ''0x'') p = Some (sign_text c neg v @ prefix_text c @ drop (s + p) ?b1)" (is "_ = Some ?b3")
      using memcpy_prefix[of s c ?b2] w assms(4) by (simp add: s_def p_def n_def add.commute)
    moreover have "memset ?b3 (int (s + p)) (CHR ''0'') (int (len - n) - int (s + p)) =
        Some (take (s + p) ?b3 @ replicate (len - n - (s + p)) (CHR ''0'') @ drop (len - n) ?b3)"
      using w assms(4) by (intro memset_at) (simp_all add: s_def p_def n_def)
    moreover have "drop (len - n) ?b3 = numeral_text c v @ drop len buf" "take (s + p) ?b3 = sign_text c neg v @ prefix_text c"
      using w assms(4) by (simp_all add: s_def p_def n_def)
    ultimately show ?thesis using True put_sign_beg_eq[of c ?b1 neg v] assms(2,4)
      by (simp add: put_number_def put Let_def num_text_def s_def p_def n_def)
  next
    case False
    let ?b2 = "take (len - n - s) buf @ sign_text c neg v @ numeral_text c v @ drop len buf" and ?e = "len - n - s - p"
    have "put_sign_end c ?b1 (int (len - n)) v = Some (?b2, int (len - n - s))"
      using put_sign_end_eq[of c neg v "len - n" ?b1] False w assms(4) by (simp add: Let_def s_def p_def n_def)
    moreover have e: "int (len - n - s) - int p = int ?e" using w by simp
    moreover have "memcpy ?b2 (int ?e) (cstr ''0x'') p =
        Some (take ?e buf @ prefix_text c @ sign_text c neg v @ numeral_text c v @ drop len buf)" (is "_ = Some ?b3")
      using memcpy_prefix[of ?e c ?b2] w assms(4) by (simp add: s_def p_def n_def)
    moreover have "memset ?b3 0 (CHR '' '') (int ?e) =
        Some (replicate ?e (CHR '' '') @ prefix_text c @ sign_text c neg v @ numeral_text c v @ drop len buf)"
      using memset_at[of 0 ?e ?b3 "CHR '' ''"] w assms(4) by (simp add: s_def p_def n_def)
    moreover have "len - length (sign_text c neg v) - length (prefix_text c) - length (numeral_text c v) = ?e"
      by (simp add: s_def p_def n_def)
    ultimately show ?thesis
      unfolding put_number_def num_text_def Let_def p_def[symmetric]
      by (simp only: assms(2) put Option.bind.simps case_prod_conv False if_False diff_zero append_assoc)
  qed
qed

lemma last_value_eq:
  assumes "num_input_ok c"
  shows "last_value c cnt = Some (start_value c + uint (cnt - 1) * step_value c)"
proof -
  let ?k = "uint (cnt - 1)"
  have k: "0 \<le> ?k" "?k \<le> 4294967295" using uint_lt2p[of "cnt - 1"] by simp_all
  have s: "-2147483648 \<le> step_value c" "step_value c \<le> 2147483647" "-2147483648 \<le> start_value c" "start_value c \<le> 2147483647"
    using assms by (simp_all add: num_input_ok_def num_range_def)
  have "?k * step_value c \<le> ?k * 2147483647" "?k * (-2147483648) \<le> ?k * step_value c"
    using k s by (simp_all add: mult_left_mono del: mult_minus_right)
  then have "- 9223372034707292160 \<le> ?k * step_value c" "?k * step_value c \<le> 9223372030412324865" using k by linarith+
  then show ?thesis using s by (simp add: last_value_def gint64_def)
qed

lemma sign_len_eq: "v < 0 \<longrightarrow> neg \<Longrightarrow> sign_len c neg v = length (sign_text c neg v)"
  by (auto simp: sign_len_def sign_text_def)

lemma num_length_eq:
  assumes "num_input_ok c" and L: "L = start_value c + uint (cnt - 1) * step_value c"
  shows "num_length c cnt = Some (minus_sign c L, max (num_width c (minus_sign c L) (start_value c)) (num_width c (minus_sign c L) L))"
proof -
  have b: "2 \<le> base_value c" using assms by (simp add: num_input_ok_def)
  have "sign_len c (minus_sign c L) L = length (sign_text c (minus_sign c L) L)"
    "sign_len c (minus_sign c L) (start_value c) = length (sign_text c (minus_sign c L) (start_value c))"
    by (simp_all add: sign_len_eq minus_sign_def)
  moreover obtain m n where "length (digits (nat (base_value c)) (nat \<bar>start_value c\<bar>)) = Suc m"
    "length (digits (nat (base_value c)) (nat \<bar>L\<bar>)) = Suc n"
    by (metis digits_neq length_0_conv not0_implies_Suc)
  ultimately show ?thesis
    using last_value_eq[OF assms(1)]
    by (simp add: num_length_def L[symmetric] count_digits_eq[OF b] Let_def num_width_def numeral_text_def max_def)
qed

text \<open>The widest number is the first or the last.\<close>

lemma num_width_mono:
  assumes "2 \<le> base_value c" "v \<le> w \<and> 0 \<le> v \<or> w \<le> v \<and> v < 0"
  shows "num_width c neg v \<le> num_width c neg w"
proof -
  have "length (digits (nat (base_value c)) (nat \<bar>v\<bar>)) \<le> length (digits (nat (base_value c)) (nat \<bar>w\<bar>))"
    using assms by (intro length_digits_mono) auto
  then show ?thesis using assms by (auto simp: num_width_def numeral_text_def sign_text_def)
qed

lemma num_width_between:
  assumes "2 \<le> base_value c" "min a b \<le> v" "v \<le> max a b"
  shows "num_width c neg v \<le> max (num_width c neg a) (num_width c neg b)"
proof (cases "v < 0")
  case True
  then show ?thesis using assms num_width_mono[of c v "min a b" neg] by (auto simp: min_def max_def split: if_splits)
next
  case False
  then show ?thesis using assms num_width_mono[of c v "max a b" neg] by (auto simp: min_def max_def split: if_splits)
qed

lemma line_value_between:
  fixes k n a s :: int
  assumes "0 \<le> k" "k \<le> n"
  shows "min a (a + n * s) \<le> a + k * s \<and> a + k * s \<le> max a (a + n * s)"
proof (cases "0 \<le> s")
  case True
  then show ?thesis using assms mult_right_mono[of k n s] by auto
next
  case False
  then have "n * s \<le> k * s" "k * s \<le> 0" using assms by (simp_all add: mult_right_mono_neg mult_nonneg_nonpos)
  then show ?thesis by linarith
qed

subsection \<open>Reading a number back\<close>

definition digit_value :: "char \<Rightarrow> nat" where
  "digit_value c = (if is_digit c then cc c - 48 else if is_lower c then cc c - 87
     else if is_upper c then cc c - 55 else 36)"

definition read_digits :: "nat \<Rightarrow> string \<Rightarrow> nat option" where
  "read_digits b cs = (if cs \<noteq> [] \<and> list_all (\<lambda>c. digit_value c < b) cs
     then Some (foldl (\<lambda>n c. n * b + digit_value c) 0 cs) else None)"

text \<open>Blanks, a sign, the prefix, and the digits: as \<open>strtol\<close> reads a number, with a prefix that is not optional.\<close>

definition read_number :: "num_input \<Rightarrow> string \<Rightarrow> int option" where
  "read_number c t =
     (let t = dropWhile (\<lambda>x. x = CHR '' '') t;
          (neg, t) = (case t of x # r \<Rightarrow> if x = CHR ''-'' then (True, r) else if x = CHR ''+'' then (False, r) else (False, t)
            | [] \<Rightarrow> (False, t))
      in if take (prefix_len c) t = prefix_text c
         then map_option (\<lambda>n. if neg then - int n else int n) (read_digits (nat (base_value c)) (drop (prefix_len c) t))
         else None)"

lemma digit_char_table:
  "\<forall>d\<in>set [0..<36]. \<forall>l\<in>{True, False}. digit_value (digit_char l (int d)) = d \<and>
     is_alnum (digit_char l (int d))"
  by (simp add: upt_rec digit_value_def digit_char_def char_class_defs)

lemma digit_char_props:
  assumes "d < 36"
  shows "digit_value (digit_char l (int d)) = d" "is_alnum (digit_char l (int d))"
  using digit_char_table assms by (cases l; simp)+

lemma foldl_digits:
  "2 \<le> b \<Longrightarrow> foldl (\<lambda>n d. n * b + d) 0 (digits b n) = n"
proof (induction b n rule: digits.induct)
  case (1 b n)
  then show ?case by (cases "n < b") (simp_all add: digits.simps[of b n])
qed

lemma base_digit:
  assumes "2 \<le> b" "b \<le> 36" "d \<in> set (digits (nat b) n)"
  shows "d < nat b" "d < 36"
  using digits_less[OF _ assms(3)] assms(1,2) by linarith+

lemma read_digits_numeral:
  assumes "2 \<le> base_value c" "base_value c \<le> 36"
  shows "read_digits (nat (base_value c)) (replicate k (CHR ''0'') @ numeral_text c v) = Some (nat \<bar>v\<bar>)"
proof -
  let ?b = "nat (base_value c)"
  have d: "d < ?b" "d < 36" if "d \<in> set (digits ?b n)" for d n
    using base_digit[OF assms that] by simp_all
  have z: "digit_value (CHR ''0'') = 0" by (simp add: digit_value_def char_class_defs)
  have "foldl (\<lambda>n c. n * ?b + digit_value c) a (map (\<lambda>d. digit_char l (int d)) ds) = foldl (\<lambda>n d. n * ?b + d) a ds"
    if "\<forall>d\<in>set ds. d < 36" for a l ds
    using that by (induction ds arbitrary: a) (simp_all add: digit_char_props)
  moreover have "foldl (\<lambda>n c. n * ?b + digit_value c) 0 (replicate k (CHR ''0'')) = 0"
    by (induction k) (simp_all add: z)
  ultimately show ?thesis
    using assms d foldl_digits[of ?b] by (auto simp: read_digits_def numeral_text_def list_all_iff z digit_char_props)
qed

lemma alnum_neq: "is_alnum x \<Longrightarrow> x \<noteq> CHR '' '' \<and> x \<noteq> CHR ''-'' \<and> x \<noteq> CHR ''+'' \<and> x \<noteq> NUL \<and> x \<noteq> CR \<and> x \<noteq> LF"
  by (auto simp: char_class_defs)

lemma numeral_text_alnum:
  assumes "2 \<le> base_value c" "base_value c \<le> 36" "x \<in> set (numeral_text c v)"
  shows "is_alnum x"
proof -
  obtain d where "d \<in> set (digits (nat (base_value c)) (nat \<bar>v\<bar>))" "x = digit_char (lower_case c) (int d)"
    using assms(3) by (auto simp: numeral_text_def)
  then show ?thesis using base_digit(2)[OF assms(1,2)] digit_char_props(2) by blast
qed

lemma numeral_text_neq [simp]: "numeral_text c v \<noteq> []"
  by (simp add: numeral_text_def)

definition read_body :: "num_input \<Rightarrow> bool \<Rightarrow> string \<Rightarrow> int option" where
  "read_body c neg t = (if take (prefix_len c) t = prefix_text c
     then map_option (\<lambda>n. if neg then - int n else int n) (read_digits (nat (base_value c)) (drop (prefix_len c) t)) else None)"

lemma read_number_body:
  assumes "is_alnum x"
  shows "read_number c (replicate k (CHR '' '') @ x # r) = read_body c False (x # r)"
    "read_number c (replicate k (CHR '' '') @ CHR ''-'' # x # r) = read_body c True (x # r)"
    "read_number c (replicate k (CHR '' '') @ CHR ''+'' # x # r) = read_body c False (x # r)"
  using alnum_neq[OF assms] by (simp_all add: read_number_def read_body_def dropWhile_append)

lemma prefix_alnum: "x \<in> set (prefix_text c) \<Longrightarrow> is_alnum x"
  by (auto simp: prefix_text_def prefix_len_def char_class_defs split: if_splits)

lemma read_number_num_text:
  assumes "2 \<le> base_value c" "base_value c \<le> 36"
  shows "read_number c (num_text c neg len v) =
    (if \<not> pad_zeros c \<and> v < 0 \<and> prefix_len c \<noteq> 0 then None else Some v)"
proof -
  note rd = read_digits_numeral[OF assms]
  let ?B = "\<lambda>k. prefix_text c @ replicate k (CHR ''0'') @ numeral_text c v"
  have al: "is_alnum x" if "x \<in> set (?B k)" for x k
    using that numeral_text_alnum[OF assms] prefix_alnum by (auto simp: char_class_defs)
  have body: "read_body c neg (?B k) = Some (if neg then - \<bar>v\<bar> else \<bar>v\<bar>)" for neg k
    using rd by (simp add: read_body_def)
  have B: "read_number c (replicate j (CHR '' '') @ ?B k) = Some \<bar>v\<bar>"
    "read_number c (replicate j (CHR '' '') @ CHR ''-'' # ?B k) = Some (- \<bar>v\<bar>)"
    "read_number c (replicate j (CHR '' '') @ CHR ''+'' # ?B k) = Some \<bar>v\<bar>" for j k
  proof -
    obtain x r where "?B k = x # r" by (cases "?B k") auto
    with al[of x k] body[of _ k] read_number_body[of x c j r]
    show "read_number c (replicate j (CHR '' '') @ ?B k) = Some \<bar>v\<bar>"
      "read_number c (replicate j (CHR '' '') @ CHR ''-'' # ?B k) = Some (- \<bar>v\<bar>)"
      "read_number c (replicate j (CHR '' '') @ CHR ''+'' # ?B k) = Some \<bar>v\<bar>" by simp_all
  qed
  show ?thesis
  proof (cases "pad_zeros c")
    case True
    then show ?thesis using B(1)[of 0] B(2)[of 0] B(3)[of 0] B(1)[of 1]
      by (simp add: num_text_def sign_text_def Let_def)
  next
    case False
    show ?thesis
    proof (cases "v < 0 \<and> prefix_len c \<noteq> 0")
      case True
      then obtain x r where p: "prefix_text c = x # r" using length_prefix_text[of c] by (cases "prefix_text c") auto
      then have l: "prefix_len c = Suc (length r)" using length_prefix_text[of c] by simp
      have "digit_value (CHR ''-'') = 36" "\<not> 36 < nat (base_value c)" using assms(2) by (simp_all add: digit_value_def char_class_defs)
      then show ?thesis using True False read_number_body(1)[of x c _ "r @ ''-'' @ numeral_text c v"] prefix_alnum[of x c] p l
        by (simp add: num_text_def sign_text_def Let_def read_body_def read_digits_def)
    next
      case nf: False
      have "plus_sign c \<Longrightarrow> prefix_len c = 0" by (simp add: plus_sign_def prefix_len_def)
      then show ?thesis using False nf B(1)[of _ 0] B(2)[of _ 0] B(3)[of _ 0] length_prefix_text[of c]
        by (auto simp: num_text_def sign_text_def Let_def simp del: length_prefix_text)
    qed
  qed
qed

lemma length_num_text: "num_width c neg v \<le> len \<Longrightarrow> length (num_text c neg len v) = len"
  by (auto simp: num_text_def num_width_def Let_def)

lemma num_text_plain:
  assumes "2 \<le> base_value c" "base_value c \<le> 36" "x \<in> set (num_text c neg len v)"
  shows "x \<noteq> NUL \<and> x \<noteq> CR \<and> x \<noteq> LF"
proof -
  have "is_alnum x \<or> x \<in> set ''-+ 0''"
    using assms(3) numeral_text_alnum[OF assms(1,2)] prefix_alnum
    by (fastforce simp: num_text_def Let_def sign_text_def split: if_splits)
  then show ?thesis using alnum_neq[of x] by auto
qed

text \<open>All the values the lines may get fit the field.\<close>

definition values_fit :: "num_input \<Rightarrow> bool \<Rightarrow> nat \<Rightarrow> int \<Rightarrow> nat \<Rightarrow> bool" where
  "values_fit c neg len v n \<longleftrightarrow> (\<forall>k<n. num_width c neg (v + int k * step_value c) \<le> len) \<and>
     (\<forall>k\<le>n. \<bar>v + int k * step_value c\<bar> < 2 ^ 63)"

lemma values_fit_Suc:
  assumes "values_fit c neg len v (Suc n)"
  shows "values_fit c neg len (v + step_value c) n" "num_width c neg v \<le> len" "gint64 \<bar>v\<bar> = Some \<bar>v\<bar>"
    "gint64 (v + step_value c) = Some (v + step_value c)"
proof -
  have s: "v + step_value c + int k * step_value c = v + int (Suc k) * step_value c" for k by (simp add: algebra_simps)
  have w: "num_width c neg (v + int k * step_value c) \<le> len" if "k < Suc n" for k using assms that by (simp add: values_fit_def)
  have m: "\<bar>v + int k * step_value c\<bar> < 2 ^ 63" if "k \<le> Suc n" for k using assms that by (simp add: values_fit_def)
  show "values_fit c neg len (v + step_value c) n" unfolding values_fit_def s by (intro conjI allI impI w m) simp_all
  show "num_width c neg v \<le> len" using w[of 0] by simp
  show "gint64 \<bar>v\<bar> = Some \<bar>v\<bar>" "gint64 (v + step_value c) = Some (v + step_value c)"
    using m[of 0] m[of 1] by (simp_all add: gint64_def abs_less_iff)
qed

lemma values_fit_lines:
  assumes ok: "num_input_ok c" and L: "num_length c (of_nat m) = Some (neg, len)" and n: "n \<le> m" "m \<le> 250000"
  shows "values_fit c neg len (start_value c) n"
proof -
  let ?s = "start_value c" and ?d = "step_value c"
  have b: "2 \<le> base_value c" and s: "num_range ?s" "num_range ?d" using ok by (simp_all add: num_input_ok_def)
  have "num_width c neg (?s + int k * ?d) \<le> len" if k: "k < n" for k
  proof -
    obtain j where j: "m = Suc j" using k n by (cases m) auto
    then have "(of_nat m :: 32 word) - 1 = of_nat j" by simp
    then have "uint ((of_nat m :: 32 word) - 1) = int j" using n j by (simp add: uint_nat unat_of_nat)
    then have "max (num_width c neg ?s) (num_width c neg (?s + int j * ?d)) = len"
      using num_length_eq[OF ok refl, of "of_nat m"] L by simp
    moreover have "min ?s (?s + int j * ?d) \<le> ?s + int k * ?d \<and> ?s + int k * ?d \<le> max ?s (?s + int j * ?d)"
      using k n j by (intro line_value_between) simp_all
    ultimately show ?thesis using num_width_between[OF b, of ?s "?s + int j * ?d" "?s + int k * ?d" neg] by simp
  qed
  moreover have "\<bar>?s + int k * ?d\<bar> < 2 ^ 63" if k: "k \<le> n" for k
  proof -
    have "\<bar>?d\<bar> \<le> 2147483648" "\<bar>?s\<bar> \<le> 2147483648" using s by (auto simp: num_range_def)
    then have "int k * \<bar>?d\<bar> \<le> 250000 * 2147483648" using k n by (intro mult_mono) auto
    then have "\<bar>int k * ?d\<bar> \<le> 250000 * 2147483648" by (simp add: abs_mult)
    then show ?thesis using \<open>\<bar>?s\<bar> \<le> 2147483648\<close> abs_triangle_ineq[of ?s "int k * ?d"] by simp
  qed
  ultimately show ?thesis by (simp add: values_fit_def)
qed


subsection \<open>Properties\<close>

text \<open>The common length. It is found without an overflow, and it is the least length in which the numbers of all lines fit, for up to
  \<open>MAX_LINES\<close> lines.
\<close>

theorem num_length_least:
  assumes "num_input_ok c" and "0 < m" and "m \<le> 250000"
  shows "\<exists>neg len. num_length c (of_nat m) = Some (neg, len) \<and>
    (\<forall>k<m. num_width c neg (start_value c + int k * step_value c) \<le> len) \<and>
    (\<exists>k<m. num_width c neg (start_value c + int k * step_value c) = len)"
proof -
  obtain j where j: "m = Suc j" using assms(2) by (cases m) auto
  then have "(of_nat m :: 32 word) - 1 = of_nat j" by simp
  then have u: "uint ((of_nat m :: 32 word) - 1) = int j" using assms(3) j by (simp add: uint_nat unat_of_nat)
  obtain neg len where L: "num_length c (of_nat m) = Some (neg, len)" using num_length_eq[OF assms(1) refl] by blast
  have "len = max (num_width c neg (start_value c + int 0 * step_value c)) (num_width c neg (start_value c + int j * step_value c))"
    using num_length_eq[OF assms(1) refl, of "of_nat m"] L unfolding u by simp
  then have "\<exists>k<m. num_width c neg (start_value c + int k * step_value c) = len" using j assms(2) by (auto simp: max_def)
  moreover note values_fit_lines[OF assms(1) L le_refl assms(3)]
  ultimately show ?thesis using L by (auto simp: values_fit_def)
qed

definition hex_input :: num_input where
  "hex_input = \<lparr>start_value = -17, step_value = 300, base_value = 16, lower_case = True, base_prefix = True, pad_zeros = True\<rparr>"

lemma hex_input_ok: "num_input_ok hex_input"
  by (simp add: num_input_ok_def num_range_def hex_input_def)

theorem num_length_least_witness:
  "\<exists>k<2. num_width hex_input True (-17 + int k * 300) = 6 \<and> num_length hex_input 2 = Some (True, 6)"
proof -
  have L: "num_length hex_input 2 = Some (True, 6)" by code_simp
  show ?thesis using num_length_least[OF hex_input_ok, of 2] L by (auto simp: hex_input_def)
qed

text \<open>
  C19: One number. Written into any buffer of the common length and one byte, the number of a line fills exactly that length and leaves the
  last byte alone, and it can be read back; but not a negative number that has a prefix and is padded with blanks, as its sign is behind the prefix.
\<close>

theorem put_number_read_number:
  assumes "num_input_ok c" and "m \<le> 250000" and "num_length c (of_nat m) = Some (neg, len)" and "k < m" and "length buf = len + 1"
  shows "\<exists>t v. v = start_value c + int k * step_value c \<and> put_number c neg len buf v = Some (t @ drop len buf) \<and>
    length t = len \<and> NUL \<notin> set t \<and>
    read_number c t = (if \<not> pad_zeros c \<and> v < 0 \<and> prefix_len c \<noteq> 0 then None else Some v)"
proof -
  let ?v = "start_value c + int k * step_value c"
  have b: "2 \<le> base_value c" "base_value c \<le> 36" using assms(1) by (simp_all add: num_input_ok_def)
  have fit: "num_width c neg ?v \<le> len" "\<bar>?v\<bar> < 2 ^ 63"
    using values_fit_lines[OF assms(1,3) le_refl assms(2)] assms(4) by (simp_all add: values_fit_def)
  then have "put_number c neg len buf ?v = Some (num_text c neg len ?v @ drop len buf)"
    using assms(5) b by (intro put_number_eq) (simp_all add: gint64_def)
  then show ?thesis
    using length_num_text[OF fit(1)] num_text_plain[OF b] read_number_num_text[OF b] by fast
qed

theorem put_number_read_number_witness:
  "\<exists>t. put_number hex_input True 6 (replicate 7 NUL) 283 = Some (t @ [NUL]) \<and> read_number hex_input t = Some 283 \<and> length t = 6"
proof -
  have L: "num_length hex_input (of_nat 2) = Some (True, 6)" by code_simp
  show ?thesis using put_number_read_number[OF hex_input_ok _ L, of 1 "replicate 7 NUL"] by (auto simp: hex_input_def)
qed

end
