(* ===== verification/NumIns.thy ===== *)
theory NumIns
  imports NumFmt Editor Complex_Main
begin

text \<open>
  The insert numbers plugin (\<open>geanyinsertnum/src/insertnum.c\<close>): the editor component with a rectangular selection as a locale, \<open>insert_numbers\<close>
  on a document, and the dialog that reads its input. The progress bar is left out; handling the events of the toolkit, which
  may set the variable \<open>cancel\<close>, is an argument.
\<close>

subsection \<open>The editor component with a rectangular selection\<close>

text \<open>
  The messages of Scintilla this plugin sends besides the common ones. \<open>SCI_GETLINESELENDPOSITION\<close> is not sent, but says what
  of a line belongs to the selection.
\<close>

record 'd rect =
  sci_get_selection_mode :: "'d \<Rightarrow> int"
  SCI_POINTXFROMPOSITION :: "'d \<Rightarrow> int \<Rightarrow> int"
  SCI_GETLINESELSTARTPOSITION :: "'d \<Rightarrow> int \<Rightarrow> int"
  SCI_GETLINESELENDPOSITION :: "'d \<Rightarrow> int \<Rightarrow> int"
  SCI_GOTOPOS :: "'d \<Rightarrow> int \<Rightarrow> 'd"

definition SC_SEL_RECTANGLE :: int where "SC_SEL_RECTANGLE = 1"
definition SC_SEL_THIN :: int where "SC_SEL_THIN = 3"

definition is_rectangle :: "'d rect \<Rightarrow> 'd \<Rightarrow> bool" where
  "is_rectangle R d \<longleftrightarrow> sci_get_selection_mode R d = SC_SEL_RECTANGLE \<or> sci_get_selection_mode R d = SC_SEL_THIN"

text \<open>A line without its part of the selection.\<close>

definition cut_line :: "'d sci \<Rightarrow> 'd rect \<Rightarrow> 'd \<Rightarrow> int \<Rightarrow> string" where
  "cut_line S R d l =
     (let x = doc_lines (sci_text S d) ! nat l; p = sci_get_position_from_line S d l in
      if SCI_GETLINESELSTARTPOSITION R d l = -1 then x
      else take (nat (SCI_GETLINESELSTARTPOSITION R d l - p)) x @ drop (nat (SCI_GETLINESELENDPOSITION R d l - p)) x)"

locale rectangular = editor +
  fixes R :: "'a rect"
  assumes line_selection: "is_rectangle R d \<Longrightarrow> 0 \<le> l \<Longrightarrow> l < sci_get_line_count S d \<Longrightarrow>
      SCI_GETLINESELSTARTPOSITION R d l = -1 \<or>
      sci_get_position_from_line S d l \<le> SCI_GETLINESELSTARTPOSITION R d l \<and>
      SCI_GETLINESELSTARTPOSITION R d l \<le> SCI_GETLINESELENDPOSITION R d l \<and>
      SCI_GETLINESELENDPOSITION R d l \<le> sci_get_line_end_position S d l \<and>
      SCI_LINEFROMPOSITION S d (sci_get_selection_start S d) \<le> l \<and>
      l \<le> SCI_LINEFROMPOSITION S d (sci_get_selection_end S d)"
    and replace_rectangle: "is_rectangle R d \<Longrightarrow>
      sci_text S (sci_replace_sel S d []) = concat (map (cut_line S R d) [0..sci_get_line_count S d - 1])"
    and goto_text: "sci_text S (SCI_GOTOPOS R d p) = sci_text S d"

subsection \<open>Inserting the numbers\<close>

text \<open>\<open>start_pos\<close>, \<open>start_line\<close>, \<open>end_pos\<close> and \<open>end_line\<close>.\<close>

record num_sel =
  start_pos :: int
  start_line_no :: int
  end_pos :: int
  end_line_no :: int

definition MAX_LINES :: int where "MAX_LINES = 250000"

text \<open>A document is the contents of its editor and whether it is read-only; there may be none.\<close>

definition can_insert_numbers :: "'d sci \<Rightarrow> 'd rect \<Rightarrow> ('d \<times> bool) option \<Rightarrow> num_sel \<Rightarrow> bool \<times> num_sel" where
  "can_insert_numbers S R doc v =
     (case doc of
        None \<Rightarrow> (False, v)
      | Some (sci, readonly) \<Rightarrow>
          if \<not> readonly \<and> sci_has_selection S sci \<and>
             (sci_get_selection_mode R sci = SC_SEL_RECTANGLE \<or> sci_get_selection_mode R sci = SC_SEL_THIN)
          then let v = v\<lparr>start_pos := sci_get_selection_start S sci\<rparr>;
                   v = v\<lparr>start_line_no := SCI_LINEFROMPOSITION S sci (start_pos v)\<rparr>;
                   v = v\<lparr>end_pos := sci_get_selection_end S sci\<rparr>;
                   v = v\<lparr>end_line_no := SCI_LINEFROMPOSITION S sci (end_pos v)\<rparr>
               in (end_line_no v - start_line_no v < MAX_LINES, v)
          else (False, v))"

text \<open>
  \<open>cancel\<close> is \<open>NULL\<close> or, for each of the two loops, whether the variable is set after the events of an iteration have been
  handled.
\<close>

type_synonym cancel = "((nat \<Rightarrow> bool) \<times> (nat \<Rightarrow> bool)) option"

definition cancelled :: "(nat \<Rightarrow> bool) option \<Rightarrow> nat \<Rightarrow> nat \<Rightarrow> bool" where
  "cancelled cancel n i \<longleftrightarrow> (case cancel of None \<Rightarrow> False | Some ev \<Rightarrow> i mod n = 0 \<and> ev i)"

text \<open>The first loop: the columns of the lines that are long enough, and their number. \<^term>\<open>None\<close> is a cancelled loop.\<close>

function count_lines :: "'d sci \<Rightarrow> 'd rect \<Rightarrow> 'd \<Rightarrow> int \<Rightarrow> (nat \<Rightarrow> bool) option \<Rightarrow> int \<Rightarrow> int \<Rightarrow> nat \<Rightarrow> int list \<Rightarrow> 32 word \<Rightarrow>
    (int list \<times> 32 word) option" where
  "count_lines S R sci xinsert cancel line end_line i line_pos cnt =
     (if line \<le> end_line then
        (let (line_pos, cnt) =
           (if SCI_POINTXFROMPOSITION R sci (sci_get_line_end_position S sci line) \<ge> xinsert
            then (line_pos @ [SCI_GETLINESELSTARTPOSITION R sci line - sci_get_position_from_line S sci line], cnt + 1)
            else (line_pos @ [-1], cnt))
         in if cancelled cancel 2500 i then None
            else count_lines S R sci xinsert cancel (line + 1) end_line (i + 1) line_pos cnt)
      else Some (line_pos, cnt))"
  by pat_completeness auto
termination by (relation "measure (\<lambda>(S, R, d, x, c, l, e, i, p, n). nat (e - l + 1))") auto

text \<open>The third argument of \<open>sci_insert_text\<close> is a C string.\<close>

definition read_cstr :: "block \<Rightarrow> string option" where
  "read_cstr b = (if NUL \<in> set b then Some (c_content b) else None)"

function insert_lines :: "'d sci \<Rightarrow> 'd rect \<Rightarrow> (nat \<Rightarrow> bool) option \<Rightarrow> num_input \<Rightarrow> bool \<Rightarrow> nat \<Rightarrow> int list \<Rightarrow>
    int \<Rightarrow> int \<Rightarrow> nat \<Rightarrow> block \<Rightarrow> int \<Rightarrow> 'd \<Rightarrow> 'd option" where
  "insert_lines S R cancel c neg len line_pos line end_line i buffer start sci =
     (if line \<le> end_line then do {
        p \<leftarrow> nth_int line_pos (int i);
        if p < 0 then insert_lines S R cancel c neg len line_pos (line + 1) end_line (i + 1) buffer start sci
        else do {
          buffer \<leftarrow> put_number c neg len buffer start;
          let insert_pos = sci_get_position_from_line S sci line + p;
          t \<leftarrow> read_cstr buffer;
          let sci = sci_insert_text S sci insert_pos t;
          start \<leftarrow> gint64 (start + step_value c);
          if cancelled cancel 1000 i then Some (SCI_GOTOPOS R sci (insert_pos + int len))
          else insert_lines S R cancel c neg len line_pos (line + 1) end_line (i + 1) buffer start sci } }
      else Some sci)"
  by pat_completeness auto
termination by (relation "measure (\<lambda>(S, R, ca, c, n, len, lp, l, e, i, b, v, d). nat (e - l + 1))") auto

declare count_lines.simps [simp del] insert_lines.simps [simp del]

text \<open>\<open>mem\<close> is what \<open>g_new\<close> leaves in the memory of the buffer.\<close>

definition insert_numbers :: "'d sci \<Rightarrow> 'd rect \<Rightarrow> (nat \<Rightarrow> char) \<Rightarrow> cancel \<Rightarrow> num_input \<Rightarrow> num_sel \<Rightarrow> 'd \<Rightarrow> 'd option" where
  "insert_numbers S R mem cancel c v sci =
     (let xinsert = SCI_POINTXFROMPOSITION R sci (start_pos v);
          xend = SCI_POINTXFROMPOSITION R sci (end_pos v);
          xinsert = (if xend < xinsert then xend else xinsert) in
      case count_lines S R sci xinsert (map_option fst cancel) (start_line_no v) (end_line_no v) 0 [] 0 of
        None \<Rightarrow> Some sci
      | Some (line_pos, cnt) \<Rightarrow> do {
          (neg, len) \<leftarrow> num_length c cnt;
          let buffer = map mem [0..<len] @ [NUL];
          let sci = sci_replace_sel S sci [];
          insert_lines S R (map_option snd cancel) c neg len line_pos (start_line_no v) (end_line_no v) 0
            buffer (start_value c) sci })"

subsection \<open>The dialog\<close>

text \<open>\<open>on_base_insert_text\<close> stops the emission of the signal when the text has a character that is no digit.\<close>

function base_insert_loop :: "block \<Rightarrow> int \<Rightarrow> nat \<Rightarrow> bool option" where
  "base_insert_loop text len i =
     (if int i < len then do { c \<leftarrow> rd text i; if \<not> is_digit c then Some True else base_insert_loop text len (i + 1) }
      else Some False)"
  by pat_completeness auto
termination by (relation "measure (\<lambda>(t, n, i). nat (n - int i))") auto

definition on_base_insert_text :: "block \<Rightarrow> int \<Rightarrow> bool option" where
  "on_base_insert_text text len = do {
     len \<leftarrow> (if len = -1 then do { t \<leftarrow> read_cstr text; Some (int (length t)) } else Some len);
     base_insert_loop text len 0 }"

text \<open>What the user has entered when a button is pressed, and \<open>atoi\<close> on the text of the entry for the base.\<close>

record num_form =
  f_start :: real
  f_step :: real
  f_base :: string
  f_lower :: bool
  f_prefix :: bool
  f_zero :: bool

definition atoi_digits :: "string \<Rightarrow> int" where
  "atoi_digits t = foldl (\<lambda>n c. n * 10 + (int (cc c) - 48)) 0 (takeWhile is_digit t)"

definition atoi :: "string \<Rightarrow> int" where
  "atoi t = (case dropWhile is_cspace t of
     [] \<Rightarrow> 0
   | x # r \<Rightarrow> if x = CHR ''-'' then - atoi_digits r else if x = CHR ''+'' then atoi_digits r else atoi_digits (x # r))"

text \<open>The conversion of a \<open>gdouble\<close> to a \<open>gint64\<close> cuts off the fraction.\<close>

definition c_trunc :: "real \<Rightarrow> int" where
  "c_trunc x = (if 0 \<le> x then \<lfloor>x\<rfloor> else \<lceil>x\<rceil>)"

datatype bad_entry = Bad_step | Bad_base

text \<open>\<^term>\<open>None\<close> is the response of the dialog, otherwise it beeps and the focus is on the entry.\<close>

definition on_insert_numbers_ok_clicked :: "num_form \<Rightarrow> num_input \<times> bad_entry option" where
  "on_insert_numbers_ok_clicked d =
     (let c = \<lparr>start_value = c_trunc (f_start d), step_value = c_trunc (f_step d), base_value = atoi (f_base d),
               lower_case = f_lower d, base_prefix = f_prefix d, pad_zeros = f_zero d\<rparr>
      in (c, if step_value c = 0 then Some Bad_step
             else if base_value c < 2 \<or> base_value c > 36 then Some Bad_base else None))"

datatype dialog_event = Ok_clicked num_form | Dialog_closed

fun dialog_run :: "dialog_event list \<Rightarrow> num_input \<Rightarrow> num_input \<times> bool" where
  "dialog_run [] c = (c, False)"
| "dialog_run (Dialog_closed # evs) c = (c, False)"
| "dialog_run (Ok_clicked d # evs) c =
     (case on_insert_numbers_ok_clicked d of
        (c, None) \<Rightarrow> (c, True)
      | (c, Some bad) \<Rightarrow> dialog_run evs c)"

datatype 'd num_result = Inserted 'd | Beep | No_change

text \<open>\<open>doc\<close> is the current document after the dialog.\<close>

definition on_insert_numbers_activate ::
  "'d sci \<Rightarrow> 'd rect \<Rightarrow> (nat \<Rightarrow> char) \<Rightarrow> (nat \<Rightarrow> bool) \<times> (nat \<Rightarrow> bool) \<Rightarrow> dialog_event list \<Rightarrow> ('d \<times> bool) option \<Rightarrow>
   num_input \<times> num_sel \<Rightarrow> ((num_input \<times> num_sel) \<times> 'd num_result) option" where
  "on_insert_numbers_activate S R mem cancel evs doc vars =
     (let (c, v) = vars; (c, accept) = dialog_run evs c in
      if accept then
        (let (can, v) = can_insert_numbers S R doc v in
         if can then do {
           (sci, _) \<leftarrow> doc;
           sci \<leftarrow> insert_numbers S R mem (if end_line_no v - start_line_no v < 1000 then None else Some cancel) c v sci;
           Some ((c, v), Inserted sci) }
         else Some ((c, v), Beep))
      else Some ((c, v), No_change))"

definition on_insert_numbers_key ::
  "'d sci \<Rightarrow> 'd rect \<Rightarrow> (nat \<Rightarrow> char) \<Rightarrow> (nat \<Rightarrow> bool) \<times> (nat \<Rightarrow> bool) \<Rightarrow> dialog_event list \<Rightarrow> ('d \<times> bool) option \<Rightarrow> ('d \<times> bool) option \<Rightarrow>
   num_input \<times> num_sel \<Rightarrow> ((num_input \<times> num_sel) \<times> 'd num_result) option" where
  "on_insert_numbers_key S R mem cancel evs doc doc' vars =
     (let (c, v) = vars; (can, v) = can_insert_numbers S R doc v in
      if can then on_insert_numbers_activate S R mem cancel evs doc' (c, v) else Some ((c, v), No_change))"

subsection \<open>The loop over the lines\<close>

definition reaches :: "'d sci \<Rightarrow> 'd rect \<Rightarrow> 'd \<Rightarrow> int \<Rightarrow> int \<Rightarrow> bool" where
  "reaches S R d x l \<longleftrightarrow> x \<le> SCI_POINTXFROMPOSITION R d (sci_get_line_end_position S d l)"

text \<open>The column where a line gets its number.\<close>

definition insert_column :: "'d sci \<Rightarrow> 'd rect \<Rightarrow> 'd \<Rightarrow> int \<Rightarrow> int \<Rightarrow> int" where
  "insert_column S R d x l =
     (if reaches S R d x l then SCI_GETLINESELSTARTPOSITION R d l - sci_get_position_from_line S d l else -1)"

lemma count_lines_step:
  "l \<le> e \<Longrightarrow> count_lines S R d x cancel l e i lp n =
     (if cancelled cancel 2500 i then None
      else count_lines S R d x cancel (l + 1) e (i + 1) (lp @ [insert_column S R d x l]) (n + of_bool (reaches S R d x l)))"
  "e < l \<Longrightarrow> count_lines S R d x cancel l e i lp n = Some (lp, n)"
  by (simp_all add: count_lines.simps[of S R d x cancel l e i lp n] insert_column_def reaches_def)

lemma count_lines_Some:
  "count_lines S R d x cancel l e i lp n = Some (lp', n') \<Longrightarrow>
   lp' = lp @ map (insert_column S R d x) [l..e] \<and> n' = n + of_nat (length (filter (reaches S R d x) [l..e]))"
proof (induction "nat (e - l + 1)" arbitrary: l i lp n rule: less_induct)
  case less
  show ?case
  proof (cases "l \<le> e")
    case True
    then have u: "[l..e] = l # [l + 1..e]" by (simp add: upto_rec1)
    have "count_lines S R d x cancel (l + 1) e (i + 1) (lp @ [insert_column S R d x l]) (n + of_bool (reaches S R d x l)) = Some (lp', n')"
      using less.prems by (auto simp: count_lines_step(1)[OF True] split: if_splits)
    from less.hyps[OF _ this] show ?thesis using True unfolding u by auto
  qed (use less.prems in \<open>simp add: count_lines_step(2)\<close>)
qed

lemma count_lines_None: "count_lines S R d x None l e i lp n \<noteq> None"
proof (induction "nat (e - l + 1)" arbitrary: l i lp n rule: less_induct)
  case less
  show ?case
  proof (cases "l \<le> e")
    case True
    then show ?thesis using less[of "l + 1"] by (simp add: count_lines_step(1) cancelled_def)
  qed (simp add: count_lines_step(2))
qed

text \<open>The lines with the numbers: a line whose column is negative gets none.\<close>

fun number_lines :: "(int \<Rightarrow> string) \<Rightarrow> int \<Rightarrow> int list \<Rightarrow> string list \<Rightarrow> int \<Rightarrow> string list" where
  "number_lines f step (p # ps) (x # xs) v =
     (if p < 0 then x # number_lines f step ps xs v
      else (take (nat p) x @ f v @ drop (nat p) x) # number_lines f step ps xs (v + step))"
| "number_lines f step ps xs v = xs"

lemma number_lines_Nil [simp]: "number_lines f step [] xs v = xs"
  by (cases xs) auto

lemma eol_lines_splice:
  assumes "eol_mode eol" "eol_lines eol (pre @ x # post)" "a \<le> b" "b \<le> length (line_body x)" "plain s"
  shows "eol_lines eol (pre @ (take a x @ s @ drop b x) # post)"
    "a + length s \<le> length (line_body (take a x @ s @ drop b x))"
proof -
  obtain y z where x: "x = y @ z" "plain y" "z = (if post = [] then [] else eol)"
    using assms(2) by (cases "post = []") (auto simp: eol_lines_def butlast_append)
  have y: "line_body x = y" using doc_lines_bodies[of y z] x assms(1) by auto
  have p: "plain (take a y @ s @ drop b y)"
    using assms(5) x(2) by (auto simp: plain_def dest: in_set_takeD in_set_dropD)
  have n: "take a x @ s @ drop b x = (take a y @ s @ drop b y) @ z" using assms(3,4) x y by simp
  then show "eol_lines eol (pre @ (take a x @ s @ drop b x) # post)"
    using assms(2) p x(3) by (cases "post = []") (auto simp: eol_lines_def butlast_append)
  have "line_body ((take a y @ s @ drop b y) @ z) = take a y @ s @ drop b y"
    using p x(3) assms(1) by (intro doc_lines_bodies) auto
  then show "a + length s \<le> length (line_body (take a x @ s @ drop b x))"
    using n assms(3,4) y by simp
qed

lemma read_cstr_num_text:
  assumes "2 \<le> base_value c" "base_value c \<le> 36"
  shows "read_cstr (num_text c neg len v @ [NUL]) = Some (num_text c neg len v)"
  using num_text_plain[OF assms] by (auto simp: read_cstr_def c_content_def takeWhile_append)

context rectangular
begin

lemma insert_in_line:
  assumes "doc_lines (sci_text S d) = pre @ x # post" "0 \<le> p" "p \<le> int (length (line_body x))"
  shows "sci_text S (sci_insert_text S d (sci_get_position_from_line S d (int (length pre)) + p) s) =
    concat (pre @ (take (nat p) x @ s @ drop (nat p) x) # post)"
proof -
  have b: "length (line_body x) \<le> length x" by (simp add: line_body_def length_takeWhile_le)
  have t: "sci_text S d = concat pre @ x @ concat post" using assms(1) concat_doc_lines[of "sci_text S d"] by simp
  have pos: "sci_get_position_from_line S d (int (length pre)) = int (length (concat pre))"
    using position[of "int (length pre)" d] assms(1) by simp
  show ?thesis
    using insert[of "int (length (concat pre)) + p" d s] assms(2,3) b unfolding pos t by (simp add: nat_add_distrib)
qed

lemma insert_lines_spec:
  assumes c: "2 \<le> base_value c" "base_value c \<le> 36" and eol: "eol_mode eol"
  shows "doc_lines (sci_text S d) = pre @ mid @ post \<Longrightarrow> eol_lines eol (pre @ mid @ post) \<Longrightarrow>
    length ps = length mid \<Longrightarrow> length lp = i \<Longrightarrow>
    (\<And>j. j < length mid \<Longrightarrow> ps ! j \<le> int (length (line_body (mid ! j)))) \<Longrightarrow>
    values_fit c neg len v (length (filter (\<lambda>p. 0 \<le> p) ps)) \<Longrightarrow> length buf = len + 1 \<Longrightarrow> drop len buf = [NUL] \<Longrightarrow>
    \<exists>d' n. insert_lines S R cancel c neg len (lp @ ps) (int (length pre)) (int (length pre) + int (length mid) - 1) i buf v d = Some d' \<and>
      n \<le> length mid \<and> (cancel = None \<longrightarrow> n = length mid) \<and>
      sci_text S d' = concat (pre @ number_lines (num_text c neg len) (step_value c) (take n ps) mid v @ post)"
proof (induction mid arbitrary: d pre ps lp i v buf)
  case Nil
  then have "sci_text S d = concat (pre @ post)" using concat_doc_lines[of "sci_text S d"] by simp
  then show ?case by (simp add: insert_lines.simps)
next
  case (Cons x xs)
  then obtain p qs where ps: "ps = p # qs" "length qs = length xs" by (cases ps) auto
  let ?l = "int (length pre)"
  have p: "p \<le> int (length (line_body x))" using Cons.prems(5)[of 0] ps by simp
  have q: "qs ! j \<le> int (length (line_body (xs ! j)))" if "j < length xs" for j using Cons.prems(5)[of "Suc j"] ps that by simp
  have nth: "nth_int (lp @ ps) (int i) = Some p" using Cons.prems(4) ps by (simp add: nth_append)
  have bounds: "?l \<le> ?l + int (length (x # xs)) - 1" "?l + int (length (x # xs)) - 1 = int (length (pre @ [y])) + int (length xs) - 1" for y by simp_all
  show ?case
  proof (cases "p < 0")
    case True
    have "doc_lines (sci_text S d) = (pre @ [x]) @ xs @ post" "eol_lines eol ((pre @ [x]) @ xs @ post)" "length (lp @ [p]) = i + 1"
      "values_fit c neg len v (length (filter (\<lambda>p. 0 \<le> p) qs))"
      using Cons.prems ps True by simp_all
    from Cons.IH[OF this(1,2) ps(2) this(3) q this(4) Cons.prems(7,8)]
    obtain d' n where "insert_lines S R cancel c neg len (lp @ ps) (?l + 1) (?l + int (length (x # xs)) - 1) (i + 1) buf v d = Some d'"
      "n \<le> length xs" "cancel = None \<longrightarrow> n = length xs"
      "sci_text S d' = concat ((pre @ [x]) @ number_lines (num_text c neg len) (step_value c) (take n qs) xs v @ post)"
      by (auto simp: ps algebra_simps)
    then show ?thesis using True ps nth bounds
      by (subst insert_lines.simps) (auto intro!: exI[of _ d'] exI[of _ "Suc n"])
  next
    case False
    let ?t = "num_text c neg len v"
    let ?x = "take (nat p) x @ ?t @ drop (nat p) x" and ?pos = "sci_get_position_from_line S d ?l + p"
    let ?d = "sci_insert_text S d ?pos ?t"
    note fit = values_fit_Suc
    have vf: "values_fit c neg len v (Suc (length (filter (\<lambda>p. 0 \<le> p) qs)))" using Cons.prems(6) ps False by simp
    have put: "put_number c neg len buf v = Some (?t @ [NUL])"
      using put_number_eq[of c v neg len buf] fit[OF vf] c Cons.prems(7,8) by simp
    have tx: "sci_text S ?d = concat (pre @ ?x # xs @ post)"
      using insert_in_line[of d pre x "xs @ post" p ?t] Cons.prems(1) False p by simp
    have plain: "plain ?t" using num_text_plain[OF c] by (auto simp: plain_def)
    have eol': "eol_lines eol (pre @ ?x # xs @ post)"
      using eol_lines_splice(1)[OF eol, of pre x "xs @ post" "nat p" "nat p" ?t] Cons.prems(2) plain p False by auto
    then have lines: "doc_lines (sci_text S ?d) = (pre @ [?x]) @ xs @ post" using tx doc_lines_concat[OF eol eol'] by simp
    have step: "insert_lines S R cancel c neg len (lp @ ps) ?l (?l + int (length (x # xs)) - 1) i buf v d =
        (if cancelled cancel 1000 i then Some (SCI_GOTOPOS R ?d (?pos + int len))
         else insert_lines S R cancel c neg len (lp @ ps) (?l + 1) (?l + int (length (x # xs)) - 1) (i + 1) (?t @ [NUL]) (v + step_value c) ?d)"
      using False fit(4)[OF vf] read_cstr_num_text[OF c] by (subst insert_lines.simps) (simp add: nth put Let_def del: nth_int_nat)
    show ?thesis
    proof (cases "cancelled cancel 1000 i")
      case True
      then have "cancel \<noteq> None" by (auto simp: cancelled_def split: option.splits)
      then show ?thesis using step True tx ps False
        by (auto simp: goto_text intro!: exI[of _ "Suc 0"])
    next
      case nc: False
      have "length (lp @ [p]) = i + 1" "eol_lines eol ((pre @ [?x]) @ xs @ post)" using Cons.prems(4) eol' by simp_all
      from Cons.IH[OF lines this(2) ps(2) this(1) q fit(1)[OF vf], of "?t @ [NUL]"] length_num_text[OF fit(2)[OF vf]]
      obtain d' n where "insert_lines S R cancel c neg len (lp @ ps) (?l + 1) (?l + int (length (x # xs)) - 1) (i + 1) (?t @ [NUL]) (v + step_value c) ?d = Some d'"
        "n \<le> length xs" "cancel = None \<longrightarrow> n = length xs"
        "sci_text S d' = concat ((pre @ [?x]) @ number_lines (num_text c neg len) (step_value c) (take n qs) xs (v + step_value c) @ post)"
        by (auto simp: ps algebra_simps)
      then show ?thesis using False ps step nc
        by (intro exI[of _ d'] exI[of _ "Suc n"]) simp
    qed
  qed
qed
end

subsection \<open>Inserting the numbers is correct\<close>

definition shrunk :: "string \<Rightarrow> string \<Rightarrow> bool" where
  "shrunk x y \<longleftrightarrow> (\<exists>a b. a \<le> b \<and> b \<le> length (line_body x) \<and> y = take a x @ drop b x)"

lemma shrunk_same: "shrunk x x"
  unfolding shrunk_def by (rule exI[of _ 0], rule exI[of _ 0]) simp

lemma eol_lines_shrunk:
  assumes "eol_mode eol"
  shows "list_all2 shrunk xs ys \<Longrightarrow> eol_lines eol xs \<Longrightarrow> eol_lines eol ys"
proof (induction xs ys rule: list_all2_induct)
  case (Cons x xs y ys)
  then obtain a b where ab: "a \<le> b" "b \<le> length (line_body x)" "y = take a x @ drop b x" by (auto simp: shrunk_def)
  then have "eol_lines eol (y # xs)"
    using eol_lines_splice(1)[OF assms, of "[]" x xs a b "[]"] Cons.prems by (simp add: plain_def)
  moreover have "xs = [] \<longleftrightarrow> ys = []" using Cons.hyps(2) by auto
  ultimately show ?case using Cons.IH by (auto simp: eol_lines_Cons)
qed

lemma line_body_take:
  assumes "a \<le> length (line_body x)"
  shows "a \<le> length (line_body (take a x @ z))"
proof -
  have "take a x = take a (line_body x)"
    using assms by (metis append_eq_conv_conj append_take_drop_id line_body_def take_append takeWhile_dropWhile_id take_all diff_is_0_eq take0 append_Nil2)
  moreover have "\<forall>y\<in>set (line_body x). y \<noteq> CR \<and> y \<noteq> LF" by (auto simp: line_body_def dest: set_takeWhileD)
  ultimately have "\<forall>y\<in>set (take a x). y \<noteq> CR \<and> y \<noteq> LF" by (metis in_set_takeD)
  then have "line_body (take a x @ z) = take a x @ line_body z" by (simp add: line_body_def takeWhile_append2)
  moreover have "length (line_body x) \<le> length x" by (simp add: line_body_def length_takeWhile_le)
  ultimately show ?thesis using assms by simp
qed

context rectangular
begin

lemma cut_line_shrunk:
  assumes "is_rectangle R d" "0 \<le> l" "l < sci_get_line_count S d"
  shows "shrunk (doc_lines (sci_text S d) ! nat l) (cut_line S R d l)"
    "SCI_GETLINESELSTARTPOSITION R d l - sci_get_position_from_line S d l \<le> int (length (line_body (cut_line S R d l)))"
proof -
  let ?x = "doc_lines (sci_text S d) ! nat l" and ?s = "SCI_GETLINESELSTARTPOSITION R d l" and ?p = "sci_get_position_from_line S d l"
  have p: "0 \<le> ?p" using position[of l d] assms by (simp add: line_count)
  have "shrunk ?x (cut_line S R d l) \<and> ?s - ?p \<le> int (length (line_body (cut_line S R d l)))"
  proof (cases "?s = -1")
    case True
    then show ?thesis using p shrunk_same by (simp add: cut_line_def)
  next
    case False
    let ?a = "nat (?s - ?p)" and ?b = "nat (SCI_GETLINESELENDPOSITION R d l - ?p)"
    have c: "cut_line S R d l = take ?a ?x @ drop ?b ?x" using False by (simp add: cut_line_def Let_def)
    have ab: "?a \<le> ?b" "?b \<le> length (line_body ?x)" "?p \<le> ?s"
      using False line_selection[OF assms] line_end[of l d] assms by (auto simp: line_count)
    then have "?a \<le> length (line_body (cut_line S R d l))" unfolding c by (intro line_body_take) simp
    moreover have "shrunk ?x (cut_line S R d l)" unfolding shrunk_def c by (rule exI[of _ ?a], rule exI[of _ ?b]) (use ab in simp)
    ultimately show ?thesis using ab by simp
  qed
  then show "shrunk ?x (cut_line S R d l)" "?s - ?p \<le> int (length (line_body (cut_line S R d l)))" by simp_all
qed

lemma selected_range:
  assumes "s = SCI_LINEFROMPOSITION S d (sci_get_selection_start S d)" "e = SCI_LINEFROMPOSITION S d (sci_get_selection_end S d)"
  shows "0 \<le> s" "s \<le> e" "e < sci_get_line_count S d"
proof -
  have p: "0 \<le> sci_get_selection_start S d" "sci_get_selection_start S d \<le> sci_get_selection_end S d"
    "sci_get_selection_end S d \<le> int (length (sci_text S d))"
    using selection[of d] by (auto simp: sci_get_selection_start_def sci_get_selection_end_def)
  then show "0 \<le> s" "s \<le> e" "e < sci_get_line_count S d"
    using assms line_from[of "sci_get_selection_start S d" d] line_from[of "sci_get_selection_end S d" d] line_from_mono[OF p] by auto
qed

lemma replace_lines:
  assumes r: "is_rectangle R d" and s: "s = SCI_LINEFROMPOSITION S d (sci_get_selection_start S d)"
    and e: "e = SCI_LINEFROMPOSITION S d (sci_get_selection_end S d)"
  shows "map (cut_line S R d) [0..sci_get_line_count S d - 1] =
    take (nat s) (doc_lines (sci_text S d)) @ map (cut_line S R d) [s..e] @ drop (nat (e + 1)) (doc_lines (sci_text S d))"
proof -
  let ?n = "sci_get_line_count S d" and ?L = "doc_lines (sci_text S d)"
  note se = selected_range[OF s e]
  have same: "cut_line S R d l = ?L ! nat l" if "0 \<le> l" "l < ?n" "l < s \<or> e < l" for l
    using line_selection[OF r that(1,2)] that(3) s e by (auto simp: cut_line_def)
  have lo: "cut_line S R d (int i) = ?L ! i" if "i < nat s" for i using same[of "int i"] that se by (simp add: zless_nat_eq_int_zless)
  have hi: "cut_line S R d (e + 1 + int i) = ?L ! (nat (e + 1) + i)" if "i < nat (?n - 1 - e)" for i
    using same[of "e + 1 + int i"] that se by (simp add: nat_add_distrib zless_nat_eq_int_zless)
  have "map (cut_line S R d) [0..s - 1] = take (nat s) ?L"
    using se by (intro nth_equalityI) (simp_all add: line_count lo zless_nat_eq_int_zless)
  moreover have "map (cut_line S R d) [e + 1..?n - 1] = drop (nat (e + 1)) ?L"
  proof (rule nth_equalityI)
    show len: "length (map (cut_line S R d) [e + 1..?n - 1]) = length (drop (nat (e + 1)) ?L)"
      using se by (simp add: line_count nat_diff_distrib')
    show "map (cut_line S R d) [e + 1..?n - 1] ! i = drop (nat (e + 1)) ?L ! i"
      if "i < length (map (cut_line S R d) [e + 1..?n - 1])" for i
      using that hi[of i] se len by (simp add: zless_nat_eq_int_zless)
  qed
  moreover have "[0..?n - 1] = [0..s - 1] @ [s..e] @ [e + 1..?n - 1]"
    using se upto_split1[of 0 s "?n - 1"] upto_split2[of s e "?n - 1"] by simp
  ultimately show ?thesis by simp
qed

end

text \<open>The lines of the document when the first \<open>n\<close> lines of the selection have their numbers.\<close>

definition left_edge :: "'d rect \<Rightarrow> 'd \<Rightarrow> num_sel \<Rightarrow> int" where
  "left_edge R d v = min (SCI_POINTXFROMPOSITION R d (start_pos v)) (SCI_POINTXFROMPOSITION R d (end_pos v))"

definition line_numbers :: "num_sel \<Rightarrow> int list" where
  "line_numbers v = [start_line_no v..end_line_no v]"

definition numbered :: "'d sci \<Rightarrow> 'd rect \<Rightarrow> num_input \<Rightarrow> num_sel \<Rightarrow> 'd \<Rightarrow> nat \<Rightarrow> string list" where
  "numbered S R c v d n =
     (let L = doc_lines (sci_text S d); ls = line_numbers v; x = left_edge R d v in
      case num_length c (of_nat (length (filter (reaches S R d x) ls))) of
        None \<Rightarrow> []
      | Some (neg, len) \<Rightarrow>
          take (nat (start_line_no v)) L @
          number_lines (num_text c neg len) (step_value c) (take n (map (insert_column S R d x) ls)) (map (cut_line S R d) ls) (start_value c) @
          drop (nat (end_line_no v + 1)) L)"

lemma can_insert_True:
  assumes "can_insert_numbers S R (Some (d, ro)) v0 = (True, v)"
  shows "is_rectangle R d" "start_line_no v = SCI_LINEFROMPOSITION S d (sci_get_selection_start S d)"
    "end_line_no v = SCI_LINEFROMPOSITION S d (sci_get_selection_end S d)" "end_line_no v - start_line_no v < 250000"
  using assms by (auto simp: can_insert_numbers_def is_rectangle_def MAX_LINES_def Let_def split: if_splits)

lemma length_filter_map_le: "(\<And>x. P (f x) \<Longrightarrow> Q x) \<Longrightarrow> length (filter P (map f xs)) \<le> length (filter Q xs)"
  by (induction xs) (auto intro: le_SucI)

context rectangular
begin

lemma insert_numbers_spec:
  assumes c: "num_input_ok c" and eol: "eol_mode eol" "eol_lines eol (doc_lines (sci_text S d))"
    and v: "can_insert_numbers S R (Some (d, ro)) v0 = (True, v)"
  shows "\<exists>d' n. insert_numbers S R mem cancel c v d = Some d' \<and> n \<le> length (line_numbers v) \<and>
    (cancel = None \<longrightarrow> n = length (line_numbers v)) \<and>
    (cancel \<noteq> None \<and> d' = d \<or> sci_text S d' = concat (numbered S R c v d n))"
proof -
  let ?L = "doc_lines (sci_text S d)" and ?s = "start_line_no v" and ?e = "end_line_no v" and ?x = "left_edge R d v"
  note can = can_insert_True[OF v]
  note range = selected_range[OF can(2,3)]
  define cols where "cols = map (insert_column S R d ?x) [?s..?e]"
  define cuts where "cuts = map (cut_line S R d) [?s..?e]"
  define m where "m = length (filter (reaches S R d ?x) [?s..?e])"
  have x: "(if SCI_POINTXFROMPOSITION R d (end_pos v) < SCI_POINTXFROMPOSITION R d (start_pos v)
      then SCI_POINTXFROMPOSITION R d (end_pos v) else SCI_POINTXFROMPOSITION R d (start_pos v)) = ?x"
    by (simp add: left_edge_def min_def)
  obtain neg len where L: "num_length c (of_nat m) = Some (neg, len)" using num_length_eq[OF c refl] by blast
  have lens: "length cols = length cuts" "length cuts = nat (?e - ?s + 1)" by (simp_all add: cols_def cuts_def)
  have m: "m \<le> 250000" using can(4) length_filter_le[of "reaches S R d ?x" "[?s..?e]"] unfolding m_def by simp
  have nonneg: "length (filter (\<lambda>p. 0 \<le> p) cols) \<le> m"
    unfolding cols_def m_def by (rule length_filter_map_le) (simp add: insert_column_def split: if_splits)
  let ?d = "sci_replace_sel S d []"
  have "eol_lines eol (map (cut_line S R d) [0..sci_get_line_count S d - 1])"
  proof (rule eol_lines_shrunk[OF eol(1) _ eol(2)])
    show "list_all2 shrunk ?L (map (cut_line S R d) [0..sci_get_line_count S d - 1])"
      using cut_line_shrunk(1)[OF can(1), of "int i" for i] by (simp add: list_all2_conv_all_nth line_count)
  qed
  then have eol': "eol_lines eol (take (nat ?s) ?L @ cuts @ drop (nat (?e + 1)) ?L)"
    and tx: "sci_text S ?d = concat (take (nat ?s) ?L @ cuts @ drop (nat (?e + 1)) ?L)"
    using replace_lines[OF can(1-3)] replace_rectangle[OF can(1)] by (simp_all add: cuts_def)
  have col: "cols ! j \<le> int (length (line_body (cuts ! j)))" if "j < length cuts" for j
  proof -
    have "0 \<le> ?s + int j" "?s + int j < sci_get_line_count S d" using that range lens by auto
    from cut_line_shrunk(2)[OF can(1) this] that lens show ?thesis by (simp add: cols_def cuts_def insert_column_def)
  qed
  have pre: "int (length (take (nat ?s) ?L)) = ?s" "?s + int (length cuts) - 1 = ?e"
    using range lens by (simp_all add: line_count)
  have count_eq: "map (insert_column S R d ?x) (line_numbers v) = cols" "map (cut_line S R d) (line_numbers v) = cuts"
    "length (filter (reaches S R d ?x) (line_numbers v)) = m" "length (line_numbers v) = length cuts"
    by (simp_all add: line_numbers_def cols_def cuts_def m_def)
  have num: "numbered S R c v d n = take (nat ?s) ?L @ number_lines (num_text c neg len) (step_value c) (take n cols) cuts (start_value c) @
      drop (nat (?e + 1)) ?L" for n
    unfolding numbered_def Let_def count_eq L by simp
  show ?thesis
  proof (cases "count_lines S R d ?x (map_option fst cancel) ?s ?e 0 [] 0")
    case None
    then have "cancel \<noteq> None" using count_lines_None[of S R d ?x ?s ?e 0 "[]" 0] by (cases cancel) auto
    then show ?thesis using None by (intro exI[of _ d] exI[of _ 0]) (auto simp: insert_numbers_def Let_def x)
  next
    case (Some r)
    then obtain lp n where r: "r = (lp, n)" by (cases r)
    from count_lines_Some[OF Some[unfolded r]] have lp: "lp = cols" "n = of_nat m" by (simp_all add: cols_def m_def)
    have ins: "insert_numbers S R mem cancel c v d = insert_lines S R (map_option snd cancel) c neg len cols ?s ?e 0
        (map mem [0..<len] @ [NUL]) (start_value c) ?d"
      using Some L by (simp add: insert_numbers_def Let_def x r lp)
    have lines: "doc_lines (sci_text S ?d) = take (nat ?s) ?L @ cuts @ drop (nat (?e + 1)) ?L"
      using tx doc_lines_concat[OF eol(1) eol'] by simp
    from insert_lines_spec[OF _ _ eol(1) lines eol' lens(1) _ col values_fit_lines[OF c L nonneg m],
        of "[]" 0 "map mem [0..<len] @ [NUL]" "map_option snd cancel"] c
    show ?thesis unfolding ins num count_eq pre by (auto simp: num_input_ok_def)
  qed
qed

end

subsection \<open>A document with a rectangular selection\<close>

text \<open>All characters are eight pixels wide.\<close>

record rbuffer = buffer +
  b_mode :: int

definition b_line :: "rbuffer \<Rightarrow> int \<Rightarrow> int" where
  "b_line b p = SCI_LINEFROMPOSITION text_sci b p"

definition b_column :: "rbuffer \<Rightarrow> int \<Rightarrow> int" where
  "b_column b p = p - line_start (b_text b) (b_line b p)"

definition b_edge :: "(int \<Rightarrow> int \<Rightarrow> int) \<Rightarrow> rbuffer \<Rightarrow> int \<Rightarrow> int" where
  "b_edge f b l =
     (if b_line b (sci_get_selection_start text_sci b) \<le> l \<and> l \<le> b_line b (sci_get_selection_end text_sci b)
      then line_start (b_text b) l + min (f (b_column b (sci_anchor text_sci b)) (b_column b (sci_caret text_sci b)))
        (int (length (line_body (text_at (b_text b) l))))
      else -1)"

definition rect_fns :: "rbuffer rect" where
  "rect_fns = \<lparr>sci_get_selection_mode = b_mode, SCI_POINTXFROMPOSITION = (\<lambda>b p. 8 * b_column b p),
     SCI_GETLINESELSTARTPOSITION = b_edge min, SCI_GETLINESELENDPOSITION = b_edge max,
     SCI_GOTOPOS = (\<lambda>b p. b\<lparr>b_anchor := nat p, b_caret := nat p\<rparr>)\<rparr>"

definition rect_sci :: "rbuffer sci" where
  "rect_sci = text_sci\<lparr>sci_replace_sel := (\<lambda>b s.
     if is_rectangle rect_fns b \<and> s = []
     then b\<lparr>b_text := concat (map (cut_line text_sci rect_fns b) [0..sci_get_line_count text_sci b - 1])\<rparr>
     else sci_replace_sel text_sci b s)\<rparr>"

lemma rect_sci_fields:
  "sci_text rect_sci = b_text" "sci_get_line_count rect_sci = sci_get_line_count text_sci"
  "sci_get_position_from_line rect_sci = sci_get_position_from_line text_sci"
  "sci_get_line_end_position rect_sci = sci_get_line_end_position text_sci"
  "SCI_LINEFROMPOSITION rect_sci = SCI_LINEFROMPOSITION text_sci"
  "sci_get_selection_start rect_sci = sci_get_selection_start text_sci"
  "sci_get_selection_end rect_sci = sci_get_selection_end text_sci"
  "cut_line rect_sci R = cut_line text_sci R"
  unfolding rect_sci_def replace_fields sci_get_selection_start_def[abs_def] sci_get_selection_end_def[abs_def] cut_line_def[abs_def]
  by (simp_all add: text_sci_def)

interpretation rect_buffer: rectangular rect_sci rect_fns
proof (intro rectangular.intro rectangular_axioms.intro)
  show "editor rect_sci" unfolding rect_sci_def by (rule text_buffer.editor_replace)
  fix d :: rbuffer and l p :: int
  show "is_rectangle rect_fns d \<Longrightarrow>
      sci_text rect_sci (sci_replace_sel rect_sci d []) = concat (map (cut_line rect_sci rect_fns d) [0..sci_get_line_count rect_sci d - 1])"
    unfolding rect_sci_fields by (simp add: rect_sci_def)
  show "sci_text rect_sci (SCI_GOTOPOS rect_fns d p) = sci_text rect_sci d" by (simp add: rect_sci_fields rect_fns_def)
  assume l: "0 \<le> l" "l < sci_get_line_count rect_sci d"
  have col: "0 \<le> b_column d p" if "0 \<le> p" "p \<le> int (length (b_text d))" for p
    using text_buffer.line_from[of p d] that unfolding b_column_def b_line_def by (simp add: text_sci_def)
  have "0 \<le> b_column d (sci_anchor text_sci d)" "0 \<le> b_column d (sci_caret text_sci d)"
    using text_buffer.selection[of d] by (intro col; simp add: text_sci_def)+
  moreover have "line_start (b_text d) l \<noteq> -1" "sci_get_position_from_line rect_sci d l = line_start (b_text d) l"
    "sci_get_line_end_position rect_sci d l = line_start (b_text d) l + int (length (line_body (text_at (b_text d) l)))"
    using l by (auto simp: rect_sci_fields text_sci_def line_start_def)
  ultimately show "SCI_GETLINESELSTARTPOSITION rect_fns d l = -1 \<or>
      sci_get_position_from_line rect_sci d l \<le> SCI_GETLINESELSTARTPOSITION rect_fns d l \<and>
      SCI_GETLINESELSTARTPOSITION rect_fns d l \<le> SCI_GETLINESELENDPOSITION rect_fns d l \<and>
      SCI_GETLINESELENDPOSITION rect_fns d l \<le> sci_get_line_end_position rect_sci d l \<and>
      SCI_LINEFROMPOSITION rect_sci d (sci_get_selection_start rect_sci d) \<le> l \<and>
      l \<le> SCI_LINEFROMPOSITION rect_sci d (sci_get_selection_end rect_sci d)"
    by (auto simp: rect_fns_def b_edge_def b_line_def rect_sci_fields)
qed

subsection \<open>Properties\<close>

text \<open>
  C12: After \<open>insert_numbers\<close> every line of the rectangular selection that is long enough has lost its selected part and has in its place
  the number of the line, each number the one before and the step, all of the same length; the other lines are as they were.
  When the user cancels, the lines up to some line have their numbers, or the document is as it was.
\<close>

theorem insert_numbers_correct:
  assumes "rectangular S R" and "num_input_ok c" and "eol_mode eol" and "eol_lines eol (doc_lines (sci_text S d))"
    and "can_insert_numbers S R (Some (d, ro)) v0 = (True, v)"
  shows "\<exists>d' n. insert_numbers S R mem cancel c v d = Some d' \<and> n \<le> length (line_numbers v) \<and>
    (cancel = None \<longrightarrow> n = length (line_numbers v)) \<and>
    (cancel \<noteq> None \<and> d' = d \<or> sci_text S d' = concat (numbered S R c v d n))"
  by (rule rectangular.insert_numbers_spec[OF assms])

definition demo_rect :: rbuffer where
  "demo_rect = \<lparr>b_text = ''abc'' @ [LF] @ ''d'' @ [LF] @ ''efg'' @ [LF], b_anchor = 2, b_caret = 7, b_mode = 1\<rparr>"

definition demo_input :: num_input where
  "demo_input = \<lparr>start_value = 9, step_value = 2, base_value = 10, lower_case = False, base_prefix = False, pad_zeros = False\<rparr>"

definition demo_sel :: num_sel where
  "demo_sel = \<lparr>start_pos = 2, start_line_no = 0, end_pos = 7, end_line_no = 2\<rparr>"

lemma demo_can: "can_insert_numbers rect_sci rect_fns (Some (demo_rect, False)) \<lparr>start_pos = 0, start_line_no = 0, end_pos = 0, end_line_no = 0\<rparr> =
    (True, demo_sel)"
  by code_simp

theorem insert_numbers_correct_witness:
  "\<exists>d'. insert_numbers rect_sci rect_fns (\<lambda>_. CHR ''?'') None demo_input demo_sel demo_rect = Some d' \<and>
    b_text d' = ''a 9c'' @ [LF] @ ''d11'' @ [LF] @ ''e13g'' @ [LF]"
proof -
  have n: "concat (numbered rect_sci rect_fns demo_input demo_sel demo_rect 3) = ''a 9c'' @ [LF] @ ''d11'' @ [LF] @ ''e13g'' @ [LF]"
    by code_simp
  have "eol_lines [LF] (doc_lines (sci_text rect_sci demo_rect))" by (simp add: rect_sci_fields demo_rect_def eol_lines_def plain_def)
  moreover have "num_input_ok demo_input" "length (line_numbers demo_sel) = 3" by (simp_all add: num_input_ok_def num_range_def demo_input_def line_numbers_def demo_sel_def)
  ultimately show ?thesis
    using insert_numbers_correct[OF rect_buffer.rectangular_axioms _ _ _ demo_can, of demo_input "[LF]" "\<lambda>_. CHR ''?''" None] n
    by (auto simp: eol_mode_def rect_sci_fields)
qed

text \<open>A spin button only has values in its range.\<close>

definition spin_range :: "num_form \<Rightarrow> bool" where
  "spin_range f \<longleftrightarrow> -2147483648 \<le> f_start f \<and> f_start f \<le> 2147483647 \<and> -2147483648 \<le> f_step f \<and> f_step f \<le> 2147483647"

lemma c_trunc_range: "-2147483648 \<le> x \<Longrightarrow> x \<le> 2147483647 \<Longrightarrow> num_range (c_trunc x)"
  by (auto simp: num_range_def c_trunc_def floor_le_iff le_floor_iff ceiling_le_iff le_ceiling_iff)

lemma dialog_run_ok:
  "dialog_run evs c = (c', True) \<Longrightarrow> \<forall>f. Ok_clicked f \<in> set evs \<longrightarrow> spin_range f \<Longrightarrow> num_input_ok c'"
proof (induction evs c rule: dialog_run.induct)
  case (3 d evs c)
  obtain c1 bad where ok: "on_insert_numbers_ok_clicked d = (c1, bad)" by fastforce
  have r: "spin_range d" using 3(3) by simp
  show ?case
  proof (cases bad)
    case None
    then have "c' = c1" using 3(2) ok by simp
    then show ?thesis using ok None r c_trunc_range
      by (auto simp: on_insert_numbers_ok_clicked_def num_input_ok_def spin_range_def Let_def split: if_splits)
  next
    case (Some b)
    then show ?thesis using 3 ok by auto
  qed
qed auto

text \<open>
  C16: Whatever the user enters in the dialog and whatever document is current when it is closed, the command ends without an overflow
  and without a write outside the buffer. Numbers are inserted only into a document that can be written, with input the dialog accepted.
\<close>

theorem insert_numbers_safe:
  assumes "rectangular S R" and "eol_mode eol" and "\<forall>d ro. doc = Some (d, ro) \<longrightarrow> eol_lines eol (doc_lines (sci_text S d))"
    and "\<forall>f. Ok_clicked f \<in> set evs \<longrightarrow> spin_range f"
  shows "\<exists>c v r. on_insert_numbers_activate S R mem cancel evs doc vars = Some ((c, v), r) \<and>
    (\<forall>d'. r = Inserted d' \<longrightarrow> num_input_ok c \<and> (\<exists>d. doc = Some (d, False)))"
proof -
  obtain c0 v0 where vars: "vars = (c0, v0)" by fastforce
  obtain c acc where run: "dialog_run evs c0 = (c, acc)" by fastforce
  obtain can v where can: "can_insert_numbers S R doc v0 = (can, v)" by fastforce
  show ?thesis
  proof (cases "acc \<and> can")
    case False
    then show ?thesis by (auto simp: on_insert_numbers_activate_def vars run can)
  next
    case True
    then obtain d where d: "doc = Some (d, False)"
      using can by (auto simp: can_insert_numbers_def split: option.splits if_splits)
    have c: "num_input_ok c" using dialog_run_ok[OF _ assms(4)] run True by simp
    have yes: "can_insert_numbers S R (Some (d, False)) v0 = (True, v)" using can d True by simp
    note spec = rectangular.insert_numbers_spec[OF assms(1) c assms(2) assms(3)[rule_format, OF d] yes]
    obtain d' where "insert_numbers S R mem (if end_line_no v - start_line_no v < 1000 then None else Some cancel) c v d = Some d'"
      using spec[of mem "if end_line_no v - start_line_no v < 1000 then None else Some cancel"] by (elim exE conjE)
    then show ?thesis using True c by (simp add: on_insert_numbers_activate_def vars run yes d)
  qed
qed

definition demo_form :: "int \<Rightarrow> string \<Rightarrow> num_form" where
  "demo_form step base = \<lparr>f_start = 9, f_step = real_of_int step, f_base = base, f_lower = False, f_prefix = False, f_zero = False\<rparr>"

theorem insert_numbers_safe_witness:
  "\<exists>c v r. on_insert_numbers_activate rect_sci rect_fns (\<lambda>_. CHR ''?'') (\<lambda>_. False, \<lambda>_. True)
      [Ok_clicked (demo_form 2 ''1''), Ok_clicked (demo_form 0 ''10''), Ok_clicked (demo_form 2 ''10'')] (Some (demo_rect, False))
      (demo_input, demo_sel) = Some ((c, v), r) \<and> (\<forall>d'. r = Inserted d' \<longrightarrow> num_input_ok c)"
proof -
  have "eol_lines [LF] (doc_lines (sci_text rect_sci demo_rect))" by (simp add: rect_sci_fields demo_rect_def eol_lines_def plain_def)
  then show ?thesis
    using insert_numbers_safe[OF rect_buffer.rectangular_axioms, of "[LF]" "Some (demo_rect, False)"
        "[Ok_clicked (demo_form 2 ''1''), Ok_clicked (demo_form 0 ''10''), Ok_clicked (demo_form 2 ''10'')]" "\<lambda>_. CHR ''?''" "(\<lambda>_. False, \<lambda>_. True)" "(demo_input, demo_sel)"]
    by (auto simp: eol_mode_def spin_range_def demo_form_def)
qed

end
